(* ===== verification/Prelude.thy ===== *)
theory Prelude
  imports Main "HOL-Library.Word"
begin

text \<open>
  Shared vocabulary of the development: the fixed-width integer conversions of C,
  C's truncating division, the exceptions the modelled code raises, and the list lemmas
  (ring-shaped views of an array, counting, runs) the components share.

  Unsigned C integers are \<^typ>\<open>nat\<close> with the truncation to the width written out
  (\<open>u8\<close>, \<open>u16\<close>, \<open>u32\<close>, \<open>u64\<close>) wherever the code stores or computes a value of that
  width; signed ones are \<^typ>\<open>int\<close> with \<open>s64\<close>.  Bytes on which the code works bitwise
  are \<open>8 word\<close>.
\<close>

section \<open>Fixed-width integers\<close>

definition u8 :: "nat \<Rightarrow> nat" where
  "u8 n = n mod 2 ^ 8"

definition u16 :: "nat \<Rightarrow> nat" where
  "u16 n = n mod 2 ^ 16"

definition u32 :: "nat \<Rightarrow> nat" where
  "u32 n = n mod 2 ^ 32"

definition u64 :: "nat \<Rightarrow> nat" where
  "u64 n = n mod 2 ^ 64"

text \<open>Conversion of a mathematical integer to \<open>int64_t\<close> and to \<open>uint64_t\<close>.\<close>

definition s64 :: "int \<Rightarrow> int" where
  "s64 i = (i + 2 ^ 63) mod 2 ^ 64 - 2 ^ 63"

definition to_u64 :: "int \<Rightarrow> nat" where
  "to_u64 i = nat (i mod 2 ^ 64)"

definition to_u16 :: "int \<Rightarrow> nat" where
  "to_u16 i = nat (i mod 2 ^ 16)"

named_theorems width_defs \<open>the definitions of the fixed-width conversions\<close>

lemmas [width_defs] = u8_def u16_def u32_def u64_def s64_def to_u64_def to_u16_def

lemma u8_id [simp]: "n < 256 \<Longrightarrow> u8 n = n"
  by (simp add: u8_def)

lemma u16_id [simp]: "n < 65536 \<Longrightarrow> u16 n = n"
  by (simp add: u16_def)

lemma u32_id [simp]: "n < 4294967296 \<Longrightarrow> u32 n = n"
  by (simp add: u32_def)

lemma u64_id [simp]: "n < 18446744073709551616 \<Longrightarrow> u64 n = n"
  by (simp add: u64_def)

lemma u8_less [simp]: "u8 n < 256"
  by (simp add: u8_def)

lemma u16_less [simp]: "u16 n < 65536"
  by (simp add: u16_def)

lemma u32_less [simp]: "u32 n < 4294967296"
  by (simp add: u32_def)

lemma u64_less [simp]: "u64 n < 18446744073709551616"
  by (simp add: u64_def)

lemma s64_id [simp]: "- (2 ^ 63) \<le> i \<Longrightarrow> i < 2 ^ 63 \<Longrightarrow> s64 i = i"
  by (simp add: s64_def)

lemma s64_range: "- (2 ^ 63) \<le> s64 i \<and> s64 i < 2 ^ 63"
proof -
  have "0 \<le> (i + 2 ^ 63) mod 2 ^ 64" and "(i + 2 ^ 63) mod 2 ^ 64 < (2 ^ 64 :: int)"
    by simp_all
  then show ?thesis by (simp add: s64_def)
qed

section \<open>Masks of the form \<open>2 ^ n - 1\<close>\<close>

lemma nat_and_mask:
  fixes n :: nat
  shows "and n 3 = n mod 4" and "and n 7 = n mod 8" and "and n 31 = n mod 32"
    and "and n 255 = n mod 256" and "and n 65535 = n mod 65536"
    and "and n 4294967295 = n mod 4294967296"
proof -
  have m: "and n (mask k) = n mod 2 ^ k" for k
    by (simp flip: take_bit_eq_mask add: take_bit_eq_mod)
  show "and n 3 = n mod 4" using m [of 2] by (simp add: mask_eq_exp_minus_1)
  show "and n 7 = n mod 8" using m [of 3] by (simp add: mask_eq_exp_minus_1)
  show "and n 31 = n mod 32" using m [of 5] by (simp add: mask_eq_exp_minus_1)
  show "and n 255 = n mod 256" using m [of 8] by (simp add: mask_eq_exp_minus_1)
  show "and n 65535 = n mod 65536" using m [of 16] by (simp add: mask_eq_exp_minus_1)
  show "and n 4294967295 = n mod 4294967296" using m [of 32] by (simp add: mask_eq_exp_minus_1)
qed

section \<open>C's division truncates towards zero\<close>

definition c_div :: "int \<Rightarrow> int \<Rightarrow> int" where
  "c_div a b = sgn a * sgn b * (\<bar>a\<bar> div \<bar>b\<bar>)"

definition c_mod :: "int \<Rightarrow> int \<Rightarrow> int" where
  "c_mod a b = a - c_div a b * b"

lemma c_div_nonneg: "0 \<le> a \<Longrightarrow> 0 \<le> b \<Longrightarrow> c_div a b = a div b"
  by (cases "a = 0"; cases "b = 0") (simp_all add: c_div_def)

lemma c_mod_nonneg: "0 \<le> a \<Longrightarrow> 0 \<le> b \<Longrightarrow> c_mod a b = a mod b"
  by (simp add: c_mod_def c_div_nonneg minus_div_mult_eq_mod)

lemma c_mod_small: "m < n \<Longrightarrow> c_mod (int m) (int n) = int m"
  by (simp add: c_mod_nonneg)

lemma c_mod_once_around: "m < n \<Longrightarrow> c_mod (int m + int n) (int n) = int m"
  by (simp add: c_mod_nonneg)

section \<open>Exceptions raised by the modelled code\<close>

datatype mp_exn =
    TypeError | ValueError | IndexError | KeyError | OverflowError | ZeroDivisionError
  | MemoryError | RuntimeError | StopIteration | UnicodeError | OSError | SyntaxError

section \<open>Ring-shaped views of an array\<close>

text \<open>
  \<open>ring xs i n\<close> is the list of the \<open>n\<close> entries of the array \<open>xs\<close> met when it is walked
  from index \<open>i\<close>, going back to index 0 after the last one.
\<close>

definition ring :: "'a list \<Rightarrow> nat \<Rightarrow> nat \<Rightarrow> 'a list" where
  "ring xs i n = map (\<lambda>k. xs ! ((i + k) mod length xs)) [0..<n]"

lemma length_ring [simp]: "length (ring xs i n) = n"
  by (simp add: ring_def)

lemma ring_0 [simp]: "ring xs i 0 = []"
  by (simp add: ring_def)

lemma ring_mod: "ring xs (i mod length xs) n = ring xs i n"
  by (simp add: ring_def mod_add_left_eq)

lemma ring_Suc: "ring xs i (Suc n) = xs ! (i mod length xs) # ring xs (Suc i) n"
  by (simp add: ring_def upt_rec [of 0 "Suc n"] map_Suc_upt [symmetric] del: upt_Suc)

lemma ring_Suc_snoc: "ring xs i (Suc n) = ring xs i n @ [xs ! ((i + n) mod length xs)]"
  by (simp add: ring_def)

lemma mod_shift_less:
  fixes m n l :: nat
  assumes "m < n" and "n < l"
  shows "(i + m) mod l \<noteq> (i + n) mod l"
proof
  assume "(i + m) mod l = (i + n) mod l"
  then have "l dvd (i + n) - (i + m)"
    using assms by (subst mod_eq_dvd_iff_nat [symmetric]) simp_all
  then have "l dvd n - m" by simp
  with assms show False by (auto dest: dvd_imp_le)
qed

lemma mod_shift_inject:
  fixes m n l :: nat
  assumes "m < l" and "n < l" and "(i + m) mod l = (i + n) mod l"
  shows "m = n"
  using assms mod_shift_less [of m n l i] mod_shift_less [of n m l i]
  by (cases m n rule: linorder_cases) auto

lemma ring_update:
  assumes "n < length xs"
  shows "ring (xs[(i + n) mod length xs := v]) i (Suc n) = ring xs i n @ [v]"
proof -
  let ?l = "length xs" and ?j = "(i + n) mod length xs"
  have j: "?j < ?l" using assms by (intro mod_less_divisor) linarith
  have "ring (xs[?j := v]) i n = ring xs i n"
  proof (unfold ring_def, rule map_cong [OF refl])
    fix k assume "k \<in> set [0..<n]"
    with assms have "(i + k) mod ?l \<noteq> ?j"
      using mod_shift_inject [of k ?l n i] by auto
    then show "xs[?j := v] ! ((i + k) mod length (xs[?j := v])) = xs ! ((i + k) mod ?l)"
      by simp
  qed
  with j show ?thesis by (simp add: ring_Suc_snoc)
qed

section \<open>Bounded first-in first-out queues\<close>

text \<open>
  The contract the ring-shaped queues of the runtime share: \<open>put\<close> fails exactly when the
  queue holds \<open>capacity\<close> elements and appends otherwise, \<open>get\<close> fails exactly when it is
  empty and removes the oldest element otherwise.
\<close>

locale bounded_fifo =
  fixes inv :: "'s \<Rightarrow> bool"
    and valid :: "'a \<Rightarrow> bool"
    and contents :: "'s \<Rightarrow> 'a list"
    and capacity :: "'s \<Rightarrow> nat"
    and put :: "'s \<Rightarrow> 'a \<Rightarrow> 's option"
    and get :: "'s \<Rightarrow> ('a \<times> 's) option"
  assumes bounded: "inv s \<Longrightarrow> length (contents s) \<le> capacity s"
    and put_full: "inv s \<Longrightarrow> length (contents s) = capacity s \<Longrightarrow> put s x = None"
    and put_room: "inv s \<Longrightarrow> valid x \<Longrightarrow> length (contents s) < capacity s \<Longrightarrow>
      \<exists>t. put s x = Some t \<and> inv t \<and> contents t = contents s @ [x] \<and> capacity t = capacity s"
    and get_empty: "inv s \<Longrightarrow> contents s = [] \<Longrightarrow> get s = None"
    and get_cons: "inv s \<Longrightarrow> contents s = x # xs \<Longrightarrow>
      \<exists>t. get s = Some (x, t) \<and> inv t \<and> contents t = xs \<and> capacity t = capacity s"
begin

fun put_all :: "'s \<Rightarrow> 'a list \<Rightarrow> 's option" where
  "put_all s [] = Some s"
| "put_all s (x # xs) = (case put s x of None \<Rightarrow> None | Some t \<Rightarrow> put_all t xs)"

fun get_n :: "nat \<Rightarrow> 's \<Rightarrow> ('a list \<times> 's) option" where
  "get_n 0 s = Some ([], s)"
| "get_n (Suc n) s =
     (case get s of None \<Rightarrow> None
      | Some (x, t) \<Rightarrow> (case get_n n t of None \<Rightarrow> None | Some (xs, u) \<Rightarrow> Some (x # xs, u)))"

lemma put_all_room:
  assumes "inv s" and "list_all valid xs" and "length (contents s) + length xs \<le> capacity s"
  shows "\<exists>t. put_all s xs = Some t \<and> inv t \<and> contents t = contents s @ xs \<and> capacity t = capacity s"
  using assms
proof (induction xs arbitrary: s)
  case Nil
  then show ?case by simp
next
  case (Cons x xs)
  then obtain t where t: "put s x = Some t" "inv t" "contents t = contents s @ [x]"
      "capacity t = capacity s"
    using put_room [of s x] by auto
  with Cons.prems Cons.IH [of t] show ?case by auto
qed

lemma get_n_contents:
  assumes "inv s" and "n \<le> length (contents s)"
  shows "\<exists>t. get_n n s = Some (take n (contents s), t) \<and> inv t \<and>
           contents t = drop n (contents s) \<and> capacity t = capacity s"
  using assms
proof (induction n arbitrary: s)
  case 0
  then show ?case by simp
next
  case (Suc n)
  then obtain x xs where c: "contents s = x # xs" by (cases "contents s") auto
  with Suc.prems obtain t where t: "get s = Some (x, t)" "inv t" "contents t = xs"
      "capacity t = capacity s"
    using get_cons by blast
  with Suc.IH [of t] Suc.prems c show ?case by auto
qed

text \<open>Elements leave the queue in the order in which they entered it.\<close>

lemma first_in_first_out:
  assumes "inv s" and "contents s = []" and "list_all valid xs" and "length xs \<le> capacity s"
  shows "\<exists>t u. put_all s xs = Some t \<and> get_n (length xs) t = Some (xs, u) \<and> contents u = []"
proof -
  obtain t where t: "put_all s xs = Some t" "inv t" "contents t = xs"
    using put_all_room [OF assms(1,3)] assms(2,4) by auto
  with get_n_contents [of t "length xs"] show ?thesis by auto
qed

end

end
