(* ===== verification/Ringbuf.thy ===== *)
theory Ringbuf
  imports Prelude
begin

text \<open>
  The byte ring buffer of \<^verbatim>\<open>py/ringbuf.h\<close> and \<^verbatim>\<open>py/ringbuf.c\<close>.  \<open>iget\<close>, \<open>iput\<close> and
  \<open>size\<close> are \<open>uint16_t\<close> in the source: every store into one of them truncates with
  \<^const>\<open>u16\<close>.  The \<open>uint32_t\<close> temporaries of the code cannot overflow and are plain
  \<^typ>\<open>nat\<close>.  Functions that return \<open>int\<close> keep that result, \<open>-1\<close> included.
\<close>

section \<open>The buffer and its operations\<close>

record ringbuf =
  rb_buf :: "nat list"
  rb_size :: nat
  rb_iget :: nat
  rb_iput :: nat

definition ringbuf_alloc :: "nat \<Rightarrow> ringbuf" where
  "ringbuf_alloc sz = \<lparr>rb_buf = replicate sz 0, rb_size = u16 sz, rb_iget = 0, rb_iput = 0\<rparr>"

definition ringbuf_get :: "ringbuf \<Rightarrow> int \<times> ringbuf" where
  "ringbuf_get r =
     (if rb_iget r = rb_iput r then (-1, r)
      else
        let v = rb_buf r ! rb_iget r;
            iget = u16 (rb_iget r + 1);
            iget = (if iget \<ge> rb_size r then 0 else iget)
        in (int v, r\<lparr>rb_iget := iget\<rparr>))"

definition ringbuf_peek :: "ringbuf \<Rightarrow> int" where
  "ringbuf_peek r =
     (if rb_iget r = rb_iput r then -1 else int (rb_buf r ! rb_iget r))"

definition ringbuf_put :: "ringbuf \<Rightarrow> nat \<Rightarrow> int \<times> ringbuf" where
  "ringbuf_put r v =
     (let iput_new = rb_iput r + 1;
          iput_new = (if iput_new \<ge> rb_size r then 0 else iput_new)
      in if iput_new = rb_iget r then (-1, r)
         else (0, r\<lparr>rb_buf := (rb_buf r)[rb_iput r := u8 v], rb_iput := u16 iput_new\<rparr>))"

definition ringbuf_free :: "ringbuf \<Rightarrow> nat" where
  "ringbuf_free r =
     nat (c_mod (int (rb_size r) + int (rb_iget r) - int (rb_iput r) - 1) (int (rb_size r)))"

definition ringbuf_avail :: "ringbuf \<Rightarrow> nat" where
  "ringbuf_avail r =
     nat (c_mod (int (rb_size r) + int (rb_iput r) - int (rb_iget r)) (int (rb_size r)))"

definition ringbuf_peek16 :: "ringbuf \<Rightarrow> int" where
  "ringbuf_peek16 r =
     (if rb_iget r = rb_iput r then -1
      else
        let iget_a = rb_iget r + 1;
            iget_a = (if iget_a = rb_size r then 0 else iget_a)
        in if iget_a = rb_iput r then -1
           else int (rb_buf r ! rb_iget r * 256 + rb_buf r ! iget_a))"

definition ringbuf_get16 :: "ringbuf \<Rightarrow> int \<times> ringbuf" where
  "ringbuf_get16 r =
     (let v = ringbuf_peek16 r
      in if v = -1 then (v, r)
         else
           let iget = u16 (rb_iget r + 2);
               iget = (if iget \<ge> rb_size r then iget - rb_size r else iget)
           in (v, r\<lparr>rb_iget := iget\<rparr>))"

definition ringbuf_put16 :: "ringbuf \<Rightarrow> nat \<Rightarrow> int \<times> ringbuf" where
  "ringbuf_put16 r v =
     (let iput_a = rb_iput r + 1;
          iput_a = (if iput_a = rb_size r then 0 else iput_a)
      in if iput_a = rb_iget r then (-1, r)
         else
           let iput_b = iput_a + 1;
               iput_b = (if iput_b = rb_size r then 0 else iput_b)
           in if iput_b = rb_iget r then (-1, r)
              else (0, r\<lparr>rb_buf := (rb_buf r)[rb_iput r := u16 v div 256 mod 256,
                                              iput_a := u16 v mod 256],
                         rb_iput := u16 iput_b\<rparr>))"

section \<open>Invariant and contents\<close>

definition ringbuf_ok :: "ringbuf \<Rightarrow> bool" where
  "ringbuf_ok r \<longleftrightarrow>
     length (rb_buf r) = rb_size r \<and> 0 < rb_size r \<and> rb_size r < 65536 \<and>
     rb_iget r < rb_size r \<and> rb_iput r < rb_size r"

definition ringbuf_list :: "ringbuf \<Rightarrow> nat list" where
  "ringbuf_list r = ring (rb_buf r) (rb_iget r) (ringbuf_avail r)"

lemma ringbuf_avail_eq:
  assumes "ringbuf_ok r"
  shows "ringbuf_avail r =
    (if rb_iget r \<le> rb_iput r then rb_iput r - rb_iget r
     else rb_size r + rb_iput r - rb_iget r)"
proof (cases "rb_iget r \<le> rb_iput r")
  case True
  then have eq: "int (rb_size r) + int (rb_iput r) - int (rb_iget r) =
      int (rb_iput r - rb_iget r) + int (rb_size r)"
    by simp
  have "rb_iput r - rb_iget r < rb_size r" using assms by (auto simp: ringbuf_ok_def)
  with True show ?thesis
    unfolding ringbuf_avail_def eq by (simp only: c_mod_once_around if_True nat_int)
next
  case False
  with assms have eq: "int (rb_size r) + int (rb_iput r) - int (rb_iget r) =
      int (rb_size r + rb_iput r - rb_iget r)"
    by (simp add: ringbuf_ok_def)
  have "rb_size r + rb_iput r - rb_iget r < rb_size r"
    using assms False by (auto simp: ringbuf_ok_def)
  with False show ?thesis
    unfolding ringbuf_avail_def eq by (simp only: c_mod_small if_False nat_int)
qed

lemma ringbuf_free_eq:
  assumes "ringbuf_ok r"
  shows "ringbuf_free r = rb_size r - 1 - ringbuf_avail r"
proof (cases "rb_iget r \<le> rb_iput r")
  case True
  with assms have eq: "int (rb_size r) + int (rb_iget r) - int (rb_iput r) - 1 =
      int (rb_size r - 1 - (rb_iput r - rb_iget r))"
    by (simp add: ringbuf_ok_def)
  have "rb_size r - 1 - (rb_iput r - rb_iget r) < rb_size r"
    using assms by (auto simp: ringbuf_ok_def)
  with True assms show ?thesis
    unfolding ringbuf_free_def eq by (simp only: c_mod_small ringbuf_avail_eq if_True nat_int)
next
  case False
  then have eq: "int (rb_size r) + int (rb_iget r) - int (rb_iput r) - 1 =
      int (rb_iget r - rb_iput r - 1) + int (rb_size r)"
    by simp
  have "rb_iget r - rb_iput r - 1 < rb_size r" using assms by (auto simp: ringbuf_ok_def)
  with False assms show ?thesis
    unfolding ringbuf_free_def eq
    by (simp only: c_mod_once_around ringbuf_avail_eq if_False nat_int)
qed

lemma ringbuf_avail_less: "ringbuf_ok r \<Longrightarrow> ringbuf_avail r < rb_size r"
  by (auto simp: ringbuf_avail_eq ringbuf_ok_def)

lemma rb_iput_eq:
  "ringbuf_ok r \<Longrightarrow> rb_iput r = (rb_iget r + ringbuf_avail r) mod length (rb_buf r)"
  by (auto simp: ringbuf_avail_eq ringbuf_ok_def)

lemma length_ringbuf_list [simp]: "length (ringbuf_list r) = ringbuf_avail r"
  by (simp add: ringbuf_list_def)

lemma ringbuf_list_empty: "ringbuf_ok r \<Longrightarrow> ringbuf_list r = [] \<longleftrightarrow> rb_iget r = rb_iput r"
  by (auto simp flip: length_0_conv simp: ringbuf_avail_eq ringbuf_ok_def)

lemma ringbuf_alloc:
  assumes "0 < n" and "n < 65536"
  shows "ringbuf_ok (ringbuf_alloc n)" and "ringbuf_list (ringbuf_alloc n) = []"
    and "rb_size (ringbuf_alloc n) = n" and "rb_iget (ringbuf_alloc n) = 0"
proof -
  show ok: "ringbuf_ok (ringbuf_alloc n)"
    using assms by (simp add: ringbuf_ok_def ringbuf_alloc_def)
  show "ringbuf_list (ringbuf_alloc n) = []"
    by (subst ringbuf_list_empty [OF ok]) (simp add: ringbuf_alloc_def)
qed (use assms in \<open>simp_all add: ringbuf_alloc_def\<close>)

section \<open>Single-byte operations\<close>

lemma ringbuf_put_ok: "ringbuf_ok r \<Longrightarrow> ringbuf_ok (snd (ringbuf_put r v))"
  by (auto simp: ringbuf_put_def ringbuf_ok_def Let_def)

lemma ringbuf_get_ok: "ringbuf_ok r \<Longrightarrow> ringbuf_ok (snd (ringbuf_get r))"
  by (auto simp: ringbuf_get_def ringbuf_ok_def Let_def)

lemma ringbuf_put_full:
  "ringbuf_ok r \<Longrightarrow> ringbuf_avail r = rb_size r - 1 \<Longrightarrow> ringbuf_put r v = (-1, r)"
  by (auto simp: ringbuf_put_def ringbuf_avail_eq ringbuf_ok_def Let_def split: if_splits)

lemma ringbuf_put_room:
  assumes ok: "ringbuf_ok r" and room: "ringbuf_avail r < rb_size r - 1"
  shows "fst (ringbuf_put r v) = 0"
    and "ringbuf_list (snd (ringbuf_put r v)) = ringbuf_list r @ [u8 v]"
    and "rb_size (snd (ringbuf_put r v)) = rb_size r"
proof -
  let ?r = "snd (ringbuf_put r v)"
  show f: "fst (ringbuf_put r v) = 0"
    using assms by (auto simp: ringbuf_put_def ringbuf_avail_eq ringbuf_ok_def Let_def split: if_splits)
  then have buf: "rb_buf ?r = (rb_buf r)[rb_iput r := u8 v]" and g: "rb_iget ?r = rb_iget r"
    and s: "rb_size ?r = rb_size r"
    by (auto simp: ringbuf_put_def Let_def split: if_splits)
  show "rb_size ?r = rb_size r" by (rule s)
  have "rb_iput ?r = (if rb_iput r + 1 = rb_size r then 0 else rb_iput r + 1)"
    using f ok by (auto simp: ringbuf_put_def ringbuf_ok_def Let_def split: if_splits)
  then have "ringbuf_avail ?r = Suc (ringbuf_avail r)"
    using ok room ringbuf_put_ok [OF ok, of v] g s
    by (auto simp: ringbuf_avail_eq ringbuf_ok_def)
  moreover have "ringbuf_avail r < length (rb_buf r)"
    using ringbuf_avail_less [OF ok] ok by (simp add: ringbuf_ok_def)
  ultimately show "ringbuf_list ?r = ringbuf_list r @ [u8 v]"
    by (simp add: ringbuf_list_def buf g rb_iput_eq [OF ok] ring_update)
qed

lemma ringbuf_get_cons:
  assumes ok: "ringbuf_ok r" and c: "ringbuf_list r = x # xs"
  shows "fst (ringbuf_get r) = int x"
    and "ringbuf_list (snd (ringbuf_get r)) = xs"
    and "rb_size (snd (ringbuf_get r)) = rb_size r"
proof -
  let ?r = "snd (ringbuf_get r)"
  have ne: "rb_iget r \<noteq> rb_iput r" using ok c ringbuf_list_empty by fastforce
  then have buf: "rb_buf ?r = rb_buf r" and p: "rb_iput ?r = rb_iput r"
    and s: "rb_size ?r = rb_size r"
    by (auto simp: ringbuf_get_def Let_def)
  show "rb_size ?r = rb_size r" by (rule s)
  have g: "rb_iget ?r = Suc (rb_iget r) mod length (rb_buf r)"
    using ok ne by (auto simp: ringbuf_get_def ringbuf_ok_def Let_def mod_Suc)
  have a: "ringbuf_avail r = Suc (ringbuf_avail ?r)"
    using ok ringbuf_get_ok [OF ok] ne p s g
    by (auto simp: ringbuf_avail_eq ringbuf_ok_def mod_Suc split: if_splits)
  have "ringbuf_list r = rb_buf r ! (rb_iget r mod length (rb_buf r)) # ringbuf_list ?r"
    by (simp add: ringbuf_list_def a ring_Suc buf g) (metis ring_mod)
  with c ok ne show "fst (ringbuf_get r) = int x" and "ringbuf_list ?r = xs"
    by (auto simp: ringbuf_get_def ringbuf_ok_def Let_def)
qed

lemma ringbuf_get_empty: "ringbuf_ok r \<Longrightarrow> ringbuf_list r = [] \<Longrightarrow> ringbuf_get r = (-1, r)"
  by (simp add: ringbuf_list_empty ringbuf_get_def)

text \<open>The outcome of an operation as an option, for the queue contract.\<close>

definition ringbuf_put_opt :: "ringbuf \<Rightarrow> nat \<Rightarrow> ringbuf option" where
  "ringbuf_put_opt r v = (case ringbuf_put r v of (i, t) \<Rightarrow> if i = 0 then Some t else None)"

definition ringbuf_get_opt :: "ringbuf \<Rightarrow> (nat \<times> ringbuf) option" where
  "ringbuf_get_opt r = (case ringbuf_get r of (i, t) \<Rightarrow> if i = -1 then None else Some (nat i, t))"

interpretation rbq: bounded_fifo ringbuf_ok "\<lambda>v. v < 256" ringbuf_list "\<lambda>r. rb_size r - 1"
  ringbuf_put_opt ringbuf_get_opt
proof
  fix r x
  assume ok: "ringbuf_ok r"
  show "length (ringbuf_list r) \<le> rb_size r - 1"
    using ringbuf_avail_less [OF ok] by simp
  show "ringbuf_put_opt r x = None" if "length (ringbuf_list r) = rb_size r - 1"
    using ringbuf_put_full [OF ok] that by (simp add: ringbuf_put_opt_def)
  show "\<exists>t. ringbuf_put_opt r x = Some t \<and> ringbuf_ok t \<and> ringbuf_list t = ringbuf_list r @ [x] \<and>
      rb_size t - 1 = rb_size r - 1"
    if "x < 256" and "length (ringbuf_list r) < rb_size r - 1"
    using ringbuf_put_room [OF ok, of x] ringbuf_put_ok [OF ok, of x] that
    by (auto simp: ringbuf_put_opt_def split: prod.splits)
  show "ringbuf_get_opt r = None" if "ringbuf_list r = []"
    using ringbuf_get_empty [OF ok that] by (simp add: ringbuf_get_opt_def)
  show "\<exists>t. ringbuf_get_opt r = Some (x, t) \<and> ringbuf_ok t \<and> ringbuf_list t = xs \<and>
      rb_size t - 1 = rb_size r - 1"
    if "ringbuf_list r = x # xs" for xs
    using ringbuf_get_cons [OF ok that] ringbuf_get_ok [OF ok]
    by (auto simp: ringbuf_get_opt_def split: prod.splits)
qed

section \<open>Two-byte operations\<close>

lemma ringbuf_put16_full:
  "ringbuf_ok r \<Longrightarrow> rb_size r < ringbuf_avail r + 3 \<Longrightarrow> ringbuf_put16 r v = (-1, r)"
  by (auto simp: ringbuf_put16_def ringbuf_avail_eq ringbuf_ok_def Let_def split: if_splits)

lemma ringbuf_put16_as_puts:
  assumes "ringbuf_ok r" and "ringbuf_avail r + 3 \<le> rb_size r"
  shows "ringbuf_put16 r v =
    ringbuf_put (snd (ringbuf_put r (u16 v div 256))) (u16 v mod 256)"
proof -
  have "u16 v div 256 < 256" by (simp add: u16_def less_mult_imp_div_less)
  with assms show ?thesis
    by (auto simp: ringbuf_put16_def ringbuf_put_def ringbuf_avail_eq ringbuf_ok_def Let_def
        split: if_splits)
qed

lemma ringbuf_put16_room:
  assumes "ringbuf_ok r" and "ringbuf_avail r + 3 \<le> rb_size r"
  shows "fst (ringbuf_put16 r v) = 0"
    and "ringbuf_list (snd (ringbuf_put16 r v)) = ringbuf_list r @ [u16 v div 256, u16 v mod 256]"
    and "ringbuf_ok (snd (ringbuf_put16 r v))"
proof -
  let ?t = "snd (ringbuf_put r (u16 v div 256))"
  have hi: "u16 v div 256 < 256" by (simp add: u16_def less_mult_imp_div_less)
  have t: "ringbuf_ok ?t" "ringbuf_list ?t = ringbuf_list r @ [u16 v div 256]"
      "rb_size ?t = rb_size r"
    using assms ringbuf_put_ok ringbuf_put_room [of r] hi by auto
  then have "ringbuf_avail ?t < rb_size ?t - 1"
    using assms by (simp flip: length_ringbuf_list)
  with t assms show "fst (ringbuf_put16 r v) = 0"
    and "ringbuf_list (snd (ringbuf_put16 r v)) = ringbuf_list r @ [u16 v div 256, u16 v mod 256]"
    and "ringbuf_ok (snd (ringbuf_put16 r v))"
    by (simp_all add: ringbuf_put16_as_puts ringbuf_put_room ringbuf_put_ok)
qed

lemma ringbuf_list_Cons2:
  assumes ok: "ringbuf_ok r" and c: "ringbuf_list r = x # y # xs"
  shows "rb_buf r ! rb_iget r = x"
    and "rb_buf r ! (if rb_iget r + 1 = rb_size r then 0 else rb_iget r + 1) = y"
proof -
  have "ringbuf_avail r = Suc (Suc (length xs))"
    using c by (metis length_ringbuf_list length_Cons)
  then have "x # y # xs = rb_buf r ! (rb_iget r mod length (rb_buf r)) #
      rb_buf r ! (Suc (rb_iget r) mod length (rb_buf r)) #
      ring (rb_buf r) (Suc (Suc (rb_iget r))) (length xs)"
    using c by (simp add: ringbuf_list_def ring_Suc)
  with ok show "rb_buf r ! rb_iget r = x"
    and "rb_buf r ! (if rb_iget r + 1 = rb_size r then 0 else rb_iget r + 1) = y"
    by (auto simp: ringbuf_ok_def mod_Suc)
qed

lemma ringbuf_peek16_short:
  "ringbuf_ok r \<Longrightarrow> ringbuf_avail r < 2 \<Longrightarrow> ringbuf_peek16 r = -1"
  by (auto simp: ringbuf_peek16_def ringbuf_avail_eq ringbuf_ok_def Let_def split: if_splits)

lemma ringbuf_peek16_Cons2:
  assumes ok: "ringbuf_ok r" and c: "ringbuf_list r = x # y # xs"
  shows "ringbuf_peek16 r = int (x * 256 + y)"
proof -
  have "2 \<le> ringbuf_avail r"
    unfolding length_ringbuf_list [symmetric] c by simp
  then have "rb_iget r \<noteq> rb_iput r"
    and "(if rb_iget r + 1 = rb_size r then 0 else rb_iget r + 1) \<noteq> rb_iput r"
    using ok by (auto simp: ringbuf_avail_eq ringbuf_ok_def split: if_splits)
  with ringbuf_list_Cons2 [OF assms] show ?thesis
    unfolding ringbuf_peek16_def Let_def by simp
qed

lemma ringbuf_get16_as_gets:
  assumes ok: "ringbuf_ok r" and c: "ringbuf_list r = x # y # xs"
    and fits: "rb_iget r + 2 < 65536"
  shows "snd (ringbuf_get16 r) = snd (ringbuf_get (snd (ringbuf_get r)))"
proof -
  have ne: "rb_iget r \<noteq> rb_iput r" using ringbuf_list_empty [OF ok] c by auto
  have t: "ringbuf_ok (snd (ringbuf_get r))" "ringbuf_list (snd (ringbuf_get r)) = y # xs"
    using ringbuf_get_ok [OF ok] ringbuf_get_cons [OF ok c] by simp_all
  then have ne': "rb_iget (snd (ringbuf_get r)) \<noteq> rb_iput (snd (ringbuf_get r))"
    using ringbuf_list_empty by fastforce
  have "ringbuf_peek16 r \<noteq> -1" using ringbuf_peek16_Cons2 [OF ok c] by simp
  with ne ne' ok fits show ?thesis
    by (auto simp: ringbuf_get16_def ringbuf_get_def ringbuf_ok_def Let_def split: if_splits)
qed

lemma ringbuf_get16_Cons2:
  assumes "ringbuf_ok r" and "ringbuf_list r = x # y # xs" and "rb_iget r + 2 < 65536"
  shows "fst (ringbuf_get16 r) = int (x * 256 + y)"
    and "ringbuf_list (snd (ringbuf_get16 r)) = xs"
    and "ringbuf_ok (snd (ringbuf_get16 r))"
proof -
  have t: "ringbuf_ok (snd (ringbuf_get r))" "ringbuf_list (snd (ringbuf_get r)) = y # xs"
    using ringbuf_get_ok assms(1) ringbuf_get_cons [OF assms(1,2)] by simp_all
  show "fst (ringbuf_get16 r) = int (x * 256 + y)"
    using ringbuf_peek16_Cons2 [OF assms(1,2)] by (simp add: ringbuf_get16_def Let_def)
  show "ringbuf_list (snd (ringbuf_get16 r)) = xs" and "ringbuf_ok (snd (ringbuf_get16 r))"
    using ringbuf_get_cons [OF t] ringbuf_get_ok [OF t(1)]
    by (simp_all add: ringbuf_get16_as_gets [OF assms])
qed

section \<open>Properties\<close>

text \<open>
  C38 (refinement): on a well-formed buffer \<open>ringbuf_put\<close> appends the byte to the contents when
  fewer than \<open>size - 1\<close> bytes are stored and otherwise returns \<open>-1\<close> and changes nothing;
  \<open>ringbuf_get\<close> removes and returns the oldest byte, and returns \<open>-1\<close> without a change when
  there is none; \<open>ringbuf_free\<close> is the number of bytes that can still be stored.  Both keep
  the buffer well-formed.
\<close>

theorem ringbuf_refines_queue:
  assumes "ringbuf_ok r"
  shows "(if length (ringbuf_list r) < rb_size r - 1
          then fst (ringbuf_put r v) = 0 \<and>
               ringbuf_list (snd (ringbuf_put r v)) = ringbuf_list r @ [u8 v]
          else ringbuf_put r v = (-1, r))
    \<and> (case ringbuf_list r of
          [] \<Rightarrow> ringbuf_get r = (-1, r) \<and> ringbuf_peek r = -1
        | x # xs \<Rightarrow> fst (ringbuf_get r) = int x \<and> ringbuf_peek r = int x \<and>
            ringbuf_list (snd (ringbuf_get r)) = xs)
    \<and> ringbuf_free r = rb_size r - 1 - length (ringbuf_list r)
    \<and> ringbuf_ok (snd (ringbuf_put r v)) \<and> ringbuf_ok (snd (ringbuf_get r))"
proof (intro conjI)
  show "if length (ringbuf_list r) < rb_size r - 1
        then fst (ringbuf_put r v) = 0 \<and>
             ringbuf_list (snd (ringbuf_put r v)) = ringbuf_list r @ [u8 v]
        else ringbuf_put r v = (-1, r)"
    using ringbuf_put_room [OF assms, of v] ringbuf_put_full [OF assms, of v]
      ringbuf_avail_less [OF assms] by simp
  show "case ringbuf_list r of
          [] \<Rightarrow> ringbuf_get r = (-1, r) \<and> ringbuf_peek r = -1
        | x # xs \<Rightarrow> fst (ringbuf_get r) = int x \<and> ringbuf_peek r = int x \<and>
            ringbuf_list (snd (ringbuf_get r)) = xs"
  proof (cases "ringbuf_list r")
    case Nil
    then have "rb_iget r = rb_iput r" using ringbuf_list_empty [OF assms] by simp
    with Nil show ?thesis by (simp add: ringbuf_get_def ringbuf_peek_def)
  next
    case (Cons x xs)
    have "ringbuf_peek r = fst (ringbuf_get r)"
      by (simp add: ringbuf_peek_def ringbuf_get_def Let_def)
    with Cons ringbuf_get_cons [OF assms Cons] show ?thesis by simp
  qed
qed (simp_all add: assms ringbuf_free_eq ringbuf_put_ok ringbuf_get_ok)

theorem ringbuf_refines_queue_witness:
  "ringbuf_ok (ringbuf_alloc 3) \<and>
   ringbuf_list (snd (ringbuf_put (ringbuf_alloc 3) 7)) = [7]"
  using ringbuf_refines_queue [OF ringbuf_alloc(1), of 3 7] by (simp add: ringbuf_alloc)

text \<open>
  Bytes come out of the buffer in the order they were put in: after any sequence of at most \<open>size - 1\<close> puts
  into an empty buffer, that many gets return exactly that sequence and leave the buffer empty.
\<close>

lemma ringbuf_fifo:
  assumes "ringbuf_ok r" and "ringbuf_list r = []"
    and "list_all (\<lambda>v. v < 256) vs" and "length vs \<le> rb_size r - 1"
  shows "\<exists>t u. rbq.put_all r vs = Some t \<and> rbq.get_n (length vs) t = Some (vs, u) \<and>
           ringbuf_list u = []"
  using assms by (rule rbq.first_in_first_out)

text \<open>
  C39 (roundtrip): the two-byte operations are big-endian and lose nothing: with room for two
  more bytes \<open>ringbuf_put16\<close> appends the high and the low byte, without it changes nothing; on
  a buffer whose two oldest bytes are \<open>x\<close>, \<open>y\<close> and whose read index stays below \<open>65534\<close>,
  \<open>ringbuf_get16\<close> returns \<open>256 * x + y\<close> and removes exactly those two bytes.
\<close>

theorem ringbuf_16bit_operations:
  assumes "ringbuf_ok r"
  shows "(if length (ringbuf_list r) + 3 \<le> rb_size r
          then fst (ringbuf_put16 r v) = 0 \<and>
               ringbuf_list (snd (ringbuf_put16 r v)) =
                 ringbuf_list r @ [u16 v div 256, u16 v mod 256]
          else ringbuf_put16 r v = (-1, r))
    \<and> (ringbuf_list r = x # y # xs \<and> rb_iget r < 65534 \<longrightarrow>
         fst (ringbuf_get16 r) = int (256 * x + y) \<and>
         ringbuf_list (snd (ringbuf_get16 r)) = xs \<and> ringbuf_ok (snd (ringbuf_get16 r)))"
  using ringbuf_put16_room [OF assms, of v] ringbuf_put16_full [OF assms, of v]
    ringbuf_get16_Cons2 [OF assms, of x y xs]
  by (auto simp: mult.commute)

theorem ringbuf_16bit_operations_witness:
  "ringbuf_list (snd (ringbuf_put16 (ringbuf_alloc 4) 4660)) = [18, 52] \<and>
   fst (ringbuf_get16 (snd (ringbuf_put16 (ringbuf_alloc 4) 4660))) = 4660"
proof -
  let ?r = "ringbuf_alloc 4" and ?t = "snd (ringbuf_put16 (ringbuf_alloc 4) 4660)"
  have l: "ringbuf_list ?t = [18, 52]"
    using ringbuf_16bit_operations [OF ringbuf_alloc(1), of 4 4660] by (simp add: ringbuf_alloc)
  have ok: "ringbuf_ok ?t" and "rb_iget ?t = 0"
    by (simp_all add: ringbuf_put16_def ringbuf_alloc_def ringbuf_ok_def Let_def)
  with l ringbuf_16bit_operations [OF ok, of 0 18 52 "[]"] show ?thesis by simp
qed

text \<open>
  C40 (bounds): the bound of the previous property is sharp.  In a buffer of the largest size
  a \<open>uint16_t\<close> can hold, 65535 bytes, reading two bytes at index 65534 stores
  \<open>65534 + 2\<close> into a \<open>uint16_t\<close>, which is 0 where index 1 is meant: \<open>ringbuf_get16\<close> then
  consumes one byte only, and the second byte of the value is delivered once more.
\<close>

theorem ringbuf_get16_rereads_byte:
  assumes "ringbuf_ok r" and "rb_size r = 65535" and "rb_iget r = 65534"
    and "ringbuf_list r = x # y # xs"
  shows "fst (ringbuf_get16 r) = int (256 * x + y) \<and>
         ringbuf_list (snd (ringbuf_get16 r)) = y # xs"
proof -
  have ne: "rb_iget r \<noteq> rb_iput r" using ringbuf_list_empty assms(1,4) by fastforce
  have p: "ringbuf_peek16 r = int (x * 256 + y)" using ringbuf_peek16_Cons2 assms(1,4) by blast
  then have "snd (ringbuf_get16 r) = snd (ringbuf_get r)"
    using assms(2,3) ne by (simp add: ringbuf_get16_def ringbuf_get_def Let_def u16_def)
  with p ringbuf_get_cons(2) [OF assms(1,4)] show ?thesis
    by (simp add: ringbuf_get16_def Let_def mult.commute)
qed

theorem ringbuf_get16_rereads_byte_witness:
  "\<exists>r. ringbuf_ok r \<and> rb_size r = 65535 \<and> ringbuf_list r = [8, 9] \<and>
     ringbuf_list (snd (ringbuf_get16 r)) = [9]"
proof -
  obtain b where "b = replicate 65534 (9 :: nat) @ [8]" by simp
  then have b: "length b = 65535" "b ! 65534 = 8" "b ! 0 = 9"
    by (simp_all only: length_append length_replicate nth_append) simp_all
  define r where "r = \<lparr>rb_buf = b, rb_size = 65535, rb_iget = 65534, rb_iput = 1\<rparr>"
  have ok: "ringbuf_ok r" by (simp add: ringbuf_ok_def r_def b)
  have "ringbuf_avail r = 2" by (subst ringbuf_avail_eq [OF ok]) (simp add: r_def)
  with b have "ringbuf_list r = [8, 9]"
    by (simp add: ringbuf_list_def ring_def numeral_2_eq_2 r_def)
  with ok ringbuf_get16_rereads_byte [OF ok, of 8 9 "[]"] show ?thesis
    by (intro exI [of _ r]) (simp add: r_def)
qed

end
