(* ===== verification/Deque.thy ===== *)
theory Deque
  imports Prelude
begin

text \<open>
  The deque type of \<^verbatim>\<open>py/objdeque.c\<close>: an array of one slot more than the deque may hold, read and written
  around its end.  A full deque either refuses an element or drops its oldest one.
\<close>

section \<open>The operations\<close>

record 'o deque =
  dq_alloc :: nat
  dq_i_get :: nat
  dq_i_put :: nat
  dq_items :: "'o option list"
  dq_flags :: nat

definition FLAG_CHECK_OVERFLOW :: nat where "FLAG_CHECK_OVERFLOW = 1"

text \<open>
  The first argument says whether an empty tuple was passed.  Without a third argument the flags are the zero of
  fresh memory; a flag word is cut to 32 bits.
\<close>

definition deque_make_new :: "bool \<Rightarrow> int \<Rightarrow> int option \<Rightarrow> mp_exn + 'o deque" where
  "deque_make_new from_empty_tuple maxlen flags =
     (if \<not> from_empty_tuple then Inl ValueError
      else if maxlen < 0 then Inl ValueError
      else Inr \<lparr>dq_alloc = nat maxlen + 1, dq_i_get = 0, dq_i_put = 0, dq_items = replicate (nat maxlen + 1) None,
        dq_flags = (case flags of None \<Rightarrow> 0 | Some f \<Rightarrow> u32 (to_u64 f))\<rparr>)"

definition deque_bool :: "'o deque \<Rightarrow> bool" where
  "deque_bool d \<longleftrightarrow> dq_i_get d \<noteq> dq_i_put d"

definition deque_len :: "'o deque \<Rightarrow> int" where
  "deque_len d =
     (let len = int (dq_i_put d) - int (dq_i_get d)
      in if len < 0 then len + int (dq_alloc d) else len)"

definition mp_obj_deque_append :: "'o \<Rightarrow> 'o deque \<Rightarrow> mp_exn + 'o deque" where
  "mp_obj_deque_append arg d =
     (let new_i_put = dq_i_put d + 1;
          new_i_put = (if new_i_put = dq_alloc d then 0 else new_i_put)
      in if and (dq_flags d) FLAG_CHECK_OVERFLOW \<noteq> 0 \<and> new_i_put = dq_i_get d then Inl IndexError
         else
           let d = d\<lparr>dq_items := (dq_items d)[dq_i_put d := Some arg], dq_i_put := new_i_put\<rparr>
           in if dq_i_get d = new_i_put then
                Inr (d\<lparr>dq_i_get := (if dq_i_get d + 1 = dq_alloc d then 0 else dq_i_get d + 1)\<rparr>)
              else Inr d)"

definition deque_popleft :: "'o deque \<Rightarrow> mp_exn + ('o option \<times> 'o deque)" where
  "deque_popleft d =
     (if dq_i_get d = dq_i_put d then Inl IndexError
      else Inr (dq_items d ! dq_i_get d,
        d\<lparr>dq_items := (dq_items d)[dq_i_get d := None],
          dq_i_get := (if dq_i_get d + 1 = dq_alloc d then 0 else dq_i_get d + 1)\<rparr>))"

section \<open>The list of elements\<close>

definition deque_ok :: "'o deque \<Rightarrow> bool" where
  "deque_ok d \<longleftrightarrow> dq_alloc d = length (dq_items d) \<and> dq_i_get d < dq_alloc d \<and> dq_i_put d < dq_alloc d \<and>
     None \<notin> set (ring (dq_items d) (dq_i_get d) (nat (deque_len d)))"

definition deque_list :: "'o deque \<Rightarrow> 'o list" where
  "deque_list d = map the (ring (dq_items d) (dq_i_get d) (nat (deque_len d)))"

definition deque_capacity :: "'o deque \<Rightarrow> nat" where
  "deque_capacity d = dq_alloc d - 1"

lemma deque_len_bounds: "deque_ok d \<Longrightarrow> 0 \<le> deque_len d \<and> nat (deque_len d) < dq_alloc d"
  by (auto simp: deque_ok_def deque_len_def Let_def)

lemma deque_i_put: "deque_ok d \<Longrightarrow> (dq_i_get d + nat (deque_len d)) mod dq_alloc d = dq_i_put d"
  by (auto simp: deque_ok_def deque_len_def Let_def nat_diff_distrib le_mod_geq)

lemma length_deque_list [simp]: "length (deque_list d) = nat (deque_len d)"
  by (simp add: deque_list_def)

lemma next_index: "i < n \<Longrightarrow> (if i + 1 = n then 0 else i + 1) = (i + 1) mod (n :: nat)"
  by auto

lemma deque_full_iff:
  assumes "deque_ok d"
  shows "(if dq_i_put d + 1 = dq_alloc d then 0 else dq_i_put d + 1) = dq_i_get d \<longleftrightarrow> length (deque_list d) = deque_capacity d"
  using assms by (auto simp: deque_ok_def deque_len_def deque_capacity_def Let_def split: if_splits)

lemma append_room:
  assumes ok: "deque_ok d" and room: "length (deque_list d) < deque_capacity d"
  shows "\<exists>d'. mp_obj_deque_append x d = Inr d' \<and> deque_ok d' \<and> deque_list d' = deque_list d @ [x] \<and>
    deque_capacity d' = deque_capacity d \<and> dq_flags d' = dq_flags d"
proof -
  let ?n = "nat (deque_len d)" and ?p = "if dq_i_put d + 1 = dq_alloc d then 0 else dq_i_put d + 1"
  define d' where "d' = d\<lparr>dq_items := (dq_items d)[dq_i_put d := Some x], dq_i_put := ?p\<rparr>"
  have d: "dq_alloc d = length (dq_items d)" "dq_i_get d < dq_alloc d" "dq_i_put d < dq_alloc d" using ok by (simp_all add: deque_ok_def)
  have np: "?p \<noteq> dq_i_get d" using deque_full_iff [OF ok] room by linarith
  then have app: "mp_obj_deque_append x d = Inr d'"
    by (cases "dq_i_put d + 1 = dq_alloc d") (simp_all add: mp_obj_deque_append_def d'_def Let_def)
  have len: "nat (deque_len d') = Suc ?n"
    using d np by (auto simp: deque_len_def d'_def Let_def split: if_splits)
  have r: "ring (dq_items d') (dq_i_get d') (nat (deque_len d')) = ring (dq_items d) (dq_i_get d) ?n @ [Some x]"
    using ring_update [of ?n "dq_items d" "dq_i_get d" "Some x"] deque_len_bounds [OF ok] deque_i_put [OF ok] d
    unfolding len by (simp add: d'_def)
  have "deque_ok d'" using ok d unfolding deque_ok_def r by (auto simp: d'_def)
  moreover have "deque_list d' = deque_list d @ [x]" unfolding deque_list_def r by simp
  ultimately show ?thesis using app by (simp add: d'_def deque_capacity_def)
qed

lemma append_full:
  assumes ok: "deque_ok d" and full: "length (deque_list d) = deque_capacity d"
  shows "mp_obj_deque_append x d =
      (if and (dq_flags d) FLAG_CHECK_OVERFLOW \<noteq> 0 then Inl IndexError
       else Inr (d\<lparr>dq_items := (dq_items d)[dq_i_put d := Some x], dq_i_put := dq_i_get d, dq_i_get := (dq_i_get d + 1) mod dq_alloc d\<rparr>))"
  using deque_full_iff [OF ok] full next_index [of "dq_i_get d" "dq_alloc d"] ok
  by (auto simp: mp_obj_deque_append_def Let_def deque_ok_def)

lemma popleft_cons:
  assumes ok: "deque_ok d" and xs: "deque_list d = x # xs"
  shows "\<exists>d'. deque_popleft d = Inr (Some x, d') \<and> deque_ok d' \<and> deque_list d' = xs \<and> deque_capacity d' = deque_capacity d \<and> dq_flags d' = dq_flags d"
proof -
  let ?n = "nat (deque_len d)" and ?g = "(dq_i_get d + 1) mod dq_alloc d"
  have d: "dq_alloc d = length (dq_items d)" "dq_i_get d < dq_alloc d" "dq_i_put d < dq_alloc d" using ok by (simp_all add: deque_ok_def)
  obtain n where n: "?n = Suc n" using xs by (cases ?n) (auto simp: deque_list_def)
  have ne: "dq_i_get d \<noteq> dq_i_put d" using n by (auto simp: deque_len_def)
  define d' where "d' = d\<lparr>dq_items := (dq_items d)[dq_i_get d := None], dq_i_get := ?g\<rparr>"
  have ring: "ring (dq_items d) (dq_i_get d) ?n = dq_items d ! dq_i_get d # ring (dq_items d) ?g n"
    unfolding n ring_Suc using d ring_mod [of "dq_items d" "Suc (dq_i_get d)" n] by simp
  have len: "nat (deque_len d') = n"
    using n d ne by (auto simp: deque_len_def d'_def Let_def mod_Suc split: if_splits)
  have "ring (dq_items d') ?g n = ring (dq_items d) ?g n"
  proof (unfold ring_def, rule map_cong [OF refl])
    fix k assume "k \<in> set [0..<n]"
    then have k: "k < n" by simp
    have "Suc n < dq_alloc d" using n deque_len_bounds [OF ok] by simp
    then have "(dq_i_get d + 0) mod dq_alloc d \<noteq> (dq_i_get d + (1 + k)) mod dq_alloc d" using k by (intro mod_shift_less) simp_all
    then have "(?g + k) mod dq_alloc d \<noteq> dq_i_get d" using d(2) by (simp add: mod_add_left_eq add.assoc)
    then show "dq_items d' ! ((?g + k) mod length (dq_items d')) = dq_items d ! ((?g + k) mod length (dq_items d))"
      using d(1) by (simp add: d'_def)
  qed
  then have r: "ring (dq_items d') (dq_i_get d') (nat (deque_len d')) = ring (dq_items d) ?g n" unfolding len by (simp add: d'_def)
  have "deque_list d = the (dq_items d ! dq_i_get d) # map the (ring (dq_items d) ?g n)" unfolding deque_list_def ring by simp
  then have x: "dq_items d ! dq_i_get d = Some x" "deque_list d' = xs"
    using xs ok unfolding deque_ok_def deque_list_def ring r by auto
  have "deque_popleft d = Inr (Some x, d')"
    using ne x(1) next_index [OF d(2)] by (simp add: deque_popleft_def d'_def)
  moreover have "deque_ok d'" using ok d unfolding deque_ok_def r ring by (auto simp: d'_def intro: mod_less_divisor)
  ultimately show ?thesis using x(2) by (simp add: d'_def deque_capacity_def)
qed

lemma popleft_empty: "deque_list d = [] \<Longrightarrow> deque_ok d \<Longrightarrow> deque_popleft d = Inl IndexError"
  by (auto simp: deque_popleft_def deque_list_def ring_def deque_len_def deque_ok_def Let_def split: if_splits)

lemma append_drops:
  assumes ok: "deque_ok d" and full: "length (deque_list d) = deque_capacity d" and flag: "and (dq_flags d) FLAG_CHECK_OVERFLOW = 0"
  shows "\<exists>d'. mp_obj_deque_append x d = Inr d' \<and> deque_ok d' \<and> deque_list d' = tl (deque_list d @ [x]) \<and>
    deque_capacity d' = deque_capacity d \<and> dq_flags d' = dq_flags d"
proof -
  let ?n = "nat (deque_len d)" and ?g = "(dq_i_get d + 1) mod dq_alloc d"
  define d' where "d' = d\<lparr>dq_items := (dq_items d)[dq_i_put d := Some x], dq_i_put := dq_i_get d, dq_i_get := ?g\<rparr>"
  have d: "dq_alloc d = length (dq_items d)" "dq_i_get d < dq_alloc d" "dq_i_put d < dq_alloc d" using ok by (simp_all add: deque_ok_def)
  have n: "Suc ?n = dq_alloc d" using full d by (simp add: deque_capacity_def)
  have len: "nat (deque_len d') = ?n"
    using n d by (auto simp: deque_len_def d'_def Let_def mod_Suc split: if_splits)
  have snoc: "ring (dq_items d') (dq_i_get d) (Suc ?n) = ring (dq_items d) (dq_i_get d) ?n @ [Some x]"
    using ring_update [of ?n "dq_items d" "dq_i_get d" "Some x"] deque_len_bounds [OF ok] deque_i_put [OF ok] d
    by (simp add: d'_def)
  have "ring (dq_items d') (dq_i_get d) (Suc ?n) = dq_items d' ! dq_i_get d # ring (dq_items d') ?g ?n"
    unfolding ring_Suc using d ring_mod [of "dq_items d'" "Suc (dq_i_get d)" ?n] by (simp add: d'_def)
  then have "ring (dq_items d') ?g ?n = tl (ring (dq_items d) (dq_i_get d) ?n @ [Some x])"
    using snoc by (metis list.sel(3))
  then have r: "ring (dq_items d') (dq_i_get d') (nat (deque_len d')) = tl (ring (dq_items d) (dq_i_get d) ?n @ [Some x])"
    unfolding len by (simp add: d'_def)
  have "None \<notin> set (ring (dq_items d) (dq_i_get d) ?n @ [Some x])" using ok by (simp add: deque_ok_def)
  then have "None \<notin> set (tl (ring (dq_items d) (dq_i_get d) ?n @ [Some x]))" by (metis list.set_sel(2) tl_Nil)
  moreover have "?g < dq_alloc d" using d(2) by (intro mod_less_divisor) linarith
  ultimately have "deque_ok d'" using d unfolding deque_ok_def r by (simp add: d'_def)
  moreover have "deque_list d' = tl (deque_list d @ [x])" unfolding deque_list_def r by (simp add: map_tl)
  moreover have "mp_obj_deque_append x d = Inr d'" using append_full [OF ok full] flag by (simp add: d'_def)
  ultimately show ?thesis by (simp add: d'_def deque_capacity_def)
qed

lemma make_new_deque:
  assumes "0 \<le> maxlen"
  shows "\<exists>d. deque_make_new True maxlen flags = Inr d \<and> deque_ok d \<and> deque_list d = [] \<and> deque_capacity d = nat maxlen \<and>
    dq_flags d = (case flags of None \<Rightarrow> 0 | Some f \<Rightarrow> u32 (to_u64 f))"
  using assms by (simp add: deque_make_new_def deque_ok_def deque_list_def deque_len_def deque_capacity_def)

section \<open>The contract\<close>

text \<open>With the flag the deque is a bounded queue that refuses what does not fit.\<close>

definition checked_deque :: "'o deque \<Rightarrow> bool" where
  "checked_deque d \<longleftrightarrow> deque_ok d \<and> and (dq_flags d) FLAG_CHECK_OVERFLOW \<noteq> 0"

definition deque_put :: "'o deque \<Rightarrow> 'o \<Rightarrow> 'o deque option" where
  "deque_put d x = (case mp_obj_deque_append x d of Inl e \<Rightarrow> None | Inr t \<Rightarrow> Some t)"

definition deque_get :: "'o deque \<Rightarrow> ('o \<times> 'o deque) option" where
  "deque_get d = (case deque_popleft d of Inl e \<Rightarrow> None | Inr (None, t) \<Rightarrow> None | Inr (Some x, t) \<Rightarrow> Some (x, t))"

interpretation dq: bounded_fifo checked_deque "\<lambda>x. True" deque_list deque_capacity deque_put deque_get
proof
  fix d :: "'o deque" and x xs
  assume c: "checked_deque d"
  then have ok: "deque_ok d" and flag: "and (dq_flags d) FLAG_CHECK_OVERFLOW \<noteq> 0" by (simp_all add: checked_deque_def)
  show "length (deque_list d) \<le> deque_capacity d" using deque_len_bounds [OF ok] unfolding deque_capacity_def length_deque_list by linarith
  show "deque_put d x = None" if "length (deque_list d) = deque_capacity d"
    using append_full [OF ok that] flag by (simp add: deque_put_def)
  show "\<exists>t. deque_put d x = Some t \<and> checked_deque t \<and> deque_list t = deque_list d @ [x] \<and> deque_capacity t = deque_capacity d"
    if "length (deque_list d) < deque_capacity d"
    using append_room [OF ok that, of x] flag by (auto simp: deque_put_def checked_deque_def)
  show "deque_get d = None" if "deque_list d = []" using popleft_empty [OF that ok] by (simp add: deque_get_def)
  show "\<exists>t. deque_get d = Some (x, t) \<and> checked_deque t \<and> deque_list t = xs \<and> deque_capacity t = deque_capacity d"
    if "deque_list d = x # xs"
    using popleft_cons [OF ok that] flag by (auto simp: deque_get_def checked_deque_def)
qed

section \<open>Sequences of operations\<close>

datatype 'o deque_op = Append 'o | Popleft | Len | Bool

datatype 'o deque_out = Nothing | Element "'o option" | Length int | Truth bool | Error mp_exn

fun deque_step :: "'o deque_op \<Rightarrow> 'o deque \<Rightarrow> 'o deque_out \<times> 'o deque" where
  "deque_step (Append x) d = (case mp_obj_deque_append x d of Inl e \<Rightarrow> (Error e, d) | Inr t \<Rightarrow> (Nothing, t))"
| "deque_step Popleft d = (case deque_popleft d of Inl e \<Rightarrow> (Error e, d) | Inr (x, t) \<Rightarrow> (Element x, t))"
| "deque_step Len d = (Length (deque_len d), d)"
| "deque_step Bool d = (Truth (deque_bool d), d)"

text \<open>What the operations mean for a list of at most \<open>cap\<close> elements.\<close>

fun list_step :: "nat \<Rightarrow> bool \<Rightarrow> 'o deque_op \<Rightarrow> 'o list \<Rightarrow> 'o deque_out \<times> 'o list" where
  "list_step cap check (Append x) xs =
     (if length xs < cap then (Nothing, xs @ [x])
      else if check then (Error IndexError, xs)
      else (Nothing, tl (xs @ [x])))"
| "list_step cap check Popleft xs = (case xs of [] \<Rightarrow> (Error IndexError, []) | x # ys \<Rightarrow> (Element (Some x), ys))"
| "list_step cap check Len xs = (Length (int (length xs)), xs)"
| "list_step cap check Bool xs = (Truth (xs \<noteq> []), xs)"

fun run_ops :: "('op \<Rightarrow> 's \<Rightarrow> 'r \<times> 's) \<Rightarrow> 'op list \<Rightarrow> 's \<Rightarrow> 'r list" where
  "run_ops step [] s = []"
| "run_ops step (p # ps) s = (case step p s of (r, t) \<Rightarrow> r # run_ops step ps t)"

lemma deque_bool_iff: "deque_ok d \<Longrightarrow> deque_bool d \<longleftrightarrow> deque_list d \<noteq> []"
  by (auto simp: deque_bool_def deque_len_def deque_ok_def Let_def simp flip: length_greater_0_conv)

lemma deque_step_refines:
  assumes ok: "deque_ok d"
  shows "\<exists>r d'. deque_step p d = (r, d') \<and> deque_ok d' \<and> deque_capacity d' = deque_capacity d \<and> dq_flags d' = dq_flags d \<and>
    list_step (deque_capacity d) (and (dq_flags d) FLAG_CHECK_OVERFLOW \<noteq> 0) p (deque_list d) = (r, deque_list d')"
proof (cases p)
  case (Append x)
  have le: "length (deque_list d) \<le> deque_capacity d"
    using deque_len_bounds [OF ok] unfolding deque_capacity_def length_deque_list by linarith
  consider "length (deque_list d) < deque_capacity d"
    | "length (deque_list d) = deque_capacity d" "and (dq_flags d) FLAG_CHECK_OVERFLOW \<noteq> 0"
    | "length (deque_list d) = deque_capacity d" "and (dq_flags d) FLAG_CHECK_OVERFLOW = 0" using le by linarith
  then show ?thesis
  proof cases
    case 1
    then show ?thesis using append_room [OF ok 1, of x] Append by auto
  next
    case 2
    then show ?thesis using append_full [OF ok 2(1), of x] Append ok by simp
  next
    case 3
    then show ?thesis using append_drops [OF ok 3, of x] Append by auto
  qed
next
  case Popleft
  show ?thesis
  proof (cases "deque_list d")
    case Nil
    then show ?thesis using popleft_empty [OF Nil ok] Popleft ok by simp
  next
    case (Cons x xs)
    then show ?thesis using popleft_cons [OF ok Cons] Popleft by auto
  qed
next
  case Len
  then show ?thesis using deque_len_bounds [OF ok] ok by simp
next
  case Bool
  then show ?thesis using deque_bool_iff [OF ok] ok by simp
qed

lemma deque_run_refines:
  assumes "deque_ok d"
  shows "run_ops deque_step ps d =
    run_ops (list_step (deque_capacity d) (and (dq_flags d) FLAG_CHECK_OVERFLOW \<noteq> 0)) ps (deque_list d)"
  using assms
proof (induction ps arbitrary: d)
  case (Cons p ps)
  obtain r d' where step: "deque_step p d = (r, d')" "deque_ok d'" "deque_capacity d' = deque_capacity d" "dq_flags d' = dq_flags d"
      "list_step (deque_capacity d) (and (dq_flags d) FLAG_CHECK_OVERFLOW \<noteq> 0) p (deque_list d) = (r, deque_list d')"
    using deque_step_refines [OF Cons.prems, of p] by blast
  then show ?case using Cons.IH [OF step(2)] by simp
qed simp



end
