(* ===== verification/Scheduler.thy ===== *)
theory Scheduler
  imports Prelude
begin

text \<open>
  The scheduler of \<^verbatim>\<open>py/scheduler.c\<close>: the queue of callbacks that interrupt handlers fill, the pending exception,
  the lock, and the call by which the virtual machine runs one callback.
\<close>

section \<open>The state\<close>

definition MICROPY_SCHEDULER_DEPTH :: nat where "MICROPY_SCHEDULER_DEPTH = 4"

definition MP_SCHED_IDLE :: int where "MP_SCHED_IDLE = 1"
definition MP_SCHED_LOCKED :: int where "MP_SCHED_LOCKED = -1"
definition MP_SCHED_PENDING :: int where "MP_SCHED_PENDING = 0"

lemmas sched_states = MP_SCHED_IDLE_def MP_SCHED_LOCKED_def MP_SCHED_PENDING_def

text \<open>\<open>sched_state\<close> is an \<open>int16_t\<close>, the length and the index are bytes.\<close>

definition s16 :: "int \<Rightarrow> int" where
  "s16 i = (i + 2 ^ 15) mod 2 ^ 16 - 2 ^ 15"

record 'o sched =
  mp_pending_exception :: "'o option"
  sched_state :: int
  sched_len :: nat
  sched_idx :: nat
  sched_queue :: "('o \<times> 'o) list"

definition IDX_MASK :: "nat \<Rightarrow> nat" where
  "IDX_MASK i = and i (MICROPY_SCHEDULER_DEPTH - 1)"

definition mp_sched_full :: "'o sched \<Rightarrow> bool" where
  "mp_sched_full s \<longleftrightarrow> sched_len s = MICROPY_SCHEDULER_DEPTH"

definition mp_sched_empty :: "'o sched \<Rightarrow> bool" where
  "mp_sched_empty s \<longleftrightarrow> sched_len s = 0"

section \<open>The operations\<close>

definition mp_keyboard_interrupt :: "'o \<Rightarrow> 'o sched \<Rightarrow> 'o sched" where
  "mp_keyboard_interrupt kbd_exception s =
     (let s = s\<lparr>mp_pending_exception := Some kbd_exception\<rparr>
      in if sched_state s = MP_SCHED_IDLE then s\<lparr>sched_state := MP_SCHED_PENDING\<rparr> else s)"

definition mp_sched_lock :: "'o sched \<Rightarrow> 'o sched" where
  "mp_sched_lock s =
     (if sched_state s < 0 then s\<lparr>sched_state := s16 (sched_state s - 1)\<rparr> else s\<lparr>sched_state := MP_SCHED_LOCKED\<rparr>)"

definition mp_sched_unlock :: "'o sched \<Rightarrow> 'o sched" where
  "mp_sched_unlock s =
     (let s = s\<lparr>sched_state := s16 (sched_state s + 1)\<rparr>
      in if sched_state s = 0 then
           if mp_pending_exception s \<noteq> None \<or> sched_len s \<noteq> 0 then s\<lparr>sched_state := MP_SCHED_PENDING\<rparr>
           else s\<lparr>sched_state := MP_SCHED_IDLE\<rparr>
         else s)"

definition mp_sched_schedule :: "'o \<Rightarrow> 'o \<Rightarrow> 'o sched \<Rightarrow> bool \<times> 'o sched" where
  "mp_sched_schedule function arg s =
     (if \<not> mp_sched_full s then
        let s = (if sched_state s = MP_SCHED_IDLE then s\<lparr>sched_state := MP_SCHED_PENDING\<rparr> else s);
            iput = IDX_MASK (sched_idx s + sched_len s);
            s = s\<lparr>sched_len := u8 (sched_len s + 1)\<rparr>
        in (True, s\<lparr>sched_queue := (sched_queue s)[iput := (function, arg)]\<rparr>)
      else (False, s))"

text \<open>
  What a callback, or an interrupt handler between two calls of the virtual machine, does to the scheduler is a
  sequence of calls of the operations above: \<open>acts (f, a)\<close> is the sequence of the callback \<open>f\<close> applied to \<open>a\<close>.
\<close>

datatype 'o action = Schedule 'o 'o | Interrupt 'o | Lock | Unlock

fun act :: "'o action \<Rightarrow> 'o sched \<Rightarrow> 'o sched" where
  "act (Schedule f a) s = snd (mp_sched_schedule f a s)"
| "act (Interrupt e) s = mp_keyboard_interrupt e s"
| "act Lock s = mp_sched_lock s"
| "act Unlock s = mp_sched_unlock s"

definition run_acts :: "'o action list \<Rightarrow> 'o sched \<Rightarrow> 'o sched" where
  "run_acts as s = fold act as s"

text \<open>The result says which callback was run; exceptions of the callback are caught by the protected call.\<close>

definition mp_handle_pending_tail :: "('o \<times> 'o \<Rightarrow> 'o action list) \<Rightarrow> 'o sched \<Rightarrow> ('o \<times> 'o) option \<times> 'o sched" where
  "mp_handle_pending_tail acts s =
     (let s = s\<lparr>sched_state := MP_SCHED_LOCKED\<rparr>
      in if \<not> mp_sched_empty s then
           let item = sched_queue s ! sched_idx s;
               s = s\<lparr>sched_idx := IDX_MASK (sched_idx s + 1)\<rparr>;
               s = s\<lparr>sched_len := sched_len s - 1\<rparr>
           in (Some item, mp_sched_unlock (run_acts (acts item) s))
         else (None, mp_sched_unlock s))"

datatype 'o handled = Raised 'o | Ran "('o \<times> 'o) option"

definition mp_handle_pending :: "('o \<times> 'o \<Rightarrow> 'o action list) \<Rightarrow> bool \<Rightarrow> 'o sched \<Rightarrow> 'o handled \<times> 'o sched" where
  "mp_handle_pending acts raise_exc s =
     (if sched_state s = MP_SCHED_PENDING then
        case mp_pending_exception s of
          Some obj \<Rightarrow>
            let s = s\<lparr>mp_pending_exception := None\<rparr>;
                s = (if sched_len s = 0 then s\<lparr>sched_state := MP_SCHED_IDLE\<rparr> else s)
            in if raise_exc then (Raised obj, s)
               else (case mp_handle_pending_tail acts s of (r, s) \<Rightarrow> (Ran r, s))
        | None \<Rightarrow> (case mp_handle_pending_tail acts s of (r, s) \<Rightarrow> (Ran r, s))
      else (Ran None, s))"

text \<open>The check the virtual machine makes between two instructions has the body of \<open>mp_handle_pending\<close> written out.\<close>

definition pending_exception_check :: "('o \<times> 'o \<Rightarrow> 'o action list) \<Rightarrow> 'o sched \<Rightarrow> 'o handled \<times> 'o sched" where
  "pending_exception_check acts s =
     (if sched_state s = MP_SCHED_PENDING then
        case mp_pending_exception s of
          Some obj \<Rightarrow>
            let s = s\<lparr>mp_pending_exception := None\<rparr>;
                s = (if sched_len s = 0 then s\<lparr>sched_state := MP_SCHED_IDLE\<rparr> else s)
            in (Raised obj, s)
        | None \<Rightarrow> (case mp_handle_pending_tail acts s of (r, s) \<Rightarrow> (Ran r, s))
      else (Ran None, s))"

definition mp_micropython_schedule :: "'o \<Rightarrow> 'o \<Rightarrow> 'o sched \<Rightarrow> (mp_exn + unit) \<times> 'o sched" where
  "mp_micropython_schedule function arg s =
     (case mp_sched_schedule function arg s of (r, s) \<Rightarrow> (if \<not> r then Inl RuntimeError else Inr (), s))"

text \<open>The part of \<open>mp_init\<close> that sets up the scheduler; the array keeps what it held.\<close>

definition sched_init :: "'o sched \<Rightarrow> 'o sched" where
  "sched_init s = s\<lparr>mp_pending_exception := None, sched_state := MP_SCHED_IDLE, sched_idx := 0, sched_len := 0\<rparr>"

section \<open>The queue and the lock\<close>

definition sched_list :: "'o sched \<Rightarrow> ('o \<times> 'o) list" where
  "sched_list s = ring (sched_queue s) (sched_idx s) (sched_len s)"

definition sched_queue_ok :: "'o sched \<Rightarrow> bool" where
  "sched_queue_ok s \<longleftrightarrow> length (sched_queue s) = MICROPY_SCHEDULER_DEPTH \<and> sched_idx s < MICROPY_SCHEDULER_DEPTH \<and>
     sched_len s \<le> MICROPY_SCHEDULER_DEPTH"

text \<open>
  \<open>sched_at k s\<close>: the lock is held \<open>k\<close> times; when it is not held the state says whether there is anything to do.
\<close>

definition sched_at :: "nat \<Rightarrow> 'o sched \<Rightarrow> bool" where
  "sched_at k s \<longleftrightarrow> sched_queue_ok s \<and> k \<le> 2 ^ 15 \<and>
     sched_state s = (if k \<noteq> 0 then - int k
       else if mp_pending_exception s \<noteq> None \<or> sched_list s \<noteq> [] then MP_SCHED_PENDING else MP_SCHED_IDLE)"

lemma s16_id [simp]: "- (2 ^ 15) \<le> i \<Longrightarrow> i < 2 ^ 15 \<Longrightarrow> s16 i = i"
  by (simp add: s16_def)

lemma IDX_MASK_mod [simp]: "IDX_MASK i = i mod 4"
  by (simp add: IDX_MASK_def MICROPY_SCHEDULER_DEPTH_def nat_and_mask)

lemma length_sched_list [simp]: "length (sched_list s) = sched_len s"
  by (simp add: sched_list_def)

lemma sched_list_Nil: "sched_list s = [] \<longleftrightarrow> sched_len s = 0"
  using length_sched_list [of s] by (metis length_0_conv)

lemma sched_list_upd [simp]:
  "sched_list (s\<lparr>mp_pending_exception := e\<rparr>) = sched_list s" "sched_list (s\<lparr>sched_state := z\<rparr>) = sched_list s"
  by (simp_all add: sched_list_def)

lemma sched_queue_ok_upd [simp]:
  "sched_queue_ok (s\<lparr>mp_pending_exception := e\<rparr>) = sched_queue_ok s" "sched_queue_ok (s\<lparr>sched_state := z\<rparr>) = sched_queue_ok s"
  by (simp_all add: sched_queue_ok_def)

lemma sched_init_at: "length (sched_queue s) = MICROPY_SCHEDULER_DEPTH \<Longrightarrow> sched_at 0 (sched_init s) \<and> sched_list (sched_init s) = []"
  by (simp add: sched_at_def sched_list_Nil sched_init_def sched_queue_ok_def MICROPY_SCHEDULER_DEPTH_def)

lemma schedule_full: "mp_sched_full s \<Longrightarrow> mp_sched_schedule f a s = (False, s)"
  by (simp add: mp_sched_schedule_def)

lemma schedule_room:
  assumes ok: "sched_queue_ok s" and room: "\<not> mp_sched_full s"
  shows "\<exists>t. mp_sched_schedule f a s = (True, t) \<and> sched_queue_ok t \<and> sched_list t = sched_list s @ [(f, a)] \<and>
    mp_pending_exception t = mp_pending_exception s \<and>
    sched_state t = (if sched_state s = MP_SCHED_IDLE then MP_SCHED_PENDING else sched_state s)"
proof -
  have q: "length (sched_queue s) = 4" "sched_len s < 4" "sched_idx s < 4"
    using ok room by (auto simp: sched_queue_ok_def mp_sched_full_def MICROPY_SCHEDULER_DEPTH_def)
  define t where "t = snd (mp_sched_schedule f a s)"
  have t: "mp_sched_schedule f a s = (True, t)" "sched_queue t = (sched_queue s)[(sched_idx s + sched_len s) mod 4 := (f, a)]"
      "sched_len t = Suc (sched_len s)" "sched_idx t = sched_idx s" "mp_pending_exception t = mp_pending_exception s"
      "sched_state t = (if sched_state s = MP_SCHED_IDLE then MP_SCHED_PENDING else sched_state s)"
    using room q(2) by (auto simp: t_def mp_sched_schedule_def Let_def)
  have "sched_list t = sched_list s @ [(f, a)]"
    using ring_update [of "sched_len s" "sched_queue s" "sched_idx s" "(f, a)"] q by (simp add: sched_list_def t)
  then show ?thesis using t q by (simp add: sched_queue_ok_def MICROPY_SCHEDULER_DEPTH_def)
qed

lemma schedule_at:
  assumes "sched_at k s"
  shows "sched_at k (snd (mp_sched_schedule f a s)) \<and> (\<exists>ys. sched_list (snd (mp_sched_schedule f a s)) = sched_list s @ ys)"
proof (cases "mp_sched_full s")
  case True
  then show ?thesis using assms by (simp add: schedule_full)
next
  case False
  have ok: "sched_queue_ok s" using assms by (simp add: sched_at_def sched_list_Nil)
  obtain t where t: "mp_sched_schedule f a s = (True, t)" "sched_queue_ok t" "sched_list t = sched_list s @ [(f, a)]"
      "sched_state t = (if sched_state s = MP_SCHED_IDLE then MP_SCHED_PENDING else sched_state s)"
    using schedule_room [OF ok False] by blast
  have "sched_len t \<noteq> 0" using arg_cong [OF t(3), of length] by simp
  then show ?thesis using t assms by (auto simp: sched_at_def sched_list_Nil sched_states)
qed

lemma interrupt_at:
  "sched_at k s \<Longrightarrow> sched_at k (mp_keyboard_interrupt e s) \<and> sched_list (mp_keyboard_interrupt e s) = sched_list s"
  by (auto simp: sched_at_def sched_list_Nil mp_keyboard_interrupt_def sched_states)

lemma lock_at:
  "sched_at k s \<Longrightarrow> k < 2 ^ 15 \<Longrightarrow> sched_at (Suc k) (mp_sched_lock s) \<and> sched_list (mp_sched_lock s) = sched_list s"
  by (auto simp: sched_at_def sched_list_Nil mp_sched_lock_def sched_states split: if_splits)

lemma unlock_at:
  "sched_at (Suc k) s \<Longrightarrow> sched_at k (mp_sched_unlock s) \<and> sched_list (mp_sched_unlock s) = sched_list s \<and>
    mp_pending_exception (mp_sched_unlock s) = mp_pending_exception s"
  by (auto simp: sched_at_def sched_list_Nil mp_sched_unlock_def sched_states Let_def)

section \<open>Sequences of operations\<close>

text \<open>\<open>nested n as\<close>: with \<open>n\<close> locks of their own held, the actions release every lock they take and no other.\<close>

fun nested :: "nat \<Rightarrow> 'o action list \<Rightarrow> bool" where
  "nested n [] \<longleftrightarrow> n = 0"
| "nested n (Lock # as) \<longleftrightarrow> nested (Suc n) as"
| "nested n (Unlock # as) \<longleftrightarrow> n \<noteq> 0 \<and> nested (n - 1) as"
| "nested n (Schedule f a # as) \<longleftrightarrow> nested n as"
| "nested n (Interrupt e # as) \<longleftrightarrow> nested n as"

lemma run_acts_simps [simp]: "run_acts [] s = s" "run_acts (a # as) s = run_acts as (act a s)"
  by (simp_all add: run_acts_def)

lemma run_acts_at:
  assumes "sched_at (b + n) s" and "nested n as" and "b + n + length as \<le> 2 ^ 15"
  shows "sched_at b (run_acts as s) \<and> (\<exists>ys. sched_list (run_acts as s) = sched_list s @ ys)"
  using assms
proof (induction n as arbitrary: s rule: nested.induct)
  case (2 n as)
  have l: "sched_at (b + Suc n) (mp_sched_lock s)" "sched_list (mp_sched_lock s) = sched_list s"
    using lock_at [OF 2(2)] 2(4) by simp_all
  show ?case using "2.IH" [OF l(1)] 2(3,4) l(2) by simp
next
  case (3 n as)
  obtain m where m: "n = Suc m" using 3(3) by (cases n) auto
  have l: "sched_at (b + m) (mp_sched_unlock s)" "sched_list (mp_sched_unlock s) = sched_list s"
    using unlock_at [of "b + m" s] 3(2) m by simp_all
  show ?case using "3.IH" [of "mp_sched_unlock s"] 3(3,4) l m by simp
next
  case (4 n f a as)
  obtain ys where l: "sched_at (b + n) (snd (mp_sched_schedule f a s))" "sched_list (snd (mp_sched_schedule f a s)) = sched_list s @ ys"
    using schedule_at [OF 4(2)] by blast
  show ?case using "4.IH" [OF l(1)] 4(3,4) l(2) by auto
next
  case (5 n e as)
  show ?case using "5.IH" [of "mp_keyboard_interrupt e s"] 5(3,4) interrupt_at [OF 5(2), of e] by simp
qed simp

lemma handle_pending_tail_at:
  assumes ok: "sched_queue_ok s" and len: "sched_list s = x # xs" and n: "nested 0 (acts x)" "length (acts x) < 2 ^ 15"
  shows "\<exists>t ys. mp_handle_pending_tail acts s = (Some x, t) \<and> sched_at 0 t \<and> sched_list t = xs @ ys"
proof -
  have q: "length (sched_queue s) = 4" "sched_idx s < 4" "sched_len s \<le> 4"
    using ok by (simp_all add: sched_queue_ok_def MICROPY_SCHEDULER_DEPTH_def)
  obtain m where m: "sched_len s = Suc m" using len by (cases "sched_len s") (auto simp: sched_list_def)
  define u where "u = s\<lparr>sched_state := MP_SCHED_LOCKED, sched_idx := (sched_idx s + 1) mod 4, sched_len := m\<rparr>"
  have "sched_list s = sched_queue s ! sched_idx s # sched_list u"
    using q ring_mod [of "sched_queue s" "Suc (sched_idx s)" m] unfolding sched_list_def m ring_Suc by (simp add: u_def)
  then have x: "sched_queue s ! sched_idx s = x" "sched_list u = xs" using len by simp_all
  have "sched_at (1 + 0) u"
    using q m by (simp add: sched_at_def u_def sched_queue_ok_def MICROPY_SCHEDULER_DEPTH_def MP_SCHED_LOCKED_def)
  from run_acts_at [OF this n(1)] n(2) x(2)
  obtain ys where r: "sched_at (Suc 0) (run_acts (acts x) u)" "sched_list (run_acts (acts x) u) = xs @ ys" by auto
  have "mp_handle_pending_tail acts s = (Some x, mp_sched_unlock (run_acts (acts x) u))"
    using m x(1) by (simp add: mp_handle_pending_tail_def Let_def mp_sched_empty_def u_def)
  then show ?thesis using unlock_at [OF r(1)] r(2) by simp
qed

lemma handle_pending_tail_empty:
  assumes "sched_queue_ok s" and "sched_list s = []"
  shows "\<exists>t. mp_handle_pending_tail acts s = (None, t) \<and> sched_at 0 t \<and> sched_list t = []"
proof -
  have "sched_at (Suc 0) (s\<lparr>sched_state := MP_SCHED_LOCKED\<rparr>)" using assms by (simp add: sched_at_def MP_SCHED_LOCKED_def)
  from unlock_at [OF this] show ?thesis
    using assms(2) by (simp add: sched_list_Nil mp_handle_pending_tail_def Let_def mp_sched_empty_def)
qed

text \<open>A callback takes the scheduler's lock as often as it releases it, and does so at a depth an \<open>int16_t\<close> can count.\<close>

definition well_behaved :: "('o \<times> 'o \<Rightarrow> 'o action list) \<Rightarrow> bool" where
  "well_behaved acts \<longleftrightarrow> (\<forall>x. nested 0 (acts x) \<and> length (acts x) < 2 ^ 15)"

lemma handle_pending_runs:
  assumes at: "sched_at 0 s" and wb: "well_behaved acts" and quiet: "mp_pending_exception s = None \<or> \<not> raise_exc"
  shows "\<exists>t ys. mp_handle_pending acts raise_exc s = (Ran (case sched_list s of [] \<Rightarrow> None | x # xs \<Rightarrow> Some x), t) \<and>
    sched_at 0 t \<and> sched_list t = tl (sched_list s) @ ys"
proof -
  have ok: "sched_queue_ok u" "sched_list u = sched_list s"
    if "u = s \<or> u = s\<lparr>mp_pending_exception := None\<rparr> \<or> u = s\<lparr>mp_pending_exception := None, sched_state := MP_SCHED_IDLE\<rparr>" for u
    using at that by (auto simp: sched_at_def)
  have tail: "\<exists>t ys. mp_handle_pending_tail acts u = (case sched_list s of [] \<Rightarrow> None | x # xs \<Rightarrow> Some x, t) \<and> sched_at 0 t \<and>
      sched_list t = tl (sched_list s) @ ys" if "sched_queue_ok u" "sched_list u = sched_list s" for u
  proof (cases "sched_list s")
    case Nil
    then show ?thesis using handle_pending_tail_empty [OF that(1), of acts] that(2) by auto
  next
    case (Cons x xs)
    then show ?thesis using handle_pending_tail_at [OF that(1), of x xs acts] that(2) wb [unfolded well_behaved_def, rule_format, of x] by auto
  qed
  show ?thesis
  proof (cases "sched_state s = MP_SCHED_PENDING")
    case False
    then have "sched_list s = []" using at by (auto simp: sched_at_def split: if_splits)
    then show ?thesis using False at by (simp add: mp_handle_pending_def)
  next
    case True
    show ?thesis
    proof (cases "mp_pending_exception s")
      case None
      then show ?thesis using tail [OF ok, of s] True by (auto simp: mp_handle_pending_def)
    next
      case (Some e)
      define u where "u = (if sched_len s = 0 then s\<lparr>mp_pending_exception := None, sched_state := MP_SCHED_IDLE\<rparr> else s\<lparr>mp_pending_exception := None\<rparr>)"
      have "mp_handle_pending acts raise_exc s = (case mp_handle_pending_tail acts u of (r, t) \<Rightarrow> (Ran r, t))"
        using Some True quiet by (simp add: mp_handle_pending_def u_def Let_def)
      then show ?thesis using tail [OF ok, of u] by (auto simp: u_def split: if_splits)
    qed
  qed
qed

lemma handle_pending_raises:
  assumes "sched_at 0 s" and "mp_pending_exception s = Some e"
  shows "\<exists>t. mp_handle_pending acts True s = (Raised e, t) \<and> sched_at 0 t \<and> sched_list t = sched_list s \<and> mp_pending_exception t = None"
  using assms by (simp add: mp_handle_pending_def sched_at_def sched_list_Nil Let_def)

lemma handle_pending_locked: "sched_at (Suc k) s \<Longrightarrow> mp_handle_pending acts raise_exc s = (Ran None, s)"
  by (simp add: mp_handle_pending_def sched_at_def sched_states)

lemma pending_exception_check_eq: "pending_exception_check acts s = mp_handle_pending acts True s"
  by (simp add: pending_exception_check_def mp_handle_pending_def Let_def split: option.splits)

text \<open>
  The life of the virtual machine: in each round interrupts and the program act on the scheduler and then the
  machine looks for something to do.
\<close>

fun rounds :: "('o \<times> 'o \<Rightarrow> 'o action list) \<Rightarrow> 'o action list list \<Rightarrow> 'o sched \<Rightarrow> 'o handled list \<times> 'o sched" where
  "rounds acts [] s = ([], s)"
| "rounds acts (as # env) s =
     (case pending_exception_check acts (run_acts as s) of
        (r, s) \<Rightarrow> (case rounds acts env s of (rs, s) \<Rightarrow> (r # rs, s)))"

fun ran :: "'o handled list \<Rightarrow> ('o \<times> 'o) option list" where
  "ran [] = []"
| "ran (Raised e # rs) = ran rs"
| "ran (Ran r # rs) = r # ran rs"

definition quiet_env :: "'o action list list \<Rightarrow> bool" where
  "quiet_env env \<longleftrightarrow> list_all (\<lambda>as. nested 0 as \<and> length as \<le> 2 ^ 15) env"

lemma round_at:
  assumes at: "sched_at 0 s" and wb: "well_behaved acts" and n: "nested 0 as" "length as \<le> 2 ^ 15"
  shows "\<exists>r t. pending_exception_check acts (run_acts as s) = (r, t) \<and> sched_at 0 t \<and>
    ((\<exists>e ys. r = Raised e \<and> sched_list t = sched_list s @ ys) \<or>
     (\<exists>o' ys. r = Ran o' \<and> (sched_list s \<noteq> [] \<longrightarrow> o' = Some (hd (sched_list s)) \<and> sched_list t = tl (sched_list s) @ ys)))"
proof -
  let ?u = "run_acts as s"
  obtain ys where u: "sched_at 0 ?u" "sched_list ?u = sched_list s @ ys" using run_acts_at [of 0 0 s as] at n by auto
  show ?thesis
  proof (cases "mp_pending_exception ?u")
    case None
    obtain t zs where "mp_handle_pending acts True ?u = (Ran (case sched_list ?u of [] \<Rightarrow> None | x # xs \<Rightarrow> Some x), t)"
        "sched_at 0 t" "sched_list t = tl (sched_list ?u) @ zs"
      using handle_pending_runs [OF u(1) wb, of True] None by blast
    then show ?thesis unfolding pending_exception_check_eq u(2) by (cases "sched_list s") auto
  next
    case (Some e)
    then show ?thesis unfolding pending_exception_check_eq using handle_pending_raises [OF u(1) Some, of acts] u(2) by auto
  qed
qed

lemma rounds_run_queue:
  assumes "sched_at 0 s" and "well_behaved acts" and "quiet_env env" and "rounds acts env s = (rs, t)"
  shows "sched_at 0 t \<and> (\<forall>k < length (sched_list s). k < length (ran rs) \<longrightarrow> ran rs ! k = Some (sched_list s ! k))"
  using assms
proof (induction env arbitrary: s rs)
  case (Cons as env)
  have n: "nested 0 as" "length as \<le> 2 ^ 15" "quiet_env env" using Cons.prems(3) by (simp_all add: quiet_env_def)
  obtain r u where u: "pending_exception_check acts (run_acts as s) = (r, u)" "sched_at 0 u"
      "(\<exists>e ys. r = Raised e \<and> sched_list u = sched_list s @ ys) \<or>
       (\<exists>o' ys. r = Ran o' \<and> (sched_list s \<noteq> [] \<longrightarrow> o' = Some (hd (sched_list s)) \<and> sched_list u = tl (sched_list s) @ ys))"
    using round_at [OF Cons.prems(1,2) n(1,2)] by blast
  obtain rs' where rs: "rounds acts env u = (rs', t)" "rs = r # rs'"
    using Cons.prems(4) u(1) by (auto split: prod.splits)
  note IH = Cons.IH [OF u(2) Cons.prems(2) n(3) rs(1)]
  from u(3) show ?case
  proof (elim disjE exE conjE)
    fix e ys assume r: "r = Raised e" "sched_list u = sched_list s @ ys"
    show ?case using IH unfolding rs(2) r by (auto simp: nth_append)
  next
    fix o' ys assume r: "r = Ran o'" "sched_list s \<noteq> [] \<longrightarrow> o' = Some (hd (sched_list s)) \<and> sched_list u = tl (sched_list s) @ ys"
    have "ran rs ! k = Some (sched_list s ! k)" if k: "k < length (sched_list s)" "k < length (ran rs)" for k
    proof (cases k)
      case 0
      then show ?thesis using r k by (cases "sched_list s") (auto simp: rs(2))
    next
      case (Suc j)
      then have "sched_list s \<noteq> []" using k(1) by (metis length_0_conv not_less_zero)
      then have "sched_list u = tl (sched_list s) @ ys" using r by simp
      then show ?thesis using IH Suc k unfolding rs(2) r(1) by (cases "sched_list s") (auto simp: nth_append)
    qed
    then show ?case using IH by blast
  qed
qed simp

section \<open>Keyboard interrupts\<close>

fun is_Interrupt :: "'o action \<Rightarrow> bool" where
  "is_Interrupt (Interrupt e) \<longleftrightarrow> True"
| "is_Interrupt _ \<longleftrightarrow> False"

definition interrupts :: "'o action list \<Rightarrow> nat" where
  "interrupts as = length (filter is_Interrupt as)"

definition exceptions_pending :: "'o sched \<Rightarrow> nat" where
  "exceptions_pending s = (if mp_pending_exception s = None then 0 else 1)"

definition times_raised :: "'o handled list \<Rightarrow> nat" where
  "times_raised rs = length rs - length (ran rs)"

lemma length_ran: "length (ran rs) \<le> length rs"
  by (induction rs rule: ran.induct) simp_all

lemma times_raised_simps [simp]:
  "times_raised [] = 0" "times_raised (Raised e # rs) = Suc (times_raised rs)" "times_raised (Ran r # rs) = times_raised rs"
  using length_ran [of rs] by (simp_all add: times_raised_def Suc_diff_le)

lemma length_rounds: "length (fst (rounds acts env s)) = length env"
  by (induction env arbitrary: s) (auto split: prod.splits, metis fst_conv)

lemma act_exception: "\<not> is_Interrupt a \<Longrightarrow> mp_pending_exception (act a s) = mp_pending_exception s"
  by (cases a) (simp_all add: mp_sched_schedule_def mp_sched_lock_def mp_sched_unlock_def Let_def)

lemma run_acts_exceptions: "exceptions_pending (run_acts as s) \<le> exceptions_pending s + interrupts as"
proof (induction as arbitrary: s)
  case (Cons a as)
  have "exceptions_pending (act a s) \<le> exceptions_pending s + (if is_Interrupt a then 1 else 0)"
    using act_exception [of a s] by (auto simp: exceptions_pending_def)
  then show ?case using Cons.IH [of "act a s"] by (simp add: interrupts_def split: if_splits)
qed simp

lemma check_exceptions:
  assumes "sched_at 0 s" and "\<forall>x. interrupts (acts x) = 0" and "pending_exception_check acts s = (r, t)"
  shows "times_raised [r] \<le> exceptions_pending s \<and> exceptions_pending t = 0"
proof -
  have u: "mp_pending_exception (mp_sched_unlock v) = mp_pending_exception v" for v :: "'a sched"
    by (simp add: mp_sched_unlock_def Let_def)
  have a: "mp_pending_exception (run_acts (acts x) v) = None" if "mp_pending_exception v = None" for x and v :: "'a sched"
    using run_acts_exceptions [of "acts x" v] assms(2) [rule_format, of x] that
    by (simp add: exceptions_pending_def split: if_splits)
  show ?thesis using assms(1,3) a [of _ "sched_queue s ! sched_idx s"]
    by (auto simp: pending_exception_check_def mp_handle_pending_tail_def Let_def u exceptions_pending_def sched_at_def
        split: if_splits option.splits)
qed

lemma rounds_raised:
  assumes "sched_at 0 s" and "well_behaved acts" and "quiet_env env" and "\<forall>x. interrupts (acts x) = 0"
    and "rounds acts env s = (rs, t)"
  shows "times_raised rs \<le> exceptions_pending s + sum_list (map interrupts env)"
  using assms
proof (induction env arbitrary: s rs)
  case (Cons as env)
  have n: "nested 0 as" "length as \<le> 2 ^ 15" "quiet_env env" using Cons.prems(3) by (simp_all add: quiet_env_def)
  have v: "sched_at 0 (run_acts as s)" using run_acts_at [of 0 0 s as] Cons.prems(1) n by simp
  obtain r u where u: "pending_exception_check acts (run_acts as s) = (r, u)" "sched_at 0 u"
    using round_at [OF Cons.prems(1,2) n(1,2)] by blast
  obtain rs' where rs: "rounds acts env u = (rs', t)" "rs = r # rs'"
    using Cons.prems(5) u(1) by (auto split: prod.splits)
  have "times_raised (r # rs') = times_raised [r] + times_raised rs'" by (cases r) simp_all
  then show ?case
    using Cons.IH [OF u(2) Cons.prems(2) n(3) Cons.prems(4) rs(1)] check_exceptions [OF v Cons.prems(4) u(1)]
      run_acts_exceptions [of as s] by (simp add: rs(2))
qed simp

section \<open>The contract\<close>

text \<open>The queue is a bounded first-in first-out queue, with \<open>mp_sched_schedule\<close> its only way in.\<close>

definition sched_put :: "'o sched \<Rightarrow> 'o \<times> 'o \<Rightarrow> 'o sched option" where
  "sched_put s x = (case mp_sched_schedule (fst x) (snd x) s of (r, t) \<Rightarrow> if r then Some t else None)"

text \<open>One call of the virtual machine with idle callbacks.\<close>

definition sched_get :: "'o sched \<Rightarrow> (('o \<times> 'o) \<times> 'o sched) option" where
  "sched_get s =
     (case mp_handle_pending (\<lambda>x. []) False s of
        (Ran (Some x), t) \<Rightarrow> Some (x, t)
      | _ \<Rightarrow> None)"

lemma tail_idle:
  assumes "sched_queue_ok s" and "sched_list s = x # xs"
  shows "\<exists>t. mp_handle_pending_tail (\<lambda>x. []) s = (Some x, t) \<and> sched_list t = xs"
proof -
  obtain m where m: "sched_len s = Suc m" using assms(2) by (cases "sched_len s") (auto simp: sched_list_def)
  have "sched_list s = sched_queue s ! sched_idx s # ring (sched_queue s) ((sched_idx s + 1) mod 4) m"
    using assms(1) ring_mod [of "sched_queue s" "Suc (sched_idx s)" m] unfolding sched_list_def m ring_Suc
    by (simp add: sched_queue_ok_def MICROPY_SCHEDULER_DEPTH_def)
  then show ?thesis using assms(2) m
    by (auto simp: mp_handle_pending_tail_def mp_sched_empty_def mp_sched_unlock_def sched_list_def Let_def)
qed

lemma sched_idle_get:
  assumes at: "sched_at 0 s" and xs: "sched_list s = x # xs"
  shows "\<exists>t. sched_get s = Some (x, t) \<and> sched_at 0 t \<and> sched_list t = xs"
proof -
  define u where "u = s\<lparr>mp_pending_exception := None\<rparr>"
  have ok: "sched_queue_ok u" "sched_list u = x # xs" "sched_state s = MP_SCHED_PENDING" "sched_len s \<noteq> 0"
    using at xs by (simp_all add: sched_at_def u_def sched_list_Nil [symmetric])
  obtain t where t: "mp_handle_pending_tail (\<lambda>x. []) u = (Some x, t)" "sched_list t = xs" using tail_idle [OF ok(1,2)] by blast
  have "s = u \<or> mp_pending_exception s \<noteq> None" by (cases s) (auto simp: u_def)
  then have h: "mp_handle_pending (\<lambda>x. []) False s = (Ran (Some x), t)"
    using t(1) ok by (auto simp: mp_handle_pending_def u_def Let_def split: option.splits)
  have "well_behaved (\<lambda>x. [])" by (simp add: well_behaved_def)
  from handle_pending_runs [OF at this, of False] have "sched_at 0 t" using h by auto
  then show ?thesis using h t(2) by (simp add: sched_get_def)
qed

lemma sched_idle_get_empty:
  assumes at: "sched_at 0 s" and xs: "sched_list s = []"
  shows "sched_get s = None"
proof -
  have wb: "well_behaved (\<lambda>x. [])" by (simp add: well_behaved_def)
  show ?thesis using handle_pending_runs [OF at wb, of False] xs by (auto simp: sched_get_def)
qed

lemma sched_put_at:
  assumes "sched_at 0 s" and "length (sched_list s) < MICROPY_SCHEDULER_DEPTH"
  shows "\<exists>t. sched_put s x = Some t \<and> sched_at 0 t \<and> sched_list t = sched_list s @ [x]"
proof -
  have "sched_queue_ok s" "\<not> mp_sched_full s" using assms by (simp_all add: sched_at_def mp_sched_full_def)
  from schedule_room [OF this, of "fst x" "snd x"] schedule_at [OF assms(1), of "fst x" "snd x"]
  show ?thesis by (auto simp: sched_put_def)
qed

interpretation sq: bounded_fifo "sched_at 0" "\<lambda>x. True" sched_list "\<lambda>s. MICROPY_SCHEDULER_DEPTH" sched_put sched_get
proof
  fix s :: "'o sched" and x xs
  assume at: "sched_at 0 s"
  show "length (sched_list s) \<le> MICROPY_SCHEDULER_DEPTH" using at by (simp add: sched_at_def sched_queue_ok_def)
  show "sched_put s x = None" if "length (sched_list s) = MICROPY_SCHEDULER_DEPTH"
    using that by (simp add: sched_put_def schedule_full mp_sched_full_def)
  show "\<exists>t. sched_put s x = Some t \<and> sched_at 0 t \<and> sched_list t = sched_list s @ [x] \<and> MICROPY_SCHEDULER_DEPTH = MICROPY_SCHEDULER_DEPTH"
    if "length (sched_list s) < MICROPY_SCHEDULER_DEPTH" using sched_put_at [OF at that] by simp
  show "sched_get s = None" if "sched_list s = []" using sched_idle_get_empty [OF at that] .
  show "\<exists>t. sched_get s = Some (x, t) \<and> sched_at 0 t \<and> sched_list t = xs \<and> MICROPY_SCHEDULER_DEPTH = MICROPY_SCHEDULER_DEPTH"
    if "sched_list s = x # xs" using sched_idle_get [OF at that] by simp
qed

section \<open>Reachable states\<close>

text \<open>
  The states the scheduler can reach, with the number of times its lock is held: the operations in any order, as long
  as the lock is released only when it is held and is not taken more often than its counter can hold.
\<close>

inductive sched_reachable :: "('o \<times> 'o \<Rightarrow> 'o action list) \<Rightarrow> nat \<Rightarrow> 'o sched \<Rightarrow> bool" for acts where
  init: "length (sched_queue s) = MICROPY_SCHEDULER_DEPTH \<Longrightarrow> sched_reachable acts 0 (sched_init s)"
| schedule: "sched_reachable acts k s \<Longrightarrow> sched_reachable acts k (snd (mp_sched_schedule f a s))"
| interrupt: "sched_reachable acts k s \<Longrightarrow> sched_reachable acts k (mp_keyboard_interrupt e s)"
| lock: "sched_reachable acts k s \<Longrightarrow> k < 2 ^ 15 \<Longrightarrow> sched_reachable acts (Suc k) (mp_sched_lock s)"
| unlock: "sched_reachable acts (Suc k) s \<Longrightarrow> sched_reachable acts k (mp_sched_unlock s)"
| handle: "sched_reachable acts k s \<Longrightarrow> sched_reachable acts k (snd (mp_handle_pending acts raise_exc s))"

lemma handle_pending_at:
  assumes "sched_at k s" and "well_behaved acts"
  shows "sched_at k (snd (mp_handle_pending acts raise_exc s))"
proof (cases k)
  case (Suc j)
  then show ?thesis using assms(1) handle_pending_locked [of j s acts raise_exc] by simp
next
  case 0
  show ?thesis
  proof (cases "mp_pending_exception s = None \<or> \<not> raise_exc")
    case True
    from handle_pending_runs [OF _ assms(2) True] show ?thesis using assms(1) 0 by fastforce
  next
    case False
    then obtain e where "mp_pending_exception s = Some e" "raise_exc" by auto
    then show ?thesis using handle_pending_raises [of s e acts] assms(1) 0 by auto
  qed
qed

lemma reachable_at:
  assumes "sched_reachable acts k s" and "well_behaved acts"
  shows "sched_at k s"
  using assms
proof (induction rule: sched_reachable.induct)
  case (init s)
  then show ?case by (simp add: sched_init_at)
next
  case (schedule k s f a)
  then show ?case by (simp add: schedule_at)
next
  case (interrupt k s e)
  then show ?case by (simp add: interrupt_at)
next
  case (lock k s)
  then show ?case by (simp add: lock_at)
next
  case (unlock k s)
  then show ?case by (simp add: unlock_at)
next
  case (handle k s raise_exc)
  then show ?case by (simp add: handle_pending_at)
qed

section \<open>Properties\<close>

text \<open>A callback that schedules itself again under the lock, and one that does nothing.\<close>

definition sample_acts :: "nat \<times> nat \<Rightarrow> nat action list" where
  "sample_acts x = (if fst x = 7 then [Lock, Schedule 7 (snd x), Unlock] else [])"

definition sample_sched :: "nat sched" where
  "sample_sched = sched_init \<lparr>mp_pending_exception = None, sched_state = 0, sched_len = 9, sched_idx = 9,
     sched_queue = [(0, 0), (0, 0), (0, 0), (0, 0)]\<rparr>"

lemma sample_well_behaved: "well_behaved sample_acts" and sample_quiet: "interrupts (sample_acts x) = 0"
  by (auto simp: well_behaved_def sample_acts_def interrupts_def)

lemma sample_reachable: "sched_reachable sample_acts 0 sample_sched"
  unfolding sample_sched_def by (rule sched_reachable.init) (simp add: MICROPY_SCHEDULER_DEPTH_def)

text \<open>
  C30 (liveness): a callback that \<open>mp_sched_schedule\<close> accepted is run, in every state the scheduler can reach without its lock held.  Take any later history of the virtual machine:
  rounds in which the program and interrupt handlers schedule callbacks, press Ctrl-C and take and release the lock in
  pairs, each ended by the machine's check for pending work, with callbacks that do the same.  Of the checks
  that do not raise a keyboard interrupt, one among the first \<open>MICROPY_SCHEDULER_DEPTH\<close> runs the callback; and if the
  callbacks themselves are not interrupted, no more checks raise than there were interrupts, so that the callback is
  run within \<open>MICROPY_SCHEDULER_DEPTH\<close> rounds plus one for each interrupt.
\<close>

theorem scheduled_callback_is_run:
  assumes "sched_reachable acts 0 s" and "mp_sched_schedule f a s = (True, s')" and "well_behaved acts" and "quiet_env env"
    and "rounds acts env s' = (rs, t)"
  shows "(MICROPY_SCHEDULER_DEPTH + times_raised rs \<le> length env \<longrightarrow> Some (f, a) \<in> set (take MICROPY_SCHEDULER_DEPTH (ran rs))) \<and>
    ((\<forall>x. interrupts (acts x) = 0) \<longrightarrow>
     MICROPY_SCHEDULER_DEPTH + exceptions_pending s' + sum_list (map interrupts env) \<le> length env \<longrightarrow>
     Some (f, a) \<in> set (take MICROPY_SCHEDULER_DEPTH (ran rs)))"
proof -
  have nf: "\<not> mp_sched_full s" using assms(2) by (auto simp: schedule_full)
  have at: "sched_at 0 s" using reachable_at [OF assms(1,3)] .
  then have ok: "sched_queue_ok s" by (simp add: sched_at_def)
  have s': "sched_at 0 s'" "sched_list s' = sched_list s @ [(f, a)]"
    using schedule_at [OF at, of f a] schedule_room [OF ok nf, of f a] assms(2) by auto
  have k: "sched_len s < MICROPY_SCHEDULER_DEPTH" "sched_len s' = Suc (sched_len s)" "sched_list s' ! sched_len s = (f, a)"
    using nf ok length_sched_list [of s', unfolded s'(2)] unfolding s'(2)
    by (simp_all add: mp_sched_full_def sched_queue_ok_def nth_append)
  have len: "length rs = length env" using length_rounds [of acts env s'] assms(5) by simp
  have run: "Some (f, a) \<in> set (take MICROPY_SCHEDULER_DEPTH (ran rs))" if "MICROPY_SCHEDULER_DEPTH + times_raised rs \<le> length env"
  proof -
    have "sched_len s < length (ran rs)" using that k(1) len length_ran [of rs] by (simp add: times_raised_def)
    then have "ran rs ! sched_len s = Some (f, a)" "sched_len s < length (take MICROPY_SCHEDULER_DEPTH (ran rs))"
      using rounds_run_queue [OF s'(1) assms(3-5)] k by auto
    then show ?thesis by (metis nth_mem nth_take k(1))
  qed
  show ?thesis using run rounds_raised [OF s'(1) assms(3,4) _ assms(5)] by fastforce
qed

theorem scheduled_callback_is_run_witness:
  "Some (5, 6) \<in> set (take 4 (ran (fst (rounds sample_acts
      [[Schedule 7 1], [Interrupt 0], [], [Lock, Schedule 8 2, Unlock], []]
      (snd (mp_sched_schedule 5 6 (snd (mp_sched_schedule 7 0 sample_sched))))))))"
proof -
  let ?env = "[[Schedule 7 1], [Interrupt 0], [], [Lock, Schedule 8 2, Unlock], []] :: nat action list list"
  let ?s = "snd (mp_sched_schedule 7 0 sample_sched)"
  have at: "sched_reachable sample_acts 0 ?s" using sample_reachable by (rule sched_reachable.schedule)
  have "mp_sched_schedule 5 6 ?s = (True, snd (mp_sched_schedule 5 6 ?s))" "exceptions_pending (snd (mp_sched_schedule 5 6 ?s)) = 0"
    by (simp_all add: mp_sched_schedule_def sample_sched_def sched_init_def mp_sched_full_def MICROPY_SCHEDULER_DEPTH_def
        sched_states exceptions_pending_def Let_def)
  moreover have "quiet_env ?env" "sum_list (map interrupts ?env) = 1" by (simp_all add: quiet_env_def interrupts_def)
  moreover obtain rs t where "rounds sample_acts ?env (snd (mp_sched_schedule 5 6 ?s)) = (rs, t)" by (metis surj_pair)
  ultimately show ?thesis
    using scheduled_callback_is_run [OF at _ sample_well_behaved, of 5 6 "snd (mp_sched_schedule 5 6 ?s)" ?env rs t] sample_quiet
    by (simp add: MICROPY_SCHEDULER_DEPTH_def del: rounds.simps sum_list.Cons list.map)
qed

text \<open>
  C31 (invariant): the scheduler never forgets work and never runs it under the lock, in every reachable state.  After any properly nested
  sequence of scheduling, interrupts, locking and unlocking with the lock held \<open>k\<close> times before it, the lock is held
  \<open>k\<close> times again, nothing that was queued is lost, and the queue holds at most \<open>MICROPY_SCHEDULER_DEPTH\<close> callbacks;
  while the lock is held \<open>mp_handle_pending\<close> does nothing; and when it is not held, \<open>sched_state\<close> is pending exactly
  if there is an exception or a callback, and \<open>mp_handle_pending\<close> raises the exception first and leaves the queue as it is.
\<close>

theorem scheduler_invariant:
  assumes "sched_reachable acts k s" and "well_behaved acts" and "nested 0 as" and "k + length as \<le> 2 ^ 15"
    and "t = run_acts as s"
  shows "sched_at k t \<and> (\<exists>ys. sched_list t = sched_list s @ ys) \<and> length (sched_list t) \<le> MICROPY_SCHEDULER_DEPTH \<and>
    (k \<noteq> 0 \<longrightarrow> mp_handle_pending acts raise_exc t = (Ran None, t)) \<and>
    (k = 0 \<longrightarrow> (sched_state t = MP_SCHED_PENDING \<longleftrightarrow> mp_pending_exception t \<noteq> None \<or> sched_list t \<noteq> []) \<and>
      (\<forall>e. mp_pending_exception t = Some e \<longrightarrow>
        (\<exists>u. mp_handle_pending acts True t = (Raised e, u) \<and> sched_at 0 u \<and> sched_list u = sched_list t)))"
proof -
  have t: "sched_at k t" "\<exists>ys. sched_list t = sched_list s @ ys" using run_acts_at [of k 0 s as] reachable_at [OF assms(1,2)] assms(3-5) by simp_all
  moreover have "length (sched_list t) \<le> MICROPY_SCHEDULER_DEPTH" using t(1) by (simp add: sched_at_def sched_queue_ok_def)
  moreover have "mp_handle_pending acts raise_exc t = (Ran None, t)" if "k \<noteq> 0"
    using t(1) that handle_pending_locked [of "k - 1" t] by simp
  moreover have "sched_state t = MP_SCHED_PENDING \<longleftrightarrow> mp_pending_exception t \<noteq> None \<or> sched_list t \<noteq> []" if "k = 0"
    using t(1) that by (simp add: sched_at_def sched_states)
  moreover have "\<exists>u. mp_handle_pending acts True t = (Raised e, u) \<and> sched_at 0 u \<and> sched_list u = sched_list t"
    if "k = 0" "mp_pending_exception t = Some e" for e using handle_pending_raises [of t e acts] t(1) that by blast
  ultimately show ?thesis by blast
qed

theorem scheduler_invariant_witness:
  "\<exists>t. t = run_acts [Schedule 1 2, Lock, Interrupt 9, Lock, Schedule 3 4, Unlock, Unlock] sample_sched \<and> sched_at 0 t \<and>
     (\<exists>u. mp_handle_pending sample_acts True t = (Raised 9, u) \<and> sched_at 0 u \<and> sched_list u = [(1, 2), (3, 4)])"
proof -
  let ?as = "[Schedule 1 2, Lock, Interrupt 9, Lock, Schedule 3 4, Unlock, Unlock] :: nat action list"
  have t: "mp_pending_exception (run_acts ?as sample_sched) = Some 9" "sched_list (run_acts ?as sample_sched) = [(1, 2), (3, 4)]"
    by (simp_all add: mp_sched_schedule_def sample_sched_def sched_init_def mp_sched_full_def MICROPY_SCHEDULER_DEPTH_def
        sched_states Let_def mp_sched_lock_def mp_sched_unlock_def mp_keyboard_interrupt_def sched_list_def ring_def numeral_2_eq_2)
  show ?thesis using scheduler_invariant [OF sample_reachable sample_well_behaved, of ?as _ True] t by (simp del: run_acts_simps)
qed

end
