(* ===== verification/HeapQ.thy ===== *)
theory HeapQ
  imports Prelude "HOL-Library.Multiset"
begin

text \<open>
  The heap queue of \<^verbatim>\<open>extmod/moduheapq.c\<close>: sifting in an array, and the three functions of the module.  The
  comparison is a parameter that may raise; it is later the \<open><\<close> of integer objects.
\<close>

section \<open>The operations\<close>

text \<open>
  \<open>lt a b\<close> is what \<open>mp_binary_op(MP_BINARY_OP_LESS, a, b)\<close> does: raise, or return \<open>True\<close>, \<open>False\<close> or some other
  object, for which it is \<open>None\<close>.  The comparison does not change the heap.
\<close>

type_synonym 'o comparison = "'o \<Rightarrow> 'o \<Rightarrow> mp_exn + bool option"

text \<open>The loops return the exception that ended them, if any, and the items as they left them.\<close>

function siftdown_loop :: "'o comparison \<Rightarrow> 'o \<Rightarrow> nat \<Rightarrow> nat \<Rightarrow> 'o list \<Rightarrow> mp_exn option \<times> 'o list" where
  "siftdown_loop lt item start_pos pos items =
     (if pos > start_pos then
        let parent_pos = (pos - 1) div 2;
            parent = items ! parent_pos
        in case lt item parent of
             Inl e \<Rightarrow> (Some e, items)
           | Inr b \<Rightarrow>
               if b = Some True then siftdown_loop lt item start_pos parent_pos (items[pos := parent])
               else (None, items[pos := item])
      else (None, items[pos := item]))"
  by pat_completeness auto
termination
  by (relation "measure (\<lambda>(lt, item, start_pos, pos, items). pos)") auto

declare siftdown_loop.simps [simp del]

definition uheapq_heap_siftdown :: "'o comparison \<Rightarrow> nat \<Rightarrow> nat \<Rightarrow> 'o list \<Rightarrow> mp_exn option \<times> 'o list" where
  "uheapq_heap_siftdown lt start_pos pos items = siftdown_loop lt (items ! pos) start_pos pos items"

function siftup_loop :: "'o comparison \<Rightarrow> nat \<Rightarrow> nat \<Rightarrow> 'o list \<Rightarrow> (mp_exn + nat) \<times> 'o list" where
  "siftup_loop lt end_pos pos items =
     (let child_pos = 2 * pos + 1
      in if child_pos < end_pos then
           case (if child_pos + 1 < end_pos then lt (items ! child_pos) (items ! (child_pos + 1)) else Inr None) of
             Inl e \<Rightarrow> (Inl e, items)
           | Inr b \<Rightarrow>
               let child_pos = (if b = Some False then child_pos + 1 else child_pos)
               in siftup_loop lt end_pos child_pos (items[pos := items ! child_pos])
         else (Inr pos, items))"
  by pat_completeness auto
termination
  by (relation "measure (\<lambda>(lt, end_pos, pos, items). end_pos - pos)") auto

declare siftup_loop.simps [simp del]

definition uheapq_heap_siftup :: "'o comparison \<Rightarrow> nat \<Rightarrow> 'o list \<Rightarrow> mp_exn option \<times> 'o list" where
  "uheapq_heap_siftup lt pos items =
     (let item = items ! pos
      in case siftup_loop lt (length items) pos items of
           (Inl e, items) \<Rightarrow> (Some e, items)
         | (Inr pos', items) \<Rightarrow> uheapq_heap_siftdown lt pos pos' (items[pos' := item]))"

text \<open>The heap argument is \<open>None\<close> when it is not a list; results are paired with the argument as the call leaves it.\<close>

definition uheapq_get_heap :: "'o list option \<Rightarrow> mp_exn + 'o list" where
  "uheapq_get_heap heap_in = (case heap_in of None \<Rightarrow> Inl TypeError | Some heap \<Rightarrow> Inr heap)"

definition mod_uheapq_heappush :: "'o comparison \<Rightarrow> 'o list option \<Rightarrow> 'o \<Rightarrow> mp_exn option \<times> 'o list option" where
  "mod_uheapq_heappush lt heap_in item =
     (case uheapq_get_heap heap_in of
        Inl e \<Rightarrow> (Some e, heap_in)
      | Inr heap \<Rightarrow>
          let heap = heap @ [item]
          in map_prod id Some (uheapq_heap_siftdown lt 0 (length heap - 1) heap))"

definition mod_uheapq_heappop :: "'o comparison \<Rightarrow> 'o list option \<Rightarrow> (mp_exn + 'o) \<times> 'o list option" where
  "mod_uheapq_heappop lt heap_in =
     (case uheapq_get_heap heap_in of
        Inl e \<Rightarrow> (Inl e, heap_in)
      | Inr heap \<Rightarrow>
          if heap = [] then (Inl IndexError, heap_in)
          else
            let item = heap ! 0;
                len = length heap - 1;
                heap = take len (heap[0 := heap ! len])
            in if len \<noteq> 0 then
                 case uheapq_heap_siftup lt 0 heap of
                   (Some e, heap) \<Rightarrow> (Inl e, Some heap)
                 | (None, heap) \<Rightarrow> (Inr item, Some heap)
               else (Inr item, Some heap))"

fun heapify_loop :: "'o comparison \<Rightarrow> nat \<Rightarrow> 'o list \<Rightarrow> mp_exn option \<times> 'o list" where
  "heapify_loop lt 0 heap = (None, heap)"
| "heapify_loop lt (Suc i) heap =
     (case uheapq_heap_siftup lt i heap of
        (Some e, heap) \<Rightarrow> (Some e, heap)
      | (None, heap) \<Rightarrow> heapify_loop lt i heap)"

definition mod_uheapq_heapify :: "'o comparison \<Rightarrow> 'o list option \<Rightarrow> mp_exn option \<times> 'o list option" where
  "mod_uheapq_heapify lt heap_in =
     (case uheapq_get_heap heap_in of
        Inl e \<Rightarrow> (Some e, heap_in)
      | Inr heap \<Rightarrow> map_prod id Some (heapify_loop lt (length heap div 2) heap))"

section \<open>Positions in the tree\<close>

text \<open>The parent of a position above 0; \<open>below s p\<close> says that \<open>p\<close> is in the subtree of \<open>s\<close>.\<close>

definition up :: "nat \<Rightarrow> nat" where
  "up j = (j - 1) div 2"

lemma up_less [simp]: "0 < j \<Longrightarrow> up j < j"
  by (simp add: up_def)

lemma up_bound: "j < n \<Longrightarrow> up j < n"
  by (simp add: up_def)

lemma up_child: "0 < c \<Longrightarrow> up c = p \<longleftrightarrow> c = 2 * p + 1 \<or> c = 2 * p + 2"
  unfolding up_def by presburger

function below :: "nat \<Rightarrow> nat \<Rightarrow> bool" where
  "below s p = (if p \<le> s then p = s else below s (up p))"
  by pat_completeness auto
termination
  by (relation "measure snd") auto

declare below.simps [simp del]

lemma below_refl [simp]: "below s s"
  by (simp add: below.simps)

lemma below_le: "below s p \<Longrightarrow> s \<le> p"
  by (subst (asm) below.simps) (auto split: if_splits)

lemma below_up: "below s p \<Longrightarrow> s < p \<Longrightarrow> below s (up p)"
  by (subst (asm) below.simps) auto

lemma below_child: "below s p \<Longrightarrow> 0 < c \<Longrightarrow> up c = p \<Longrightarrow> below s c"
  using below_le [of s p] up_less [of c] by (subst below.simps) auto

lemma below_0 [simp]: "below 0 p"
proof (induction p rule: less_induct)
  case (less p)
  then show ?case by (subst below.simps) auto
qed

section \<open>Sifting\<close>

definition swap :: "'a list \<Rightarrow> nat \<Rightarrow> nat \<Rightarrow> 'a list" where
  "swap xs i j = xs[i := xs ! j, j := xs ! i]"

lemma length_swap [simp]: "length (swap xs i j) = length xs"
  by (simp add: swap_def)

lemma mset_swap_eq [simp]: "i < length xs \<Longrightarrow> j < length xs \<Longrightarrow> mset (swap xs i j) = mset xs"
  unfolding swap_def by (rule mset_swap)

lemma nth_swap:
  "i < length xs \<Longrightarrow> j < length xs \<Longrightarrow> swap xs i j ! k = (if k = j then xs ! i else if k = i then xs ! j else xs ! k)"
  by (auto simp: swap_def nth_list_update)

text \<open>\<open>heap_from key s xs\<close>: every element at a position from \<open>s\<close> on is at most its children, by the keys.\<close>

definition heap_from :: "('o \<Rightarrow> 'k :: linorder) \<Rightarrow> nat \<Rightarrow> 'o list \<Rightarrow> bool" where
  "heap_from key s xs \<longleftrightarrow> (\<forall>j < length xs. 0 < j \<longrightarrow> s \<le> up j \<longrightarrow> key (xs ! up j) \<le> key (xs ! j))"

text \<open>Successive pops.\<close>

fun pops :: "'o comparison \<Rightarrow> nat \<Rightarrow> 'o list option \<Rightarrow> mp_exn + 'o list" where
  "pops lt 0 heap_in = Inr []"
| "pops lt (Suc n) heap_in =
     (case mod_uheapq_heappop lt heap_in of
        (Inl e, heap_in) \<Rightarrow> Inl e
      | (Inr x, heap_in) \<Rightarrow> (case pops lt n heap_in of Inl e \<Rightarrow> Inl e | Inr xs \<Rightarrow> Inr (x # xs)))"

text \<open>
  A comparison that answers on the elements of \<open>carrier\<close>, and orders them by a key.
\<close>

locale keyed_comparison =
  fixes lt :: "'o comparison"
    and carrier :: "'o \<Rightarrow> bool"
    and key :: "'o \<Rightarrow> 'k :: linorder"
  assumes lt_key: "carrier a \<Longrightarrow> carrier b \<Longrightarrow> lt a b = Inr (Some (key a < key b))"
begin

text \<open>The same, but for the element at \<open>p\<close>, which may be too small for its place.\<close>

definition rising :: "nat \<Rightarrow> nat \<Rightarrow> 'o list \<Rightarrow> bool" where
  "rising s p xs \<longleftrightarrow>
     (\<forall>j < length xs. 0 < j \<longrightarrow> j \<noteq> p \<longrightarrow> s \<le> up j \<longrightarrow> key (xs ! up j) \<le> key (xs ! j)) \<and>
     (\<forall>c < length xs. 0 < c \<longrightarrow> up c = p \<longrightarrow> s < p \<longrightarrow> key (xs ! up p) \<le> key (xs ! c))"

text \<open>The same, but for the element at \<open>p\<close>, which may be too small or too large for its place.\<close>

definition sinking :: "nat \<Rightarrow> nat \<Rightarrow> 'o list \<Rightarrow> bool" where
  "sinking s p xs \<longleftrightarrow>
     (\<forall>j < length xs. 0 < j \<longrightarrow> j \<noteq> p \<longrightarrow> up j \<noteq> p \<longrightarrow> s \<le> up j \<longrightarrow> key (xs ! up j) \<le> key (xs ! j)) \<and>
     (\<forall>c < length xs. 0 < c \<longrightarrow> up c = p \<longrightarrow> s < p \<longrightarrow> key (xs ! up p) \<le> key (xs ! c))"

lemma rising_top:
  assumes "rising s p xs" and "p \<le> s"
  shows "heap_from key s xs"
  unfolding heap_from_def
proof (intro allI impI)
  fix j assume j: "j < length xs" "0 < j" "s \<le> up j"
  then have "j \<noteq> p" using assms(2) up_less [OF j(2)] by linarith
  then show "key (xs ! up j) \<le> key (xs ! j)" using assms(1) j by (simp add: rising_def)
qed

lemma rising_stop: "rising s p xs \<Longrightarrow> key (xs ! up p) \<le> key (xs ! p) \<Longrightarrow> heap_from key s xs"
  unfolding heap_from_def rising_def by metis

lemma rising_step:
  assumes r: "rising s p xs" and p: "s < p" "p < length xs" "below s p" and lt: "key (xs ! p) < key (xs ! up p)"
  shows "rising s (up p) (swap xs p (up p))"
proof -
  have u: "up p < p" "0 < p" using p by auto
  then have u2: "up p < length xs" using p(2) by linarith
  have edge: "key (xs ! up j) \<le> key (xs ! j)" if "j < length xs" "0 < j" "j \<noteq> p" "s \<le> up j" for j using r that by (simp add: rising_def)
  have grand: "key (xs ! up p) \<le> key (xs ! c)" if "c < length xs" "0 < c" "up c = p" for c using r that p(1) by (simp add: rising_def)
  have sw: "swap xs p (up p) ! k = (if k = up p then xs ! p else if k = p then xs ! up p else xs ! k)" for k
    using nth_swap [OF p(2) u2] .
  have "key (swap xs p (up p) ! up j) \<le> key (swap xs p (up p) ! j)"
    if j: "j < length xs" "0 < j" "j \<noteq> up p" "s \<le> up j" for j
  proof (cases "j = p")
    case True
    then show ?thesis using lt u(1) by (simp add: sw less_imp_le)
  next
    case False
    consider "up j = p" | "up j = up p" | "up j \<noteq> p" "up j \<noteq> up p" by blast
    then show ?thesis using edge [OF j(1,2) False j(4)] grand [OF j(1,2)] False j lt u(1) by cases (auto simp: sw)
  qed
  moreover have "key (swap xs p (up p) ! up (up p)) \<le> key (swap xs p (up p) ! c)"
    if c: "c < length xs" "0 < c" "up c = up p" "s < up p" for c
  proof -
    have "s \<le> up (up p)" using below_le [OF below_up [OF below_up [OF p(3,1)] c(4)]] .
    moreover have "up (up p) < up p" using c(4) by simp
    ultimately have e: "key (xs ! up (up p)) \<le> key (xs ! up p)" using edge [of "up p"] u u2 c by auto
    have "up (up p) \<noteq> up p" "up (up p) \<noteq> p" "c \<noteq> up p" using \<open>up (up p) < up p\<close> u(1) up_less [OF c(2)] c(3) by linarith+
    then show ?thesis using e edge [of c] c u by (cases "c = p") (auto simp: sw)
  qed
  ultimately show ?thesis unfolding rising_def by simp
qed

lemma sinking_step:
  assumes k: "sinking s p xs" and p: "s \<le> p" "p < length xs" and c: "c < length xs" "0 < c" "up c = p"
    and least: "\<And>d. d < length xs \<Longrightarrow> 0 < d \<Longrightarrow> up d = p \<Longrightarrow> key (xs ! c) \<le> key (xs ! d)"
  shows "sinking s c (swap xs p c)"
proof -
  have cp: "p < c" using up_less [OF c(2)] c(3) by simp
  have edge: "key (xs ! up j) \<le> key (xs ! j)" if "j < length xs" "0 < j" "j \<noteq> p" "up j \<noteq> p" "s \<le> up j" for j
    using k that by (simp add: sinking_def)
  have grand: "key (xs ! up p) \<le> key (xs ! c)" if "s < p" using k that c by (simp add: sinking_def)
  have sw: "swap xs p c ! i = (if i = c then xs ! p else if i = p then xs ! c else xs ! i)" for i
    using nth_swap [OF p(2) c(1)] .
  have "key (swap xs p c ! up j) \<le> key (swap xs p c ! j)" if j: "j < length xs" "0 < j" "j \<noteq> c" "up j \<noteq> c" "s \<le> up j" for j
  proof (cases "j = p")
    case True
    then have "s < p" "up p \<noteq> p" using j up_less [OF j(2)] by auto
    then show ?thesis using grand True j by (auto simp: sw)
  next
    case False
    then show ?thesis using edge [OF j(1,2) False] least [OF j(1,2)] j by (auto simp: sw)
  qed
  moreover have "key (swap xs p c ! up c) \<le> key (swap xs p c ! d)" if d: "d < length xs" "0 < d" "up d = c" for d
  proof -
    have "d \<noteq> p" "d \<noteq> c" "p \<noteq> c" using up_less [OF d(2)] d(3) cp by auto
    then show ?thesis using edge [of d] d c(3) p(1) cp by (auto simp: sw)
  qed
  ultimately show ?thesis unfolding sinking_def by simp
qed

lemma sinking_leaf:
  assumes "sinking s p xs" and "length xs \<le> 2 * p + 1"
  shows "rising s p xs"
proof -
  have "up j \<noteq> p" if "j < length xs" "0 < j" for j using up_child [OF that(2), of p] that assms(2) by linarith
  then show ?thesis using assms(1) by (simp add: sinking_def rising_def)
qed

lemma heap_sinking: "heap_from key (Suc s) xs \<Longrightarrow> sinking s s xs"
  unfolding heap_from_def sinking_def by (metis Suc_leI le_neq_implies_less less_irrefl)

lemma siftdown_loop_correct:
  assumes "rising s p (items[p := item])" and "p < length items" and "below s p" and "list_all carrier (items[p := item])"
  shows "\<exists>ys. siftdown_loop lt item s p items = (None, ys) \<and> heap_from key s ys \<and> mset ys = mset (items[p := item])"
  using assms
proof (induction p arbitrary: items rule: less_induct)
  case (less p)
  let ?ys = "items[p := item]"
  show ?case
  proof (cases "s < p")
    case False
    then have "heap_from key s ?ys" using rising_top [OF less.prems(1)] by simp
    then show ?thesis using False by (subst siftdown_loop.simps) simp
  next
    case True
    have u: "up p < p" "up p < length items" using True less.prems(2) up_less [of p] by linarith+
    have par: "?ys ! up p = items ! up p" "?ys ! p = item" using u less.prems(2) by simp_all
    have "carrier item" "carrier (items ! up p)"
      using less.prems(2,4) u par by (metis length_list_update list_all_length)+
    then have cmp: "lt item (items ! up p) = Inr (Some (key item < key (items ! up p)))" by (rule lt_key)
    show ?thesis
    proof (cases "key item < key (items ! up p)")
      case False
      then have "heap_from key s ?ys" using rising_stop [OF less.prems(1)] par by simp
      then show ?thesis using False True cmp by (subst siftdown_loop.simps) (simp add: up_def)
    next
      case lt: True
      have sw: "swap ?ys p (up p) = items[p := items ! up p, up p := item]"
        using u less.prems(2) by (simp add: swap_def)
      have "rising s (up p) (swap ?ys p (up p))" using rising_step [OF less.prems(1) True _ less.prems(3)] less.prems(2) lt par by simp
      moreover have "list_all carrier (swap ?ys p (up p))"
        using less.prems(4) mset_swap_eq [of p ?ys "up p"] u less.prems(2) by (metis length_list_update list_all_iff set_mset_mset)
      ultimately have "\<exists>ys. siftdown_loop lt item s (up p) (items[p := items ! up p]) = (None, ys) \<and> heap_from key s ys \<and>
          mset ys = mset (swap ?ys p (up p))"
        using less.IH [OF u(1), of "items[p := items ! up p]"] u below_up [OF less.prems(3) True] unfolding sw by simp
      then show ?thesis using True lt cmp u less.prems(2) by (subst siftdown_loop.simps) (simp add: up_def Let_def)
    qed
  qed
qed

lemma siftup_loop_step:
  assumes k: "sinking s p (items[p := item])" and p: "p < length items" "below s p" and all: "list_all carrier (items[p := item])"
    and c: "2 * p + 1 < length items"
  shows "\<exists>c. (c = 2 * p + 1 \<or> c = 2 * p + 2) \<and> c < length items \<and>
    siftup_loop lt (length items) p items = siftup_loop lt (length items) c (items[p := items ! c]) \<and>
    sinking s c (items[p := items ! c, c := item]) \<and> mset (items[p := items ! c, c := item]) = mset (items[p := item])"
proof -
  let ?ys = "items[p := item]" and ?l = "2 * p + 1"
  define c where "c = (if ?l + 1 < length items \<and> \<not> key (items ! ?l) < key (items ! (?l + 1)) then ?l + 1 else ?l)"
  have cc: "c = ?l \<or> c = ?l + 1" "c < length items" "c \<noteq> p" "0 < c" "up c = p" using c up_child [of c p] by (auto simp: c_def)
  have cmp: "lt (items ! ?l) (items ! (?l + 1)) = Inr (Some (key (items ! ?l) < key (items ! (?l + 1))))" if "?l + 1 < length items"
  proof (rule lt_key)
    have "?ys ! ?l = items ! ?l" "?ys ! (?l + 1) = items ! (?l + 1)" by simp_all
    then show "carrier (items ! ?l)" "carrier (items ! (?l + 1))" using all that by (metis length_list_update list_all_length c)+
  qed
  have loop: "siftup_loop lt (length items) p items = siftup_loop lt (length items) c (items[p := items ! c])"
  proof (cases "?l + 1 < length items")
    case True
    then show ?thesis using cmp [OF True] c by (subst siftup_loop.simps) (simp add: c_def Let_def)
  next
    case False
    then show ?thesis using c by (subst siftup_loop.simps) (simp add: c_def Let_def)
  qed
  have least: "key (?ys ! c) \<le> key (?ys ! d)" if "d < length ?ys" "0 < d" "up d = p" for d
    using that up_child [of d p] cc by (auto simp: c_def)
  have sw: "swap ?ys p c = items[p := items ! c, c := item]" using cc(2,3) p(1) by (simp add: swap_def)
  have "sinking s c (swap ?ys p c)"
  proof (rule sinking_step [OF k below_le [OF p(2)] _ _ cc(4,5)])
    show "p < length ?ys" "c < length ?ys" using p(1) cc(2) by simp_all
    show "key (?ys ! c) \<le> key (?ys ! d)" if "d < length ?ys" "0 < d" "up d = p" for d using that by (rule least)
  qed
  moreover have "mset (swap ?ys p c) = mset ?ys" using p(1) cc(2) by (intro mset_swap_eq) simp_all
  ultimately show ?thesis using cc loop unfolding sw by (intro exI [of _ c]) auto
qed

lemma siftup_loop_correct:
  assumes "sinking s p (items[p := item])" and "p < length items" and "below s p" and "list_all carrier (items[p := item])"
  shows "\<exists>q ys. siftup_loop lt (length items) p items = (Inr q, ys) \<and> q < length ys \<and> below s q \<and>
    rising s q (ys[q := item]) \<and> mset (ys[q := item]) = mset (items[p := item])"
  using assms
proof (induction "length items - p" arbitrary: p items rule: less_induct)
  case less
  show ?case
  proof (cases "2 * p + 1 < length items")
    case False
    then have "siftup_loop lt (length items) p items = (Inr p, items)" by (subst siftup_loop.simps) (simp add: Let_def)
    moreover have "rising s p (items[p := item])" using sinking_leaf [OF less.prems(1)] False by simp
    ultimately show ?thesis using less.prems by auto
  next
    case True
    obtain c where c: "c = 2 * p + 1 \<or> c = 2 * p + 2" "c < length items"
        "siftup_loop lt (length items) p items = siftup_loop lt (length items) c (items[p := items ! c])"
        "sinking s c (items[p := items ! c, c := item])" "mset (items[p := items ! c, c := item]) = mset (items[p := item])"
      using siftup_loop_step [OF less.prems True] by blast
    have "below s c" using below_child [OF less.prems(3), of c] up_child [of c p] c(1) by auto
    moreover have "list_all carrier (items[p := items ! c, c := item])" using less.prems(4) c(5) by (metis list_all_iff set_mset_mset)
    moreover have "length (items[p := items ! c]) - c < length items - p" using c(1,2) by auto
    ultimately show ?thesis using less.hyps [of "items[p := items ! c]" c] c by auto
  qed
qed

lemma siftdown_correct:
  assumes "rising s p items" and "p < length items" and "below s p" and "list_all carrier items"
  shows "\<exists>ys. uheapq_heap_siftdown lt s p items = (None, ys) \<and> heap_from key s ys \<and> mset ys = mset items"
  using siftdown_loop_correct [of s p items "items ! p"] assms by (simp add: uheapq_heap_siftdown_def)

lemma siftup_correct:
  assumes "heap_from key (Suc p) items" and "p < length items" and "list_all carrier items"
  shows "\<exists>ys. uheapq_heap_siftup lt p items = (None, ys) \<and> heap_from key p ys \<and> mset ys = mset items"
proof -
  obtain q ys where q: "siftup_loop lt (length items) p items = (Inr q, ys)" "q < length ys" "below p q"
      "rising p q (ys[q := items ! p])" "mset (ys[q := items ! p]) = mset items"
    using siftup_loop_correct [of p p items "items ! p"] heap_sinking [OF assms(1)] assms(2,3) by auto
  have "list_all carrier (ys[q := items ! p])" using assms(3) q(5) by (metis list_all_iff set_mset_mset)
  from siftdown_correct [OF q(4) _ q(3) this] q show ?thesis by (simp add: uheapq_heap_siftup_def)
qed

section \<open>The functions of the module\<close>

lemma heap_top: "heap_from key 0 xs \<Longrightarrow> j < length xs \<Longrightarrow> key (xs ! 0) \<le> key (xs ! j)"
proof (induction j rule: less_induct)
  case (less j)
  show ?case
  proof (cases "j = 0")
    case False
    then have "key (xs ! 0) \<le> key (xs ! up j)" "key (xs ! up j) \<le> key (xs ! j)"
      using less.IH [of "up j"] less.prems up_bound [OF less.prems(2)] by (simp_all add: heap_from_def)
    then show ?thesis by (rule order_trans)
  qed simp
qed

lemma heappush_correct:
  assumes "heap_from key 0 h" and "list_all carrier h" and "carrier x"
  shows "\<exists>h'. mod_uheapq_heappush lt (Some h) x = (None, Some h') \<and> heap_from key 0 h' \<and> mset h' = add_mset x (mset h)"
proof -
  have "rising 0 (length h) (h @ [x])"
    unfolding rising_def
  proof (intro conjI allI impI)
    fix j assume j: "j < length (h @ [x])" "0 < j" "j \<noteq> length h"
    then have "j < length h" by simp
    then show "key ((h @ [x]) ! up j) \<le> key ((h @ [x]) ! j)"
      using assms(1) j(2) up_bound [of j "length h"] by (simp add: heap_from_def nth_append)
  next
    fix c assume "c < length (h @ [x])" "0 < c" "up c = length h"
    then show "key ((h @ [x]) ! up (length h)) \<le> key ((h @ [x]) ! c)" using up_less [of c] by simp
  qed
  from siftdown_correct [OF this] assms(2,3) show ?thesis by (auto simp: mod_uheapq_heappush_def uheapq_get_heap_def)
qed

lemma heappop_correct:
  assumes h: "heap_from key 0 h" and all: "list_all carrier h" and ne: "h \<noteq> []"
  shows "\<exists>x h'. mod_uheapq_heappop lt (Some h) = (Inr x, Some h') \<and> heap_from key 0 h' \<and> mset h = add_mset x (mset h') \<and>
    (\<forall>y \<in> set h. key x \<le> key y)"
proof -
  obtain x ys where hx: "h = x # ys" using ne by (cases h) auto
  have min: "\<forall>y \<in> set h. key x \<le> key y" using heap_top [OF h] hx by (metis in_set_conv_nth nth_Cons_0)
  show ?thesis
  proof (cases ys rule: rev_cases)
    case Nil
    then show ?thesis using hx by (simp add: mod_uheapq_heappop_def uheapq_get_heap_def heap_from_def)
  next
    case (snoc zs l)
    let ?h = "l # zs"
    have "heap_from key (Suc 0) ?h" unfolding heap_from_def
    proof (intro allI impI)
      fix j assume j: "j < length ?h" "0 < j" "Suc 0 \<le> up j"
      then have "up j < length ?h" using up_less [of j] by linarith
      then have "h ! j = ?h ! j" "h ! up j = ?h ! up j" using j by (auto simp: hx snoc nth_Cons' nth_append)
      moreover have "key (h ! up j) \<le> key (h ! j)" using h j(1,2) by (simp add: heap_from_def hx snoc del: nth_Cons_pos)
      ultimately show "key (?h ! up j) \<le> key (?h ! j)" by (simp del: nth_Cons_pos)
    qed
    from siftup_correct [OF this] all obtain h' where h': "uheapq_heap_siftup lt 0 ?h = (None, h')" "heap_from key 0 h'" "mset h' = mset ?h"
      by (auto simp: hx snoc)
    have "mod_uheapq_heappop lt (Some h) = (Inr x, Some h')"
      using h'(1) by (simp add: mod_uheapq_heappop_def uheapq_get_heap_def hx snoc nth_append)
    then show ?thesis using h' min by (simp add: hx snoc)
  qed
qed

lemma heapify_loop_correct:
  assumes "heap_from key n h" and "n \<le> length h" and "list_all carrier h"
  shows "\<exists>h'. heapify_loop lt n h = (None, h') \<and> heap_from key 0 h' \<and> mset h' = mset h"
  using assms
proof (induction n arbitrary: h)
  case (Suc n)
  obtain g where g: "uheapq_heap_siftup lt n h = (None, g)" "heap_from key n g" "mset g = mset h"
    using siftup_correct [OF Suc.prems(1) _ Suc.prems(3)] Suc.prems(2) by auto
  have "length g = length h" "list_all carrier g" using g(3) Suc.prems(3) by (metis size_mset, metis list_all_iff set_mset_mset)
  then show ?case using Suc.IH [OF g(2)] Suc.prems(2) g by simp
qed simp

lemma heapify_correct:
  assumes "list_all carrier h"
  shows "\<exists>h'. mod_uheapq_heapify lt (Some h) = (None, Some h') \<and> heap_from key 0 h' \<and> mset h' = mset h"
proof -
  have "heap_from key (length h div 2) h" unfolding heap_from_def up_def by (auto simp: less_eq_div_iff_mult_less_eq)
  from heapify_loop_correct [OF this _ assms] show ?thesis by (auto simp: mod_uheapq_heapify_def uheapq_get_heap_def)
qed

lemma pops_sorted:
  assumes "heap_from key 0 h" and "list_all carrier h"
  shows "\<exists>xs. pops lt (length h) (Some h) = Inr xs \<and> mset xs = mset h \<and> sorted (map key xs)"
  using assms
proof (induction "length h" arbitrary: h)
  case 0
  then show ?case by simp
next
  case (Suc n)
  have "h \<noteq> []" using Suc.hyps(2) by auto
  then obtain x h' where pop: "mod_uheapq_heappop lt (Some h) = (Inr x, Some h')" "heap_from key 0 h'" "mset h = add_mset x (mset h')"
      "\<forall>y \<in> set h. key x \<le> key y" using heappop_correct [OF Suc.prems] by blast
  have n: "n = length h'" using Suc.hyps(2) pop(3) by (metis Suc_inject size_add_mset size_mset)
  have set: "set h = insert x (set h')" using pop(3) by (metis set_mset_add_mset_insert set_mset_mset)
  then have "list_all carrier h'" using Suc.prems(2) by (simp add: list_all_iff)
  then obtain xs where xs: "pops lt (length h') (Some h') = Inr xs" "mset xs = mset h'" "sorted (map key xs)"
    using Suc.hyps(1) [OF n pop(2)] by blast
  have "set xs = set h'" using xs(2) by (metis set_mset_mset)
  then show ?case using xs pop n set Suc.hyps(2) [symmetric] by simp
qed

end

end
