(* ===== verification/Utimeq.thy ===== *)
theory Utimeq
  imports HeapQ "HOL-Library.Code_Target_Nat"
begin

text \<open>
  The queue of timed events of \<^verbatim>\<open>extmod/modutimeq.c\<close>: a heap of pointers to entries of a fixed array, with a list of
  free entries threaded through it and in each queued entry its position in the heap.
\<close>

section \<open>The operations\<close>

text \<open>The union of an entry: its time while it is queued, the next free entry while it is free.\<close>

datatype qlink = TIME nat | NEXT_FREE "nat option"

record 'o qentry =
  qe_link :: qlink
  qe_pos :: nat
  qe_callback :: "'o option"
  qe_args :: "'o option"

text \<open>Pointers to entries are indices of the array \<open>items\<close>; \<open>None\<close> is the null pointer.\<close>

record 'o utimeq =
  uq_alloc :: nat
  uq_len :: nat
  uq_heap :: "nat option list"
  uq_items :: "'o qentry list"
  uq_free :: "nat option"

text \<open>The period of the ticks counter: one more than the largest small integer.\<close>

definition MODULO :: nat where "MODULO = 4611686018427387904"

text \<open>Only times of queued entries are read.\<close>

definition qe_time :: "'o qentry \<Rightarrow> nat" where
  "qe_time e = (case qe_link e of TIME t \<Rightarrow> t | NEXT_FREE p \<Rightarrow> 0)"

definition time_less :: "nat \<Rightarrow> nat \<Rightarrow> bool" where
  "time_less item_tm parent_tm =
     (let res = u64 (parent_tm + 2 ^ 64 - item_tm);
          res = (if res \<ge> 2 ^ 63 then u64 (res + MODULO) else res)
      in res \<noteq> 0 \<and> res < MODULO div 2)"

definition time_less_than :: "'o qentry \<Rightarrow> 'o qentry \<Rightarrow> bool" where
  "time_less_than item parent = time_less (qe_time item) (qe_time parent)"

text \<open>With no entries the loop that links them runs past the object: there is no result.\<close>

definition utimeq_make_new :: "nat \<Rightarrow> 'o utimeq option" where
  "utimeq_make_new alloc =
     (if alloc = 0 then None
      else Some \<lparr>uq_alloc = alloc, uq_len = 0, uq_heap = replicate alloc None,
        uq_items = map (\<lambda>i. \<lparr>qe_link = NEXT_FREE (if i + 1 < alloc then Some (i + 1) else None), qe_pos = 0,
          qe_callback = None, qe_args = None\<rparr>) [0..<alloc],
        uq_free = Some 0\<rparr>)"

text \<open>\<open>heap[pos] = item; item->pos = pos\<close>\<close>

definition place :: "nat \<Rightarrow> nat \<Rightarrow> 'o utimeq \<Rightarrow> 'o utimeq" where
  "place pos item q = q\<lparr>uq_heap := (uq_heap q)[pos := Some item],
     uq_items := (uq_items q)[item := (uq_items q ! item)\<lparr>qe_pos := pos\<rparr>]\<rparr>"

definition entry_at :: "'o utimeq \<Rightarrow> nat \<Rightarrow> nat" where
  "entry_at q pos = the (uq_heap q ! pos)"

function utimeq_siftdown_loop :: "nat \<Rightarrow> nat \<Rightarrow> nat \<Rightarrow> 'o utimeq \<Rightarrow> 'o utimeq" where
  "utimeq_siftdown_loop item start_pos pos q =
     (if pos > start_pos then
        let parent_pos = (pos - 1) div 2;
            parent = entry_at q parent_pos
        in if time_less_than (uq_items q ! item) (uq_items q ! parent)
           then utimeq_siftdown_loop item start_pos parent_pos (place pos parent q)
           else place pos item q
      else place pos item q)"
  by pat_completeness auto
termination
  by (relation "measure (\<lambda>(item, start_pos, pos, q). pos)") auto

declare utimeq_siftdown_loop.simps [simp del]

definition utimeq_heap_siftdown :: "nat \<Rightarrow> nat \<Rightarrow> 'o utimeq \<Rightarrow> 'o utimeq" where
  "utimeq_heap_siftdown start_pos pos q = utimeq_siftdown_loop (entry_at q pos) start_pos pos q"

function utimeq_siftup_loop :: "nat \<Rightarrow> nat \<Rightarrow> 'o utimeq \<Rightarrow> nat \<times> 'o utimeq" where
  "utimeq_siftup_loop end_pos pos q =
     (let child_pos = 2 * pos + 1
      in if child_pos < end_pos then
           let child_pos =
             (if child_pos + 1 < end_pos \<and>
                 \<not> time_less_than (uq_items q ! entry_at q child_pos) (uq_items q ! entry_at q (child_pos + 1))
              then child_pos + 1 else child_pos)
           in utimeq_siftup_loop end_pos child_pos (place pos (entry_at q child_pos) q)
         else (pos, q))"
  by pat_completeness auto
termination
  by (relation "measure (\<lambda>(end_pos, pos, q). end_pos - pos)") auto

declare utimeq_siftup_loop.simps [simp del]

definition utimeq_heap_siftup :: "nat \<Rightarrow> 'o utimeq \<Rightarrow> 'o utimeq" where
  "utimeq_heap_siftup pos q =
     (let item = entry_at q pos
      in case utimeq_siftup_loop (uq_len q) pos q of
           (pos', q) \<Rightarrow> utimeq_heap_siftdown pos pos' (place pos' item q))"

definition mod_utimeq_heappush :: "int \<Rightarrow> 'o \<Rightarrow> 'o \<Rightarrow> 'o utimeq \<Rightarrow> (mp_exn + nat) \<times> 'o utimeq" where
  "mod_utimeq_heappush time callback args q =
     (if uq_len q = uq_alloc q then (Inl IndexError, q)
      else
        let item = the (uq_free q);
            q = q\<lparr>uq_free := (case qe_link (uq_items q ! item) of NEXT_FREE p \<Rightarrow> p | TIME t \<Rightarrow> None)\<rparr>;
            q = q\<lparr>uq_items := (uq_items q)[item := (uq_items q ! item)
              \<lparr>qe_link := TIME (to_u64 time), qe_callback := Some callback, qe_args := Some args\<rparr>]\<rparr>;
            q = q\<lparr>uq_heap := (uq_heap q)[uq_len q := Some item]\<rparr>;
            q = utimeq_heap_siftdown 0 (uq_len q) q;
            q = q\<lparr>uq_len := uq_len q + 1\<rparr>
        in (Inr item, q))"

text \<open>Free the entry \<open>item\<close> and shorten the queue, as \<open>pop\<close> and \<open>remove\<close> do.\<close>

definition release :: "nat \<Rightarrow> 'o utimeq \<Rightarrow> 'o utimeq" where
  "release item q =
     (let q = q\<lparr>uq_items := (uq_items q)[item := (uq_items q ! item)
            \<lparr>qe_callback := None, qe_args := None, qe_link := NEXT_FREE (uq_free q)\<rparr>]\<rparr>;
          q = q\<lparr>uq_free := Some item\<rparr>
      in q\<lparr>uq_len := uq_len q - 1\<rparr>)"

text \<open>
  The second argument says whether \<open>list_ref\<close> is a list of at least three elements; the result is what is stored
  in the first three.
\<close>

definition mod_utimeq_heappop :: "bool \<Rightarrow> 'o utimeq \<Rightarrow> (mp_exn + int \<times> 'o option \<times> 'o option) \<times> 'o utimeq" where
  "mod_utimeq_heappop list_ref q =
     (if uq_len q = 0 then (Inl IndexError, q)
      else if \<not> list_ref then (Inl TypeError, q)
      else
        let item = entry_at q 0;
            e = uq_items q ! item;
            ret = (s64 (int (qe_time e)), qe_callback e, qe_args e);
            q = release item q
        in if uq_len q \<noteq> 0 then
             let q = q\<lparr>uq_heap := (uq_heap q)[0 := uq_heap q ! uq_len q]\<rparr>;
                 q = q\<lparr>uq_heap := (uq_heap q)[uq_len q := None]\<rparr>
             in (Inr ret, utimeq_heap_siftup 0 q)
           else (Inr ret, q))"

definition mod_utimeq_remove :: "int \<Rightarrow> 'o utimeq \<Rightarrow> (mp_exn + unit) \<times> 'o utimeq" where
  "mod_utimeq_remove idx q =
     (if uq_len q = 0 then (Inl IndexError, q)
      else if idx < 0 \<or> nat idx \<ge> uq_alloc q then (Inl IndexError, q)
      else
        let item = nat idx;
            pos = qe_pos (uq_items q ! item)
        in if pos \<ge> uq_len q \<or> qe_callback (uq_items q ! item) = None then (Inl IndexError, q)
           else
             let q = release item q;
                 q = (if pos \<noteq> uq_len q then
                        utimeq_heap_siftup pos (q\<lparr>uq_heap := (uq_heap q)[pos := uq_heap q ! uq_len q]\<rparr>)
                      else q)
             in (Inr (), q\<lparr>uq_heap := (uq_heap q)[uq_len q := None]\<rparr>))"

definition mod_utimeq_peektime :: "'o utimeq \<Rightarrow> mp_exn + int" where
  "mod_utimeq_peektime q =
     (if uq_len q = 0 then Inl IndexError else Inr (s64 (int (qe_time (uq_items q ! entry_at q 0)))))"

definition utimeq_bool :: "'o utimeq \<Rightarrow> bool" where
  "utimeq_bool q \<longleftrightarrow> uq_len q \<noteq> 0"

section \<open>Sifting pointers\<close>

text \<open>The first \<open>n\<close> pointers of the heap, and the comparison of entries by their index.\<close>

definition view :: "nat \<Rightarrow> 'o utimeq \<Rightarrow> nat list" where
  "view n q = map the (take n (uq_heap q))"

definition entry_less :: "'o utimeq \<Rightarrow> nat comparison" where
  "entry_less q i j = Inr (Some (time_less_than (uq_items q ! i) (uq_items q ! j)))"

text \<open>\<open>same_entries q q'\<close>: the entries of \<open>q'\<close> are those of \<open>q\<close>, at other positions of the heap.\<close>

definition same_entries :: "'o utimeq \<Rightarrow> 'o utimeq \<Rightarrow> bool" where
  "same_entries q q' \<longleftrightarrow> uq_alloc q' = uq_alloc q \<and> uq_len q' = uq_len q \<and> uq_free q' = uq_free q \<and>
     length (uq_heap q') = length (uq_heap q) \<and> length (uq_items q') = length (uq_items q) \<and>
     (\<forall>i. qe_link (uq_items q' ! i) = qe_link (uq_items q ! i) \<and> qe_callback (uq_items q' ! i) = qe_callback (uq_items q ! i) \<and>
       qe_args (uq_items q' ! i) = qe_args (uq_items q ! i))"

definition all_set :: "nat \<Rightarrow> 'o utimeq \<Rightarrow> bool" where
  "all_set n q \<longleftrightarrow> n \<le> length (uq_heap q) \<and> list_all (\<lambda>x. x \<noteq> None) (take n (uq_heap q))"

lemma same_entries_refl [simp]: "same_entries q q"
  by (simp add: same_entries_def)

lemma same_entries_trans: "same_entries q r \<Longrightarrow> same_entries r t \<Longrightarrow> same_entries q t"
  by (simp add: same_entries_def)

lemma same_entries_place: "same_entries q (place pos item q)"
proof -
  have "(uq_items q)[item := (uq_items q ! item)\<lparr>qe_pos := pos\<rparr>] ! i =
      (if i = item \<and> item < length (uq_items q) then (uq_items q ! item)\<lparr>qe_pos := pos\<rparr> else uq_items q ! i)" for i
    by (cases "item < length (uq_items q)") (auto simp: nth_list_update list_update_beyond)
  then show ?thesis by (simp add: same_entries_def place_def)
qed

lemma time_less_than_same: "same_entries q q' \<Longrightarrow> time_less_than (uq_items q' ! i) (uq_items q' ! j) = time_less_than (uq_items q ! i) (uq_items q ! j)"
  by (simp add: same_entries_def time_less_than_def qe_time_def)

lemma entry_less_same: "same_entries q q' \<Longrightarrow> entry_less q' = entry_less q"
  by (intro ext) (simp add: entry_less_def time_less_than_same)

lemma view_place: "n \<le> length (uq_heap q) \<Longrightarrow> pos < n \<Longrightarrow> view n (place pos item q) = (view n q)[pos := item]"
  by (simp add: view_def place_def take_update_swap map_update)

lemma length_view [simp]: "n \<le> length (uq_heap q) \<Longrightarrow> length (view n q) = n"
  by (simp add: view_def)

lemma nth_view: "n \<le> length (uq_heap q) \<Longrightarrow> k < n \<Longrightarrow> view n q ! k = entry_at q k"
  by (simp add: view_def entry_at_def)

lemma all_set_place: "all_set n q \<Longrightarrow> all_set n (place pos item q)"
  by (auto simp: all_set_def place_def take_update_swap list_all_iff dest: set_update_subset_insert [THEN subsetD])

lemma drop_place: "pos < n \<Longrightarrow> drop n (uq_heap (place pos item q)) = drop n (uq_heap q)"
  by (simp add: place_def)

text \<open>Every entry of the first \<open>n\<close> but the one at \<open>p\<close> knows its position.\<close>

definition positions_but :: "nat \<Rightarrow> nat \<Rightarrow> 'o utimeq \<Rightarrow> bool" where
  "positions_but n p q \<longleftrightarrow> (\<forall>k < n. k \<noteq> p \<longrightarrow> qe_pos (uq_items q ! entry_at q k) = k)"

definition positions :: "nat \<Rightarrow> 'o utimeq \<Rightarrow> bool" where
  "positions n q \<longleftrightarrow> (\<forall>k < n. qe_pos (uq_items q ! entry_at q k) = k)"

lemma entry_at_place: "pos < length (uq_heap q) \<Longrightarrow> entry_at (place pos item q) k = (if k = pos then item else entry_at q k)"
  by (simp add: entry_at_def place_def)

lemma qe_pos_place:
  "item < length (uq_items q) \<Longrightarrow> qe_pos (uq_items (place pos item q) ! i) = (if i = item then pos else qe_pos (uq_items q ! i))"
  by (simp add: place_def nth_list_update)

text \<open>The state of a sift: a hole at \<open>p\<close> that \<open>item\<close> is to fill.\<close>

definition hole :: "nat \<Rightarrow> nat \<Rightarrow> nat \<Rightarrow> 'o utimeq \<Rightarrow> bool" where
  "hole n p item q \<longleftrightarrow> n \<le> length (uq_heap q) \<and> p < n \<and> distinct ((view n q)[p := item]) \<and>
     set ((view n q)[p := item]) \<subseteq> {..<length (uq_items q)} \<and> positions_but n p q"

lemma hole_at:
  assumes "hole n p item q" and "k < n" and "k \<noteq> p"
  shows "entry_at q k < length (uq_items q)" and "entry_at q k \<noteq> item" and "item < length (uq_items q)"
    and "j < n \<Longrightarrow> j \<noteq> p \<Longrightarrow> j \<noteq> k \<Longrightarrow> entry_at q j \<noteq> entry_at q k"
proof -
  let ?v = "(view n q)[p := item]"
  have n: "n \<le> length (uq_heap q)" "p < n" "distinct ?v" and sub: "set ?v \<subseteq> {..<length (uq_items q)}"
    using assms(1) by (simp_all add: hole_def)
  have len: "length ?v = n" and nth: "?v ! i = (if i = p then item else entry_at q i)" if "i < n" for i
    using n that by (simp_all add: nth_view nth_list_update)
  have "?v ! k \<in> set ?v" "?v ! p \<in> set ?v" using assms(2) n(2) len [OF n(2)] by (intro nth_mem; simp)+
  then show "entry_at q k < length (uq_items q)" "item < length (uq_items q)" using sub nth [of k] nth [of p] assms n(2) by auto
  show "entry_at q k \<noteq> item" using nth_eq_iff_index_eq [OF n(3), of k p] nth [of k] nth [of p] assms n(2) len [OF n(2)] by auto
  show "entry_at q j \<noteq> entry_at q k" if "j < n" "j \<noteq> p" "j \<noteq> k"
    using nth_eq_iff_index_eq [OF n(3), of j k] nth [of j] nth [of k] assms that len [OF n(2)] by auto
qed

lemma hole_move:
  assumes h: "hole n p item q" and c: "c < n" "c \<noteq> p"
  shows "hole n c item (place p (entry_at q c) q)"
proof -
  let ?q = "place p (entry_at q c) q"
  have n: "n \<le> length (uq_heap q)" "p < n" and len: "p < length (uq_heap q)" using h by (auto simp: hole_def)
  note hc = hole_at [OF h c]
  have v: "(view n ?q)[c := item] = swap ((view n q)[p := item]) p c"
    using n c by (simp add: view_place swap_def nth_view list_update_swap)
  have "distinct ((view n ?q)[c := item])" "set ((view n ?q)[c := item]) = set ((view n q)[p := item])"
    using h n c mset_swap_eq [of p "(view n q)[p := item]" c] unfolding v
    by (metis hole_def length_list_update length_view mset_eq_imp_distinct_iff, metis length_list_update length_view set_mset_mset)
  moreover have "positions_but n c ?q"
    unfolding positions_but_def
  proof (intro allI impI)
    fix k assume k: "k < n" "k \<noteq> c"
    show "qe_pos (uq_items ?q ! entry_at ?q k) = k"
    proof (cases "k = p")
      case True
      then show ?thesis by (simp add: entry_at_place [OF len] qe_pos_place [OF hc(1)])
    next
      case False
      then show ?thesis using hc(4) [OF k(1) False k(2)] h k
        by (simp add: entry_at_place [OF len] qe_pos_place [OF hc(1)] hole_def positions_but_def)
    qed
  qed
  ultimately show ?thesis using h c n unfolding hole_def by (simp add: place_def)
qed

lemma hole_fill:
  assumes h: "hole n p item q"
  shows "positions n (place p item q)" and "view n (place p item q) = (view n q)[p := item]"
proof -
  have n: "n \<le> length (uq_heap q)" "p < n" and len: "p < length (uq_heap q)" using h by (auto simp: hole_def)
  show "view n (place p item q) = (view n q)[p := item]" using n by (rule view_place)
  have "item \<in> set ((view n q)[p := item])" using n by (simp add: set_update_memI)
  then have i: "item < length (uq_items q)" using h by (auto simp: hole_def)
  show "positions n (place p item q)" unfolding positions_def
  proof (intro allI impI)
    fix k assume k: "k < n"
    show "qe_pos (uq_items (place p item q) ! entry_at (place p item q) k) = k"
      using hole_at(2) [OF h k] h k by (auto simp: entry_at_place [OF len] qe_pos_place [OF i] hole_def positions_but_def)
  qed
qed

text \<open>\<open>sifted n q ys q'\<close>: the first \<open>n\<close> pointers of \<open>q'\<close> are those of \<open>ys\<close> in some order, and all else is as it should be.\<close>

definition sifted :: "nat \<Rightarrow> 'o utimeq \<Rightarrow> nat list \<Rightarrow> 'o utimeq \<Rightarrow> bool" where
  "sifted n q ys q' \<longleftrightarrow> same_entries q q' \<and> all_set n q' \<and> drop n (uq_heap q') = drop n (uq_heap q) \<and> mset (view n q') = mset ys"

lemma sifted_place:
  assumes h: "hole n p item q" and set: "all_set n q" and c: "c < n" "c \<noteq> p"
    and s: "sifted n (place p (entry_at q c) q) ((view n (place p (entry_at q c) q))[c := item]) q'"
  shows "sifted n q ((view n q)[p := item]) q'"
proof -
  have n: "n \<le> length (uq_heap q)" "p < n" using h by (simp_all add: hole_def)
  have "(view n (place p (entry_at q c) q))[c := item] = swap ((view n q)[p := item]) p c"
    using n c by (simp add: view_place swap_def nth_view list_update_swap)
  then have "mset ((view n (place p (entry_at q c) q))[c := item]) = mset ((view n q)[p := item])"
    using mset_swap_eq [of p "(view n q)[p := item]" c] n c by simp
  then show ?thesis using s same_entries_trans [OF same_entries_place [of q p "entry_at q c"], of q'] drop_place [OF n(2)]
    by (simp add: sifted_def)
qed

lemma utimeq_siftdown_refines:
  assumes "hole n p item q" and "all_set n q"
  shows "siftdown_loop (entry_less q) item s p (view n q) = (None, view n (utimeq_siftdown_loop item s p q)) \<and>
    sifted n q ((view n q)[p := item]) (utimeq_siftdown_loop item s p q) \<and> positions n (utimeq_siftdown_loop item s p q)"
  using assms
proof (induction p arbitrary: q rule: less_induct)
  case (less p)
  have n: "n \<le> length (uq_heap q)" "p < n" using less.prems(1) by (simp_all add: hole_def)
  show ?case
  proof (cases "s < p \<and> time_less_than (uq_items q ! item) (uq_items q ! entry_at q (up p))")
    case False
    have "sifted n q ((view n q)[p := item]) (place p item q)"
      using hole_fill(2) [OF less.prems(1)] all_set_place [OF less.prems(2)] drop_place [OF n(2)]
      by (simp add: sifted_def same_entries_place)
    moreover have "siftdown_loop (entry_less q) item s p (view n q) = (None, (view n q)[p := item])"
      using False n up_bound [OF n(2)] by (subst siftdown_loop.simps) (auto simp: Let_def entry_less_def nth_view up_def)
    moreover have "utimeq_siftdown_loop item s p q = place p item q"
      using False by (subst utimeq_siftdown_loop.simps) (auto simp: Let_def up_def)
    ultimately show ?thesis using hole_fill [OF less.prems(1)] by simp
  next
    case True
    let ?q = "place p (entry_at q (up p)) q"
    have u: "up p < p" "up p < n" "up p \<noteq> p" using True n(2) up_less [of p] by linarith+
    have l1: "siftdown_loop (entry_less q) item s p (view n q) = siftdown_loop (entry_less ?q) item s (up p) (view n ?q)"
      using True n u unfolding entry_less_same [OF same_entries_place] view_place [OF n]
      by (subst siftdown_loop.simps) (simp add: Let_def entry_less_def nth_view up_def)
    have l2: "utimeq_siftdown_loop item s p q = utimeq_siftdown_loop item s (up p) ?q"
      using True by (subst utimeq_siftdown_loop.simps) (simp add: Let_def up_def)
    show ?thesis unfolding l1 l2
      using less.IH [OF u(1) hole_move [OF less.prems(1) u(2,3)] all_set_place [OF less.prems(2)]]
        sifted_place [OF less.prems u(2,3)] by blast
  qed
qed

lemma utimeq_siftup_refines:
  assumes "hole n p item q" and "all_set n q"
  shows "\<exists>r q'. utimeq_siftup_loop n p q = (r, q') \<and> siftup_loop (entry_less q) n p (view n q) = (Inr r, view n q') \<and>
    hole n r item q' \<and> sifted n q ((view n q)[p := item]) (place r item q') \<and> all_set n q' \<and> same_entries q q' \<and>
    drop n (uq_heap q') = drop n (uq_heap q)"
  using assms
proof (induction "n - p" arbitrary: p q rule: less_induct)
  case less
  have n: "n \<le> length (uq_heap q)" "p < n" using less.prems(1) by (simp_all add: hole_def)
  show ?case
  proof (cases "2 * p + 1 < n")
    case False
    have "sifted n q ((view n q)[p := item]) (place p item q)"
      using hole_fill(2) [OF less.prems(1)] all_set_place [OF less.prems(2)] drop_place [OF n(2)]
      by (simp add: sifted_def same_entries_place)
    moreover have "utimeq_siftup_loop n p q = (p, q)" using False by (subst utimeq_siftup_loop.simps) (simp add: Let_def)
    moreover have "siftup_loop (entry_less q) n p (view n q) = (Inr p, view n q)"
      using False by (subst siftup_loop.simps) (simp add: Let_def)
    ultimately show ?thesis using less.prems by simp
  next
    case True
    define c where "c = (if 2 * p + 1 + 1 < n \<and>
      \<not> time_less_than (uq_items q ! entry_at q (2 * p + 1)) (uq_items q ! entry_at q (2 * p + 1 + 1)) then 2 * p + 1 + 1 else 2 * p + 1)"
    let ?q = "place p (entry_at q c) q"
    have c: "c < n" "c \<noteq> p" "n - c < n - p" using True by (auto simp: c_def)
    have l1: "utimeq_siftup_loop n p q = utimeq_siftup_loop n c ?q"
      using True by (subst utimeq_siftup_loop.simps) (simp add: Let_def c_def)
    have l2: "siftup_loop (entry_less q) n p (view n q) = siftup_loop (entry_less ?q) n c (view n ?q)"
      using True n c(1) unfolding entry_less_same [OF same_entries_place] view_place [OF n]
      by (subst siftup_loop.simps) (simp add: Let_def c_def entry_less_def nth_view)
    obtain r q' where r: "utimeq_siftup_loop n c ?q = (r, q')" "siftup_loop (entry_less ?q) n c (view n ?q) = (Inr r, view n q')"
        "hole n r item q'" "sifted n ?q ((view n ?q)[c := item]) (place r item q')" "all_set n q'" "same_entries ?q q'"
        "drop n (uq_heap q') = drop n (uq_heap ?q)"
      using less.hyps [OF c(3) hole_move [OF less.prems(1) c(1,2)] all_set_place [OF less.prems(2)]] by blast
    show ?thesis unfolding l1 l2
      using r sifted_place [OF less.prems c(1,2) r(4)] same_entries_trans [OF same_entries_place r(6)] drop_place [OF n(2)] by auto
  qed
qed

lemma siftdown_queue:
  assumes "all_set n q" and "p < n" and "distinct (view n q)" and "set (view n q) \<subseteq> {..<length (uq_items q)}" and "positions_but n p q"
  shows "uheapq_heap_siftdown (entry_less q) s p (view n q) = (None, view n (utimeq_heap_siftdown s p q))"
    and "sifted n q (view n q) (utimeq_heap_siftdown s p q)" and "positions n (utimeq_heap_siftdown s p q)"
proof -
  have n: "n \<le> length (uq_heap q)" using assms(1) by (simp add: all_set_def)
  have id: "(view n q)[p := entry_at q p] = view n q" using nth_view [OF n assms(2)] by (metis list_update_id)
  have "hole n p (entry_at q p) q" using assms n id by (simp add: hole_def)
  from utimeq_siftdown_refines [OF this assms(1), of s]
  show "uheapq_heap_siftdown (entry_less q) s p (view n q) = (None, view n (utimeq_heap_siftdown s p q))"
    "sifted n q (view n q) (utimeq_heap_siftdown s p q)" "positions n (utimeq_heap_siftdown s p q)"
    by (simp_all add: uheapq_heap_siftdown_def utimeq_heap_siftdown_def nth_view [OF n assms(2)] id)
qed

lemma siftup_queue:
  assumes "all_set n q" and "p < n" and "distinct (view n q)" and "set (view n q) \<subseteq> {..<length (uq_items q)}"
    and "positions_but n p q" and "uq_len q = n"
  shows "uheapq_heap_siftup (entry_less q) p (view n q) = (None, view n (utimeq_heap_siftup p q))"
    and "sifted n q (view n q) (utimeq_heap_siftup p q)" and "positions n (utimeq_heap_siftup p q)"
proof -
  let ?i = "entry_at q p"
  have n: "n \<le> length (uq_heap q)" using assms(1) by (simp add: all_set_def)
  have id: "(view n q)[p := ?i] = view n q" using nth_view [OF n assms(2)] by (metis list_update_id)
  have "hole n p ?i q" using assms n id by (simp add: hole_def)
  from utimeq_siftup_refines [OF this assms(1)] id
  obtain r q1 where r: "utimeq_siftup_loop n p q = (r, q1)" "siftup_loop (entry_less q) n p (view n q) = (Inr r, view n q1)"
      "hole n r ?i q1" "sifted n q (view n q) (place r ?i q1)" "all_set n q1" "same_entries q q1" by metis
  let ?q = "place r ?i q1"
  have v: "view n ?q = (view n q1)[r := ?i]" "positions n ?q" using hole_fill [OF r(3)] by simp_all
  have same: "same_entries q ?q" and ms: "mset (view n ?q) = mset (view n q)" using r(4) by (simp_all add: sifted_def)
  have "all_set n ?q" "r < n" "distinct (view n ?q)" "set (view n ?q) \<subseteq> {..<length (uq_items ?q)}" "positions_but n r ?q"
    using all_set_place [OF r(5)] r(3) v same r(6) unfolding hole_def by (simp_all add: same_entries_def positions_but_def positions_def)
  note d = siftdown_queue [OF this, of p]
  have u: "utimeq_heap_siftup p q = utimeq_heap_siftdown p r ?q" using r(1) assms(6) by (simp add: utimeq_heap_siftup_def)
  show "uheapq_heap_siftup (entry_less q) p (view n q) = (None, view n (utimeq_heap_siftup p q))"
    unfolding u uheapq_heap_siftup_def using r(2) d(1) v(1) nth_view [OF n assms(2)] n entry_less_same [OF same] by simp
  show "sifted n q (view n q) (utimeq_heap_siftup p q)"
    using d(2) r(4) same_entries_trans [OF same] ms unfolding u by (simp add: sifted_def)
  show "positions n (utimeq_heap_siftup p q)" unfolding u by (rule d(3))
qed

section \<open>The queue as a map from handles to events\<close>

text \<open>The free entries, in the order of their links.\<close>

fun chain :: "'o qentry list \<Rightarrow> nat option \<Rightarrow> nat list \<Rightarrow> bool" where
  "chain items f [] \<longleftrightarrow> f = None"
| "chain items f (i # fs) \<longleftrightarrow> f = Some i \<and> (case qe_link (items ! i) of NEXT_FREE p \<Rightarrow> chain items p fs | TIME t \<Rightarrow> False)"

definition entry_ok :: "'o qentry \<Rightarrow> bool" where
  "entry_ok e \<longleftrightarrow> (case qe_link e of TIME t \<Rightarrow> True | NEXT_FREE p \<Rightarrow> False) \<and> qe_callback e \<noteq> None"

definition entries_ok :: "nat \<Rightarrow> 'o utimeq \<Rightarrow> bool" where
  "entries_ok n q \<longleftrightarrow> length (uq_heap q) = uq_alloc q \<and> length (uq_items q) = uq_alloc q \<and> all_set n q \<and>
     (\<forall>i \<in> set (view n q). entry_ok (uq_items q ! i)) \<and>
     (\<exists>fs. chain (uq_items q) (uq_free q) fs \<and> mset (view n q) + mset fs = mset [0..<uq_alloc q] \<and>
       (\<forall>i \<in> set fs. qe_callback (uq_items q ! i) = None))"

definition utimeq_ok :: "'o utimeq \<Rightarrow> bool" where
  "utimeq_ok q \<longleftrightarrow> entries_ok (uq_len q) q \<and> positions (uq_len q) q"

definition events :: "nat \<Rightarrow> 'o utimeq \<Rightarrow> nat \<rightharpoonup> nat \<times> 'o option \<times> 'o option" where
  "events n q i = (if i \<in> set (view n q) then Some (qe_time (uq_items q ! i), qe_callback (uq_items q ! i), qe_args (uq_items q ! i)) else None)"

lemma chain_cong: "(\<And>i. i \<in> set fs \<Longrightarrow> qe_link (items' ! i) = qe_link (items ! i)) \<Longrightarrow> chain items' f fs = chain items f fs"
  by (induction fs arbitrary: f) (auto split: qlink.splits)

lemma entries_ok_view:
  assumes "entries_ok n q"
  shows "distinct (view n q)" and "set (view n q) \<subseteq> {..<length (uq_items q)}" and "n \<le> uq_alloc q"
proof -
  obtain fs where fs: "mset (view n q) + mset fs = mset [0..<uq_alloc q]" using assms by (auto simp: entries_ok_def)
  then have ms: "mset (view n q @ fs) = mset [0..<uq_alloc q]" by simp
  then have "distinct (view n q @ fs)" by (metis mset_eq_imp_distinct_iff distinct_upt)
  then show "distinct (view n q)" by simp
  have "set (view n q @ fs) = {..<uq_alloc q}" using arg_cong [OF ms, of set_mset] by (simp add: atLeast0LessThan)
  then show "set (view n q) \<subseteq> {..<length (uq_items q)}" using assms by (auto simp: entries_ok_def)
  show "n \<le> uq_alloc q" using assms by (simp add: entries_ok_def all_set_def)
qed

lemma entries_ok_sifted:
  assumes ok: "entries_ok n q" and s: "sifted n q (view n q) q'"
  shows "entries_ok n q'" and "events n q' = events n q"
proof -
  have same: "same_entries q q'" and ms: "mset (view n q') = mset (view n q)" using s by (simp_all add: sifted_def)
  have set: "set (view n q') = set (view n q)" using ms by (metis set_mset_mset)
  show "events n q' = events n q" using same set by (intro ext) (simp add: events_def same_entries_def qe_time_def)
  obtain fs where "chain (uq_items q) (uq_free q) fs" "mset (view n q) + mset fs = mset [0..<uq_alloc q]"
      "\<forall>i \<in> set fs. qe_callback (uq_items q ! i) = None" using ok by (auto simp: entries_ok_def)
  then have "chain (uq_items q') (uq_free q') fs \<and> mset (view n q') + mset fs = mset [0..<uq_alloc q'] \<and>
      (\<forall>i \<in> set fs. qe_callback (uq_items q' ! i) = None)"
    using same ms chain_cong [of fs "uq_items q'" "uq_items q" "uq_free q"] by (simp add: same_entries_def)
  then show "entries_ok n q'" using ok s same set by (auto simp: entries_ok_def sifted_def same_entries_def entry_ok_def)
qed

lemma len_irrelevant [simp]:
  "view n (q\<lparr>uq_len := m\<rparr>) = view n q" "entry_at (q\<lparr>uq_len := m\<rparr>) = entry_at q" "positions n (q\<lparr>uq_len := m\<rparr>) = positions n q"
  "all_set n (q\<lparr>uq_len := m\<rparr>) = all_set n q" "entries_ok n (q\<lparr>uq_len := m\<rparr>) = entries_ok n q" "events n (q\<lparr>uq_len := m\<rparr>) = events n q"
  by (simp_all add: view_def entry_at_def positions_def all_set_def entries_ok_def events_def fun_eq_iff)

text \<open>The queue just before \<open>push\<close> sifts.\<close>

definition pushed :: "nat \<Rightarrow> int \<Rightarrow> 'o \<Rightarrow> 'o \<Rightarrow> 'o utimeq \<Rightarrow> 'o utimeq" where
  "pushed item time cb as q =
     q\<lparr>uq_free := (case qe_link (uq_items q ! item) of NEXT_FREE p \<Rightarrow> p | TIME t \<Rightarrow> None),
       uq_items := (uq_items q)[item := (uq_items q ! item)\<lparr>qe_link := TIME (to_u64 time), qe_callback := Some cb, qe_args := Some as\<rparr>],
       uq_heap := (uq_heap q)[uq_len q := Some item]\<rparr>"

lemma push_unfold:
  "uq_len q \<noteq> uq_alloc q \<Longrightarrow> mod_utimeq_heappush time cb as q =
     (let q' = utimeq_heap_siftdown 0 (uq_len q) (pushed (the (uq_free q)) time cb as q) in (Inr (the (uq_free q)), q'\<lparr>uq_len := uq_len q' + 1\<rparr>))"
  by (simp add: mod_utimeq_heappush_def pushed_def Let_def)

lemma pushed_ok:
  assumes ok: "utimeq_ok q" and room: "uq_len q < uq_alloc q"
  shows "\<exists>item. uq_free q = Some item \<and> item \<notin> set (view (uq_len q) q) \<and> item < uq_alloc q \<and>
    view (Suc (uq_len q)) (pushed item time cb as q) = view (uq_len q) q @ [item] \<and>
    entries_ok (Suc (uq_len q)) (pushed item time cb as q) \<and> positions_but (Suc (uq_len q)) (uq_len q) (pushed item time cb as q) \<and>
    events (Suc (uq_len q)) (pushed item time cb as q) = (events (uq_len q) q)(item \<mapsto> (to_u64 time, Some cb, Some as))"
proof -
  let ?n = "uq_len q"
  have e: "entries_ok ?n q" "positions ?n q" using ok by (simp_all add: utimeq_ok_def)
  then have len: "length (uq_heap q) = uq_alloc q" "length (uq_items q) = uq_alloc q" "all_set ?n q" by (simp_all add: entries_ok_def)
  obtain fs where fs: "chain (uq_items q) (uq_free q) fs" "mset (view ?n q) + mset fs = mset [0..<uq_alloc q]"
      "\<forall>i \<in> set fs. qe_callback (uq_items q ! i) = None" using e by (auto simp: entries_ok_def)
  have "?n + length fs = uq_alloc q" using arg_cong [OF fs(2), of size] len room by simp
  then obtain item gs where gs: "fs = item # gs" using room by (cases fs) auto
  have ms: "mset (view ?n q @ item # gs) = mset [0..<uq_alloc q]" using fs(2) gs by simp
  then have dist: "distinct (view ?n q @ item # gs)" by (metis mset_eq_imp_distinct_iff distinct_upt)
  have "set (view ?n q @ item # gs) = {..<uq_alloc q}" using arg_cong [OF ms, of set_mset] by (simp add: atLeast0LessThan)
  then have i: "item < uq_alloc q" "\<forall>j \<in> set (view ?n q). j < uq_alloc q" by auto
  obtain p where p: "qe_link (uq_items q ! item) = NEXT_FREE p" "chain (uq_items q) p gs"
    using fs(1) gs by (auto split: qlink.splits)
  let ?q = "pushed item time cb as q"
  have other: "uq_items ?q ! j = uq_items q ! j" if "j \<noteq> item" for j using that by (simp add: pushed_def)
  have v: "view (Suc ?n) ?q = view ?n q @ [item]"
    using len room by (simp add: view_def pushed_def take_Suc_conv_app_nth)
  have all: "all_set (Suc ?n) ?q"
    using len room by (auto simp: all_set_def pushed_def take_Suc_conv_app_nth)
  have at: "entry_at ?q k = entry_at q k" "entry_at q k \<noteq> item" if "k < ?n" for k
  proof -
    show "entry_at ?q k = entry_at q k" using that by (simp add: entry_at_def pushed_def)
    have "entry_at q k \<in> set (view ?n q)" using nth_view [of ?n q k] that len room by (metis less_imp_le length_view nth_mem)
    then show "entry_at q k \<noteq> item" using dist by auto
  qed
  have "qe_link (uq_items ?q ! j) = qe_link (uq_items q ! j)" if "j \<in> set gs" for j using other that dist by (metis distinct.simps(2) distinct_append)
  from chain_cong [OF this] have "chain (uq_items ?q) (uq_free ?q) gs" using p by (simp add: pushed_def)
  moreover have "\<forall>i \<in> set gs. qe_callback (uq_items ?q ! i) = None"
    using fs(3) gs dist other by (metis distinct.simps(2) distinct_append list.set_intros(2))
  moreover have "mset (view (Suc ?n) ?q) + mset gs = mset [0..<uq_alloc ?q]" using ms v by (simp add: pushed_def)
  moreover have "\<forall>j \<in> set (view (Suc ?n) ?q). entry_ok (uq_items ?q ! j)"
    using e(1) dist other i len unfolding v by (auto simp: entries_ok_def pushed_def entry_ok_def nth_list_update)
  ultimately have "entries_ok (Suc ?n) ?q" using len all unfolding entries_ok_def by (auto simp: pushed_def)
  moreover have "positions_but (Suc ?n) ?n ?q"
    using e(2) at other by (auto simp: positions_but_def positions_def less_Suc_eq)
  moreover have "events (Suc ?n) ?q = (events ?n q)(item \<mapsto> (to_u64 time, Some cb, Some as))"
    using other i(1) len(2) unfolding events_def v by (intro ext) (auto simp: pushed_def qe_time_def)
  ultimately show ?thesis using v fs(1) gs dist i(1) by auto
qed

lemma heappush_full: "uq_len q = uq_alloc q \<Longrightarrow> mod_utimeq_heappush time cb as q = (Inl IndexError, q)"
  by (simp add: mod_utimeq_heappush_def)

lemma heappush_room:
  assumes ok: "utimeq_ok q" and room: "uq_len q < uq_alloc q"
  shows "\<exists>item q'. mod_utimeq_heappush time cb as q = (Inr item, q') \<and> utimeq_ok q' \<and> item < uq_alloc q \<and> events (uq_len q) q item = None \<and>
    uq_alloc q' = uq_alloc q \<and> uq_len q' = Suc (uq_len q) \<and>
    events (uq_len q') q' = (events (uq_len q) q)(item \<mapsto> (to_u64 time, Some cb, Some as)) \<and>
    uheapq_heap_siftdown (entry_less (pushed item time cb as q)) 0 (uq_len q) (view (uq_len q) q @ [item]) = (None, view (uq_len q') q') \<and>
    same_entries (pushed item time cb as q) (q'\<lparr>uq_len := uq_len q\<rparr>)"
proof -
  let ?n = "uq_len q"
  obtain item where p: "uq_free q = Some item" "item \<notin> set (view ?n q)" "item < uq_alloc q"
      "view (Suc ?n) (pushed item time cb as q) = view ?n q @ [item]"
      "entries_ok (Suc ?n) (pushed item time cb as q)" "positions_but (Suc ?n) ?n (pushed item time cb as q)"
      "events (Suc ?n) (pushed item time cb as q) = (events ?n q)(item \<mapsto> (to_u64 time, Some cb, Some as))"
    using pushed_ok [OF assms, of time cb as] by blast
  let ?p = "pushed item time cb as q"
  have "all_set (Suc ?n) ?p" using p(5) by (simp add: entries_ok_def)
  note d = siftdown_queue [OF this _ entries_ok_view(1,2) [OF p(5)] p(6), of 0]
  let ?q = "utimeq_heap_siftdown 0 ?n ?p"
  have same: "same_entries ?p ?q" using d(2) by (simp add: sifted_def)
  then have l: "uq_len ?q = ?n" "uq_alloc ?q = uq_alloc q" by (simp_all add: same_entries_def pushed_def)
  have "mod_utimeq_heappush time cb as q = (Inr item, ?q\<lparr>uq_len := Suc ?n\<rparr>)" using room p(1) l by (simp add: push_unfold Let_def)
  moreover have "same_entries ?p (?q\<lparr>uq_len := ?n\<rparr>)" using same by (simp add: same_entries_def pushed_def)
  ultimately show ?thesis using entries_ok_sifted [OF p(5) d(2)] d p l same
    by (auto simp: utimeq_ok_def events_def)
qed

text \<open>The queue without the entry at position \<open>p\<close> of the heap, whose place the last one takes.\<close>

lemma mset_fill:
  assumes "p < length v"
  shows "mset v = add_mset (v ! p) (mset (butlast (v[p := last v])))"
proof -
  let ?w = "v[p := last v]"
  have w: "?w \<noteq> []" "v \<noteq> []" using assms by auto
  then have "last ?w = last v" by (simp add: last_list_update)
  note w = w(1) this
  have "mset ?w = mset (butlast ?w) + {#last v#}" using w by (metis append_butlast_last_id mset.simps(1) mset.simps(2) mset_append)
  moreover have "mset ?w = add_mset (last v) (mset v - {#v ! p#})" using assms by (rule mset_update)
  ultimately have "mset v - {#v ! p#} = mset (butlast ?w)" by simp
  moreover have "v ! p \<in># mset v" using assms by simp
  ultimately show ?thesis by (metis insert_DiffM)
qed

definition without :: "nat \<Rightarrow> 'o utimeq \<Rightarrow> 'o utimeq \<Rightarrow> bool" where
  "without p q r \<longleftrightarrow> uq_alloc r = uq_alloc q \<and> uq_len r = uq_len q - 1 \<and> uq_free r = Some (entry_at q p) \<and>
     uq_items r = uq_items (release (entry_at q p) q) \<and> length (uq_heap r) = length (uq_heap q) \<and>
     all_set (uq_len q - 1) r \<and> view (uq_len q - 1) r = butlast ((view (uq_len q) q)[p := last (view (uq_len q) q)])"

lemma without_ok:
  assumes ok: "utimeq_ok q" and p: "p < uq_len q" and r: "without p q r"
  shows "entries_ok (uq_len r) r" and "events (uq_len r) r = (events (uq_len q) q)(entry_at q p := None)"
    and "positions_but (uq_len r) p r"
    and "i \<noteq> entry_at q p \<Longrightarrow> uq_items r ! i = uq_items q ! i"
proof -
  let ?n = "uq_len q" and ?i = "entry_at q p"
  let ?v = "view ?n q"
  have e: "entries_ok ?n q" "positions ?n q" using ok by (simp_all add: utimeq_ok_def)
  then have len: "length (uq_heap q) = uq_alloc q" "length (uq_items q) = uq_alloc q" "?n \<le> uq_alloc q"
    using entries_ok_view(3) by (simp_all add: entries_ok_def)
  have v: "length ?v = ?n" "?v ! p = ?i" using len p by (simp_all add: nth_view)
  have ms: "mset ?v = add_mset ?i (mset (view (uq_len r) r))" using mset_fill [of p ?v] v p r by (simp add: without_def)
  have set: "set ?v = insert ?i (set (view (uq_len r) r))" using arg_cong [OF ms, of set_mset] by simp
  have dist: "?i \<notin> set (view (uq_len r) r)"
    using entries_ok_view(1) [OF e(1)] ms by (metis distinct.simps(2) mset.simps(2) mset_eq_imp_distinct_iff)
  have i: "?i < uq_alloc q" using entries_ok_view(2) [OF e(1)] set len(2) by auto
  have other: "uq_items r ! j = uq_items q ! j" if "j \<noteq> ?i" for j using r that by (simp add: without_def release_def Let_def)
  then show "i \<noteq> ?i \<Longrightarrow> uq_items r ! i = uq_items q ! i" .
  have self: "qe_link (uq_items r ! ?i) = NEXT_FREE (uq_free q)" "qe_callback (uq_items r ! ?i) = None"
    using r i len by (simp_all add: without_def release_def Let_def)
  obtain fs where fs: "chain (uq_items q) (uq_free q) fs" "mset ?v + mset fs = mset [0..<uq_alloc q]"
      "\<forall>i \<in> set fs. qe_callback (uq_items q ! i) = None" using e by (auto simp: entries_ok_def)
  have "distinct (?v @ fs)" using fs(2) by (metis mset_append mset_eq_imp_distinct_iff distinct_upt)
  then have nf: "?i \<notin> set fs" using set by auto
  have "qe_link (uq_items r ! j) = qe_link (uq_items q ! j)" if "j \<in> set fs" for j using other that nf by metis
  from chain_cong [OF this] have "chain (uq_items r) (uq_free r) (?i # fs)" using fs(1) self r by (simp add: without_def)
  moreover have "mset (view (uq_len r) r) + mset (?i # fs) = mset [0..<uq_alloc r]" using fs(2) ms r by (simp add: without_def)
  moreover have "\<forall>j \<in> set (?i # fs). qe_callback (uq_items r ! j) = None"
    using fs(3) self other nf by (metis set_ConsD)
  moreover have "\<forall>j \<in> set (view (uq_len r) r). entry_ok (uq_items r ! j)"
    using e(1) other dist set by (metis entries_ok_def insertCI)
  moreover have "length (uq_heap r) = uq_alloc r" "length (uq_items r) = uq_alloc r" "all_set (uq_len r) r"
    using r len by (simp_all add: without_def release_def Let_def)
  ultimately show "entries_ok (uq_len r) r" unfolding entries_ok_def by blast
  show "events (uq_len r) r = (events ?n q)(?i := None)" using set dist other by (intro ext) (auto simp: events_def)
  show "positions_but (uq_len r) p r" unfolding positions_but_def
  proof (intro allI impI)
    fix k assume k: "k < uq_len r" "k \<noteq> p"
    have rl: "uq_len r = ?n - 1" "uq_len r \<le> length (uq_heap r)" using r len by (simp_all add: without_def)
    have "view (uq_len r) r ! k = ?v ! k" using r k rl(1) v(1) by (simp add: without_def nth_butlast)
    moreover have "view (uq_len r) r ! k \<in> set (view (uq_len r) r)" using k(1) rl(2) by simp
    ultimately have "entry_at r k = entry_at q k" "entry_at r k \<noteq> ?i"
      using nth_view [OF rl(2) k(1)] nth_view [of ?n q k] k rl(1) len dist by auto
    then show "qe_pos (uq_items r ! entry_at r k) = k" using other e(2) k(1) rl(1) by (simp add: positions_def)
  qed
qed

lemma release_vacates:
  assumes ok: "utimeq_ok q" and p: "p < uq_len q"
  shows "p = uq_len q - 1 \<Longrightarrow> without p q (release (entry_at q p) q)"
    and "p \<noteq> uq_len q - 1 \<Longrightarrow> without p q ((release (entry_at q p) q)\<lparr>uq_heap := (uq_heap q)[p := uq_heap q ! (uq_len q - 1)]\<rparr>)"
proof -
  let ?n = "uq_len q"
  have len: "length (uq_heap q) = uq_alloc q" "all_set ?n q" "?n \<le> uq_alloc q"
    using ok by (simp_all add: utimeq_ok_def entries_ok_def all_set_def)
  have take: "take (?n - 1) (uq_heap q) = butlast (take ?n (uq_heap q))" using len by (simp add: butlast_take)
  have v: "view (?n - 1) q = butlast (view ?n q)" unfolding view_def take by (simp add: map_butlast)
  have s: "all_set (?n - 1) q" using len unfolding all_set_def take by (auto simp: list_all_iff dest: in_set_butlastD)
  have r: "uq_alloc (release i q) = uq_alloc q" "uq_len (release i q) = ?n - 1" "uq_free (release i q) = Some i" "uq_heap (release i q) = uq_heap q" for i
    by (simp_all add: release_def Let_def)
  have l: "length (view ?n q) = ?n" using len by simp
  then have ne: "view ?n q \<noteq> []" using p by auto
  show "without p q (release (entry_at q p) q)" if "p = ?n - 1"
  proof -
    have "(view ?n q)[p := last (view ?n q)] = view ?n q" using that l ne by (simp add: last_conv_nth)
    then show ?thesis using r s v by (simp add: without_def) (simp add: all_set_def view_def r)
  qed
  have last: "last (view ?n q) = the (uq_heap q ! (?n - 1))" using len p l ne by (simp add: last_conv_nth nth_view entry_at_def)
  have some: "uq_heap q ! (?n - 1) \<noteq> None" using len(2) p unfolding all_set_def list_all_length by auto
  let ?h = "(uq_heap q)[p := uq_heap q ! (?n - 1)]"
  show "without p q ((release (entry_at q p) q)\<lparr>uq_heap := ?h\<rparr>)" if "p \<noteq> ?n - 1"
  proof -
    have t: "take (?n - 1) ?h = (take (?n - 1) (uq_heap q))[p := uq_heap q ! (?n - 1)]" by (rule take_update_swap)
    have "list_all (\<lambda>x. x \<noteq> None) (take (?n - 1) ?h)"
    proof (unfold t list_all_iff, rule ballI)
      fix x assume "x \<in> set ((take (?n - 1) (uq_heap q))[p := uq_heap q ! (?n - 1)])"
      then have "x = uq_heap q ! (?n - 1) \<or> x \<in> set (take (?n - 1) (uq_heap q))"
        using set_update_subset_insert by (metis insertE subsetD)
      then show "x \<noteq> None"
      proof
        assume "x = uq_heap q ! (?n - 1)"
        then show ?thesis using some by (rule ssubst)
      next
        assume "x \<in> set (take (?n - 1) (uq_heap q))"
        then show ?thesis using s unfolding all_set_def list_all_iff by (elim conjE) (rule bspec)
      qed
    qed
    then have "all_set (?n - 1) ((release (entry_at q p) q)\<lparr>uq_heap := ?h\<rparr>)" using s by (simp add: all_set_def)
    moreover have "view (?n - 1) ((release (entry_at q p) q)\<lparr>uq_heap := ?h\<rparr>) = (view (?n - 1) q)[p := last (view ?n q)]"
    proof -
      have h: "uq_heap ((release (entry_at q p) q)\<lparr>uq_heap := ?h\<rparr>) = ?h" by simp
      show ?thesis unfolding last unfolding view_def h t map_update ..
    qed
    ultimately show ?thesis using r v that l by (simp add: without_def butlast_list_update)
  qed
qed

lemma beyond [simp]:
  assumes "n \<le> k"
  shows "view n (q\<lparr>uq_heap := (uq_heap q)[k := x]\<rparr>) = view n q" "all_set n (q\<lparr>uq_heap := (uq_heap q)[k := x]\<rparr>) = all_set n q"
    "events n (q\<lparr>uq_heap := (uq_heap q)[k := x]\<rparr>) = events n q" "entries_ok n (q\<lparr>uq_heap := (uq_heap q)[k := x]\<rparr>) = entries_ok n q"
    "positions n (q\<lparr>uq_heap := (uq_heap q)[k := x]\<rparr>) = positions n q"
proof -
  show v: "view n (q\<lparr>uq_heap := (uq_heap q)[k := x]\<rparr>) = view n q" "all_set n (q\<lparr>uq_heap := (uq_heap q)[k := x]\<rparr>) = all_set n q"
    using assms by (simp_all add: view_def all_set_def)
  then show "events n (q\<lparr>uq_heap := (uq_heap q)[k := x]\<rparr>) = events n q" "entries_ok n (q\<lparr>uq_heap := (uq_heap q)[k := x]\<rparr>) = entries_ok n q"
    by (simp_all add: events_def fun_eq_iff entries_ok_def)
  show "positions n (q\<lparr>uq_heap := (uq_heap q)[k := x]\<rparr>) = positions n q" using assms by (auto simp: positions_def entry_at_def)
qed

lemma without_beyond: "without p q r \<Longrightarrow> uq_len q - 1 \<le> k \<Longrightarrow> without p q (r\<lparr>uq_heap := (uq_heap r)[k := x]\<rparr>)"
  by (simp add: without_def)

text \<open>The queue after an entry has been taken out and, if another took its place, that one has been sifted.\<close>

lemma without_sift:
  assumes ok: "utimeq_ok q" and p: "p < uq_len q - 1" and r: "without p q r"
  shows "utimeq_ok (utimeq_heap_siftup p r)" and "events (uq_len q - 1) (utimeq_heap_siftup p r) = (events (uq_len q) q)(entry_at q p := None)"
    and "uheapq_heap_siftup (entry_less r) p (view (uq_len q - 1) r) = (None, view (uq_len q - 1) (utimeq_heap_siftup p r))"
    and "same_entries r (utimeq_heap_siftup p r)"
proof -
  have p': "p < uq_len q" "uq_len r = uq_len q - 1" using p r by (simp_all add: without_def)
  note v = without_ok [OF ok p'(1) r]
  note w = entries_ok_view(1,2) [OF v(1)]
  have "all_set (uq_len r) r" using v(1) by (simp add: entries_ok_def)
  note u = siftup_queue [OF this _ w v(3) refl]
  have p: "p < uq_len r" using p p' by simp
  show "same_entries r (utimeq_heap_siftup p r)" using u(2) [OF p] by (simp add: sifted_def)
  then have len: "uq_len (utimeq_heap_siftup p r) = uq_len r" by (simp add: same_entries_def)
  show "utimeq_ok (utimeq_heap_siftup p r)" using entries_ok_sifted(1) [OF v(1) u(2) [OF p]] u(3) [OF p] by (simp add: utimeq_ok_def len)
  show "events (uq_len q - 1) (utimeq_heap_siftup p r) = (events (uq_len q) q)(entry_at q p := None)"
    using entries_ok_sifted(2) [OF v(1) u(2) [OF p]] v(2) p'(2) by simp
  show "uheapq_heap_siftup (entry_less r) p (view (uq_len q - 1) r) = (None, view (uq_len q - 1) (utimeq_heap_siftup p r))"
    using u(1) [OF p] p'(2) by simp
qed

lemma without_last:
  assumes ok: "utimeq_ok q" and p: "p = uq_len q - 1" "0 < uq_len q" and r: "without p q r"
  shows "utimeq_ok r" and "events (uq_len q - 1) r = (events (uq_len q) q)(entry_at q p := None)"
proof -
  have p': "p < uq_len q" "uq_len r = uq_len q - 1" using p r by (simp_all add: without_def)
  note v = without_ok [OF ok p'(1) r]
  have "positions (uq_len r) r" using v(3) p(1) p'(2) by (auto simp: positions_def positions_but_def)
  then show "utimeq_ok r" using v(1) by (simp add: utimeq_ok_def)
  show "events (uq_len q - 1) r = (events (uq_len q) q)(entry_at q p := None)" using v(2) p'(2) by simp
qed

text \<open>The queue just before \<open>pop\<close> sifts.\<close>

definition popped :: "'o utimeq \<Rightarrow> 'o utimeq" where
  "popped q =
     (let r = (release (entry_at q 0) q)\<lparr>uq_heap := (uq_heap q)[0 := uq_heap q ! (uq_len q - 1)]\<rparr>
      in r\<lparr>uq_heap := (uq_heap r)[uq_len q - 1 := None]\<rparr>)"

lemma heappop_cases:
  assumes "0 < uq_len q"
  shows "mod_utimeq_heappop True q =
    (let e = uq_items q ! entry_at q 0
     in (Inr (s64 (int (qe_time e)), qe_callback e, qe_args e),
       if uq_len q = 1 then release (entry_at q 0) q else utimeq_heap_siftup 0 (popped q)))"
  using assms by (auto simp: mod_utimeq_heappop_def popped_def release_def Let_def)

lemma popped_vacates: "utimeq_ok q \<Longrightarrow> 1 < uq_len q \<Longrightarrow> without 0 q (popped q)"
  using release_vacates(2) [of q 0] without_beyond unfolding popped_def Let_def by fastforce

lemma heappop_takes:
  assumes ok: "utimeq_ok q" and ne: "0 < uq_len q"
  shows "\<exists>t cb as q'. mod_utimeq_heappop True q = (Inr (s64 (int t), cb, as), q') \<and> events (uq_len q) q (entry_at q 0) = Some (t, cb, as) \<and>
    utimeq_ok q' \<and> uq_alloc q' = uq_alloc q \<and> uq_len q' = uq_len q - 1 \<and> events (uq_len q') q' = (events (uq_len q) q)(entry_at q 0 := None)"
proof -
  define q' where "q' = snd (mod_utimeq_heappop True q)"
  have q': "mod_utimeq_heappop True q = (Inr (s64 (int (qe_time (uq_items q ! entry_at q 0))), qe_callback (uq_items q ! entry_at q 0),
      qe_args (uq_items q ! entry_at q 0)), q')" unfolding q'_def heappop_cases [OF ne] by (simp add: Let_def)
  have "uq_len q \<le> length (uq_heap q)" using ok by (simp add: utimeq_ok_def entries_ok_def all_set_def)
  then have "entry_at q 0 \<in> set (view (uq_len q) q)" using nth_view [of "uq_len q" q 0] ne by (metis length_view nth_mem)
  then have ev: "events (uq_len q) q (entry_at q 0) =
      Some (qe_time (uq_items q ! entry_at q 0), qe_callback (uq_items q ! entry_at q 0), qe_args (uq_items q ! entry_at q 0))"
    by (simp add: events_def)
  have "utimeq_ok q' \<and> uq_alloc q' = uq_alloc q \<and> uq_len q' = uq_len q - 1 \<and> events (uq_len q - 1) q' = (events (uq_len q) q)(entry_at q 0 := None)"
  proof (cases "uq_len q = 1")
    case True
    have r: "without 0 q q'" using release_vacates(1) [OF ok ne] True unfolding q'_def heappop_cases [OF ne] by (simp add: Let_def)
    show ?thesis using without_last [OF ok _ ne r] True r by (simp add: without_def)
  next
    case False
    have r: "without 0 q (popped q)" "0 < uq_len q - 1" using popped_vacates [OF ok] False ne by simp_all
    have "q' = utimeq_heap_siftup 0 (popped q)" using False unfolding q'_def heappop_cases [OF ne] by (simp add: Let_def)
    then show ?thesis using without_sift [OF ok r(2,1)] r(1) by (simp add: without_def same_entries_def)
  qed
  then show ?thesis using q' ev by auto
qed

lemma handle_queued:
  assumes ok: "utimeq_ok q" and i: "i \<in> set (view (uq_len q) q)"
  shows "qe_pos (uq_items q ! i) < uq_len q" and "entry_at q (qe_pos (uq_items q ! i)) = i" and "qe_callback (uq_items q ! i) \<noteq> None"
    and "i < uq_alloc q"
proof -
  have e: "entries_ok (uq_len q) q" "positions (uq_len q) q" using ok by (simp_all add: utimeq_ok_def)
  have n: "uq_len q \<le> length (uq_heap q)" using e by (simp add: entries_ok_def all_set_def)
  obtain k where k: "k < uq_len q" "entry_at q k = i" using i nth_view [OF n] n by (metis in_set_conv_nth length_view)
  then show "qe_pos (uq_items q ! i) < uq_len q" "entry_at q (qe_pos (uq_items q ! i)) = i" using e(2) by (auto simp: positions_def)
  show "qe_callback (uq_items q ! i) \<noteq> None" "i < uq_alloc q"
    using e(1) i entries_ok_view(2) [OF e(1)] by (auto simp: entries_ok_def entry_ok_def)
qed

lemma handle_free:
  assumes ok: "utimeq_ok q" and i: "i \<notin> set (view (uq_len q) q)" "i < uq_alloc q"
  shows "qe_callback (uq_items q ! i) = None"
proof -
  obtain fs where fs: "mset (view (uq_len q) q) + mset fs = mset [0..<uq_alloc q]" "\<forall>i \<in> set fs. qe_callback (uq_items q ! i) = None"
    using ok by (auto simp: utimeq_ok_def entries_ok_def)
  have "i \<in> set fs" using arg_cong [OF fs(1), of set_mset] i by (auto simp: atLeast0LessThan)
  then show ?thesis using fs(2) by blast
qed

lemma remove_refuses:
  assumes "utimeq_ok q" and "idx < 0 \<or> events (uq_len q) q (nat idx) = None"
  shows "mod_utimeq_remove idx q = (Inl IndexError, q)"
proof -
  have "qe_callback (uq_items q ! nat idx) = None" if "0 \<le> idx" "nat idx < uq_alloc q"
    using assms handle_free that by (auto simp: events_def split: if_splits)
  then show ?thesis by (auto simp: mod_utimeq_remove_def Let_def not_le)
qed

lemma remove_takes:
  assumes ok: "utimeq_ok q" and idx: "0 \<le> idx" "events (uq_len q) q (nat idx) \<noteq> None"
  shows "\<exists>q'. mod_utimeq_remove idx q = (Inr (), q') \<and> utimeq_ok q' \<and> uq_alloc q' = uq_alloc q \<and> uq_len q' = uq_len q - 1 \<and>
    events (uq_len q') q' = (events (uq_len q) q)(nat idx := None)"
proof -
  let ?i = "nat idx" and ?n = "uq_len q - 1"
  let ?p = "qe_pos (uq_items q ! ?i)" and ?r = "release ?i q"
  have "?i \<in> set (view (uq_len q) q)" using idx by (auto simp: events_def split: if_splits)
  note h = handle_queued [OF ok this]
  have r: "uq_len ?r = ?n" "uq_heap ?r = uq_heap q" by (simp_all add: release_def Let_def)
  define q1 where "q1 = (if ?p \<noteq> ?n then utimeq_heap_siftup ?p (?r\<lparr>uq_heap := (uq_heap q)[?p := uq_heap q ! ?n]\<rparr>) else ?r)"
  have q1: "utimeq_ok q1 \<and> uq_alloc q1 = uq_alloc q \<and> uq_len q1 = ?n \<and> events ?n q1 = (events (uq_len q) q)(?i := None)"
  proof (cases "?p = ?n")
    case True
    have "without ?p q q1" using release_vacates(1) [OF ok h(1) True] True h(2) by (simp add: q1_def)
    then show ?thesis using without_last [OF ok True] h by (simp add: without_def)
  next
    case False
    then have v: "without ?p q (?r\<lparr>uq_heap := (uq_heap q)[?p := uq_heap q ! ?n]\<rparr>)" "?p < ?n" using release_vacates(2) [OF ok h(1)] h by auto
    then show ?thesis using without_sift [OF ok v(2,1)] False h(2) by (simp add: q1_def without_def same_entries_def)
  qed
  have "mod_utimeq_remove idx q = (Inr (), q1\<lparr>uq_heap := (uq_heap q1)[uq_len q1 := None]\<rparr>)"
    using idx h r by (auto simp: mod_utimeq_remove_def Let_def q1_def)
  then show ?thesis using q1 by (auto simp: utimeq_ok_def)
qed

lemma chain_new:
  assumes "\<And>i. i < n \<Longrightarrow> qe_link (items ! i) = NEXT_FREE (if i + 1 < n then Some (i + 1) else None)" and "k \<le> n"
  shows "chain items (if k < n then Some k else None) [k..<n]"
  using assms(2)
proof (induction "n - k" arbitrary: k)
  case (Suc d)
  then have k: "k < n" "d = n - Suc k" by simp_all
  have "chain items (if Suc k < n then Some (Suc k) else None) [Suc k..<n]" using Suc.hyps(1) [OF k(2)] k by simp
  then show ?case unfolding upt_conv_Cons [OF k(1)] using k(1) assms(1) [OF k(1)] by (cases "Suc k < n") simp_all
qed simp

lemma make_new_ok:
  assumes "0 < alloc"
  shows "\<exists>q :: 'o utimeq. utimeq_make_new alloc = Some q \<and> utimeq_ok q \<and> uq_alloc q = alloc \<and> uq_len q = 0 \<and> events 0 q = Map.empty"
proof -
  define q :: "'o utimeq" where "q = the (utimeq_make_new alloc)"
  have new: "utimeq_make_new alloc = Some q" using assms by (simp add: q_def utimeq_make_new_def)
  have "chain (uq_items q) (Some 0) [0..<alloc]"
    using chain_new [of alloc "uq_items q" 0] assms by (simp add: q_def utimeq_make_new_def)
  then have "utimeq_ok q"
    using assms by (auto simp: q_def utimeq_make_new_def utimeq_ok_def entries_ok_def all_set_def view_def positions_def
        intro!: exI [of _ "[0..<alloc]"])
  then show ?thesis using new assms by (auto simp: q_def utimeq_make_new_def events_def view_def fun_eq_iff)
qed

section \<open>The order of the events\<close>

text \<open>How far ahead of \<open>base\<close> a tick is, and whether that is less than half a period.\<close>

definition tick_key :: "nat \<Rightarrow> nat \<Rightarrow> nat" where
  "tick_key base t = (t + MODULO - base) mod MODULO"

definition soon :: "nat \<Rightarrow> nat \<Rightarrow> bool" where
  "soon base t \<longleftrightarrow> base < MODULO \<and> t < MODULO \<and> tick_key base t < MODULO div 2"

lemma tick_key_cases: "base < MODULO \<Longrightarrow> t < MODULO \<Longrightarrow> tick_key base t = (if base \<le> t then t - base else t + MODULO - base)"
  by (auto simp: tick_key_def MODULO_def le_mod_geq)

lemma time_less_key:
  assumes "soon base s" and "soon base t"
  shows "time_less s t \<longleftrightarrow> tick_key base s < tick_key base t"
proof -
  have b: "base < 4611686018427387904" "s < 4611686018427387904" "t < 4611686018427387904"
      "tick_key base s < 2305843009213693952" "tick_key base t < 2305843009213693952"
    using assms by (simp_all add: soon_def MODULO_def)
  have k: "tick_key base s = (if base \<le> s then s - base else s + 4611686018427387904 - base)"
      "tick_key base t = (if base \<le> t then t - base else t + 4611686018427387904 - base)"
    using tick_key_cases [of base] b by (simp_all add: MODULO_def)
  have u: "u64 (t + 18446744073709551616 - s) = (if s \<le> t then t - s else t + 18446744073709551616 - s)"
    using b by (auto simp: u64_def le_mod_geq)
  have w: "u64 (t + 18446744073709551616 - s + 4611686018427387904) = t + 4611686018427387904 - s" if "t < s"
    using b that by (auto simp: u64_def le_mod_geq)
  have "time_less s t \<longleftrightarrow> (if s \<le> t then t - s \<noteq> 0 \<and> t - s < 2305843009213693952 else t + 4611686018427387904 - s < 2305843009213693952)"
  proof (cases "s \<le> t")
    case True
    then have "\<not> 9223372036854775808 \<le> t - s" using b by linarith
    then show ?thesis using True u unfolding time_less_def Let_def MODULO_def by simp
  next
    case False
    then have "9223372036854775808 \<le> t + 18446744073709551616 - s" "t + 4611686018427387904 - s \<noteq> 0" using b by linarith+
    then show ?thesis using False u w unfolding time_less_def Let_def MODULO_def by simp
  qed
  moreover have "(if s \<le> t then t - s \<noteq> 0 \<and> t - s < 2305843009213693952 else t + 4611686018427387904 - s < 2305843009213693952) \<longleftrightarrow>
      tick_key base s < tick_key base t"
    using b unfolding k by (cases "base \<le> s"; cases "base \<le> t"; cases "s \<le> t"; simp; linarith)
  ultimately show ?thesis by (rule trans)
qed

definition entry_soon :: "nat \<Rightarrow> 'o utimeq \<Rightarrow> nat \<Rightarrow> bool" where
  "entry_soon base q i \<longleftrightarrow> soon base (qe_time (uq_items q ! i))"

definition entry_key :: "nat \<Rightarrow> 'o utimeq \<Rightarrow> nat \<Rightarrow> nat" where
  "entry_key base q i = tick_key base (qe_time (uq_items q ! i))"

interpretation tq: keyed_comparison "entry_less q" "entry_soon base q" "entry_key base q" for q :: "'o utimeq" and base
  by unfold_locales (simp add: entry_less_def entry_soon_def entry_key_def time_less_than_def time_less_key)

definition utimeq_ordered :: "nat \<Rightarrow> 'o utimeq \<Rightarrow> bool" where
  "utimeq_ordered base q \<longleftrightarrow> list_all (entry_soon base q) (view (uq_len q) q) \<and> heap_from (entry_key base q) 0 (view (uq_len q) q)"

lemma heap_from_cong: "(\<And>i. i \<in> set xs \<Longrightarrow> key i = key' i) \<Longrightarrow> heap_from key s xs = heap_from key' s xs"
  unfolding heap_from_def by (metis nth_mem up_bound)

lemma entry_same:
  assumes "same_entries q q'"
  shows "entry_key base q' = entry_key base q" and "entry_soon base q' = entry_soon base q"
  using assms by (simp_all add: entry_key_def entry_soon_def same_entries_def qe_time_def fun_eq_iff)

lemma entry_len [simp]: "entry_key base (q\<lparr>uq_len := n\<rparr>) = entry_key base q" "entry_soon base (q\<lparr>uq_len := n\<rparr>) = entry_soon base q"
  by (simp_all add: entry_key_def entry_soon_def fun_eq_iff)

lemma heappush_ordered:
  assumes ok: "utimeq_ok q" and ord: "utimeq_ordered base q" and room: "uq_len q < uq_alloc q" and soon: "soon base (to_u64 time)"
  shows "utimeq_ordered base (snd (mod_utimeq_heappush time cb as q))"
proof -
  let ?n = "uq_len q" and ?v = "view (uq_len q) q"
  obtain item q' where p: "mod_utimeq_heappush time cb as q = (Inr item, q')" "events ?n q item = None" "item < uq_alloc q" "uq_len q' = Suc ?n"
      "uheapq_heap_siftdown (entry_less (pushed item time cb as q)) 0 ?n (?v @ [item]) = (None, view (uq_len q') q')"
      "same_entries (pushed item time cb as q) (q'\<lparr>uq_len := ?n\<rparr>)"
    using heappush_room [OF ok room, of time cb as] by blast
  let ?p = "pushed item time cb as q"
  have len: "length ?v = ?n" "length (uq_items q) = uq_alloc q" using ok by (simp_all add: utimeq_ok_def entries_ok_def all_set_def)
  have "item \<notin> set ?v" using p(2) by (auto simp: events_def split: if_splits)
  then have other: "uq_items ?p ! i = uq_items q ! i" if "i \<in> set ?v" for i
    using that by (cases "i = item") (simp_all add: pushed_def)
  have key: "entry_key base ?p i = entry_key base q i" "entry_soon base ?p i = entry_soon base q i" if "i \<in> set ?v" for i
    using other [OF that] by (simp_all add: entry_key_def entry_soon_def)
  have new: "entry_soon base ?p item" using soon p(3) len(2) by (simp add: entry_soon_def pushed_def qe_time_def)
  have h: "heap_from (entry_key base ?p) 0 ?v" "list_all (entry_soon base ?p) ?v"
    using ord heap_from_cong [of ?v "entry_key base ?p" "entry_key base q"] key by (auto simp: utimeq_ordered_def list_all_iff)
  obtain h' where h': "mod_uheapq_heappush (entry_less ?p) (Some ?v) item = (None, Some h')" "heap_from (entry_key base ?p) 0 h'"
      "mset h' = add_mset item (mset ?v)"
    using tq.heappush_correct [OF h new] by blast
  have "h' = view (uq_len q') q'" using h'(1) p(5) len(1) by (simp add: mod_uheapq_heappush_def uheapq_get_heap_def)
  moreover have "set h' = insert item (set ?v)" using h'(3) by (metis set_mset_add_mset_insert set_mset_mset)
  ultimately show ?thesis using h' h(2) new entry_same [OF p(6), of base] p(1) by (simp add: utimeq_ordered_def list_all_iff)
qed

lemma heap_fill:
  assumes "heap_from key 0 v"
  shows "heap_from key (Suc 0) (butlast (v[0 := last v]))"
  unfolding heap_from_def
proof (intro allI impI)
  fix j assume j: "j < length (butlast (v[0 := last v]))" "0 < j" "Suc 0 \<le> up j"
  then have "up j < length (butlast (v[0 := last v]))" by (intro up_bound)
  then show "key (butlast (v[0 := last v]) ! up j) \<le> key (butlast (v[0 := last v]) ! j)"
    using assms j by (simp add: nth_butlast heap_from_def)
qed

lemma heappop_ordered:
  assumes ok: "utimeq_ok q" and ord: "utimeq_ordered base q" and ne: "0 < uq_len q"
  shows "utimeq_ordered base (snd (mod_utimeq_heappop True q))"
proof (cases "uq_len q = 1")
  case True
  then show ?thesis using heappop_cases [OF ne]
    by (simp add: Let_def utimeq_ordered_def release_def view_def heap_from_def)
next
  case False
  let ?r = "popped q" and ?n = "uq_len q - 1" and ?v = "view (uq_len q) q"
  have r: "without 0 q ?r" "0 < ?n" "uq_len ?r = ?n" using popped_vacates [OF ok] False ne by (simp_all add: without_def)
  note v = without_ok [OF ok ne r(1)] and s = without_sift [OF ok r(2,1)]
  have vr: "view ?n ?r = butlast (?v[0 := last ?v])" using r(1) by (simp add: without_def)
  have n: "uq_len q \<le> length (uq_heap q)" using ok by (simp add: utimeq_ok_def entries_ok_def all_set_def)
  have ms: "mset ?v = add_mset (entry_at q 0) (mset (view ?n ?r))" using mset_fill [of 0 ?v] n ne nth_view [OF n, of 0] unfolding vr by simp
  have "distinct ?v" using ok entries_ok_view(1) [of "uq_len q" q] by (simp add: utimeq_ok_def)
  then have "entry_at q 0 \<notin> set (view ?n ?r)" using ms by (metis distinct.simps(2) mset.simps(2) mset_eq_imp_distinct_iff)
  then have "uq_items ?r ! i = uq_items q ! i" if "i \<in> set (view ?n ?r)" for i using v(4) that by metis
  then have key: "entry_key base ?r i = entry_key base q i" "entry_soon base ?r i = entry_soon base q i" if "i \<in> set (view ?n ?r)" for i
    using that by (simp_all add: entry_key_def entry_soon_def)
  have "heap_from (entry_key base q) (Suc 0) (view ?n ?r)" using ord heap_fill [of "entry_key base q" ?v] unfolding vr by (simp add: utimeq_ordered_def)
  then have h: "heap_from (entry_key base ?r) (Suc 0) (view ?n ?r)"
    using heap_from_cong [of "view ?n ?r" "entry_key base ?r" "entry_key base q"] key by simp
  have "set ?v = insert (entry_at q 0) (set (view ?n ?r))" using ms by (metis set_mset_add_mset_insert set_mset_mset)
  then have all: "list_all (entry_soon base ?r) (view ?n ?r)" using ord key by (simp add: utimeq_ordered_def list_all_iff)
  have len: "0 < length (view ?n ?r)" using r(2) n unfolding vr by simp
  obtain ys where ys: "uheapq_heap_siftup (entry_less ?r) 0 (view ?n ?r) = (None, ys)" "heap_from (entry_key base ?r) 0 ys" "mset ys = mset (view ?n ?r)"
    using tq.siftup_correct [OF h len all] by blast
  have "uq_len (utimeq_heap_siftup 0 ?r) = ?n" using s(4) r(3) by (simp add: same_entries_def)
  moreover have "ys = view ?n (utimeq_heap_siftup 0 ?r)" using ys(1) s(3) by simp
  moreover have "set ys = set (view ?n ?r)" using ys(3) by (metis set_mset_mset)
  ultimately have "utimeq_ordered base (utimeq_heap_siftup 0 ?r)"
    using ys(2) all entry_same [OF s(4), of base] by (simp add: utimeq_ordered_def list_all_iff)
  then show ?thesis using heappop_cases [OF ne] False by (simp add: Let_def)
qed

lemma ordered_first:
  assumes ok: "utimeq_ok q" and ord: "utimeq_ordered base q" and ne: "0 < uq_len q" and ev: "events (uq_len q) q i = Some (t, e)"
  shows "tick_key base (qe_time (uq_items q ! entry_at q 0)) \<le> tick_key base t"
proof -
  let ?v = "view (uq_len q) q"
  have n: "uq_len q \<le> length (uq_heap q)" using ok by (simp add: utimeq_ok_def entries_ok_def all_set_def)
  have i: "i \<in> set ?v" "t = qe_time (uq_items q ! i)" using ev by (auto simp: events_def split: if_splits)
  then obtain k where k: "k < length ?v" "?v ! k = i" by (metis in_set_conv_nth)
  then have "entry_key base q (?v ! 0) \<le> entry_key base q i" using tq.heap_top [of base q ?v k] ord by (simp add: utimeq_ordered_def)
  then show ?thesis using nth_view [OF n ne] i(2) by (simp add: entry_key_def)
qed

section \<open>Properties\<close>

fun push_all :: "int list \<Rightarrow> unit utimeq \<Rightarrow> unit utimeq" where
  "push_all [] q = q"
| "push_all (t # ts) q = push_all ts (snd (mod_utimeq_heappush t () () q))"

fun pop_times :: "nat \<Rightarrow> 'o utimeq \<Rightarrow> int list" where
  "pop_times 0 q = []"
| "pop_times (Suc n) q = (case mod_utimeq_heappop True q of (Inl e, q) \<Rightarrow> [] | (Inr (t, cb, as), q) \<Rightarrow> t # pop_times n q)"

definition three_events :: "unit utimeq" where
  "three_events = push_all [7, 4611686018427387900, 2] (the (utimeq_make_new 4))"

definition twelve_events :: "unit utimeq" where
  "twelve_events = push_all [1, 10, 2, 11, 12, 3, 20, 13, 14, 15, 16, 4] (the (utimeq_make_new 12))"

lemma push_all_ok:
  assumes "utimeq_ok q" and "uq_len q + length ts \<le> uq_alloc q"
  shows "utimeq_ok (push_all ts q) \<and> uq_alloc (push_all ts q) = uq_alloc q \<and> uq_len (push_all ts q) = uq_len q + length ts"
  using assms
proof (induction ts arbitrary: q)
  case (Cons t ts)
  obtain item q' where "mod_utimeq_heappush t () () q = (Inr item, q')" "utimeq_ok q'" "uq_alloc q' = uq_alloc q" "uq_len q' = Suc (uq_len q)"
    using heappush_room [OF Cons.prems(1), of t "()" "()"] Cons.prems(2) by auto
  then show ?case using Cons.IH [of q'] Cons.prems(2) by simp
qed simp

lemma sample_queues:
  "utimeq_ok three_events" "uq_len three_events = 3" "uq_alloc three_events = 4" "utimeq_ok twelve_events"
proof -
  have q: "utimeq_ok (the (utimeq_make_new n) :: unit utimeq)" "uq_alloc (the (utimeq_make_new n) :: unit utimeq) = n"
      "uq_len (the (utimeq_make_new n) :: unit utimeq) = 0" if "0 < n" for n
    using make_new_ok [OF that, where 'o = unit] by auto
  show "utimeq_ok three_events" "uq_len three_events = 3" "uq_alloc three_events = 4" "utimeq_ok twelve_events"
    unfolding three_events_def twelve_events_def
    using push_all_ok [of "the (utimeq_make_new 4)" "[7, 4611686018427387900, 2]"]
      push_all_ok [of "the (utimeq_make_new 12)" "[1, 10, 2, 11, 12, 3, 20, 13, 14, 15, 16, 4]"] q [of 4] q [of 12]
    by (simp_all del: push_all.simps)
qed

text \<open>
  C32 (refinement): a queue of timed events is a map from handles to events.  A new queue for at least one event is
  empty.  \<open>push\<close> adds the event under a handle that was not in use, or raises IndexError and changes nothing when the
  queue is full; \<open>pop\<close> raises IndexError on an empty queue and TypeError on a bad list, and otherwise stores one of
  the events and takes it out of the map; \<open>remove\<close> takes the event of a handle out, and raises IndexError and changes
  nothing for a number that is not a handle in use.  All three leave the queue well formed: the free list holds
  exactly the unused entries and every queued entry knows its position.
\<close>

theorem utimeq_is_a_map:
  assumes "utimeq_ok q" and "m = events (uq_len q) q"
  shows "(\<forall>time cb as. if uq_len q = uq_alloc q then mod_utimeq_heappush time cb as q = (Inl IndexError, q)
      else \<exists>h q'. mod_utimeq_heappush time cb as q = (Inr h, q') \<and> utimeq_ok q' \<and> m h = None \<and>
        events (uq_len q') q' = m(h \<mapsto> (to_u64 time, Some cb, Some as))) \<and>
    (if uq_len q = 0 then mod_utimeq_heappop b q = (Inl IndexError, q)
     else if \<not> b then mod_utimeq_heappop b q = (Inl TypeError, q)
     else \<exists>h t cb as q'. mod_utimeq_heappop b q = (Inr (s64 (int t), cb, as), q') \<and> utimeq_ok q' \<and> m h = Some (t, cb, as) \<and>
       events (uq_len q') q' = m(h := None)) \<and>
    (if idx < 0 \<or> m (nat idx) = None then mod_utimeq_remove idx q = (Inl IndexError, q)
     else \<exists>q'. mod_utimeq_remove idx q = (Inr (), q') \<and> utimeq_ok q' \<and> events (uq_len q') q' = m(nat idx := None))"
proof (intro conjI)
  have le: "uq_len q \<le> uq_alloc q" using assms(1) entries_ok_view(3) [of "uq_len q" q] by (simp add: utimeq_ok_def)
  show "\<forall>time cb as. if uq_len q = uq_alloc q then mod_utimeq_heappush time cb as q = (Inl IndexError, q)
      else \<exists>h q'. mod_utimeq_heappush time cb as q = (Inr h, q') \<and> utimeq_ok q' \<and> m h = None \<and>
        events (uq_len q') q' = m(h \<mapsto> (to_u64 time, Some cb, Some as))"
  proof (intro allI)
    fix time cb as
    show "if uq_len q = uq_alloc q then mod_utimeq_heappush time cb as q = (Inl IndexError, q)
      else \<exists>h q'. mod_utimeq_heappush time cb as q = (Inr h, q') \<and> utimeq_ok q' \<and> m h = None \<and>
        events (uq_len q') q' = m(h \<mapsto> (to_u64 time, Some cb, Some as))"
      using heappush_room [OF assms(1), of time cb as] le unfolding assms(2) by (auto simp: heappush_full)
  qed
  show "if uq_len q = 0 then mod_utimeq_heappop b q = (Inl IndexError, q)
     else if \<not> b then mod_utimeq_heappop b q = (Inl TypeError, q)
     else \<exists>h t cb as q'. mod_utimeq_heappop b q = (Inr (s64 (int t), cb, as), q') \<and> utimeq_ok q' \<and> m h = Some (t, cb, as) \<and>
       events (uq_len q') q' = m(h := None)"
  proof (cases "uq_len q = 0 \<or> \<not> b")
    case True
    then show ?thesis by (auto simp: mod_utimeq_heappop_def)
  next
    case False
    have "\<exists>h t cb as q'. mod_utimeq_heappop True q = (Inr (s64 (int t), cb, as), q') \<and> utimeq_ok q' \<and> m h = Some (t, cb, as) \<and>
       events (uq_len q') q' = m(h := None)"
      using heappop_takes [OF assms(1)] False unfolding assms(2) by blast
    then show ?thesis using False by simp
  qed
  show "if idx < 0 \<or> m (nat idx) = None then mod_utimeq_remove idx q = (Inl IndexError, q)
     else \<exists>q'. mod_utimeq_remove idx q = (Inr (), q') \<and> utimeq_ok q' \<and> events (uq_len q') q' = m(nat idx := None)"
    using remove_refuses [OF assms(1), of idx] remove_takes [OF assms(1), of idx] unfolding assms(2) by auto
qed

lemma three_events_order: "utimeq_ordered 4611686018427387890 three_events"
  by code_simp

lemma three_events_events: "events 3 three_events 1 = Some (4611686018427387900, Some (), Some ())" "events 3 three_events 3 = None"
  by code_simp+

theorem utimeq_is_a_map_witness:
  "(\<exists>h q'. mod_utimeq_heappush 5 () () three_events = (Inr h, q') \<and> utimeq_ok q' \<and> events 3 three_events h = None) \<and>
   mod_utimeq_heappop False three_events = (Inl TypeError, three_events) \<and>
   (\<exists>q'. mod_utimeq_remove 1 three_events = (Inr (), q') \<and> utimeq_ok q' \<and> events (uq_len q') q' 1 = None) \<and>
   mod_utimeq_remove 3 three_events = (Inl IndexError, three_events)"
proof -
  have p: "\<exists>h q'. mod_utimeq_heappush 5 () () three_events = (Inr h, q') \<and> utimeq_ok q' \<and> events 3 three_events h = None"
    using utimeq_is_a_map [OF sample_queues(1) refl, THEN conjunct1, rule_format, of 5 "()" "()"] sample_queues(2,3) by auto
  have r: "\<exists>q'. mod_utimeq_remove 1 three_events = (Inr (), q') \<and> utimeq_ok q' \<and> events (uq_len q') q' 1 = None"
    using utimeq_is_a_map [OF sample_queues(1) refl, of False 1] sample_queues(2) three_events_events(1) by auto
  show ?thesis using p r utimeq_is_a_map [OF sample_queues(1) refl, of False 3] sample_queues(2) three_events_events(2) by simp
qed




end
