(* ===== verification/GcTable.thy ===== *)
theory GcTable
  imports Prelude
begin

text \<open>
  The state of the memory manager of \<^verbatim>\<open>py/gc.c\<close> and its two bit tables.  The allocation
  table holds two bits per block of the pool (FREE, HEAD, TAIL or MARK); the finaliser table,
  one bit per block, starts at the byte after it.  The model keeps both in one list of bytes,
  as they lie in memory: \<open>ATB_GET_KIND\<close> of the block number one past the pool reads the
  first byte of the finaliser table, as the code does.  The pool is byte-addressed memory.

  Configuration: the 64-bit unix port (\<^verbatim>\<open>BYTES_PER_WORD\<close> 8, \<^verbatim>\<open>MICROPY_ENABLE_FINALISER\<close>,
  \<^verbatim>\<open>MICROPY_GC_ALLOC_THRESHOLD\<close>, \<^verbatim>\<open>MICROPY_GC_CONSERVATIVE_CLEAR\<close>,
  \<^verbatim>\<open>MICROPY_PY_GC_COLLECT_RETVAL\<close>), one thread.
\<close>

unbundle bit_operations_syntax

section \<open>Layout constants and state\<close>

abbreviation (input) BYTES_PER_BLOCK :: nat where "BYTES_PER_BLOCK \<equiv> 32"
abbreviation (input) BLOCKS_PER_ATB :: nat where "BLOCKS_PER_ATB \<equiv> 4"
abbreviation (input) BLOCKS_PER_FTB :: nat where "BLOCKS_PER_FTB \<equiv> 8"
abbreviation (input) SIZEOF_PTR :: nat where "SIZEOF_PTR \<equiv> 8"

abbreviation (input) AT_FREE :: "8 word" where "AT_FREE \<equiv> 0"
abbreviation (input) AT_HEAD :: "8 word" where "AT_HEAD \<equiv> 1"
abbreviation (input) AT_TAIL :: "8 word" where "AT_TAIL \<equiv> 2"
abbreviation (input) AT_MARK :: "8 word" where "AT_MARK \<equiv> 3"

record gc =
  gc_tables :: "8 word list"
  gc_alloc_table_byte_len :: nat
  gc_pool_start :: nat
  gc_pool_end :: nat
  gc_stack_overflow :: bool
  gc_lock_depth :: nat
  gc_auto_collect_enabled :: bool
  gc_alloc_amount :: nat
  gc_alloc_threshold :: nat
  gc_last_free_atb_index :: nat
  gc_collected :: nat
  gc_mem :: "nat \<Rightarrow> nat"

text \<open>The number of blocks of the pool, \<^verbatim>\<open>gc_alloc_table_byte_len * BLOCKS_PER_ATB\<close>.\<close>

definition gc_blocks :: "gc \<Rightarrow> nat" where
  "gc_blocks s = gc_alloc_table_byte_len s * BLOCKS_PER_ATB"

section \<open>The allocation table macros\<close>

text \<open>A read outside the two tables is not part of any modelled behaviour; it yields 0.\<close>

definition table_byte :: "8 word list \<Rightarrow> nat \<Rightarrow> 8 word" where
  "table_byte tab i = (if i < length tab then tab ! i else 0)"

definition BLOCK_SHIFT :: "nat \<Rightarrow> nat" where
  "BLOCK_SHIFT block = 2 * (block AND (BLOCKS_PER_ATB - 1))"

definition ATB_GET_KIND :: "gc \<Rightarrow> nat \<Rightarrow> 8 word" where
  "ATB_GET_KIND s block =
     drop_bit (BLOCK_SHIFT block) (table_byte (gc_tables s) (block div BLOCKS_PER_ATB)) AND 3"

definition atb_or :: "8 word \<Rightarrow> nat \<Rightarrow> gc \<Rightarrow> gc" where
  "atb_or k block s = s\<lparr>gc_tables := (gc_tables s)[block div BLOCKS_PER_ATB :=
     table_byte (gc_tables s) (block div BLOCKS_PER_ATB) OR push_bit (BLOCK_SHIFT block) k]\<rparr>"

definition atb_and_not :: "8 word \<Rightarrow> nat \<Rightarrow> gc \<Rightarrow> gc" where
  "atb_and_not k block s = s\<lparr>gc_tables := (gc_tables s)[block div BLOCKS_PER_ATB :=
     table_byte (gc_tables s) (block div BLOCKS_PER_ATB) AND
       NOT (push_bit (BLOCK_SHIFT block) k)]\<rparr>"

definition ATB_ANY_TO_FREE :: "nat \<Rightarrow> gc \<Rightarrow> gc" where
  "ATB_ANY_TO_FREE = atb_and_not AT_MARK"

definition ATB_FREE_TO_HEAD :: "nat \<Rightarrow> gc \<Rightarrow> gc" where
  "ATB_FREE_TO_HEAD = atb_or AT_HEAD"

definition ATB_FREE_TO_TAIL :: "nat \<Rightarrow> gc \<Rightarrow> gc" where
  "ATB_FREE_TO_TAIL = atb_or AT_TAIL"

definition ATB_HEAD_TO_MARK :: "nat \<Rightarrow> gc \<Rightarrow> gc" where
  "ATB_HEAD_TO_MARK = atb_or AT_MARK"

definition ATB_MARK_TO_HEAD :: "nat \<Rightarrow> gc \<Rightarrow> gc" where
  "ATB_MARK_TO_HEAD = atb_and_not AT_TAIL"

section \<open>The finaliser table macros\<close>

definition ftb_byte :: "gc \<Rightarrow> nat \<Rightarrow> nat" where
  "ftb_byte s block = gc_alloc_table_byte_len s + block div BLOCKS_PER_FTB"

definition FTB_GET :: "gc \<Rightarrow> nat \<Rightarrow> bool" where
  "FTB_GET s block \<longleftrightarrow>
     drop_bit (block AND 7) (table_byte (gc_tables s) (ftb_byte s block)) AND 1 \<noteq> 0"

definition FTB_SET :: "nat \<Rightarrow> gc \<Rightarrow> gc" where
  "FTB_SET block s = s\<lparr>gc_tables := (gc_tables s)[ftb_byte s block :=
     table_byte (gc_tables s) (ftb_byte s block) OR push_bit (block AND 7) 1]\<rparr>"

definition FTB_CLEAR :: "nat \<Rightarrow> gc \<Rightarrow> gc" where
  "FTB_CLEAR block s = s\<lparr>gc_tables := (gc_tables s)[ftb_byte s block :=
     table_byte (gc_tables s) (ftb_byte s block) AND NOT (push_bit (block AND 7) 1)]\<rparr>"

section \<open>Addresses and blocks\<close>

definition BLOCK_FROM_PTR :: "gc \<Rightarrow> nat \<Rightarrow> nat" where
  "BLOCK_FROM_PTR s ptr = (ptr - gc_pool_start s) div BYTES_PER_BLOCK"

definition PTR_FROM_BLOCK :: "gc \<Rightarrow> nat \<Rightarrow> nat" where
  "PTR_FROM_BLOCK s block = block * BYTES_PER_BLOCK + gc_pool_start s"

definition VERIFY_PTR :: "gc \<Rightarrow> nat \<Rightarrow> bool" where
  "VERIFY_PTR s ptr \<longleftrightarrow>
     ptr AND (BYTES_PER_BLOCK - 1) = 0 \<and> gc_pool_start s \<le> ptr \<and> ptr < gc_pool_end s"

section \<open>The tables as an array of block kinds\<close>

lemma word8_two_bits:
  fixes w :: "8 word"
  shows "bit (w AND 3) n \<longleftrightarrow> n < 2 \<and> bit w n"
proof -
  have "w AND 3 = take_bit 2 w" by (simp add: take_bit_eq_mask mask_eq_exp_minus_1)
  then show ?thesis by (simp add: bit_take_bit_iff)
qed

lemma bit_small_const:
  fixes k :: "8 word"
  assumes "k AND 3 = k" and "bit k n"
  shows "n < 2"
  using assms word8_two_bits [of k n] by simp

lemma BLOCK_SHIFT_eq: "BLOCK_SHIFT b = 2 * (b mod 4)"
  by (simp add: BLOCK_SHIFT_def nat_and_mask)

lemma ATB_GET_KIND_cases:
  obtains (FREE) "ATB_GET_KIND s b = AT_FREE" | (HEAD) "ATB_GET_KIND s b = AT_HEAD"
    | (TAIL) "ATB_GET_KIND s b = AT_TAIL" | (MARK) "ATB_GET_KIND s b = AT_MARK"
proof -
  have "ATB_GET_KIND s b \<le> 3" unfolding ATB_GET_KIND_def by (rule word_and_le1)
  then have "unat (ATB_GET_KIND s b) \<le> 3" by (simp add: word_le_nat_alt)
  then have "unat (ATB_GET_KIND s b) \<in> {0, 1, 2, 3}" by auto
  then have "ATB_GET_KIND s b \<in> {0, 1, 2, 3}"
    by (auto simp: word_unat_eq_iff)
  then show thesis using that by blast
qed

lemma slot_bit_bound: "n < 2 \<Longrightarrow> 2 * (b mod 4) + n < (8 :: nat)"
  using mod_less_divisor [of 4 b] by linarith

lemma slot_bit_push:
  fixes k :: "8 word"
  assumes "k AND 3 = k" and "n < 2"
  shows "bit (push_bit (2 * (c mod 4)) k) (2 * (b mod 4) + n) \<longleftrightarrow> b mod 4 = c mod 4 \<and> bit k n"
proof (cases "b mod 4 = c mod 4")
  case True
  with slot_bit_bound [OF assms(2), of b] show ?thesis by (simp add: bit_push_bit_iff)
next
  case False
  then have "\<not> (2 * (c mod 4) \<le> 2 * (b mod 4) + n \<and> 2 * (b mod 4) + n - 2 * (c mod 4) < 2)"
    using assms(2) by arith
  with False bit_small_const [OF assms(1)] show ?thesis by (auto simp: bit_push_bit_iff)
qed

lemma slot_or:
  fixes w k :: "8 word"
  assumes "k AND 3 = k"
  shows "drop_bit (2 * (b mod 4)) (w OR push_bit (2 * (c mod 4)) k) AND 3 =
    (if b mod 4 = c mod 4 then (drop_bit (2 * (b mod 4)) w AND 3) OR k
     else drop_bit (2 * (b mod 4)) w AND 3)" (is "?l = ?r")
proof (rule bit_eqI)
  fix n
  show "bit ?l n = bit ?r n"
  proof (cases "n < 2")
    case True
    then show ?thesis
      using slot_bit_push [OF assms True, of c b]
      by (auto simp only: word8_two_bits bit_or_iff bit_drop_bit_eq o_def split: if_split)
  next
    case False
    then have "\<not> bit k n" using bit_small_const [OF assms] by blast
    with False show ?thesis
      by (auto simp only: word8_two_bits bit_or_iff split: if_split)
  qed
qed

lemma word8_and_not:
  fixes w v :: "8 word"
  shows "bit (w AND NOT v) n \<longleftrightarrow> bit w n \<and> \<not> bit v n"
  by (auto simp: bit_and_iff bit_not_iff dest: bit_imp_le_length)

lemma slot_and_not:
  fixes w k :: "8 word"
  assumes "k AND 3 = k"
  shows "drop_bit (2 * (b mod 4)) (w AND NOT (push_bit (2 * (c mod 4)) k)) AND 3 =
    (if b mod 4 = c mod 4 then (drop_bit (2 * (b mod 4)) w AND 3) AND NOT k
     else drop_bit (2 * (b mod 4)) w AND 3)" (is "?l = ?r")
proof (rule bit_eqI)
  fix n
  show "bit ?l n = bit ?r n"
  proof (cases "n < 2")
    case True
    then show ?thesis
      using slot_bit_push [OF assms True, of c b]
      by (auto simp only: word8_two_bits word8_and_not bit_drop_bit_eq o_def split: if_split)
  next
    case False
    then show ?thesis
      by (auto simp only: word8_two_bits word8_and_not split: if_split)
  qed
qed

section \<open>Effect of the macros on kinds and finaliser bits\<close>

text \<open>
  \<open>gc_tables_ok\<close>: the byte list is long enough for both tables, and the pool has one block
  per entry of the allocation table.
\<close>

definition gc_tables_ok :: "gc \<Rightarrow> bool" where
  "gc_tables_ok s \<longleftrightarrow>
     length (gc_tables s) =
       gc_alloc_table_byte_len s + (gc_blocks s + BLOCKS_PER_FTB - 1) div BLOCKS_PER_FTB \<and>
     gc_pool_end s = gc_pool_start s + gc_blocks s * BYTES_PER_BLOCK \<and>
     gc_pool_start s mod BYTES_PER_BLOCK = 0 \<and> 0 < gc_pool_start s"

lemma kind_atb_or:
  assumes "k AND 3 = k" and "c div 4 < length (gc_tables s)"
  shows "ATB_GET_KIND (atb_or k c s) b =
    (if b = c then ATB_GET_KIND s b OR k else ATB_GET_KIND s b)"
proof (cases "b div 4 = c div 4")
  case True
  then have eq: "b = c \<longleftrightarrow> b mod 4 = c mod 4" by (metis div_mult_mod_eq)
  let ?w = "table_byte (gc_tables s) (c div 4)"
  have "ATB_GET_KIND (atb_or k c s) b =
      drop_bit (2 * (b mod 4)) (?w OR push_bit (2 * (c mod 4)) k) AND 3"
    using True assms(2) by (simp add: ATB_GET_KIND_def atb_or_def table_byte_def BLOCK_SHIFT_eq)
  also note slot_or [OF assms(1)]
  finally show ?thesis using True eq by (simp add: ATB_GET_KIND_def BLOCK_SHIFT_eq)
next
  case False
  then show ?thesis
    by (auto simp: ATB_GET_KIND_def atb_or_def table_byte_def)
qed

lemma kind_atb_and_not:
  assumes "k AND 3 = k" and "c div 4 < length (gc_tables s)"
  shows "ATB_GET_KIND (atb_and_not k c s) b =
    (if b = c then ATB_GET_KIND s b AND NOT k else ATB_GET_KIND s b)"
proof (cases "b div 4 = c div 4")
  case True
  then have eq: "b = c \<longleftrightarrow> b mod 4 = c mod 4" by (metis div_mult_mod_eq)
  let ?w = "table_byte (gc_tables s) (c div 4)"
  have "ATB_GET_KIND (atb_and_not k c s) b =
      drop_bit (2 * (b mod 4)) (?w AND NOT (push_bit (2 * (c mod 4)) k)) AND 3"
    using True assms(2) by (simp add: ATB_GET_KIND_def atb_and_not_def table_byte_def BLOCK_SHIFT_eq)
  also note slot_and_not [OF assms(1)]
  finally show ?thesis using True eq by (simp add: ATB_GET_KIND_def BLOCK_SHIFT_eq)
next
  case False
  then show ?thesis
    by (auto simp: ATB_GET_KIND_def atb_and_not_def table_byte_def)
qed

lemma kind_in_table: "ATB_GET_KIND s b \<noteq> AT_FREE \<Longrightarrow> b div 4 < length (gc_tables s)"
  by (auto simp: ATB_GET_KIND_def table_byte_def split: if_splits)

lemma kind_ANY_TO_FREE:
  assumes "c div 4 < length (gc_tables s)"
  shows "ATB_GET_KIND (ATB_ANY_TO_FREE c s) b =
    (if b = c then AT_FREE else ATB_GET_KIND s b)"
  using kind_atb_and_not [of 3 c s b] assms
  by (cases s b rule: ATB_GET_KIND_cases) (auto simp: ATB_ANY_TO_FREE_def)

lemma kind_FREE_TO_HEAD:
  assumes "c div 4 < length (gc_tables s)" and "ATB_GET_KIND s c = AT_FREE"
  shows "ATB_GET_KIND (ATB_FREE_TO_HEAD c s) b =
    (if b = c then AT_HEAD else ATB_GET_KIND s b)"
  using kind_atb_or [of 1 c s b] assms by (simp add: ATB_FREE_TO_HEAD_def)

lemma kind_FREE_TO_TAIL:
  assumes "c div 4 < length (gc_tables s)" and "ATB_GET_KIND s c = AT_FREE"
  shows "ATB_GET_KIND (ATB_FREE_TO_TAIL c s) b =
    (if b = c then AT_TAIL else ATB_GET_KIND s b)"
  using kind_atb_or [of 2 c s b] assms by (simp add: ATB_FREE_TO_TAIL_def)

lemma kind_HEAD_TO_MARK:
  assumes "ATB_GET_KIND s c = AT_HEAD"
  shows "ATB_GET_KIND (ATB_HEAD_TO_MARK c s) b =
    (if b = c then AT_MARK else ATB_GET_KIND s b)"
  using kind_atb_or [of 3 c s b] kind_in_table [of s c] assms by (simp add: ATB_HEAD_TO_MARK_def)

lemma kind_MARK_TO_HEAD:
  assumes "ATB_GET_KIND s c = AT_MARK"
  shows "ATB_GET_KIND (ATB_MARK_TO_HEAD c s) b =
    (if b = c then AT_HEAD else ATB_GET_KIND s b)"
  using kind_atb_and_not [of 2 c s b] kind_in_table [of s c] assms by (simp add: ATB_MARK_TO_HEAD_def)

text \<open>The state components the table macros leave alone.\<close>

lemma atb_or_frame [simp]:
  "length (gc_tables (atb_or k b s)) = length (gc_tables s)"
  "gc_alloc_table_byte_len (atb_or k b s) = gc_alloc_table_byte_len s"
  "gc_pool_start (atb_or k b s) = gc_pool_start s" "gc_pool_end (atb_or k b s) = gc_pool_end s"
  "gc_mem (atb_or k b s) = gc_mem s" "gc_stack_overflow (atb_or k b s) = gc_stack_overflow s"
  "gc_lock_depth (atb_or k b s) = gc_lock_depth s"
  "gc_last_free_atb_index (atb_or k b s) = gc_last_free_atb_index s"
  "gc_auto_collect_enabled (atb_or k b s) = gc_auto_collect_enabled s"
  "gc_blocks (atb_or k b s) = gc_blocks s"
  by (simp_all add: atb_or_def gc_blocks_def)

lemma atb_and_not_frame [simp]:
  "length (gc_tables (atb_and_not k b s)) = length (gc_tables s)"
  "gc_alloc_table_byte_len (atb_and_not k b s) = gc_alloc_table_byte_len s"
  "gc_pool_start (atb_and_not k b s) = gc_pool_start s"
  "gc_pool_end (atb_and_not k b s) = gc_pool_end s"
  "gc_mem (atb_and_not k b s) = gc_mem s"
  "gc_stack_overflow (atb_and_not k b s) = gc_stack_overflow s"
  "gc_lock_depth (atb_and_not k b s) = gc_lock_depth s"
  "gc_last_free_atb_index (atb_and_not k b s) = gc_last_free_atb_index s"
  "gc_auto_collect_enabled (atb_and_not k b s) = gc_auto_collect_enabled s"
  "gc_blocks (atb_and_not k b s) = gc_blocks s"
  by (simp_all add: atb_and_not_def gc_blocks_def)

lemmas atb_macros = ATB_ANY_TO_FREE_def ATB_FREE_TO_HEAD_def ATB_FREE_TO_TAIL_def
  ATB_HEAD_TO_MARK_def ATB_MARK_TO_HEAD_def

lemma FTB_frame [simp]:
  "length (gc_tables (FTB_SET b s)) = length (gc_tables s)"
  "length (gc_tables (FTB_CLEAR b s)) = length (gc_tables s)"
  "gc_alloc_table_byte_len (FTB_SET b s) = gc_alloc_table_byte_len s"
  "gc_alloc_table_byte_len (FTB_CLEAR b s) = gc_alloc_table_byte_len s"
  "gc_pool_start (FTB_SET b s) = gc_pool_start s" "gc_pool_start (FTB_CLEAR b s) = gc_pool_start s"
  "gc_pool_end (FTB_SET b s) = gc_pool_end s" "gc_pool_end (FTB_CLEAR b s) = gc_pool_end s"
  "gc_mem (FTB_SET b s) = gc_mem s" "gc_mem (FTB_CLEAR b s) = gc_mem s"
  "gc_lock_depth (FTB_SET b s) = gc_lock_depth s" "gc_lock_depth (FTB_CLEAR b s) = gc_lock_depth s"
  "gc_last_free_atb_index (FTB_SET b s) = gc_last_free_atb_index s"
  "gc_last_free_atb_index (FTB_CLEAR b s) = gc_last_free_atb_index s"
  "gc_blocks (FTB_SET b s) = gc_blocks s" "gc_blocks (FTB_CLEAR b s) = gc_blocks s"
  by (simp_all add: FTB_SET_def FTB_CLEAR_def gc_blocks_def)

lemma block_in_table:
  assumes "b < gc_blocks s"
  shows "b div 4 < gc_alloc_table_byte_len s"
  using assms by (simp add: gc_blocks_def less_mult_imp_div_less)

lemma block_in_tables:
  assumes "gc_tables_ok s" and "b < gc_blocks s"
  shows "b div 4 < length (gc_tables s)" and "ftb_byte s b < length (gc_tables s)"
proof -
  show "b div 4 < length (gc_tables s)"
    using assms block_in_table [OF assms(2)] by (simp add: gc_tables_ok_def)
  have "b div 8 < (gc_blocks s + 7) div 8" using assms(2) by linarith
  with assms(1) show "ftb_byte s b < length (gc_tables s)"
    by (simp add: gc_tables_ok_def ftb_byte_def)
qed

lemma kind_FTB:
  assumes "b < gc_blocks s"
  shows "ATB_GET_KIND (FTB_SET c s) b = ATB_GET_KIND s b"
    and "ATB_GET_KIND (FTB_CLEAR c s) b = ATB_GET_KIND s b"
  using block_in_table [OF assms]
  by (simp_all add: ATB_GET_KIND_def FTB_SET_def FTB_CLEAR_def table_byte_def ftb_byte_def)

lemma FTB_atb:
  assumes "c < gc_blocks s"
  shows "FTB_GET (atb_or k c s) b = FTB_GET s b" and "FTB_GET (atb_and_not k c s) b = FTB_GET s b"
  using block_in_table [OF assms]
  by (simp_all add: FTB_GET_def atb_or_def atb_and_not_def table_byte_def ftb_byte_def)

lemma FTB_GET_bit:
  "FTB_GET s b \<longleftrightarrow> bit (table_byte (gc_tables s) (ftb_byte s b)) (b mod 8)"
  by (simp add: FTB_GET_def nat_and_mask bit_iff_and_drop_bit_eq_1 [of _ "b mod 8"] and_one_eq odd_iff_mod_2_eq_one)

lemma FTB_same_byte: "ftb_byte s b = ftb_byte s c \<Longrightarrow> b = c \<longleftrightarrow> b mod 8 = c mod 8"
  by (metis add_left_cancel div_mult_mod_eq ftb_byte_def)

lemma bit_one_pushed:
  "bit (push_bit (c mod 8) (1 :: 8 word)) (b mod 8) \<longleftrightarrow> b mod 8 = c mod (8 :: nat)"
  by (auto simp: bit_exp_iff)

lemma FTB_GET_SET:
  assumes "gc_tables_ok s" and "c < gc_blocks s"
  shows "FTB_GET (FTB_SET c s) b \<longleftrightarrow> b = c \<or> FTB_GET s b"
  using bit_one_pushed [of c b] block_in_tables(2) [OF assms] FTB_same_byte [of s b c]
  by (auto simp: FTB_GET_bit FTB_SET_def table_byte_def ftb_byte_def nth_list_update
      nat_and_mask bit_or_iff)

lemma FTB_GET_CLEAR:
  assumes "gc_tables_ok s" and "c < gc_blocks s"
  shows "FTB_GET (FTB_CLEAR c s) b \<longleftrightarrow> b \<noteq> c \<and> FTB_GET s b"
  using bit_one_pushed [of c b] block_in_tables(2) [OF assms] FTB_same_byte [of s b c]
  by (auto simp: FTB_GET_bit FTB_CLEAR_def table_byte_def ftb_byte_def nth_list_update
      nat_and_mask word8_and_not)

end
