(* ===== verification/GcMark.thy ===== *)
theory GcMark
  imports GcTable
begin

text \<open>
  Marking, sweeping and a whole collection (\<open>gc_mark_subtree\<close>,
  \<open>gc_deal_with_stack_overflow\<close>, \<open>gc_sweep\<close>, \<open>gc_collect_start\<close>, \<open>gc_collect_root\<close>,
  \<open>gc_collect_end\<close>, \<open>gc_sweep_all\<close> of \<^verbatim>\<open>py/gc.c\<close> and \<open>gc_collect\<close> of
  \<^verbatim>\<open>ports/unix/gccollect.c\<close>).

  What the collector takes from outside is an argument \<open>E\<close>: the size of its mark stack
  (\<^verbatim>\<open>MICROPY_ALLOC_GC_STACK_SIZE\<close>, any number here), the words of the root section of
  \<^verbatim>\<open>mp_state_ctx\<close>, the lists of words the port passes to \<open>gc_collect_root\<close> (registers, C
  stack, other threads, native code), and what running the \<^verbatim>\<open>__del__\<close> method of an object
  does to the pool.  While a collection runs the heap is locked, so a \<^verbatim>\<open>__del__\<close> method can
  write to objects but cannot change the tables.
\<close>

unbundle bit_operations_syntax

record gc_env =
  GC_STACK_SIZE :: nat
  ctx_roots :: "nat list"
  port_roots :: "nat list list"
  run_del :: "(nat \<Rightarrow> nat) \<Rightarrow> nat \<Rightarrow> (nat \<Rightarrow> nat)"

section \<open>Marking\<close>

text \<open>A pointer-sized word of the pool, little-endian.\<close>

definition load_ptr :: "(nat \<Rightarrow> nat) \<Rightarrow> nat \<Rightarrow> nat" where
  "load_ptr m a = sum_list (map (\<lambda>i. m (a + i) * 256 ^ i) [0..<SIZEOF_PTR])"

text \<open>
  The \<^verbatim>\<open>do ... while\<close> loop that counts the blocks of a chain: \<open>n_blocks\<close> grows while the
  block after the ones counted so far is a tail.
\<close>

function chain_len :: "gc \<Rightarrow> nat \<Rightarrow> nat \<Rightarrow> nat" where
  "chain_len s block n_blocks =
     (if ATB_GET_KIND s (block + n_blocks) = AT_TAIL then chain_len s block (n_blocks + 1)
      else n_blocks)"
  by pat_completeness auto
termination
proof (relation "measure (\<lambda>(s, block, n_blocks). 4 * length (gc_tables s) - (block + n_blocks))")
  fix s block n_blocks
  assume "ATB_GET_KIND s (block + n_blocks) = AT_TAIL"
  then have "(block + n_blocks) div 4 < length (gc_tables s)" by (intro kind_in_table) simp
  then show "((s, block, n_blocks + 1), s, block, n_blocks)
      \<in> measure (\<lambda>(s, block, n_blocks). 4 * length (gc_tables s) - (block + n_blocks))"
    by simp
qed simp

declare chain_len.simps [simp del]

text \<open>The words of the chain that starts at a block.\<close>

definition block_ptrs :: "gc \<Rightarrow> nat \<Rightarrow> nat list" where
  "block_ptrs s block =
     map (\<lambda>i. load_ptr (gc_mem s) (PTR_FROM_BLOCK s block + i * SIZEOF_PTR))
       [0..<chain_len s block 1 * BYTES_PER_BLOCK div SIZEOF_PTR]"

text \<open>
  One round of the inner loop; the second component is \<^verbatim>\<open>gc_stack[0..sp]\<close>, top first.
\<close>

definition gc_mark_child :: "gc_env \<Rightarrow> nat \<Rightarrow> gc \<times> nat list \<Rightarrow> gc \<times> nat list" where
  "gc_mark_child E ptr = (\<lambda>(s, stack).
     if VERIFY_PTR s ptr then
       let childblock = BLOCK_FROM_PTR s ptr
       in if ATB_GET_KIND s childblock = AT_HEAD then
            let s = ATB_HEAD_TO_MARK childblock s
            in if length stack < GC_STACK_SIZE E then (s, childblock # stack)
               else (s\<lparr>gc_stack_overflow := True\<rparr>, stack)
          else (s, stack)
     else (s, stack))"

definition gc_scan_block :: "gc_env \<Rightarrow> nat \<Rightarrow> gc \<times> nat list \<Rightarrow> gc \<times> nat list" where
  "gc_scan_block E block = (\<lambda>(s, stack). fold (gc_mark_child E) (block_ptrs s block) (s, stack))"

text \<open>Marking turns heads into marks, so the number of heads bounds the work.\<close>

definition gc_heads :: "gc \<Rightarrow> nat" where
  "gc_heads s = card {b. ATB_GET_KIND s b = AT_HEAD}"

lemma finite_kind: "k \<noteq> AT_FREE \<Longrightarrow> finite {b. ATB_GET_KIND s b = k}"
proof (rule finite_subset)
  assume "k \<noteq> AT_FREE"
  then show "{b. ATB_GET_KIND s b = k} \<subseteq> {..<4 * length (gc_tables s)}"
    using kind_in_table [of s] by fastforce
qed simp

lemma kind_overflow_update [simp]:
  "ATB_GET_KIND (s\<lparr>gc_stack_overflow := v\<rparr>) b = ATB_GET_KIND s b"
  by (simp add: ATB_GET_KIND_def)

lemma gc_heads_overflow_update [simp]:
  "gc_heads (s\<lparr>gc_stack_overflow := v\<rparr>) = gc_heads s"
  by (simp add: gc_heads_def)

lemma gc_heads_mark:
  assumes "ATB_GET_KIND s c = AT_HEAD"
  shows "gc_heads s = Suc (gc_heads (ATB_HEAD_TO_MARK c s))"
proof -
  have "{b. ATB_GET_KIND (ATB_HEAD_TO_MARK c s) b = AT_HEAD} =
      {b. ATB_GET_KIND s b = AT_HEAD} - {c}"
    by (auto simp: kind_HEAD_TO_MARK [OF assms])
  with assms card_Suc_Diff1 [OF finite_kind [of AT_HEAD s], of c] show ?thesis
    by (simp add: gc_heads_def)
qed

definition gc_mark_progress :: "gc \<times> nat list \<Rightarrow> gc \<times> nat list \<Rightarrow> bool" where
  "gc_mark_progress = (\<lambda>(s, stack) (s', stack').
     2 * gc_heads s' + length stack' \<le> 2 * gc_heads s + length stack \<and>
     gc_heads s' \<le> gc_heads s \<and>
     (gc_stack_overflow s' \<longrightarrow> gc_stack_overflow s \<or> gc_heads s' < gc_heads s))"

lemma gc_mark_child_progress: "gc_mark_progress p (gc_mark_child E ptr p)"
proof (cases p)
  case (Pair s stack)
  have "gc_stack_overflow (ATB_HEAD_TO_MARK c s) = gc_stack_overflow s" for c
    by (simp add: ATB_HEAD_TO_MARK_def)
  with Pair gc_heads_mark [of s "BLOCK_FROM_PTR s ptr"] show ?thesis
    by (simp add: gc_mark_progress_def gc_mark_child_def Let_def)
qed

lemma gc_mark_progress_refl: "gc_mark_progress p p"
  by (cases p) (simp add: gc_mark_progress_def)

lemma gc_mark_progress_trans:
  "gc_mark_progress p q \<Longrightarrow> gc_mark_progress q r \<Longrightarrow> gc_mark_progress p r"
  by (cases p; cases q; cases r) (auto simp: gc_mark_progress_def)

lemma gc_scan_fold_progress: "gc_mark_progress p (fold (gc_mark_child E) ptrs p)"
proof (induction ptrs arbitrary: p)
  case Nil
  show ?case by (simp add: gc_mark_progress_refl)
next
  case (Cons ptr ptrs)
  show ?case
    using gc_mark_progress_trans [OF gc_mark_child_progress Cons.IH] by simp
qed

lemma gc_scan_block_progress: "gc_mark_progress p (gc_scan_block E block p)"
  by (cases p) (simp add: gc_scan_block_def gc_scan_fold_progress)

text \<open>\<open>gc_mark_subtree\<close>: the outer loop takes the next block off the stack until it is empty.\<close>

function gc_mark_loop :: "gc_env \<Rightarrow> nat \<Rightarrow> gc \<times> nat list \<Rightarrow> gc" where
  "gc_mark_loop E block p =
     (case gc_scan_block E block p of
        (s, []) \<Rightarrow> s
      | (s, next # stack) \<Rightarrow> gc_mark_loop E next (s, stack))"
  by pat_completeness auto
termination
proof (relation "measure (\<lambda>(E, block, p). 2 * gc_heads (fst p) + length (snd p))")
  fix E block p s l x stack
  assume "(s, l) = gc_scan_block E block p" and "l = x # stack"
  with gc_scan_block_progress [of p E block]
  show "((E, x, s, stack), E, block, p)
      \<in> measure (\<lambda>(E, block, p). 2 * gc_heads (fst p) + length (snd p))"
    by (cases p) (auto simp: gc_mark_progress_def split: prod.splits)
qed simp

declare gc_mark_loop.simps [simp del]

definition gc_mark_subtree :: "gc_env \<Rightarrow> nat \<Rightarrow> gc \<Rightarrow> gc" where
  "gc_mark_subtree E block s = gc_mark_loop E block (s, [])"

lemma gc_mark_loop_progress: "gc_mark_progress p (gc_mark_loop E block p, [])"
proof (induction E block p rule: gc_mark_loop.induct)
  case (1 E block p)
  obtain s stack where sc: "gc_scan_block E block p = (s, stack)" by force
  with gc_scan_block_progress [of p E block] have p: "gc_mark_progress p (s, stack)" by simp
  show ?case
  proof (cases stack)
    case Nil
    with sc p show ?thesis by (simp add: gc_mark_loop.simps [of E block p])
  next
    case (Cons x xs)
    have "gc_mark_progress (s, xs) (gc_mark_loop E x (s, xs), [])"
      using "1.IH" [OF sc [symmetric] Cons] .
    moreover have "gc_mark_progress p (s, xs)"
      using p Cons by (cases p) (simp add: gc_mark_progress_def)
    ultimately show ?thesis
      using sc Cons gc_mark_progress_trans by (auto simp: gc_mark_loop.simps [of E block p])
  qed
qed

section \<open>Rescanning after an overflow of the mark stack\<close>

definition gc_rescan_block :: "gc_env \<Rightarrow> nat \<Rightarrow> gc \<Rightarrow> gc" where
  "gc_rescan_block E block s =
     (if ATB_GET_KIND s block = AT_MARK then gc_mark_subtree E block s else s)"

definition gc_rescan :: "gc_env \<Rightarrow> gc \<Rightarrow> gc" where
  "gc_rescan E s = fold (gc_rescan_block E) [0..<gc_blocks s] s"

lemma gc_mark_subtree_progress: "gc_mark_progress (s, []) (gc_mark_subtree E block s, [])"
  by (simp add: gc_mark_subtree_def gc_mark_loop_progress)

lemma gc_rescan_fold_progress:
  "gc_mark_progress (s, []) (fold (gc_rescan_block E) bs s, [])"
proof (induction bs arbitrary: s)
  case Nil
  show ?case by (simp add: gc_mark_progress_refl)
next
  case (Cons b bs)
  have "gc_mark_progress (s, []) (gc_rescan_block E b s, [])"
    by (simp add: gc_rescan_block_def gc_mark_subtree_progress gc_mark_progress_refl)
  with Cons.IH [of "gc_rescan_block E b s"] show ?case
    using gc_mark_progress_trans by auto
qed

function gc_deal_with_stack_overflow :: "gc_env \<Rightarrow> gc \<Rightarrow> gc" where
  "gc_deal_with_stack_overflow E s =
     (if gc_stack_overflow s
      then gc_deal_with_stack_overflow E (gc_rescan E (s\<lparr>gc_stack_overflow := False\<rparr>))
      else s)"
  by pat_completeness auto
termination
proof (relation "measures [\<lambda>(E, s). gc_heads s, \<lambda>(E, s). if gc_stack_overflow s then 1 else 0]")
  fix E and s :: gc
  assume "gc_stack_overflow s"
  with gc_rescan_fold_progress [of "s\<lparr>gc_stack_overflow := False\<rparr>" E
      "[0..<gc_blocks (s\<lparr>gc_stack_overflow := False\<rparr>)]"]
  show "((E, gc_rescan E (s\<lparr>gc_stack_overflow := False\<rparr>)), E, s)
      \<in> measures [\<lambda>(E, s). gc_heads s, \<lambda>(E, s). if gc_stack_overflow s then 1 else 0]"
    by (auto simp: gc_rescan_def gc_mark_progress_def)
qed simp

declare gc_deal_with_stack_overflow.simps [simp del]

section \<open>Sweeping\<close>

text \<open>One round of the loop of \<open>gc_sweep\<close>; the flag is \<^verbatim>\<open>free_tail\<close>.\<close>

definition gc_finalise :: "gc_env \<Rightarrow> nat \<Rightarrow> gc \<Rightarrow> gc" where
  "gc_finalise E block s =
     (if FTB_GET s block then
        let s = (if load_ptr (gc_mem s) (PTR_FROM_BLOCK s block) \<noteq> 0
                 then s\<lparr>gc_mem := run_del E (gc_mem s) (PTR_FROM_BLOCK s block)\<rparr> else s)
        in FTB_CLEAR block s
      else s)"

definition gc_sweep_block :: "gc_env \<Rightarrow> nat \<Rightarrow> gc \<times> bool \<Rightarrow> gc \<times> bool" where
  "gc_sweep_block E block = (\<lambda>(s, free_tail).
     let kind = ATB_GET_KIND s block
     in if kind = AT_HEAD then
          let s = gc_finalise E block s;
              s = s\<lparr>gc_collected := gc_collected s + 1\<rparr>
          in (ATB_ANY_TO_FREE block s, True)
        else if kind = AT_TAIL then
          (if free_tail then ATB_ANY_TO_FREE block s else s, free_tail)
        else if kind = AT_MARK then (ATB_MARK_TO_HEAD block s, False)
        else (s, free_tail))"

definition gc_sweep :: "gc_env \<Rightarrow> gc \<Rightarrow> gc" where
  "gc_sweep E s =
     fst (fold (gc_sweep_block E) [0..<gc_blocks s] (s\<lparr>gc_collected := 0\<rparr>, False))"

section \<open>A collection\<close>

definition gc_collect_root1 :: "gc_env \<Rightarrow> nat \<Rightarrow> gc \<Rightarrow> gc" where
  "gc_collect_root1 E ptr s =
     (if VERIFY_PTR s ptr then
        let block = BLOCK_FROM_PTR s ptr
        in if ATB_GET_KIND s block = AT_HEAD
           then gc_mark_subtree E block (ATB_HEAD_TO_MARK block s) else s
      else s)"

definition gc_collect_root :: "gc_env \<Rightarrow> nat list \<Rightarrow> gc \<Rightarrow> gc" where
  "gc_collect_root E ptrs s = fold (gc_collect_root1 E) ptrs s"

definition gc_collect_start :: "gc_env \<Rightarrow> gc \<Rightarrow> gc" where
  "gc_collect_start E s =
     gc_collect_root E (ctx_roots E)
       (s\<lparr>gc_lock_depth := u16 (gc_lock_depth s + 1), gc_alloc_amount := 0,
          gc_stack_overflow := False\<rparr>)"

definition gc_collect_end :: "gc_env \<Rightarrow> gc \<Rightarrow> gc" where
  "gc_collect_end E s =
     (let s = gc_sweep E (gc_deal_with_stack_overflow E s)
      in s\<lparr>gc_last_free_atb_index := 0, gc_lock_depth := to_u16 (int (gc_lock_depth s) - 1)\<rparr>)"

definition gc_sweep_all :: "gc_env \<Rightarrow> gc \<Rightarrow> gc" where
  "gc_sweep_all E s =
     gc_collect_end E (s\<lparr>gc_lock_depth := u16 (gc_lock_depth s + 1), gc_stack_overflow := False\<rparr>)"

definition gc_collect :: "gc_env \<Rightarrow> gc \<Rightarrow> gc" where
  "gc_collect E s =
     gc_collect_end E (fold (gc_collect_root E) (port_roots E) (gc_collect_start E s))"

section \<open>What marking preserves\<close>

text \<open>
  \<open>gc_marks_more s t\<close>: \<open>t\<close> differs from \<open>s\<close> at most in heads that became marks and in the
  overflow flag, which is never reset.
\<close>

definition gc_rest :: "gc \<Rightarrow> gc" where
  "gc_rest s = s\<lparr>gc_tables := [], gc_stack_overflow := False\<rparr>"

definition gc_marks_more :: "gc \<Rightarrow> gc \<Rightarrow> bool" where
  "gc_marks_more s t \<longleftrightarrow>
     (\<forall>b. ATB_GET_KIND t b = ATB_GET_KIND s b \<or>
          b < gc_blocks s \<and> ATB_GET_KIND s b = AT_HEAD \<and> ATB_GET_KIND t b = AT_MARK) \<and>
     (\<forall>b. FTB_GET t b = FTB_GET s b) \<and> length (gc_tables t) = length (gc_tables s) \<and>
     gc_rest t = gc_rest s \<and> (gc_stack_overflow s \<longrightarrow> gc_stack_overflow t)"

lemma gc_rest_eqD:
  assumes "gc_rest t = gc_rest s"
  shows "gc_alloc_table_byte_len t = gc_alloc_table_byte_len s" "gc_pool_start t = gc_pool_start s"
    "gc_pool_end t = gc_pool_end s" "gc_mem t = gc_mem s" "gc_lock_depth t = gc_lock_depth s"
    "gc_blocks t = gc_blocks s" "gc_last_free_atb_index t = gc_last_free_atb_index s"
    "gc_auto_collect_enabled t = gc_auto_collect_enabled s" "gc_collected t = gc_collected s"
    "gc_alloc_amount t = gc_alloc_amount s" "gc_alloc_threshold t = gc_alloc_threshold s"
  using assms by (cases s; cases t; simp add: gc_rest_def gc_blocks_def)+

lemma gc_marks_more_refl: "gc_marks_more s s"
  by (simp add: gc_marks_more_def)

lemma gc_marks_more_trans:
  assumes "gc_marks_more s t" and "gc_marks_more t u"
  shows "gc_marks_more s u"
proof -
  have "gc_rest t = gc_rest s" using assms(1) by (simp add: gc_marks_more_def)
  then have b: "gc_blocks t = gc_blocks s" by (rule gc_rest_eqD)
  have "ATB_GET_KIND u b = ATB_GET_KIND s b \<or>
      b < gc_blocks s \<and> ATB_GET_KIND s b = AT_HEAD \<and> ATB_GET_KIND u b = AT_MARK" for b
    using assms b unfolding gc_marks_more_def by metis
  with assms show ?thesis by (simp add: gc_marks_more_def)
qed

definition gc_marked :: "gc \<Rightarrow> nat set" where
  "gc_marked s = {b. b < gc_blocks s \<and> ATB_GET_KIND s b = AT_MARK}"

text \<open>The first blocks of the allocated chains, and the heads a chain's words point to.\<close>

definition gc_head :: "gc \<Rightarrow> nat \<Rightarrow> bool" where
  "gc_head s b \<longleftrightarrow> b < gc_blocks s \<and> ATB_GET_KIND s b \<in> {AT_HEAD, AT_MARK}"

definition gc_points_to :: "gc \<Rightarrow> nat \<Rightarrow> nat \<Rightarrow> bool" where
  "gc_points_to s ptr b \<longleftrightarrow> VERIFY_PTR s ptr \<and> b = BLOCK_FROM_PTR s ptr \<and> gc_head s b"

definition gc_children :: "gc \<Rightarrow> nat \<Rightarrow> nat set" where
  "gc_children s b = {c. \<exists>ptr \<in> set (block_ptrs s b). gc_points_to s ptr c}"

lemma chain_len_cong:
  assumes "\<And>b. ATB_GET_KIND t b = AT_TAIL \<longleftrightarrow> ATB_GET_KIND s b = AT_TAIL"
  shows "chain_len t b n = chain_len s b n"
  using assms
proof (induction s b n rule: chain_len.induct)
  case (1 s b n)
  then show ?case
    by (simp add: chain_len.simps [of t b n] chain_len.simps [of s b n])
qed

lemma gc_marks_moreD:
  assumes "gc_marks_more s t"
  shows "gc_blocks t = gc_blocks s" "VERIFY_PTR t = VERIFY_PTR s"
    "BLOCK_FROM_PTR t = BLOCK_FROM_PTR s" "gc_head t = gc_head s" "block_ptrs t = block_ptrs s"
    "gc_points_to t = gc_points_to s" "gc_children t = gc_children s"
    "gc_marked s \<subseteq> gc_marked t" "gc_tables_ok t \<longleftrightarrow> gc_tables_ok s"
    "gc_stack_overflow s \<Longrightarrow> gc_stack_overflow t"
proof -
  note r = gc_rest_eqD [of t s]
  have rest: "gc_rest t = gc_rest s" and len: "length (gc_tables t) = length (gc_tables s)"
    and k: "\<And>b. ATB_GET_KIND t b = ATB_GET_KIND s b \<or>
          b < gc_blocks s \<and> ATB_GET_KIND s b = AT_HEAD \<and> ATB_GET_KIND t b = AT_MARK"
    using assms by (auto simp: gc_marks_more_def)
  have hd: "ATB_GET_KIND t b \<in> {AT_HEAD, AT_MARK} \<longleftrightarrow> ATB_GET_KIND s b \<in> {AT_HEAD, AT_MARK}"
    and tl: "ATB_GET_KIND t b = AT_TAIL \<longleftrightarrow> ATB_GET_KIND s b = AT_TAIL"
    and mk: "ATB_GET_KIND s b = AT_MARK \<Longrightarrow> ATB_GET_KIND t b = AT_MARK" for b
    using k [of b] by auto
  show "gc_blocks t = gc_blocks s" and v: "VERIFY_PTR t = VERIFY_PTR s"
    and f: "BLOCK_FROM_PTR t = BLOCK_FROM_PTR s"
    using r [OF rest] by (auto simp: VERIFY_PTR_def BLOCK_FROM_PTR_def fun_eq_iff)
  show h: "gc_head t = gc_head s"
    unfolding gc_head_def fun_eq_iff hd r(6) [OF rest] by blast
  have "chain_len t b n = chain_len s b n" for b n
    by (rule chain_len_cong) (rule tl)
  then show p: "block_ptrs t = block_ptrs s"
    unfolding block_ptrs_def PTR_FROM_BLOCK_def r(2,4) [OF rest] by simp
  show pt: "gc_points_to t = gc_points_to s"
    using v f h by (simp add: gc_points_to_def fun_eq_iff)
  show "gc_children t = gc_children s"
    using p pt by (simp add: gc_children_def fun_eq_iff)
  show "gc_marked s \<subseteq> gc_marked t"
    using r(6) [OF rest] mk by (auto simp: gc_marked_def)
  show "gc_tables_ok t \<longleftrightarrow> gc_tables_ok s"
    using r [OF rest] len by (simp add: gc_tables_ok_def)
  show "gc_stack_overflow s \<Longrightarrow> gc_stack_overflow t"
    using assms by (simp add: gc_marks_more_def)
qed

lemma VERIFY_PTR_block:
  assumes "gc_tables_ok s" and "VERIFY_PTR s ptr"
  shows "BLOCK_FROM_PTR s ptr < gc_blocks s"
    and "PTR_FROM_BLOCK s (BLOCK_FROM_PTR s ptr) = ptr"
proof -
  let ?d = "ptr - gc_pool_start s"
  have "?d < gc_blocks s * 32" and ge: "gc_pool_start s \<le> ptr"
    using assms by (auto simp: gc_tables_ok_def VERIFY_PTR_def)
  then show "BLOCK_FROM_PTR s ptr < gc_blocks s"
    by (simp add: BLOCK_FROM_PTR_def less_mult_imp_div_less)
  have "ptr mod 32 = 0" and "gc_pool_start s mod 32 = 0"
    using assms by (simp_all add: gc_tables_ok_def VERIFY_PTR_def nat_and_mask)
  with ge have "?d mod 32 = 0" by (metis mod_eq_dvd_iff_nat dvd_eq_mod_eq_0)
  then show "PTR_FROM_BLOCK s (BLOCK_FROM_PTR s ptr) = ptr"
    using ge by (auto simp: BLOCK_FROM_PTR_def PTR_FROM_BLOCK_def)
qed

lemma gc_marks_more_mark:
  assumes "ATB_GET_KIND s c = AT_HEAD" and "c < gc_blocks s"
  shows "gc_marks_more s (ATB_HEAD_TO_MARK c s)"
    and "gc_marks_more s ((ATB_HEAD_TO_MARK c s)\<lparr>gc_stack_overflow := True\<rparr>)"
proof -
  have "gc_rest (ATB_HEAD_TO_MARK c s) = gc_rest s"
    by (simp add: gc_rest_def ATB_HEAD_TO_MARK_def atb_or_def)
  moreover have "gc_rest (t\<lparr>gc_stack_overflow := v\<rparr>) = gc_rest t" for t v
    by (simp add: gc_rest_def)
  moreover have "FTB_GET (t\<lparr>gc_stack_overflow := v\<rparr>) b = FTB_GET t b" for t v b
    by (simp add: FTB_GET_def ftb_byte_def)
  moreover have "FTB_GET (ATB_HEAD_TO_MARK c s) b = FTB_GET s b" for b
    using FTB_atb(1) [OF assms(2)] by (simp add: ATB_HEAD_TO_MARK_def)
  moreover have "length (gc_tables (ATB_HEAD_TO_MARK c s)) = length (gc_tables s)"
      "gc_stack_overflow (ATB_HEAD_TO_MARK c s) = gc_stack_overflow s"
    by (simp_all add: ATB_HEAD_TO_MARK_def)
  ultimately show "gc_marks_more s (ATB_HEAD_TO_MARK c s)"
    and "gc_marks_more s ((ATB_HEAD_TO_MARK c s)\<lparr>gc_stack_overflow := True\<rparr>)"
    using assms by (simp_all add: gc_marks_more_def kind_HEAD_TO_MARK)
qed

lemma gc_marked_mark:
  assumes "ATB_GET_KIND s c = AT_HEAD" and "c < gc_blocks s"
  shows "gc_marked (ATB_HEAD_TO_MARK c s) = insert c (gc_marked s)"
    and "gc_marked ((ATB_HEAD_TO_MARK c s)\<lparr>gc_stack_overflow := True\<rparr>) = insert c (gc_marked s)"
  using assms gc_rest_eqD(6) [of "ATB_HEAD_TO_MARK c s" s] gc_marks_more_mark(1) [OF assms]
  by (auto simp: gc_marked_def kind_HEAD_TO_MARK gc_marks_more_def) (auto simp: gc_blocks_def)

section \<open>Marking reaches what the marked blocks point to\<close>

text \<open>
  The effect of scanning a list of words from \<open>p\<close> to \<open>q\<close>: every head a word points to is
  marked, nothing else is, and each newly marked block is on the stack or the overflow flag is
  set.
\<close>

definition gc_scanned :: "nat list \<Rightarrow> gc \<times> nat list \<Rightarrow> gc \<times> nat list \<Rightarrow> bool" where
  "gc_scanned ptrs = (\<lambda>(s, stack) (s', stack').
     gc_marks_more s s' \<and> set stack \<subseteq> set stack' \<and>
     set stack' \<subseteq> set stack \<union> gc_marked s' \<and>
     {c. \<exists>ptr \<in> set ptrs. gc_points_to s ptr c} \<subseteq> gc_marked s' \<and>
     gc_marked s' \<subseteq> gc_marked s \<union> {c. \<exists>ptr \<in> set ptrs. gc_points_to s ptr c} \<and>
     set stack' \<subseteq> set stack \<union> {c. \<exists>ptr \<in> set ptrs. gc_points_to s ptr c} \<and>
     (gc_stack_overflow s' \<or> gc_marked s' \<subseteq> gc_marked s \<union> set stack'))"

lemma gc_mark_child_scanned:
  assumes "gc_tables_ok s"
  shows "gc_scanned [ptr] (s, stack) (gc_mark_child E ptr (s, stack))"
proof (cases "VERIFY_PTR s ptr \<and> ATB_GET_KIND s (BLOCK_FROM_PTR s ptr) = AT_HEAD")
  case True
  let ?c = "BLOCK_FROM_PTR s ptr"
  have c: "ATB_GET_KIND s ?c = AT_HEAD" "?c < gc_blocks s"
    using True VERIFY_PTR_block(1) [OF assms] by auto
  have "{c. gc_points_to s ptr c} = {?c}"
    using True c by (auto simp: gc_points_to_def gc_head_def)
  with True c show ?thesis
    using gc_marks_more_mark [OF c] gc_marked_mark [OF c]
    by (auto simp: gc_scanned_def gc_mark_child_def Let_def)
next
  case False
  then have "{c. gc_points_to s ptr c} \<subseteq> gc_marked s"
    by (auto simp: gc_points_to_def gc_head_def gc_marked_def)
  with False show ?thesis
    by (auto simp: gc_scanned_def gc_mark_child_def Let_def gc_marks_more_refl)
qed

lemma gc_scanned_append:
  assumes "gc_scanned xs p q" and "gc_scanned ys q r"
  shows "gc_scanned (xs @ ys) p r"
proof -
  obtain s st where p: "p = (s, st)" by force
  obtain t st' where q: "q = (t, st')" by force
  obtain u st'' where r: "r = (u, st'')" by force
  have m: "gc_marks_more s t" "gc_marks_more t u"
    using assms by (simp_all add: gc_scanned_def p q r)
  have "gc_marks_more s u" using m by (rule gc_marks_more_trans)
  moreover have "gc_points_to t = gc_points_to s" "gc_marked t \<subseteq> gc_marked u"
      "gc_stack_overflow t \<Longrightarrow> gc_stack_overflow u"
    using gc_marks_moreD(6) [OF m(1)] gc_marks_moreD(8,10) [OF m(2)] by simp_all
  ultimately show ?thesis
    using assms unfolding gc_scanned_def p q r prod.case set_append bex_Un by (simp add: m) blast
qed

lemma gc_scanned_fold:
  "gc_tables_ok (fst p) \<Longrightarrow> gc_scanned ptrs p (fold (gc_mark_child E) ptrs p)"
proof (induction ptrs arbitrary: p)
  case Nil
  show ?case by (cases p) (simp add: gc_scanned_def gc_marks_more_refl)
next
  case (Cons ptr ptrs)
  have 1: "gc_scanned [ptr] p (gc_mark_child E ptr p)"
    using Cons.prems gc_mark_child_scanned by (cases p) simp
  then have "gc_marks_more (fst p) (fst (gc_mark_child E ptr p))"
    by (auto simp: gc_scanned_def split: prod.splits)
  then have "gc_tables_ok (fst (gc_mark_child E ptr p))"
    using Cons.prems gc_marks_moreD(9) by blast
  with Cons.IH gc_scanned_append [OF 1] show ?case by fastforce
qed

lemma gc_scan_block_scanned:
  assumes "gc_tables_ok s"
  shows "gc_scanned (block_ptrs s block) (s, stack) (gc_scan_block E block (s, stack))"
  using gc_scanned_fold [of "(s, stack)" "block_ptrs s block" E] assms
  by (simp add: gc_scan_block_def)

text \<open>
  The marking invariant: unless the stack overflowed, every marked block outside \<open>X\<close> (the
  blocks still to be looked at) has its children marked.
\<close>

definition gc_mark_inv :: "nat set \<Rightarrow> gc \<Rightarrow> bool" where
  "gc_mark_inv X s \<longleftrightarrow>
     gc_stack_overflow s \<or> (\<forall>b \<in> gc_marked s - X. gc_children s b \<subseteq> gc_marked s)"

lemma gc_scan_block_inv:
  assumes ok: "gc_tables_ok s" and inv: "gc_mark_inv (insert block (set stack) \<union> X) s"
    and scan: "gc_scan_block E block (s, stack) = (s', stack')"
  shows "gc_mark_inv (set stack' \<union> X) s'"
proof -
  have sc: "gc_scanned (block_ptrs s block) (s, stack) (s', stack')"
    using gc_scan_block_scanned [OF ok, of block stack E] scan by simp
  then have m: "gc_marks_more s s'" by (simp add: gc_scanned_def)
  note m' = gc_marks_moreD [OF m]
  show ?thesis
  proof (cases "gc_stack_overflow s'")
    case True
    then show ?thesis by (simp add: gc_mark_inv_def)
  next
    case False
    then have nov: "\<not> gc_stack_overflow s" using m'(10) by blast
    have "gc_children s b \<subseteq> gc_marked s'"
      if b: "b \<in> gc_marked s'" "b \<notin> set stack' \<union> X" for b
    proof (cases "b = block")
      case True
      with sc show ?thesis by (auto simp: gc_scanned_def gc_children_def)
    next
      case nb: False
      have "b \<in> gc_marked s" and "b \<notin> set stack"
        using sc b False by (auto simp: gc_scanned_def)
      with nb b inv nov have "gc_children s b \<subseteq> gc_marked s" by (auto simp: gc_mark_inv_def)
      with m'(8) show ?thesis by blast
    qed
    with m'(7) show ?thesis by (auto simp: gc_mark_inv_def)
  qed
qed

lemma gc_mark_loop_correct:
  assumes "gc_tables_ok (fst p)"
  shows "gc_marks_more (fst p) (gc_mark_loop E block p) \<and>
    (gc_mark_inv (insert block (set (snd p)) \<union> X) (fst p) \<longrightarrow>
       gc_mark_inv X (gc_mark_loop E block p))"
  using assms
proof (induction E block p rule: gc_mark_loop.induct)
  case (1 E block p)
  obtain s stack where p: "p = (s, stack)" by force
  obtain s' stack' where sc: "gc_scan_block E block p = (s', stack')" by force
  have ok: "gc_tables_ok s" using "1.prems" p by simp
  have m: "gc_marks_more s s'"
    using gc_scan_block_scanned [OF ok, of block stack E] sc p by (simp add: gc_scanned_def)
  have inv: "gc_mark_inv (insert block (set stack) \<union> X) s \<Longrightarrow> gc_mark_inv (set stack' \<union> X) s'"
    using gc_scan_block_inv [OF ok] sc p by blast
  show ?case
  proof (cases stack')
    case Nil
    with sc have "gc_mark_loop E block p = s'" by (simp add: gc_mark_loop.simps [of E block p])
    with p m inv Nil show ?thesis by simp
  next
    case (Cons x xs)
    have "gc_tables_ok s'" using ok m gc_marks_moreD(9) by blast
    with "1.IH" [OF sc [symmetric] Cons] have IH:
      "gc_marks_more s' (gc_mark_loop E x (s', xs))"
      "gc_mark_inv (insert x (set xs) \<union> X) s' \<Longrightarrow> gc_mark_inv X (gc_mark_loop E x (s', xs))"
      by simp_all
    have eq: "gc_mark_loop E block p = gc_mark_loop E x (s', xs)"
      using sc Cons by (simp add: gc_mark_loop.simps [of E block p])
    show ?thesis
      unfolding eq using gc_marks_more_trans [OF m IH(1)] IH(2) inv p Cons by simp
  qed
qed

lemma gc_mark_loop_sound:
  assumes "gc_tables_ok (fst p)" and "\<And>b. b \<in> R \<Longrightarrow> gc_children (fst p) b \<subseteq> R"
    and "block \<in> R" and "set (snd p) \<subseteq> R" and "gc_marked (fst p) \<subseteq> R"
  shows "gc_marked (gc_mark_loop E block p) \<subseteq> R"
  using assms
proof (induction E block p rule: gc_mark_loop.induct)
  case (1 E block p)
  obtain s stack where p: "p = (s, stack)" by force
  obtain s' stack' where sc: "gc_scan_block E block p = (s', stack')" by force
  have ok: "gc_tables_ok s" using "1.prems"(1) p by simp
  have scd: "gc_scanned (block_ptrs s block) (s, stack) (s', stack')"
    using gc_scan_block_scanned [OF ok, of block stack E] sc p by simp
  then have m: "gc_marks_more s s'" by (simp add: gc_scanned_def)
  note m' = gc_marks_moreD [OF m]
  have "gc_marked s' \<subseteq> gc_marked s \<union> gc_children s block"
    and "set stack' \<subseteq> set stack \<union> gc_children s block"
    using scd by (simp_all add: gc_scanned_def gc_children_def)
  moreover have "gc_children s block \<subseteq> R" "set stack \<subseteq> R" "gc_marked s \<subseteq> R"
    using "1.prems"(2-5) p by simp_all
  ultimately have R: "gc_marked s' \<subseteq> R" "set stack' \<subseteq> R" by blast+
  show ?case
  proof (cases stack')
    case Nil
    with sc R show ?thesis by (simp add: gc_mark_loop.simps [of E block p])
  next
    case (Cons x xs)
    have "gc_marked (gc_mark_loop E x (s', xs)) \<subseteq> R"
      using "1.IH" [OF sc [symmetric] Cons] ok m' R "1.prems"(2) p Cons by simp
    with sc Cons show ?thesis by (simp add: gc_mark_loop.simps [of E block p])
  qed
qed

section \<open>The mark phase marks exactly the reachable chains\<close>

lemmas gc_mark_subtree_more = gc_mark_loop_correct [of "(s, [])" for s, simplified,
  THEN conjunct1, folded gc_mark_subtree_def]

lemma gc_mark_subtree_inv:
  "gc_tables_ok s \<Longrightarrow> gc_mark_inv (insert block X) s \<Longrightarrow> gc_mark_inv X (gc_mark_subtree E block s)"
  using gc_mark_loop_correct [of "(s, [])" E block X] by (simp add: gc_mark_subtree_def)

lemma gc_mark_subtree_sound:
  "gc_tables_ok s \<Longrightarrow> (\<And>b. b \<in> R \<Longrightarrow> gc_children s b \<subseteq> R) \<Longrightarrow> block \<in> R \<Longrightarrow> gc_marked s \<subseteq> R \<Longrightarrow>
   gc_marked (gc_mark_subtree E block s) \<subseteq> R"
  using gc_mark_loop_sound [of "(s, [])" R block E] by (simp add: gc_mark_subtree_def)

lemma gc_rescan_block_correct:
  assumes "gc_tables_ok s"
  shows "gc_marks_more s (gc_rescan_block E block s)"
    and "gc_mark_inv (insert block X) s \<Longrightarrow> gc_mark_inv X (gc_rescan_block E block s)"
    and "(\<And>b. b \<in> R \<Longrightarrow> gc_children s b \<subseteq> R) \<Longrightarrow> block < gc_blocks s \<Longrightarrow> gc_marked s \<subseteq> R \<Longrightarrow>
      gc_marked (gc_rescan_block E block s) \<subseteq> R"
proof -
  show "gc_marks_more s (gc_rescan_block E block s)"
    by (simp add: gc_rescan_block_def gc_mark_subtree_more assms gc_marks_more_refl)
  show "gc_mark_inv (insert block X) s \<Longrightarrow> gc_mark_inv X (gc_rescan_block E block s)"
    using gc_mark_subtree_inv [OF assms, of block X E]
    by (auto simp: gc_rescan_block_def gc_mark_inv_def [of _ s] gc_marked_def)
  show "(\<And>b. b \<in> R \<Longrightarrow> gc_children s b \<subseteq> R) \<Longrightarrow> block < gc_blocks s \<Longrightarrow> gc_marked s \<subseteq> R \<Longrightarrow>
      gc_marked (gc_rescan_block E block s) \<subseteq> R"
    using gc_mark_subtree_sound [OF assms, of R block E]
    by (auto simp: gc_rescan_block_def gc_marked_def)
qed

lemma gc_rescan_fold_correct:
  assumes "gc_tables_ok s"
  shows "gc_marks_more s (fold (gc_rescan_block E) bs s)"
    and "gc_mark_inv (set bs \<union> X) s \<Longrightarrow> gc_mark_inv X (fold (gc_rescan_block E) bs s)"
    and "(\<And>b. b \<in> R \<Longrightarrow> gc_children s b \<subseteq> R) \<Longrightarrow> (\<And>b. b \<in> set bs \<Longrightarrow> b < gc_blocks s) \<Longrightarrow>
      gc_marked s \<subseteq> R \<Longrightarrow> gc_marked (fold (gc_rescan_block E) bs s) \<subseteq> R"
  using assms
proof (induction bs arbitrary: s)
  case Nil
  {
    case 1
    show ?case by (simp add: gc_marks_more_refl)
  next
    case 2
    then show ?case by simp
  next
    case 3
    then show ?case by simp
  }
next
  case (Cons b bs)
  {
    case 1
    note m = gc_rescan_block_correct(1) [OF 1, of E b]
    show ?case
      using gc_marks_more_trans [OF m Cons.IH(1)] gc_marks_moreD(9) [OF m] 1 by simp
  next
    case 2
    note m = gc_rescan_block_correct(1) [OF 2(2), of E b]
    show ?case
      using Cons.IH(2) gc_rescan_block_correct(2) [OF 2(2), of b "set bs \<union> X" E] 2
        gc_marks_moreD(9) [OF m] by simp
  next
    case 3
    note m = gc_rescan_block_correct(1) [OF 3(4), of E b]
    have "gc_marked (gc_rescan_block E b s) \<subseteq> R"
      using gc_rescan_block_correct(3) [OF 3(4), of R b E] 3(1-3) by simp
    with 3 show ?case
      using Cons.IH(3) [of "gc_rescan_block E b s"] gc_marks_moreD [OF m] by simp
  }
qed

lemma gc_rescan_correct:
  assumes ok: "gc_tables_ok s"
  shows "gc_marks_more s (gc_rescan E s)" and "gc_mark_inv {} (gc_rescan E s)"
    and "(\<And>b. b \<in> R \<Longrightarrow> gc_children s b \<subseteq> R) \<Longrightarrow> gc_marked s \<subseteq> R \<Longrightarrow>
      gc_marked (gc_rescan E s) \<subseteq> R"
proof -
  have "gc_mark_inv {0..<gc_blocks s} s"
    by (auto simp: gc_mark_inv_def gc_marked_def)
  then show "gc_mark_inv {} (gc_rescan E s)"
    using gc_rescan_fold_correct(2) [OF ok, of "[0..<gc_blocks s]" "{}" E]
    by (simp add: gc_rescan_def)
  show "(\<And>b. b \<in> R \<Longrightarrow> gc_children s b \<subseteq> R) \<Longrightarrow> gc_marked s \<subseteq> R \<Longrightarrow> gc_marked (gc_rescan E s) \<subseteq> R"
    using gc_rescan_fold_correct(3) [OF ok, of R "[0..<gc_blocks s]" E]
    by (simp add: gc_rescan_def)
qed (simp add: gc_rescan_def gc_rescan_fold_correct(1) ok)

lemma gc_overflow_reset:
  "gc_tables_ok (s\<lparr>gc_stack_overflow := v\<rparr>) = gc_tables_ok s"
  "gc_children (s\<lparr>gc_stack_overflow := v\<rparr>) = gc_children s"
  "gc_marked (s\<lparr>gc_stack_overflow := v\<rparr>) = gc_marked s"
  "gc_rest (s\<lparr>gc_stack_overflow := v\<rparr>) = gc_rest s"
  "FTB_GET (s\<lparr>gc_stack_overflow := v\<rparr>) = FTB_GET s"
  "gc_blocks (s\<lparr>gc_stack_overflow := v\<rparr>) = gc_blocks s"
proof -
  let ?t = "s\<lparr>gc_stack_overflow := v\<rparr>"
  show b: "gc_blocks ?t = gc_blocks s" by (simp add: gc_blocks_def)
  show "gc_tables_ok ?t = gc_tables_ok s" by (simp add: gc_tables_ok_def b)
  have "chain_len ?t b n = chain_len s b n" for b n by (rule chain_len_cong) simp
  then have "block_ptrs ?t = block_ptrs s" by (simp add: block_ptrs_def PTR_FROM_BLOCK_def fun_eq_iff)
  then show "gc_children ?t = gc_children s"
    by (simp add: gc_children_def gc_points_to_def gc_head_def VERIFY_PTR_def BLOCK_FROM_PTR_def b
        fun_eq_iff)
  show "gc_marked ?t = gc_marked s" by (simp add: gc_marked_def b)
  show "gc_rest ?t = gc_rest s" by (simp add: gc_rest_def)
  show "FTB_GET ?t = FTB_GET s" by (simp add: FTB_GET_def ftb_byte_def fun_eq_iff)
qed

lemma gc_marks_more_reset:
  assumes "gc_marks_more s t" and "\<not> gc_stack_overflow s" and "gc_marks_more (t\<lparr>gc_stack_overflow := False\<rparr>) u"
  shows "gc_marks_more s u"
proof -
  have "gc_marks_more s (t\<lparr>gc_stack_overflow := False\<rparr>)"
    using assms(1,2) by (simp add: gc_marks_more_def gc_overflow_reset)
  then show ?thesis using assms(3) by (rule gc_marks_more_trans)
qed

lemma gc_deal_with_stack_overflow_correct:
  assumes "gc_tables_ok s" and "gc_mark_inv {} s"
  shows "gc_marks_more (s\<lparr>gc_stack_overflow := False\<rparr>) (gc_deal_with_stack_overflow E s) \<and>
    (\<forall>b \<in> gc_marked (gc_deal_with_stack_overflow E s).
       gc_children s b \<subseteq> gc_marked (gc_deal_with_stack_overflow E s)) \<and>
    (\<forall>R. (\<forall>b \<in> R. gc_children s b \<subseteq> R) \<longrightarrow> gc_marked s \<subseteq> R \<longrightarrow>
       gc_marked (gc_deal_with_stack_overflow E s) \<subseteq> R)"
  using assms
proof (induction E s rule: gc_deal_with_stack_overflow.induct)
  case (1 E s)
  let ?s = "s\<lparr>gc_stack_overflow := False\<rparr>"
  show ?case
  proof (cases "gc_stack_overflow s")
    case False
    then have eq: "?s = s" by simp
    show ?thesis
      using False "1.prems" unfolding eq
      by (simp add: gc_deal_with_stack_overflow.simps [of E s] gc_marks_more_refl gc_mark_inv_def)
  next
    case True
    let ?t = "gc_rescan E ?s"
    have ok: "gc_tables_ok ?s" using "1.prems"(1) by (simp add: gc_overflow_reset)
    note rs = gc_rescan_correct [OF ok, where E = E]
    note m = gc_marks_moreD [OF rs(1)]
    have eq: "gc_deal_with_stack_overflow E s = gc_deal_with_stack_overflow E ?t"
      using True by (simp add: gc_deal_with_stack_overflow.simps [of E s])
    have ch: "gc_children ?t = gc_children s" and mk: "gc_marked ?s = gc_marked s"
      using m(7) by (simp_all add: gc_overflow_reset)
    have IH: "gc_marks_more (?t\<lparr>gc_stack_overflow := False\<rparr>) (gc_deal_with_stack_overflow E ?t) \<and>
      (\<forall>b \<in> gc_marked (gc_deal_with_stack_overflow E ?t).
         gc_children ?t b \<subseteq> gc_marked (gc_deal_with_stack_overflow E ?t)) \<and>
      (\<forall>R. (\<forall>b \<in> R. gc_children ?t b \<subseteq> R) \<longrightarrow> gc_marked ?t \<subseteq> R \<longrightarrow>
         gc_marked (gc_deal_with_stack_overflow E ?t) \<subseteq> R)"
      using "1.IH" [OF True] rs(2) m(9) ok by blast
    have "gc_marked ?t \<subseteq> R" if "\<forall>b \<in> R. gc_children s b \<subseteq> R" "gc_marked s \<subseteq> R" for R
      using rs(3) [of R] that by (simp add: gc_overflow_reset)
    with IH show ?thesis
      unfolding eq ch using gc_marks_more_reset [OF rs(1)] by simp
  qed
qed

lemma gc_collect_root1_head:
  assumes ok: "gc_tables_ok s"
    and c: "VERIFY_PTR s ptr" "ATB_GET_KIND s (BLOCK_FROM_PTR s ptr) = AT_HEAD"
  shows "gc_marks_more s (gc_collect_root1 E ptr s)"
    and "gc_mark_inv {} s \<Longrightarrow> gc_mark_inv {} (gc_collect_root1 E ptr s)"
    and "BLOCK_FROM_PTR s ptr \<in> gc_marked (gc_collect_root1 E ptr s)"
    and "(\<And>b. b \<in> R \<Longrightarrow> gc_children s b \<subseteq> R) \<Longrightarrow> BLOCK_FROM_PTR s ptr \<in> R \<Longrightarrow>
      gc_marked s \<subseteq> R \<Longrightarrow> gc_marked (gc_collect_root1 E ptr s) \<subseteq> R"
proof -
  let ?c = "BLOCK_FROM_PTR s ptr" and ?t = "gc_collect_root1 E ptr s"
  let ?m = "ATB_HEAD_TO_MARK ?c s"
  have c': "?c < gc_blocks s" using c VERIFY_PTR_block(1) [OF ok] by blast
  have t: "?t = gc_mark_subtree E ?c ?m" using c by (simp add: gc_collect_root1_def Let_def)
  note m = gc_marks_more_mark(1) [OF c(2) c']
  note m' = gc_marks_moreD [OF m]
  note mk = gc_marked_mark(1) [OF c(2) c']
  have okm: "gc_tables_ok ?m" using m'(9) ok by simp
  note sub = gc_mark_subtree_more [OF okm, of E ?c]
  show "gc_marks_more s ?t" using gc_marks_more_trans [OF m sub] t by simp
  show "?c \<in> gc_marked ?t" using mk gc_marks_moreD(8) [OF sub] t by auto
  show "gc_mark_inv {} ?t" if "gc_mark_inv {} s"
  proof -
    have "gc_mark_inv {?c} ?m" using that mk m'(7,10) by (auto simp: gc_mark_inv_def)
    then show ?thesis using gc_mark_subtree_inv [OF okm] t by simp
  qed
  show "gc_marked ?t \<subseteq> R"
    if "\<And>b. b \<in> R \<Longrightarrow> gc_children s b \<subseteq> R" "?c \<in> R" "gc_marked s \<subseteq> R"
    unfolding t by (rule gc_mark_subtree_sound [OF okm]) (use that mk m'(7) in auto)
qed

lemma gc_collect_root1_correct:
  assumes ok: "gc_tables_ok s"
  shows "gc_marks_more s (gc_collect_root1 E ptr s)"
    and "gc_mark_inv {} s \<Longrightarrow> gc_mark_inv {} (gc_collect_root1 E ptr s)"
    and "gc_points_to s ptr c \<Longrightarrow> c \<in> gc_marked (gc_collect_root1 E ptr s)"
    and "(\<And>b. b \<in> R \<Longrightarrow> gc_children s b \<subseteq> R) \<Longrightarrow> (\<And>c. gc_points_to s ptr c \<Longrightarrow> c \<in> R) \<Longrightarrow>
      gc_marked s \<subseteq> R \<Longrightarrow> gc_marked (gc_collect_root1 E ptr s) \<subseteq> R"
proof -
  let ?c = "BLOCK_FROM_PTR s ptr" and ?t = "gc_collect_root1 E ptr s"
  let ?head = "VERIFY_PTR s ptr \<and> ATB_GET_KIND s ?c = AT_HEAD"
  have same: "?t = s" if "\<not> ?head" using that by (auto simp: gc_collect_root1_def Let_def)
  have pt: "gc_points_to s ptr ?c" if ?head
    using that VERIFY_PTR_block(1) [OF ok] by (simp add: gc_points_to_def gc_head_def)
  show "gc_marks_more s ?t"
    using gc_collect_root1_head(1) [OF ok] same gc_marks_more_refl by (cases ?head) auto
  show "gc_mark_inv {} ?t" if "gc_mark_inv {} s"
    using gc_collect_root1_head(2) [OF ok] same that by (cases ?head) auto
  show "c \<in> gc_marked ?t" if "gc_points_to s ptr c"
  proof (cases ?head)
    case True
    with that show ?thesis
      using gc_collect_root1_head(3) [OF ok] by (auto simp: gc_points_to_def)
  next
    case False
    with that same show ?thesis by (auto simp: gc_points_to_def gc_head_def gc_marked_def)
  qed
  show "gc_marked ?t \<subseteq> R"
    if R: "\<And>b. b \<in> R \<Longrightarrow> gc_children s b \<subseteq> R" "\<And>c. gc_points_to s ptr c \<Longrightarrow> c \<in> R" "gc_marked s \<subseteq> R"
  proof (cases ?head)
    case True
    then show ?thesis
      using gc_collect_root1_head(4) [OF ok _ _ R(1)] R(2) [OF pt] R(3) by blast
  next
    case False
    with same R(3) show ?thesis by simp
  qed
qed

lemma gc_collect_root_correct:
  assumes "gc_tables_ok s"
  shows "gc_marks_more s (gc_collect_root E ptrs s)"
    and "gc_mark_inv {} s \<Longrightarrow> gc_mark_inv {} (gc_collect_root E ptrs s)"
    and "ptr \<in> set ptrs \<Longrightarrow> gc_points_to s ptr c \<Longrightarrow> c \<in> gc_marked (gc_collect_root E ptrs s)"
    and "(\<And>b. b \<in> R \<Longrightarrow> gc_children s b \<subseteq> R) \<Longrightarrow>
      (\<And>ptr c. ptr \<in> set ptrs \<Longrightarrow> gc_points_to s ptr c \<Longrightarrow> c \<in> R) \<Longrightarrow>
      gc_marked s \<subseteq> R \<Longrightarrow> gc_marked (gc_collect_root E ptrs s) \<subseteq> R"
  using assms unfolding gc_collect_root_def
proof (induction ptrs arbitrary: s)
  case Nil
  {
    case 1
    show ?case by (simp add: gc_marks_more_refl)
  next
    case 2
    then show ?case by simp
  next
    case 3
    then show ?case by simp
  next
    case 4
    then show ?case by simp
  }
next
  case (Cons p ptrs)
  {
    case 1
    note m = gc_collect_root1_correct(1) [OF 1, of E p]
    show ?case
      using gc_marks_more_trans [OF m Cons.IH(1)] gc_marks_moreD(9) [OF m] 1 by simp
  next
    case 2
    note m = gc_collect_root1_correct(1) [OF 2(2), of E p]
    show ?case
      using Cons.IH(2) gc_collect_root1_correct(2) [OF 2(2)] 2 gc_marks_moreD(9) [OF m] by simp
  next
    case 3
    let ?t = "gc_collect_root1 E p s"
    note m = gc_marks_moreD [OF gc_collect_root1_correct(1) [OF 3(3), of E p]]
    have ok: "gc_tables_ok ?t" using m(9) 3(3) by simp
    show ?case
    proof (cases "ptr = p")
      case True
      with 3 have "c \<in> gc_marked ?t" using gc_collect_root1_correct(3) by blast
      with gc_marks_moreD(8) [OF Cons.IH(1) [OF ok]] show ?thesis by auto
    next
      case False
      with 3 Cons.IH(3) [of ?t] ok m(6) show ?thesis by simp
    qed
  next
    case 4
    let ?t = "gc_collect_root1 E p s"
    note m = gc_marks_moreD [OF gc_collect_root1_correct(1) [OF 4(4), of E p]]
    have "gc_marked ?t \<subseteq> R"
      by (rule gc_collect_root1_correct(4) [OF 4(4) 4(1)]) (use 4(2,3) in auto)
    moreover have "gc_tables_ok ?t" using m(9) 4(4) by simp
    ultimately have "gc_marked (fold (gc_collect_root1 E) ptrs ?t) \<subseteq> R"
      by (intro Cons.IH(4)) (use 4(1) 4(2) [OF list.set_intros(2)] m(6,7) in simp_all)
    then show ?case by simp
  }
qed

lemma gc_collect_root_append:
  "gc_collect_root E ys (gc_collect_root E xs s) = gc_collect_root E (xs @ ys) s"
  by (simp add: gc_collect_root_def)

lemma gc_collect_root_concat:
  "fold (gc_collect_root E) xss s = gc_collect_root E (concat xss) s"
proof (induction xss arbitrary: s)
  case Nil
  show ?case by (simp add: gc_collect_root_def)
next
  case (Cons xs xss)
  then show ?case by (simp add: gc_collect_root_append)
qed

text \<open>
  The chains a collection must keep: those a root word points to, and those a word of a kept
  chain points to.
\<close>

definition gc_roots :: "gc_env \<Rightarrow> nat list" where
  "gc_roots E = ctx_roots E @ concat (port_roots E)"

inductive_set gc_reachable :: "gc \<Rightarrow> nat list \<Rightarrow> nat set" for s roots where
  root: "ptr \<in> set roots \<Longrightarrow> gc_points_to s ptr b \<Longrightarrow> b \<in> gc_reachable s roots"
| step: "b \<in> gc_reachable s roots \<Longrightarrow> c \<in> gc_children s b \<Longrightarrow> c \<in> gc_reachable s roots"

lemma gc_reachable_head: "b \<in> gc_reachable s roots \<Longrightarrow> gc_head s b"
  by (induction rule: gc_reachable.induct) (auto simp: gc_points_to_def gc_children_def)

lemma gc_mark_phase:
  fixes E :: gc_env and roots :: "nat list" and s :: gc
  assumes ok: "gc_tables_ok s" and fresh: "gc_marked s = {}" and ov: "\<not> gc_stack_overflow s"
  defines "t \<equiv> gc_deal_with_stack_overflow E (gc_collect_root E roots s)"
  shows "gc_marks_more s t" and "gc_marked t = gc_reachable s roots"
proof -
  let ?r = "gc_collect_root E roots s"
  note r = gc_collect_root_correct [OF ok, where E = E and ptrs = roots]
  have "gc_mark_inv {} s" using fresh by (simp add: gc_mark_inv_def)
  then have inv: "gc_mark_inv {} ?r" by (rule r(2))
  note m = gc_marks_moreD [OF r(1)]
  have "gc_tables_ok ?r" using m(9) ok by blast
  then have d: "gc_marks_more (?r\<lparr>gc_stack_overflow := False\<rparr>) t"
      "\<forall>b \<in> gc_marked t. gc_children s b \<subseteq> gc_marked t"
      "\<forall>R. (\<forall>b \<in> R. gc_children s b \<subseteq> R) \<longrightarrow> gc_marked ?r \<subseteq> R \<longrightarrow> gc_marked t \<subseteq> R"
    using gc_deal_with_stack_overflow_correct [of ?r E] inv m(7) unfolding t_def by simp_all
  show "gc_marks_more s t" using gc_marks_more_reset [OF r(1) ov d(1)] .
  have up: "gc_marked ?r \<subseteq> gc_marked t"
    using gc_marks_moreD(8) [OF d(1)] by (simp add: gc_overflow_reset)
  have "gc_marked ?r \<subseteq> gc_reachable s roots"
    using r(4) [of "gc_reachable s roots"] fresh
    by (auto intro: gc_reachable.intros)
  moreover have "\<forall>b \<in> gc_reachable s roots. gc_children s b \<subseteq> gc_reachable s roots"
    by (auto intro: gc_reachable.step)
  ultimately have "gc_marked t \<subseteq> gc_reachable s roots" using d(3) by blast
  moreover have "gc_reachable s roots \<subseteq> gc_marked t"
  proof
    fix b assume "b \<in> gc_reachable s roots"
    then show "b \<in> gc_marked t"
      by (induction rule: gc_reachable.induct) (use r(3) up d(2) in blast)+
  qed
  ultimately show "gc_marked t = gc_reachable s roots" by blast
qed

section \<open>Sweeping frees exactly the unmarked chains\<close>

text \<open>\<open>gc_live s b\<close>: block \<open>b\<close> is a marked head, or a tail after blocks of a marked chain.\<close>

fun gc_live :: "gc \<Rightarrow> nat \<Rightarrow> bool" where
  "gc_live s 0 \<longleftrightarrow> ATB_GET_KIND s 0 = AT_MARK"
| "gc_live s (Suc b) \<longleftrightarrow>
     ATB_GET_KIND s (Suc b) = AT_MARK \<or> ATB_GET_KIND s (Suc b) = AT_TAIL \<and> gc_live s b"

text \<open>Every tail block follows a block of the same chain.\<close>

definition gc_chains_ok :: "gc \<Rightarrow> bool" where
  "gc_chains_ok s \<longleftrightarrow>
     (\<forall>b < gc_blocks s. ATB_GET_KIND s b = AT_TAIL \<longrightarrow>
        0 < b \<and> ATB_GET_KIND s (b - 1) \<noteq> AT_FREE)"

definition gc_swept_kind :: "gc \<Rightarrow> nat \<Rightarrow> 8 word" where
  "gc_swept_kind s b =
     (if ATB_GET_KIND s b = AT_MARK then AT_HEAD
      else if ATB_GET_KIND s b = AT_TAIL \<and> gc_live s b then AT_TAIL else AT_FREE)"

lemma gc_live_tail:
  "ATB_GET_KIND s b = AT_TAIL \<Longrightarrow> gc_live s b \<longleftrightarrow> 0 < b \<and> gc_live s (b - 1)"
  by (cases b) auto

lemma gc_live_not_free: "gc_live s b \<Longrightarrow> ATB_GET_KIND s b \<noteq> AT_FREE \<and> ATB_GET_KIND s b \<noteq> AT_HEAD"
  by (cases b) auto

definition gc_swept_upto :: "gc \<Rightarrow> nat \<Rightarrow> gc \<times> bool \<Rightarrow> bool" where
  "gc_swept_upto s k = (\<lambda>(t, free_tail).
     length (gc_tables t) = length (gc_tables s) \<and>
     gc_alloc_table_byte_len t = gc_alloc_table_byte_len s \<and>
     gc_pool_start t = gc_pool_start s \<and> gc_pool_end t = gc_pool_end s \<and>
     gc_lock_depth t = gc_lock_depth s \<and>
     gc_auto_collect_enabled t = gc_auto_collect_enabled s \<and>
     gc_alloc_amount t = gc_alloc_amount s \<and> gc_alloc_threshold t = gc_alloc_threshold s \<and>
     (\<forall>b < gc_blocks s. ATB_GET_KIND t b =
        (if b < k then gc_swept_kind s b else ATB_GET_KIND s b)) \<and>
     (\<forall>b < gc_blocks s. FTB_GET t b \<longleftrightarrow>
        FTB_GET s b \<and> \<not> (b < k \<and> ATB_GET_KIND s b = AT_HEAD)) \<and>
     gc_collected t = card {b. b < k \<and> ATB_GET_KIND s b = AT_HEAD} \<and>
     ((\<forall>b < gc_blocks s. \<not> FTB_GET s b) \<longrightarrow> gc_mem t = gc_mem s) \<and>
     (0 < k \<longrightarrow> ATB_GET_KIND s (k - 1) \<noteq> AT_FREE \<longrightarrow> free_tail = (\<not> gc_live s (k - 1))))"

lemma gc_finalise_frame [simp]:
  "length (gc_tables (gc_finalise E b s)) = length (gc_tables s)"
  "gc_alloc_table_byte_len (gc_finalise E b s) = gc_alloc_table_byte_len s"
  "gc_pool_start (gc_finalise E b s) = gc_pool_start s"
  "gc_pool_end (gc_finalise E b s) = gc_pool_end s"
  "gc_lock_depth (gc_finalise E b s) = gc_lock_depth s"
  "gc_auto_collect_enabled (gc_finalise E b s) = gc_auto_collect_enabled s"
  "gc_alloc_amount (gc_finalise E b s) = gc_alloc_amount s"
  "gc_alloc_threshold (gc_finalise E b s) = gc_alloc_threshold s"
  "gc_collected (gc_finalise E b s) = gc_collected s"
  "gc_blocks (gc_finalise E b s) = gc_blocks s"
  by (simp_all add: gc_finalise_def FTB_CLEAR_def Let_def gc_blocks_def)

lemma kind_tables_cong:
  "gc_tables t = gc_tables s \<Longrightarrow> ATB_GET_KIND t b = ATB_GET_KIND s b"
  by (simp add: ATB_GET_KIND_def)

lemma FTB_tables_cong:
  "gc_tables t = gc_tables s \<Longrightarrow> gc_alloc_table_byte_len t = gc_alloc_table_byte_len s \<Longrightarrow>
   FTB_GET t b = FTB_GET s b"
  by (simp add: FTB_GET_def ftb_byte_def)

lemma gc_finalise_tables:
  assumes "gc_tables_ok s" and "c < gc_blocks s"
  shows "b < gc_blocks s \<Longrightarrow> ATB_GET_KIND (gc_finalise E c s) b = ATB_GET_KIND s b"
    and "FTB_GET (gc_finalise E c s) b \<longleftrightarrow> b \<noteq> c \<and> FTB_GET s b"
    and "\<not> FTB_GET s c \<Longrightarrow> gc_mem (gc_finalise E c s) = gc_mem s"
proof -
  let ?u = "if load_ptr (gc_mem s) (PTR_FROM_BLOCK s c) \<noteq> 0
    then s\<lparr>gc_mem := run_del E (gc_mem s) (PTR_FROM_BLOCK s c)\<rparr> else s"
  have tab: "gc_tables ?u = gc_tables s" "gc_alloc_table_byte_len ?u = gc_alloc_table_byte_len s"
      "gc_blocks ?u = gc_blocks s"
    by (simp_all add: gc_blocks_def)
  have ok: "gc_tables_ok ?u" using assms(1) by (simp add: gc_tables_ok_def gc_blocks_def)
  have fin: "gc_finalise E c s = (if FTB_GET s c then FTB_CLEAR c ?u else s)"
    by (simp add: gc_finalise_def Let_def)
  show "ATB_GET_KIND (gc_finalise E c s) b = ATB_GET_KIND s b" if "b < gc_blocks s"
    using kind_FTB(2) [of b ?u c] that kind_tables_cong [OF tab(1), of b] tab(3) fin by simp
  show "FTB_GET (gc_finalise E c s) b \<longleftrightarrow> b \<noteq> c \<and> FTB_GET s b"
    using FTB_GET_CLEAR [OF ok, of c b] assms(2) FTB_tables_cong [OF tab(1,2), of b] tab(3) fin
    by auto
  show "\<not> FTB_GET s c \<Longrightarrow> gc_mem (gc_finalise E c s) = gc_mem s"
    by (simp add: gc_finalise_def)
qed

lemma gc_sweep_block_upto:
  assumes ok: "gc_tables_ok s" and chains: "gc_chains_ok s" and k: "k < gc_blocks s"
    and up: "gc_swept_upto s k p"
  shows "gc_swept_upto s (Suc k) (gc_sweep_block E k p)"
proof -
  obtain t ft where p: "p = (t, ft)" by force
  let ?k = "ATB_GET_KIND s k"
  have len: "length (gc_tables t) = length (gc_tables s)"
    and A: "gc_alloc_table_byte_len t = gc_alloc_table_byte_len s"
    and ps: "gc_pool_start t = gc_pool_start s" and pe: "gc_pool_end t = gc_pool_end s"
    and ld: "gc_lock_depth t = gc_lock_depth s"
    and ac: "gc_auto_collect_enabled t = gc_auto_collect_enabled s"
    and am: "gc_alloc_amount t = gc_alloc_amount s"
    and th: "gc_alloc_threshold t = gc_alloc_threshold s"
    and kinds: "\<And>b. b < gc_blocks s \<Longrightarrow> ATB_GET_KIND t b =
        (if b < k then gc_swept_kind s b else ATB_GET_KIND s b)"
    and ftb: "\<And>b. b < gc_blocks s \<Longrightarrow> FTB_GET t b \<longleftrightarrow>
        FTB_GET s b \<and> \<not> (b < k \<and> ATB_GET_KIND s b = AT_HEAD)"
    and coll: "gc_collected t = card {b. b < k \<and> ATB_GET_KIND s b = AT_HEAD}"
    and mem: "(\<forall>b < gc_blocks s. \<not> FTB_GET s b) \<Longrightarrow> gc_mem t = gc_mem s"
    and flag: "0 < k \<Longrightarrow> ATB_GET_KIND s (k - 1) \<noteq> AT_FREE \<Longrightarrow> ft = (\<not> gc_live s (k - 1))"
    using up by (auto simp: gc_swept_upto_def p)
  have bl: "gc_blocks t = gc_blocks s" using A by (simp add: gc_blocks_def)
  have okt: "gc_tables_ok t" using ok len A ps pe by (simp add: gc_tables_ok_def bl)
  have inb: "k div 4 < length (gc_tables t)" using block_in_tables(1) [OF okt] k bl by simp
  have kk: "ATB_GET_KIND t k = ?k" using kinds [OF k] by simp
  have card_Suc: "card {b. b < Suc k \<and> ATB_GET_KIND s b = AT_HEAD} =
      (if ?k = AT_HEAD then Suc else id) (card {b. b < k \<and> ATB_GET_KIND s b = AT_HEAD})"
  proof -
    have "{b. b < Suc k \<and> ATB_GET_KIND s b = AT_HEAD} =
        (if ?k = AT_HEAD then insert k else id) {b. b < k \<and> ATB_GET_KIND s b = AT_HEAD}"
      by (auto simp: less_Suc_eq)
    then show ?thesis by simp
  qed
  have upd: "b < Suc k \<longleftrightarrow> b < k \<or> b = k" for b by auto
  note frame = len A ps pe ld ac am th
  show ?thesis
  proof (cases s k rule: ATB_GET_KIND_cases)
    case FREE
    then show ?thesis
      using frame kinds ftb coll mem card_Suc
      by (auto simp: gc_swept_upto_def gc_sweep_block_def p kk gc_swept_kind_def upd)
  next
    case HEAD
    let ?f = "gc_finalise E k t"
    let ?c = "?f\<lparr>gc_collected := gc_collected ?f + 1\<rparr>"
    have step: "gc_sweep_block E k p = (ATB_ANY_TO_FREE k ?c, True)"
      by (simp add: gc_sweep_block_def p kk HEAD)
    have kf: "ATB_GET_KIND (ATB_ANY_TO_FREE k ?c) b = (if b = k then AT_FREE else ATB_GET_KIND t b)"
      if "b < gc_blocks s" for b
      using kind_ANY_TO_FREE [of k ?c b] inb gc_finalise_tables(1) [OF okt, of k b E] k bl that
        kind_tables_cong [of ?c ?f b] by simp
    have ff: "FTB_GET (ATB_ANY_TO_FREE k ?c) b \<longleftrightarrow> b \<noteq> k \<and> FTB_GET t b" for b
      using FTB_atb(2) [of k ?c 3 b] gc_finalise_tables(2) [OF okt, of k E b] k bl
        FTB_tables_cong [of ?c ?f b] by (simp add: ATB_ANY_TO_FREE_def gc_blocks_def A)
    have mf: "gc_mem (ATB_ANY_TO_FREE k ?c) = gc_mem t" if "\<not> FTB_GET t k"
      using gc_finalise_tables(3) [OF okt, of k E] k bl that by (simp add: ATB_ANY_TO_FREE_def)
    have live: "\<not> gc_live s k" using HEAD gc_live_not_free by blast
    show ?thesis
      unfolding step gc_swept_upto_def prod.case
      using frame kf ff mf kinds ftb coll mem card_Suc HEAD k live
      by (auto simp: ATB_ANY_TO_FREE_def atb_and_not_def gc_swept_kind_def upd)
  next
    case TAIL
    then have prev: "0 < k" "ATB_GET_KIND s (k - 1) \<noteq> AT_FREE"
      using chains k by (auto simp: gc_chains_ok_def)
    then have ft: "ft = (\<not> gc_live s k)" using flag gc_live_tail [OF TAIL] by simp
    have kf: "ATB_GET_KIND (ATB_ANY_TO_FREE k t) b = (if b = k then AT_FREE else ATB_GET_KIND t b)"
      for b using kind_ANY_TO_FREE [OF inb] .
    have ff: "FTB_GET (ATB_ANY_TO_FREE k t) b = FTB_GET t b" for b
      using FTB_atb(2) [of k t] k bl by (simp add: ATB_ANY_TO_FREE_def)
    show ?thesis
      using frame kf ff kinds ftb coll mem card_Suc TAIL k ft
      by (auto simp: gc_swept_upto_def gc_sweep_block_def p kk gc_swept_kind_def upd
          ATB_ANY_TO_FREE_def atb_and_not_def)
  next
    case MARK
    have kf: "ATB_GET_KIND (ATB_MARK_TO_HEAD k t) b = (if b = k then AT_HEAD else ATB_GET_KIND t b)"
      for b using kind_MARK_TO_HEAD [of t k b] kk MARK by simp
    have ff: "FTB_GET (ATB_MARK_TO_HEAD k t) b = FTB_GET t b" for b
      using FTB_atb(2) [of k t] k bl by (simp add: ATB_MARK_TO_HEAD_def)
    have live: "gc_live s k" using MARK by (cases k) auto
    show ?thesis
      using frame kf ff kinds ftb coll mem card_Suc MARK k live
      by (auto simp: gc_swept_upto_def gc_sweep_block_def p kk gc_swept_kind_def upd
          ATB_MARK_TO_HEAD_def atb_and_not_def)
  qed
qed

lemma gc_sweep_correct:
  assumes ok: "gc_tables_ok s" and chains: "gc_chains_ok s"
  shows "\<exists>ft. gc_swept_upto s (gc_blocks s) (gc_sweep E s, ft)"
proof -
  let ?s = "s\<lparr>gc_collected := 0\<rparr>"
  have "gc_swept_upto s k (fold (gc_sweep_block E) [0..<k] (?s, False))" if "k \<le> gc_blocks s" for k
    using that
  proof (induction k)
    case 0
    show ?case
      using kind_tables_cong [of ?s s] FTB_tables_cong [of ?s s] by (simp add: gc_swept_upto_def)
  next
    case (Suc k)
    then show ?case using gc_sweep_block_upto [OF ok chains, of k] by simp
  qed
  from this [of "gc_blocks s"] show ?thesis
    unfolding gc_sweep_def by (metis order_refl prod.collapse)
qed

end
