(* ===== verification/GcCollect.thy ===== *)
theory GcCollect
  imports GcMark
begin

text \<open>
  A whole collection: the heap invariant \<open>gc_ok\<close>, and the proof that \<open>gc_collect\<close> keeps
  exactly the chains reachable from the roots, whatever the size of the mark stack.
\<close>

unbundle bit_operations_syntax

section \<open>The heap invariant\<close>

text \<open>
  The invariant of the heap between operations.  No block is left marked; every tail follows a
  block of its chain; only heads carry a finaliser bit; and no block is free in the part of the
  allocation table that \<open>gc_alloc\<close> no longer looks at.
\<close>

definition gc_ok :: "gc \<Rightarrow> bool" where
  "gc_ok s \<longleftrightarrow> gc_tables_ok s \<and> gc_chains_ok s \<and> gc_marked s = {} \<and>
     gc_lock_depth s < 65536 \<and>
     (\<forall>b < gc_blocks s. FTB_GET s b \<longrightarrow> ATB_GET_KIND s b = AT_HEAD) \<and>
     (\<forall>b < gc_blocks s. b div BLOCKS_PER_ATB < gc_last_free_atb_index s \<longrightarrow>
        ATB_GET_KIND s b \<noteq> AT_FREE)"

text \<open>The blocks of the chain with head \<open>h\<close>.\<close>

definition gc_chain :: "gc \<Rightarrow> nat \<Rightarrow> nat set" where
  "gc_chain s h =
     {b. h \<le> b \<and> b < gc_blocks s \<and> (\<forall>i. h < i \<and> i \<le> b \<longrightarrow> ATB_GET_KIND s i = AT_TAIL)}"

lemma gc_live_chain:
  assumes "gc_head s h" and "b \<in> gc_chain s h"
  shows "gc_live s b \<longleftrightarrow> ATB_GET_KIND s h = AT_MARK"
  using assms(2)
proof (induction b)
  case 0
  then show ?case by (simp add: gc_chain_def)
next
  case (Suc b)
  show ?case
  proof (cases "h = Suc b")
    case True
    with assms(1) show ?thesis by (auto simp: gc_head_def)
  next
    case False
    with Suc.prems have t: "ATB_GET_KIND s (Suc b) = AT_TAIL" and "b \<in> gc_chain s h"
      by (auto simp: gc_chain_def)
    with Suc.IH show ?thesis by simp
  qed
qed

lemma gc_reachable_mono:
  assumes "gc_points_to t = gc_points_to s" and "gc_children t = gc_children s"
    and "b \<in> gc_reachable t roots"
  shows "b \<in> gc_reachable s roots"
  using assms(3)
  by induction (auto simp: assms(1,2) intro: gc_reachable.intros)

lemma gc_view_cong:
  assumes "gc_tables t = gc_tables s" "gc_alloc_table_byte_len t = gc_alloc_table_byte_len s"
    "gc_pool_start t = gc_pool_start s" "gc_pool_end t = gc_pool_end s" "gc_mem t = gc_mem s"
  shows "gc_blocks t = gc_blocks s" "gc_tables_ok t = gc_tables_ok s" "gc_marked t = gc_marked s"
    "gc_reachable t = gc_reachable s" "gc_chains_ok t = gc_chains_ok s"
proof -
  note k = kind_tables_cong [OF assms(1)]
  show b: "gc_blocks t = gc_blocks s" using assms by (simp add: gc_blocks_def)
  show "gc_tables_ok t = gc_tables_ok s" using assms b by (simp add: gc_tables_ok_def)
  show "gc_marked t = gc_marked s" using b k by (simp add: gc_marked_def)
  show "gc_chains_ok t = gc_chains_ok s" using b k by (simp add: gc_chains_ok_def)
  have "chain_len t b n = chain_len s b n" for b n by (rule chain_len_cong) (simp add: k)
  then have bp: "block_ptrs t = block_ptrs s"
    unfolding block_ptrs_def PTR_FROM_BLOCK_def assms(3,5) by simp
  have pt: "gc_points_to t = gc_points_to s"
    using assms b k
    by (simp add: gc_points_to_def gc_head_def VERIFY_PTR_def BLOCK_FROM_PTR_def fun_eq_iff)
  with bp have "gc_children t = gc_children s" by (simp add: gc_children_def fun_eq_iff)
  with pt show "gc_reachable t = gc_reachable s"
    using gc_reachable_mono [of t s] gc_reachable_mono [of s t] by (auto simp: fun_eq_iff)
qed

text \<open>What a collection leaves of each block.\<close>

definition gc_kept_kind :: "gc \<Rightarrow> nat set \<Rightarrow> nat \<Rightarrow> 8 word" where
  "gc_kept_kind s R b =
     (if ATB_GET_KIND s b = AT_HEAD \<and> b \<in> R then AT_HEAD
      else if ATB_GET_KIND s b = AT_TAIL \<and> (\<exists>h \<in> R. b \<in> gc_chain s h) then AT_TAIL else AT_FREE)"

lemma gc_chain_marks_more:
  assumes "gc_marks_more s t"
  shows "gc_chain t = gc_chain s"
proof -
  have "ATB_GET_KIND t b = AT_TAIL \<longleftrightarrow> ATB_GET_KIND s b = AT_TAIL" for b
  proof -
    have "ATB_GET_KIND t b = ATB_GET_KIND s b \<or> ATB_GET_KIND s b = AT_HEAD \<and> ATB_GET_KIND t b = AT_MARK"
      using assms by (auto simp: gc_marks_more_def)
    then show ?thesis by auto
  qed
  then show ?thesis using gc_marks_moreD(1) [OF assms] by (simp add: gc_chain_def fun_eq_iff)
qed

lemma gc_tail_in_chain:
  assumes "gc_chains_ok s" and "b < gc_blocks s" and "ATB_GET_KIND s b \<noteq> AT_FREE"
  shows "\<exists>h. gc_head s h \<and> b \<in> gc_chain s h"
  using assms(2,3)
proof (induction b)
  case 0
  then have "gc_head s 0"
    using assms(1) by (cases s "0 :: nat" rule: ATB_GET_KIND_cases) (auto simp: gc_head_def gc_chains_ok_def)
  with 0 show ?case by (auto simp: gc_chain_def)
next
  case (Suc b)
  show ?case
  proof (cases "ATB_GET_KIND s (Suc b) = AT_TAIL")
    case True
    with Suc.prems assms(1) have "ATB_GET_KIND s b \<noteq> AT_FREE" by (auto simp: gc_chains_ok_def)
    with Suc obtain h where "gc_head s h" "b \<in> gc_chain s h" by auto
    with True Suc.prems show ?thesis by (auto simp: gc_chain_def le_Suc_eq)
  next
    case False
    with Suc.prems have "gc_head s (Suc b)"
      by (cases s "Suc b" rule: ATB_GET_KIND_cases) (auto simp: gc_head_def)
    with Suc.prems show ?thesis by (auto simp: gc_chain_def)
  qed
qed

lemma gc_swept_kind_marked:
  assumes chains: "gc_chains_ok s" and fresh: "gc_marked s = {}" and m: "gc_marks_more s t"
    and b: "b < gc_blocks s"
  shows "gc_swept_kind t b = gc_kept_kind s (gc_marked t) b"
proof -
  note m' = gc_marks_moreD [OF m]
  have k: "ATB_GET_KIND t b = ATB_GET_KIND s b \<or>
      ATB_GET_KIND s b = AT_HEAD \<and> ATB_GET_KIND t b = AT_MARK"
    using m by (auto simp: gc_marks_more_def)
  have nm: "ATB_GET_KIND s b \<noteq> AT_MARK" using fresh b by (auto simp: gc_marked_def)
  show ?thesis
  proof (cases "ATB_GET_KIND s b = AT_TAIL")
    case True
    with k have tl: "ATB_GET_KIND t b = AT_TAIL" by auto
    have "gc_live t b \<longleftrightarrow> (\<exists>h \<in> gc_marked t. b \<in> gc_chain s h)"
    proof
      assume "gc_live t b"
      moreover obtain h where "gc_head t h" "b \<in> gc_chain t h"
        using gc_tail_in_chain [OF chains b] True gc_chain_marks_more [OF m] m'(4) by auto
      ultimately have "h \<in> gc_marked t"
        using gc_live_chain by (auto simp: gc_head_def gc_marked_def)
      then show "\<exists>h \<in> gc_marked t. b \<in> gc_chain s h"
        using \<open>b \<in> gc_chain t h\<close> gc_chain_marks_more [OF m] by auto
    next
      assume "\<exists>h \<in> gc_marked t. b \<in> gc_chain s h"
      then obtain h where "h \<in> gc_marked t" "b \<in> gc_chain t h"
        using gc_chain_marks_more [OF m] by auto
      then show "gc_live t b" using gc_live_chain by (auto simp: gc_head_def gc_marked_def)
    qed
    with True tl show ?thesis by (simp add: gc_swept_kind_def gc_kept_kind_def)
  next
    case False
    with k nm b m'(1) show ?thesis
      by (auto simp: gc_swept_kind_def gc_kept_kind_def gc_marked_def)
  qed
qed

section \<open>The phases of a collection\<close>

definition gc_collect_prep :: "gc \<Rightarrow> gc" where
  "gc_collect_prep s = s\<lparr>gc_lock_depth := u16 (gc_lock_depth s + 1), gc_alloc_amount := 0,
     gc_stack_overflow := False\<rparr>"

lemma gc_collect_prep_view:
  "gc_tables (gc_collect_prep s) = gc_tables s"
  "gc_alloc_table_byte_len (gc_collect_prep s) = gc_alloc_table_byte_len s"
  "gc_pool_start (gc_collect_prep s) = gc_pool_start s"
  "gc_pool_end (gc_collect_prep s) = gc_pool_end s"
  "gc_mem (gc_collect_prep s) = gc_mem s"
  "gc_auto_collect_enabled (gc_collect_prep s) = gc_auto_collect_enabled s"
  "\<not> gc_stack_overflow (gc_collect_prep s)"
  by (simp_all add: gc_collect_prep_def)

lemmas gc_prep_view = gc_view_cong [OF gc_collect_prep_view(1-5)]
  kind_tables_cong [OF gc_collect_prep_view(1)]
  FTB_tables_cong [OF gc_collect_prep_view(1,2)]

lemma gc_chains_ok_marks_more:
  assumes "gc_marks_more s t" and "gc_chains_ok s"
  shows "gc_chains_ok t"
  unfolding gc_chains_ok_def
proof (intro allI impI)
  fix b assume "b < gc_blocks t" and t: "ATB_GET_KIND t b = AT_TAIL"
  then have b: "b < gc_blocks s" using gc_marks_moreD(1) [OF assms(1)] by simp
  have k: "ATB_GET_KIND t b = ATB_GET_KIND s b \<or>
      ATB_GET_KIND s b = AT_HEAD \<and> ATB_GET_KIND t b = AT_MARK" for b
    using assms(1) by (auto simp: gc_marks_more_def)
  have "0 < b \<and> ATB_GET_KIND s (b - 1) \<noteq> AT_FREE"
    using assms(2) b t k [of b] by (auto simp: gc_chains_ok_def)
  with k [of "b - 1"] show "0 < b \<and> ATB_GET_KIND t (b - 1) \<noteq> AT_FREE" by auto
qed

lemma gc_collect_phases:
  assumes "gc_ok s"
  obtains m ft where "gc_marks_more (gc_collect_prep s) m"
    and "gc_marked m = gc_reachable s (gc_roots E)"
    and "gc_swept_upto m (gc_blocks s) (gc_sweep E m, ft)"
    and "gc_collect E s = (gc_sweep E m)\<lparr>gc_last_free_atb_index := 0,
      gc_lock_depth := to_u16 (int (gc_lock_depth (gc_sweep E m)) - 1)\<rparr>"
proof -
  let ?m = "gc_deal_with_stack_overflow E (gc_collect_root E (gc_roots E) (gc_collect_prep s))"
  have ok: "gc_tables_ok (gc_collect_prep s)" "gc_marked (gc_collect_prep s) = {}"
      "gc_chains_ok (gc_collect_prep s)"
    using assms by (simp_all add: gc_ok_def gc_prep_view)
  have m: "gc_marks_more (gc_collect_prep s) ?m" "gc_marked ?m = gc_reachable s (gc_roots E)"
    using gc_mark_phase [OF ok(1,2) gc_collect_prep_view(7), of E "gc_roots E"]
    by (simp_all add: gc_prep_view)
  have "gc_tables_ok ?m" "gc_chains_ok ?m" "gc_blocks ?m = gc_blocks s"
    using gc_marks_moreD(1,9) [OF m(1)] gc_chains_ok_marks_more [OF m(1)] ok
    by (simp_all add: gc_prep_view)
  then obtain ft where "gc_swept_upto ?m (gc_blocks s) (gc_sweep E ?m, ft)"
    using gc_sweep_correct by metis
  moreover have "gc_collect E s = (gc_sweep E ?m)\<lparr>gc_last_free_atb_index := 0,
      gc_lock_depth := to_u16 (int (gc_lock_depth (gc_sweep E ?m)) - 1)\<rparr>"
    by (simp add: gc_collect_def gc_collect_end_def gc_collect_start_def gc_roots_def
        gc_collect_root_concat gc_collect_root_append gc_collect_prep_def Let_def)
  ultimately show thesis using that m by blast
qed

lemma gc_collect_frame:
  assumes ok: "gc_ok s"
  shows "gc_blocks (gc_collect E s) = gc_blocks s"
    "gc_pool_start (gc_collect E s) = gc_pool_start s"
    "gc_pool_end (gc_collect E s) = gc_pool_end s"
    "gc_tables_ok (gc_collect E s)"
    "gc_last_free_atb_index (gc_collect E s) = 0"
    "gc_auto_collect_enabled (gc_collect E s) = gc_auto_collect_enabled s"
    "gc_lock_depth (gc_collect E s) = gc_lock_depth s"
    "gc_alloc_table_byte_len (gc_collect E s) = gc_alloc_table_byte_len s"
    "length (gc_tables (gc_collect E s)) = length (gc_tables s)"
proof -
  obtain m ft where m: "gc_marks_more (gc_collect_prep s) m"
    and sw: "gc_swept_upto m (gc_blocks s) (gc_sweep E m, ft)"
    and eq: "gc_collect E s = (gc_sweep E m)\<lparr>gc_last_free_atb_index := 0,
      gc_lock_depth := to_u16 (int (gc_lock_depth (gc_sweep E m)) - 1)\<rparr>"
    using gc_collect_phases [OF ok] .
  have r: "gc_rest m = gc_rest (gc_collect_prep s)"
      "length (gc_tables m) = length (gc_tables s)"
    using m by (simp_all add: gc_marks_more_def gc_collect_prep_view)
  note r' = gc_rest_eqD [OF r(1), unfolded gc_collect_prep_view gc_prep_view]
  have "gc_lock_depth m = u16 (gc_lock_depth s + 1)"
    using r'(5) by (simp add: gc_collect_prep_def)
  moreover have "gc_lock_depth s < 65536" using ok by (simp add: gc_ok_def)
  ultimately have "to_u16 (int (gc_lock_depth m) - 1) = gc_lock_depth s"
    by (cases "gc_lock_depth s = 65535") (simp_all add: to_u16_def u16_def)
  with sw r r' show b: "gc_blocks (gc_collect E s) = gc_blocks s"
    and p: "gc_pool_start (gc_collect E s) = gc_pool_start s"
    "gc_pool_end (gc_collect E s) = gc_pool_end s"
    and "gc_last_free_atb_index (gc_collect E s) = 0"
    "gc_auto_collect_enabled (gc_collect E s) = gc_auto_collect_enabled s"
    "gc_lock_depth (gc_collect E s) = gc_lock_depth s"
    and a: "gc_alloc_table_byte_len (gc_collect E s) = gc_alloc_table_byte_len s"
    and l: "length (gc_tables (gc_collect E s)) = length (gc_tables s)"
    by (simp_all add: eq gc_swept_upto_def gc_blocks_def)
  show "gc_tables_ok (gc_collect E s)"
    using ok unfolding gc_ok_def gc_tables_ok_def a b p l by blast
qed

lemma gc_collect_kinds:
  assumes ok: "gc_ok s" and b: "b < gc_blocks s"
  shows "ATB_GET_KIND (gc_collect E s) b = gc_kept_kind s (gc_reachable s (gc_roots E)) b"
    and "FTB_GET (gc_collect E s) b \<longleftrightarrow> FTB_GET s b \<and> b \<in> gc_reachable s (gc_roots E)"
proof -
  obtain m ft where m: "gc_marks_more (gc_collect_prep s) m"
    and R: "gc_marked m = gc_reachable s (gc_roots E)"
    and sw: "gc_swept_upto m (gc_blocks s) (gc_sweep E m, ft)"
    and eq: "gc_collect E s = (gc_sweep E m)\<lparr>gc_last_free_atb_index := 0,
      gc_lock_depth := to_u16 (int (gc_lock_depth (gc_sweep E m)) - 1)\<rparr>"
    using gc_collect_phases [OF ok] .
  have bm: "gc_blocks m = gc_blocks s" using gc_marks_moreD(1) [OF m] by (simp add: gc_prep_view)
  have tk: "ATB_GET_KIND (gc_collect E s) b = ATB_GET_KIND (gc_sweep E m) b"
    and tf: "FTB_GET (gc_collect E s) b = FTB_GET (gc_sweep E m) b"
    unfolding eq by (rule kind_tables_cong FTB_tables_cong; simp)+
  have prep: "gc_chains_ok (gc_collect_prep s)" "gc_marked (gc_collect_prep s) = {}"
    using ok by (simp_all add: gc_ok_def gc_prep_view)
  have "gc_kept_kind (gc_collect_prep s) R' b = gc_kept_kind s R' b" for R'
    unfolding gc_kept_kind_def gc_chain_def gc_prep_view ..
  then show "ATB_GET_KIND (gc_collect E s) b = gc_kept_kind s (gc_reachable s (gc_roots E)) b"
    using gc_swept_kind_marked [OF prep m, of b] sw b bm R
    by (simp add: tk gc_swept_upto_def gc_prep_view)
  have "ATB_GET_KIND m b = AT_HEAD \<longleftrightarrow> ATB_GET_KIND s b = AT_HEAD \<and> b \<notin> gc_marked m"
  proof -
    have "ATB_GET_KIND m b = ATB_GET_KIND s b \<or> ATB_GET_KIND s b = AT_HEAD \<and> ATB_GET_KIND m b = AT_MARK"
      using m by (auto simp: gc_marks_more_def gc_prep_view)
    then show ?thesis using b bm by (auto simp: gc_marked_def)
  qed
  moreover have "FTB_GET m b = FTB_GET s b"
    using m by (simp add: gc_marks_more_def gc_prep_view)
  moreover have "FTB_GET s b \<Longrightarrow> ATB_GET_KIND s b = AT_HEAD" using ok b by (simp add: gc_ok_def)
  ultimately show "FTB_GET (gc_collect E s) b \<longleftrightarrow> FTB_GET s b \<and> b \<in> gc_reachable s (gc_roots E)"
    using sw b bm R by (auto simp: tf gc_swept_upto_def)
qed

lemma gc_chain_head_unique:
  assumes "gc_head s h" and "gc_head s h'" and "b \<in> gc_chain s h" and "b \<in> gc_chain s h'"
  shows "h = h'"
proof -
  have "ATB_GET_KIND s h \<noteq> AT_TAIL" "ATB_GET_KIND s h' \<noteq> AT_TAIL"
    using assms(1,2) by (auto simp: gc_head_def)
  with assms(3,4) show ?thesis
    by (cases h h' rule: linorder_cases) (auto simp: gc_chain_def)
qed

lemma gc_kept_kind_chain:
  assumes "gc_ok s" and "ATB_GET_KIND s h = AT_HEAD" and "b \<in> gc_chain s h"
    and "\<And>h'. h' \<in> R \<Longrightarrow> gc_head s h'"
  shows "gc_kept_kind s R b = (if h \<in> R then ATB_GET_KIND s b else AT_FREE)"
proof -
  have "h < gc_blocks s" using assms(3) by (auto simp: gc_chain_def)
  with assms(2) have h: "gc_head s h" by (simp add: gc_head_def)
  show ?thesis
  proof (cases "b = h")
    case True
    with assms(2) show ?thesis by (simp add: gc_kept_kind_def)
  next
    case False
    with assms(3) have "ATB_GET_KIND s b = AT_TAIL" by (auto simp: gc_chain_def)
    moreover have "(\<exists>h' \<in> R. b \<in> gc_chain s h') \<longleftrightarrow> h \<in> R"
      using gc_chain_head_unique [OF h assms(4) assms(3)] assms(3) by blast
    ultimately show ?thesis by (simp add: gc_kept_kind_def)
  qed
qed

lemma gc_collect_ok:
  assumes ok: "gc_ok s"
  shows "gc_ok (gc_collect E s)"
proof -
  let ?t = "gc_collect E s" and ?R = "gc_reachable s (gc_roots E)"
  note f = gc_collect_frame [OF ok, of E] and k = gc_collect_kinds [OF ok, of _ E]
  have "0 < b \<and> ATB_GET_KIND ?t (b - 1) \<noteq> AT_FREE"
    if b: "b < gc_blocks s" and t: "ATB_GET_KIND ?t b = AT_TAIL" for b
  proof -
    have tl: "ATB_GET_KIND s b = AT_TAIL" "\<exists>h \<in> ?R. b \<in> gc_chain s h"
      using t k(1) [OF b] by (auto simp: gc_kept_kind_def split: if_splits)
    then obtain h where h: "h \<in> ?R" "b \<in> gc_chain s h" by blast
    have "gc_head s h" using gc_reachable_head [OF h(1)] .
    with tl have "h \<noteq> b" by (auto simp: gc_head_def)
    with h(2) have b': "0 < b" "b - 1 \<in> gc_chain s h" by (auto simp: gc_chain_def)
    have hs: "ATB_GET_KIND s h = AT_HEAD"
      using \<open>gc_head s h\<close> ok by (auto simp: gc_head_def gc_ok_def gc_marked_def)
    have "gc_kept_kind s ?R (b - 1) = ATB_GET_KIND s (b - 1)"
      using gc_kept_kind_chain [OF ok hs b'(2), of ?R] h(1) gc_reachable_head by simp
    moreover have "ATB_GET_KIND s (b - 1) \<noteq> AT_FREE"
      using ok b tl(1) by (auto simp: gc_ok_def gc_chains_ok_def)
    ultimately show ?thesis using k(1) [of "b - 1"] b b' by simp
  qed
  moreover have "ATB_GET_KIND ?t b \<noteq> AT_MARK" if "b < gc_blocks s" for b
    using k(1) [OF that] by (simp add: gc_kept_kind_def)
  moreover have "ATB_GET_KIND ?t b = AT_HEAD" if "b < gc_blocks s" "FTB_GET ?t b" for b
    using k [OF that(1)] that ok by (simp add: gc_kept_kind_def gc_ok_def)
  ultimately show ?thesis
    using ok f by (auto simp: gc_ok_def gc_chains_ok_def gc_marked_def)
qed

lemma gc_collect_counts:
  assumes ok: "gc_ok s"
  shows "gc_collected (gc_collect E s) =
      card {h. h < gc_blocks s \<and> ATB_GET_KIND s h = AT_HEAD \<and> h \<notin> gc_reachable s (gc_roots E)}"
    and "\<forall>b < gc_blocks s. \<not> FTB_GET s b \<Longrightarrow> gc_mem (gc_collect E s) = gc_mem s"
proof -
  obtain m ft where m: "gc_marks_more (gc_collect_prep s) m"
    and R: "gc_marked m = gc_reachable s (gc_roots E)"
    and sw: "gc_swept_upto m (gc_blocks s) (gc_sweep E m, ft)"
    and eq: "gc_collect E s = (gc_sweep E m)\<lparr>gc_last_free_atb_index := 0,
      gc_lock_depth := to_u16 (int (gc_lock_depth (gc_sweep E m)) - 1)\<rparr>"
    using gc_collect_phases [OF ok] .
  have bm: "gc_blocks m = gc_blocks s" using gc_marks_moreD(1) [OF m] by (simp add: gc_prep_view)
  have "ATB_GET_KIND m b = AT_HEAD \<longleftrightarrow> ATB_GET_KIND s b = AT_HEAD \<and> b \<notin> gc_marked m"
    if "b < gc_blocks s" for b
  proof -
    have "ATB_GET_KIND m b = ATB_GET_KIND s b \<or> ATB_GET_KIND s b = AT_HEAD \<and> ATB_GET_KIND m b = AT_MARK"
      using m by (auto simp: gc_marks_more_def gc_prep_view)
    then show ?thesis using that bm by (auto simp: gc_marked_def)
  qed
  then have "{b. b < gc_blocks s \<and> ATB_GET_KIND m b = AT_HEAD} =
      {h. h < gc_blocks s \<and> ATB_GET_KIND s h = AT_HEAD \<and> h \<notin> gc_reachable s (gc_roots E)}"
    using R by auto
  with sw eq show "gc_collected (gc_collect E s) =
      card {h. h < gc_blocks s \<and> ATB_GET_KIND s h = AT_HEAD \<and> h \<notin> gc_reachable s (gc_roots E)}"
    by (simp add: gc_swept_upto_def)
  have "gc_rest m = gc_rest (gc_collect_prep s)" and "\<And>b. FTB_GET m b = FTB_GET s b"
    using m by (simp_all add: gc_marks_more_def gc_prep_view)
  then show "\<forall>b < gc_blocks s. \<not> FTB_GET s b \<Longrightarrow> gc_mem (gc_collect E s) = gc_mem s"
    using sw eq bm gc_rest_eqD(4) [of m "gc_collect_prep s"]
    by (simp add: gc_swept_upto_def gc_collect_prep_view)
qed

section \<open>Properties\<close>


end
