(* ===== verification/GcAlloc.thy ===== *)
theory GcAlloc
  imports GcCollect
begin

text \<open>
  Allocation: \<open>gc_init\<close>, \<open>gc_lock\<close>, \<open>gc_unlock\<close>, \<open>gc_is_locked\<close>, \<open>gc_alloc\<close>, \<open>gc_free\<close>,
  \<open>gc_nbytes\<close>, \<open>gc_realloc\<close> and \<open>gc_info\<close> of \<^verbatim>\<open>py/gc.c\<close>.  A pointer is an address, with 0
  for \<^verbatim>\<open>NULL\<close>; the \<^verbatim>\<open>assert\<close>s on the argument of \<open>gc_free\<close> and \<open>gc_realloc\<close> are hypotheses of
  the lemmas.
\<close>

unbundle bit_operations_syntax

section \<open>Initialisation and locking\<close>

definition gc_init :: "nat \<Rightarrow> nat \<Rightarrow> (nat \<Rightarrow> nat) \<Rightarrow> gc" where
  "gc_init start end_in mem =
     (let end = end_in - end_in mod BYTES_PER_BLOCK;
          total_byte_len = end - start;
          atb_len = u64 (total_byte_len * 8) div
            (8 + 8 * BLOCKS_PER_ATB div BLOCKS_PER_FTB + 8 * BLOCKS_PER_ATB * BYTES_PER_BLOCK);
          ftb_len = (atb_len * BLOCKS_PER_ATB + BLOCKS_PER_FTB - 1) div BLOCKS_PER_FTB;
          gc_pool_block_len = atb_len * BLOCKS_PER_ATB
      in \<lparr>gc_tables = replicate atb_len 0 @ replicate ftb_len 0,
          gc_alloc_table_byte_len = atb_len,
          gc_pool_start = end - gc_pool_block_len * BYTES_PER_BLOCK,
          gc_pool_end = end,
          gc_stack_overflow = False,
          gc_lock_depth = 0,
          gc_auto_collect_enabled = True,
          gc_alloc_amount = 0,
          gc_alloc_threshold = 2 ^ 64 - 1,
          gc_last_free_atb_index = 0,
          gc_collected = 0,
          gc_mem = mem\<rparr>)"

definition gc_lock :: "gc \<Rightarrow> gc" where
  "gc_lock s = s\<lparr>gc_lock_depth := u16 (gc_lock_depth s + 1)\<rparr>"

definition gc_unlock :: "gc \<Rightarrow> gc" where
  "gc_unlock s = s\<lparr>gc_lock_depth := to_u16 (int (gc_lock_depth s) - 1)\<rparr>"

definition gc_is_locked :: "gc \<Rightarrow> bool" where
  "gc_is_locked s \<longleftrightarrow> gc_lock_depth s \<noteq> 0"

section \<open>Memory\<close>

definition memset :: "nat \<Rightarrow> nat \<Rightarrow> nat \<Rightarrow> (nat \<Rightarrow> nat) \<Rightarrow> (nat \<Rightarrow> nat)" where
  "memset dst v n m = (\<lambda>a. if dst \<le> a \<and> a < dst + n then v else m a)"

definition memcpy :: "nat \<Rightarrow> nat \<Rightarrow> nat \<Rightarrow> (nat \<Rightarrow> nat) \<Rightarrow> (nat \<Rightarrow> nat)" where
  "memcpy dst src n m = (\<lambda>a. if dst \<le> a \<and> a < dst + n then m (src + (a - dst)) else m a)"

section \<open>Allocation\<close>

text \<open>
  The search of \<open>gc_alloc\<close>.  \<open>gc_find_slots\<close> is the body of the loop over table bytes, its four
  tests in order; \<open>Inl\<close> carries \<^verbatim>\<open>n_free\<close> on to the next byte, \<open>Inr\<close> is the jump to
  \<^verbatim>\<open>found\<close> with the last block of the run and \<^verbatim>\<open>n_free\<close>.
\<close>

definition ATB_IS_FREE :: "nat \<Rightarrow> 8 word \<Rightarrow> bool" where
  "ATB_IS_FREE j a \<longleftrightarrow> a AND push_bit (2 * j) 3 = 0"

fun gc_find_slots :: "nat list \<Rightarrow> 8 word \<Rightarrow> nat \<Rightarrow> nat \<Rightarrow> nat \<Rightarrow> nat + nat \<times> nat" where
  "gc_find_slots [] a i n_blocks n_free = Inl n_free"
| "gc_find_slots (j # js) a i n_blocks n_free =
     (if ATB_IS_FREE j a then
        (if n_free + 1 \<ge> n_blocks then Inr (i * BLOCKS_PER_ATB + j, n_free + 1)
         else gc_find_slots js a i n_blocks (n_free + 1))
      else gc_find_slots js a i n_blocks 0)"

fun gc_find_bytes :: "8 word list \<Rightarrow> nat \<Rightarrow> nat list \<Rightarrow> nat \<Rightarrow> (nat \<times> nat) option" where
  "gc_find_bytes tab n_blocks [] n_free = None"
| "gc_find_bytes tab n_blocks (i # ixs) n_free =
     (case gc_find_slots [0, 1, 2, 3] (table_byte tab i) i n_blocks n_free of
        Inr found \<Rightarrow> Some found
      | Inl n_free \<Rightarrow> gc_find_bytes tab n_blocks ixs n_free)"

definition gc_find_free :: "gc \<Rightarrow> nat \<Rightarrow> (nat \<times> nat) option" where
  "gc_find_free s n_blocks =
     gc_find_bytes (gc_tables s) n_blocks
       [gc_last_free_atb_index s..<gc_alloc_table_byte_len s] 0"

text \<open>
  The code after the label \<^verbatim>\<open>found\<close>.  \<^verbatim>\<open>i - n_free + 1\<close> wraps around and back in C when the
  run starts at block 0; on naturals it is \<open>i + 1 - n_free\<close>.
\<close>

definition gc_take_blocks :: "bool \<Rightarrow> nat \<Rightarrow> nat \<times> nat \<Rightarrow> gc \<Rightarrow> nat \<times> gc" where
  "gc_take_blocks has_finaliser n_blocks = (\<lambda>(i, n_free) s.
     let end_block = i;
         start_block = i + 1 - n_free;
         s = (if n_free = 1 then s\<lparr>gc_last_free_atb_index := (i + 1) div BLOCKS_PER_ATB\<rparr> else s);
         s = ATB_FREE_TO_HEAD start_block s;
         s = fold ATB_FREE_TO_TAIL [start_block + 1..<end_block + 1] s;
         ret_ptr = gc_pool_start s + start_block * BYTES_PER_BLOCK;
         s = s\<lparr>gc_alloc_amount := u64 (gc_alloc_amount s + n_blocks)\<rparr>;
         s = s\<lparr>gc_mem := memset ret_ptr 0
                ((end_block - start_block + 1) * BYTES_PER_BLOCK) (gc_mem s)\<rparr>;
         s = (if has_finaliser
              then FTB_SET start_block (s\<lparr>gc_mem := memset ret_ptr 0 SIZEOF_PTR (gc_mem s)\<rparr>)
              else s)
     in (ret_ptr, s))"

text \<open>The number of blocks for a request, computed in \<^verbatim>\<open>size_t\<close>.\<close>

definition gc_req_blocks :: "nat \<Rightarrow> nat" where
  "gc_req_blocks n_bytes = u64 (n_bytes + BYTES_PER_BLOCK - 1) div BYTES_PER_BLOCK"

definition gc_alloc :: "gc_env \<Rightarrow> nat \<Rightarrow> nat \<Rightarrow> gc \<Rightarrow> nat \<times> gc" where
  "gc_alloc E n_bytes alloc_flags s =
     (let has_finaliser = odd alloc_flags;
          n_blocks = gc_req_blocks n_bytes
      in if n_blocks = 0 then (0, s)
         else if gc_lock_depth s > 0 then (0, s)
         else
           let collected = \<not> gc_auto_collect_enabled s;
               collect_now = (\<not> collected \<and> gc_alloc_amount s \<ge> gc_alloc_threshold s);
               s = (if collect_now then gc_collect E s else s);
               collected = (collected \<or> collect_now)
           in case gc_find_free s n_blocks of
                Some found \<Rightarrow> gc_take_blocks has_finaliser n_blocks found s
              | None \<Rightarrow>
                  if collected then (0, s)
                  else
                    let s = gc_collect E s
                    in case gc_find_free s n_blocks of
                         Some found \<Rightarrow> gc_take_blocks has_finaliser n_blocks found s
                       | None \<Rightarrow> (0, s))"

section \<open>Freeing, sizes and reallocation\<close>

text \<open>The loop that frees a head and the tail blocks after it.\<close>

function gc_free_chain :: "nat \<Rightarrow> gc \<Rightarrow> gc" where
  "gc_free_chain block s =
     (let s = ATB_ANY_TO_FREE block s; block = block + 1
      in if ATB_GET_KIND s block = AT_TAIL then gc_free_chain block s else s)"
  by pat_completeness auto
termination
proof (relation "measure (\<lambda>(block, s). 4 * length (gc_tables s) - block)")
  fix block n and s t :: gc
  assume t: "t = ATB_ANY_TO_FREE block s" and n: "n = block + 1"
    and "ATB_GET_KIND t n = AT_TAIL"
  then have "n div 4 < length (gc_tables t)" by (intro kind_in_table) simp
  then show "((n, t), block, s) \<in> measure (\<lambda>(block, s). 4 * length (gc_tables s) - block)"
    by (simp add: t n ATB_ANY_TO_FREE_def)
qed simp

declare gc_free_chain.simps [simp del]

definition gc_free :: "nat \<Rightarrow> gc \<Rightarrow> gc" where
  "gc_free ptr s =
     (if gc_lock_depth s > 0 then s
      else if ptr = 0 then s
      else
        let block = BLOCK_FROM_PTR s ptr;
            s = FTB_CLEAR block s;
            s = (if block div BLOCKS_PER_ATB < gc_last_free_atb_index s
                 then s\<lparr>gc_last_free_atb_index := block div BLOCKS_PER_ATB\<rparr> else s)
        in gc_free_chain block s)"

definition gc_nbytes :: "gc \<Rightarrow> nat \<Rightarrow> nat" where
  "gc_nbytes s ptr =
     (if VERIFY_PTR s ptr \<and> ATB_GET_KIND s (BLOCK_FROM_PTR s ptr) = AT_HEAD
      then chain_len s (BLOCK_FROM_PTR s ptr) 1 * BYTES_PER_BLOCK else 0)"

text \<open>
  The loop of \<open>gc_realloc\<close> that measures the chain and the free blocks behind it, over the block
  numbers from the one after the head up to the end of the pool.
\<close>

fun gc_measure :: "gc \<Rightarrow> nat \<Rightarrow> nat list \<Rightarrow> nat \<Rightarrow> nat \<Rightarrow> nat \<times> nat" where
  "gc_measure s new_blocks [] n_blocks n_free = (n_blocks, n_free)"
| "gc_measure s new_blocks (bl # bls) n_blocks n_free =
     (if ATB_GET_KIND s bl = AT_TAIL then gc_measure s new_blocks bls (n_blocks + 1) n_free
      else if ATB_GET_KIND s bl = AT_FREE then
        (if n_blocks + (n_free + 1) \<ge> new_blocks then (n_blocks, n_free + 1)
         else gc_measure s new_blocks bls n_blocks (n_free + 1))
      else (n_blocks, n_free))"

definition gc_realloc :: "gc_env \<Rightarrow> nat \<Rightarrow> nat \<Rightarrow> bool \<Rightarrow> gc \<Rightarrow> nat \<times> gc" where
  "gc_realloc E ptr_in n_bytes allow_move s =
     (if ptr_in = 0 then gc_alloc E n_bytes 0 s
      else if n_bytes = 0 then (0, gc_free ptr_in s)
      else if gc_lock_depth s > 0 then (0, s)
      else
        let block = BLOCK_FROM_PTR s ptr_in;
            new_blocks = gc_req_blocks n_bytes;
            max_block = gc_alloc_table_byte_len s * BLOCKS_PER_ATB;
            (n_blocks, n_free) = gc_measure s new_blocks [block + 1..<max_block] 1 0
        in if new_blocks = n_blocks then (ptr_in, s)
           else if new_blocks < n_blocks then
             let s = fold ATB_ANY_TO_FREE [block + new_blocks..<block + n_blocks] s;
                 s = (if (block + new_blocks) div BLOCKS_PER_ATB < gc_last_free_atb_index s
                      then s\<lparr>gc_last_free_atb_index := (block + new_blocks) div BLOCKS_PER_ATB\<rparr>
                      else s)
             in (ptr_in, s)
           else if new_blocks \<le> n_blocks + n_free then
             let s = fold ATB_FREE_TO_TAIL [block + n_blocks..<block + new_blocks] s;
                 s = s\<lparr>gc_mem := memset (ptr_in + n_blocks * BYTES_PER_BLOCK) 0
                        ((new_blocks - n_blocks) * BYTES_PER_BLOCK) (gc_mem s)\<rparr>
             in (ptr_in, s)
           else if \<not> allow_move then (0, s)
           else
             let ftb_state = FTB_GET s block;
                 (ptr_out, s) = gc_alloc E n_bytes (if ftb_state then 1 else 0) s
             in if ptr_out = 0 then (0, s)
                else
                  let s = s\<lparr>gc_mem := memcpy ptr_out ptr_in (n_blocks * BYTES_PER_BLOCK) (gc_mem s)\<rparr>
                  in (ptr_out, gc_free ptr_in s))"

section \<open>The search\<close>

text \<open>The same search over block numbers: the byte loop visits the blocks in order.\<close>

fun find_run :: "(nat \<Rightarrow> bool) \<Rightarrow> nat \<Rightarrow> nat list \<Rightarrow> nat \<Rightarrow> (nat \<times> nat) option" where
  "find_run free n [] m = None"
| "find_run free n (b # bs) m =
     (if free b then (if m + 1 \<ge> n then Some (b, m + 1) else find_run free n bs (m + 1))
      else find_run free n bs 0)"

abbreviation (input) gc_free_block :: "gc \<Rightarrow> nat \<Rightarrow> bool" where
  "gc_free_block s b \<equiv> ATB_GET_KIND s b = AT_FREE"

lemma push_two_bits_disjoint:
  fixes a :: "8 word"
  assumes "k \<le> 6"
  shows "a AND push_bit k 3 = 0 \<longleftrightarrow> drop_bit k a AND 3 = 0"
proof -
  have three: "bit (3 :: 8 word) n \<longleftrightarrow> n < 2" for n
    using word8_two_bits [of "-1" n] by (auto dest: bit_imp_le_length)
  have "a AND push_bit k 3 = push_bit k (drop_bit k a AND 3)"
    by (rule bit_eqI) (auto simp: bit_push_bit_iff bit_and_iff bit_drop_bit_eq three)
  moreover have "push_bit k (drop_bit k a AND 3) = 0 \<longleftrightarrow> drop_bit k a AND 3 = 0"
  proof
    assume z: "push_bit k (drop_bit k a AND 3) = 0"
    show "drop_bit k a AND 3 = 0"
    proof (rule bit_eqI)
      fix n
      have "\<not> bit (push_bit k (drop_bit k a AND 3)) (k + n)" unfolding z by simp
      with assms show "bit (drop_bit k a AND 3) n \<longleftrightarrow> bit (0 :: 8 word) n"
        by (cases "n < 2") (auto simp: bit_push_bit_iff word8_two_bits simp del: push_bit_and)
    qed
  qed simp
  ultimately show ?thesis by simp
qed

lemma ATB_IS_FREE_kind:
  assumes "j < 4"
  shows "ATB_IS_FREE j (table_byte (gc_tables s) i) \<longleftrightarrow> gc_free_block s (i * 4 + j)"
  using push_two_bits_disjoint [of "2 * j"] assms
  by (simp add: ATB_IS_FREE_def ATB_GET_KIND_def BLOCK_SHIFT_eq)

lemma gc_find_slots_run:
  assumes "\<forall>j \<in> set js. j < 4"
  shows "(case gc_find_slots js (table_byte (gc_tables s) i) i n m of
      Inr found \<Rightarrow> Some found | Inl m \<Rightarrow> find_run (gc_free_block s) n bs m) =
    find_run (gc_free_block s) n (map (\<lambda>j. i * 4 + j) js @ bs) m"
  using assms by (induction js arbitrary: m) (auto simp: ATB_IS_FREE_kind)

lemma gc_find_bytes_run:
  "gc_find_bytes (gc_tables s) n ixs m =
   find_run (gc_free_block s) n (concat (map (\<lambda>i. [i * 4, i * 4 + 1, i * 4 + 2, i * 4 + 3]) ixs)) m"
proof (induction ixs arbitrary: m)
  case (Cons i ixs)
  show ?case
    using gc_find_slots_run [where js = "[0, 1, 2, 3]" and s = s and i = i and n = n and m = m and
      bs = "concat (map (\<lambda>i. [i * 4, i * 4 + 1, i * 4 + 2, i * 4 + 3]) ixs)"]
    by (simp add: Cons.IH numeral_2_eq_2 numeral_3_eq_3 cong: sum.case_cong)
qed simp

lemma upt_blocks:
  "concat (map (\<lambda>i. [i * 4, i * 4 + 1, i * 4 + 2, i * 4 + 3]) [a..<c]) = [a * 4..<c * 4]"
proof (induction c)
  case (Suc c)
  show ?case
  proof (cases "a \<le> c")
    case True
    then have "[a * 4..<c * 4 + 4] = [a * 4..<c * 4] @ [c * 4..<c * 4 + 4]"
      by (intro upt_add_eq_append) simp
    then have "[a * 4..<Suc c * 4] = [a * 4..<c * 4] @ [c * 4, c * 4 + 1, c * 4 + 2, c * 4 + 3]"
      by (simp add: upt_conv_Cons add.commute)
    with True Suc.IH show ?thesis by simp
  qed simp
qed simp

lemma gc_find_free_run:
  "gc_find_free s n =
   find_run (gc_free_block s) n [gc_last_free_atb_index s * 4..<gc_blocks s] 0"
  by (simp only: gc_find_free_def gc_find_bytes_run upt_blocks gc_blocks_def)

lemma find_run_Some:
  assumes "find_run free n [b..<c] m = Some (e, k)" and "m < n" and "m \<le> b"
    and "\<forall>i. b - m \<le> i \<and> i < b \<longrightarrow> free i"
  shows "k = n \<and> b \<le> e \<and> e < c \<and> b + n \<le> e + 1 + m \<and> (\<forall>i. e + 1 - n \<le> i \<and> i \<le> e \<longrightarrow> free i)"
  using assms
proof (induction "c - b" arbitrary: b m)
  case (Suc d)
  then have bc: "b < c" and d: "d = c - Suc b" by auto
  then have up: "[b..<c] = b # [Suc b..<c]" by (simp add: upt_conv_Cons)
  show ?case
  proof (cases "free b")
    case True
    note f = this
    have free': "\<forall>i. Suc b - Suc m \<le> i \<and> i < Suc b \<longrightarrow> free i"
      using Suc.prems(3,4) f by (auto simp: less_Suc_eq)
    show ?thesis
    proof (cases "m + 1 \<ge> n")
      case True
      with Suc.prems f up have "e = b" "k = m + 1" "n = m + 1" by auto
      with bc free' Suc.prems(3) show ?thesis by (auto simp: less_Suc_eq_le)
    next
      case False
      with Suc.prems f up have "find_run free n [Suc b..<c] (Suc m) = Some (e, k)" by simp
      from Suc.hyps(1) [OF d this] False Suc.prems(3) free' show ?thesis by auto
    qed
  next
    case False
    with Suc.prems up have "find_run free n [Suc b..<c] 0 = Some (e, k)" by simp
    moreover have "\<forall>i. Suc b - 0 \<le> i \<and> i < Suc b \<longrightarrow> free i" by auto
    ultimately show ?thesis using Suc.hyps(1) [OF d, of 0] Suc.prems(2) by auto
  qed
qed simp

text \<open>A search from block \<open>a\<close> that fails, or stops at \<open>e\<close>, has passed no run of \<open>n\<close> free blocks.\<close>

definition run_at :: "(nat \<Rightarrow> bool) \<Rightarrow> nat \<Rightarrow> nat \<Rightarrow> bool" where
  "run_at free st n \<longleftrightarrow> (\<forall>i. st \<le> i \<and> i < st + n \<longrightarrow> free i)"

lemma find_run_first:
  assumes "find_run free n [b..<c] m = r" and "m < n" and "a \<le> b - m" and "m \<le> b"
    and "a < b - m \<longrightarrow> \<not> free (b - m - 1)"
    and "run_at free st n" and "a \<le> st" and "b \<le> st + n - 1" and "st + n \<le> c"
  shows "\<exists>e. r = Some (e, n) \<and> e < st + n"
  using assms
proof (induction "c - b" arbitrary: b m)
  case (Suc d)
  then have bc: "b < c" and d: "d = c - Suc b" by auto
  then have up: "[b..<c] = b # [Suc b..<c]" by (simp add: upt_conv_Cons)
  show ?case
  proof (cases "free b")
    case True
    show ?thesis
    proof (cases "m + 1 \<ge> n")
      case False
      have "st \<ge> b - m"
      proof (rule ccontr)
        assume "\<not> b - m \<le> st"
        with Suc.prems have "a < b - m" "st \<le> b - m - 1" "b - m - 1 < st + n" by auto
        with Suc.prems(5,6) show False by (auto simp: run_at_def)
      qed
      with False Suc.prems have "Suc b \<le> st + n - 1" by auto
      moreover have "find_run free n [Suc b..<c] (Suc m) = r" using Suc.prems(1) True False up by simp
      ultimately show ?thesis
        using Suc.hyps(1) [OF d, of "Suc m"] Suc.prems False by auto
    qed (use Suc.prems True up in auto)
  next
    case False
    with Suc.prems have "b < st \<or> st + n \<le> b" unfolding run_at_def by (meson not_le)
    with Suc.prems have "b < st" by auto
    with Suc.prems have "Suc b \<le> st + n - 1" by auto
    moreover have "find_run free n [Suc b..<c] 0 = r" using Suc.prems(1) False up by simp
    ultimately show ?thesis using Suc.hyps(1) [OF d, of 0] Suc.prems False \<open>b < st\<close> by auto
  qed
qed auto

section \<open>Runs of blocks\<close>

text \<open>The part of the state that allocation and freeing leave alone.\<close>

definition gc_frame :: "gc \<Rightarrow> nat \<times> nat \<times> nat \<times> nat \<times> bool \<times> nat" where
  "gc_frame s = (gc_alloc_table_byte_len s, gc_pool_start s, gc_pool_end s, gc_lock_depth s,
     gc_auto_collect_enabled s, length (gc_tables s))"

lemma gc_frameD:
  assumes "gc_frame t = gc_frame s"
  shows "gc_alloc_table_byte_len t = gc_alloc_table_byte_len s" "gc_pool_start t = gc_pool_start s"
    "gc_pool_end t = gc_pool_end s" "gc_lock_depth t = gc_lock_depth s"
    "gc_auto_collect_enabled t = gc_auto_collect_enabled s"
    "length (gc_tables t) = length (gc_tables s)" "gc_blocks t = gc_blocks s"
    "gc_tables_ok t = gc_tables_ok s" "PTR_FROM_BLOCK t = PTR_FROM_BLOCK s"
    "BLOCK_FROM_PTR t = BLOCK_FROM_PTR s" "VERIFY_PTR t = VERIFY_PTR s"
  using assms
  by (auto simp: gc_frame_def gc_blocks_def gc_tables_ok_def PTR_FROM_BLOCK_def
      BLOCK_FROM_PTR_def VERIFY_PTR_def fun_eq_iff)

lemma gc_frame_updates [simp]:
  "gc_frame (s\<lparr>gc_mem := m\<rparr>) = gc_frame s" "gc_frame (s\<lparr>gc_alloc_amount := n\<rparr>) = gc_frame s"
  "gc_frame (s\<lparr>gc_last_free_atb_index := n\<rparr>) = gc_frame s"
  "gc_frame (atb_or k b s) = gc_frame s" "gc_frame (atb_and_not k b s) = gc_frame s"
  "gc_frame (FTB_SET b s) = gc_frame s" "gc_frame (FTB_CLEAR b s) = gc_frame s"
  by (simp_all add: gc_frame_def atb_or_def atb_and_not_def FTB_SET_def FTB_CLEAR_def)

lemma kind_updates [simp]:
  "ATB_GET_KIND (s\<lparr>gc_mem := m\<rparr>) b = ATB_GET_KIND s b"
  "ATB_GET_KIND (s\<lparr>gc_alloc_amount := n\<rparr>) b = ATB_GET_KIND s b"
  "ATB_GET_KIND (s\<lparr>gc_last_free_atb_index := n\<rparr>) b = ATB_GET_KIND s b"
  by (simp_all add: ATB_GET_KIND_def)

lemma FTB_updates [simp]:
  "FTB_GET (s\<lparr>gc_mem := m\<rparr>) b = FTB_GET s b"
  "FTB_GET (s\<lparr>gc_alloc_amount := n\<rparr>) b = FTB_GET s b"
  "FTB_GET (s\<lparr>gc_last_free_atb_index := n\<rparr>) b = FTB_GET s b"
  by (simp_all add: FTB_GET_def ftb_byte_def)

text \<open>A run of table operations on the blocks from \<open>a\<close> to \<open>c\<close> sets exactly their kinds.\<close>

definition run_result :: "gc \<Rightarrow> nat \<Rightarrow> nat \<Rightarrow> 8 word \<Rightarrow> gc \<Rightarrow> bool" where
  "run_result s a c k t \<longleftrightarrow> gc_frame t = gc_frame s \<and> gc_mem t = gc_mem s \<and>
     gc_last_free_atb_index t = gc_last_free_atb_index s \<and>
     (\<forall>b. FTB_GET t b = FTB_GET s b) \<and>
     (\<forall>b. ATB_GET_KIND t b = (if a \<le> b \<and> b < c then k else ATB_GET_KIND s b))"

lemma run_result_step:
  assumes "run_result s a c k t" and "a \<le> c" and "gc_frame u = gc_frame t" and "gc_mem u = gc_mem t"
    and "gc_last_free_atb_index u = gc_last_free_atb_index t" and "\<And>b. FTB_GET u b = FTB_GET t b"
    and "\<And>b. ATB_GET_KIND u b = (if b = c then k else ATB_GET_KIND t b)"
  shows "run_result s a (Suc c) k u"
  using assms by (auto simp: run_result_def)

lemma run_result_none: "run_result s a a k s"
  by (auto simp: run_result_def)

lemma fold_FREE_TO_TAIL:
  assumes "gc_tables_ok s" and "a \<le> c" and "c \<le> gc_blocks s"
    and "\<forall>b. a \<le> b \<and> b < c \<longrightarrow> gc_free_block s b"
  shows "run_result s a c AT_TAIL (fold ATB_FREE_TO_TAIL [a..<c] s)"
  using assms(2-4)
proof (induction c)
  case (Suc c)
  show ?case
  proof (cases "a = Suc c")
    case False
    with Suc.prems have ac: "a \<le> c" "c < gc_blocks s" by auto
    let ?t = "fold ATB_FREE_TO_TAIL [a..<c] s"
    have IH: "run_result s a c AT_TAIL ?t" using Suc ac by auto
    then have fr: "gc_frame ?t = gc_frame s" and free: "gc_free_block ?t c"
      using Suc.prems ac by (auto simp: run_result_def)
    have c: "c div 4 < length (gc_tables ?t)" "c < gc_blocks ?t"
      using block_in_tables [OF assms(1) ac(2)] gc_frameD [OF fr] ac by auto
    have frame: "ATB_FREE_TO_TAIL c ?t = atb_or AT_TAIL c ?t" by (simp add: ATB_FREE_TO_TAIL_def)
    have "run_result s a (Suc c) AT_TAIL (ATB_FREE_TO_TAIL c ?t)"
      by (rule run_result_step [OF IH ac(1)])
        (simp_all add: kind_FREE_TO_TAIL [OF c(1) free], simp_all add: frame FTB_atb [OF c(2)])
    with ac show ?thesis by simp
  qed (simp add: run_result_none)
qed (simp add: run_result_none)

lemma fold_ANY_TO_FREE:
  assumes "gc_tables_ok s" and "a \<le> c" and "c \<le> gc_blocks s"
  shows "run_result s a c AT_FREE (fold ATB_ANY_TO_FREE [a..<c] s)"
  using assms(2,3)
proof (induction c)
  case (Suc c)
  show ?case
  proof (cases "a = Suc c")
    case False
    with Suc.prems have ac: "a \<le> c" "c < gc_blocks s" by auto
    let ?t = "fold ATB_ANY_TO_FREE [a..<c] s"
    have IH: "run_result s a c AT_FREE ?t" using Suc ac by auto
    then have fr: "gc_frame ?t = gc_frame s" by (auto simp: run_result_def)
    have c: "c div 4 < length (gc_tables ?t)" "c < gc_blocks ?t"
      using block_in_tables [OF assms(1) ac(2)] gc_frameD [OF fr] ac by auto
    have frame: "ATB_ANY_TO_FREE c ?t = atb_and_not AT_MARK c ?t" by (simp add: ATB_ANY_TO_FREE_def)
    have "run_result s a (Suc c) AT_FREE (ATB_ANY_TO_FREE c ?t)"
      by (rule run_result_step [OF IH ac(1)])
        (simp_all add: kind_ANY_TO_FREE [OF c(1)], simp_all add: frame FTB_atb [OF c(2)])
    with ac show ?thesis by simp
  qed (simp add: run_result_none)
qed (simp add: run_result_none)

text \<open>What \<^verbatim>\<open>found\<close> does with a run of \<open>n\<close> free blocks from \<open>st\<close>.\<close>

lemma gc_take_blocks_effect:
  assumes tok: "gc_tables_ok s" and n: "1 \<le> n" and e: "st + n \<le> gc_blocks s"
    and free: "run_at (gc_free_block s) st n"
    and take: "gc_take_blocks fin n (st + n - 1, n) s = (p, t)"
  shows "p = PTR_FROM_BLOCK s st" and "gc_frame t = gc_frame s"
    and "b < gc_blocks s \<Longrightarrow> ATB_GET_KIND t b =
      (if b = st then AT_HEAD else if st < b \<and> b < st + n then AT_TAIL else ATB_GET_KIND s b)"
    and "b < gc_blocks s \<Longrightarrow> FTB_GET t b \<longleftrightarrow> FTB_GET s b \<or> fin \<and> b = st"
    and "gc_mem t = memset p 0 (n * BYTES_PER_BLOCK) (gc_mem s)"
    and "gc_last_free_atb_index t =
      (if n = 1 then (st + 1) div BLOCKS_PER_ATB else gc_last_free_atb_index s)"
proof -
  define s1 where "s1 = (if n = 1 then s\<lparr>gc_last_free_atb_index := (st + n) div 4\<rparr> else s)"
  define s2 where "s2 = ATB_FREE_TO_HEAD st s1"
  define s3 where "s3 = fold ATB_FREE_TO_TAIL [st + 1..<st + n] s2"
  have st: "st < gc_blocks s" "st div 4 < length (gc_tables s1)" "gc_free_block s1 st"
    using block_in_tables [OF tok, of st] free n e by (auto simp: s1_def run_at_def)
  have f2: "gc_frame s2 = gc_frame s" by (simp add: s2_def s1_def atb_macros)
  note f2' = gc_frameD [OF f2]
  have k2: "ATB_GET_KIND s2 b = (if b = st then AT_HEAD else ATB_GET_KIND s b)" for b
    using kind_FREE_TO_HEAD [OF st(2,3), of b] by (simp add: s2_def s1_def)
  have "st < gc_blocks s1" using st(1) by (simp add: s1_def gc_blocks_def)
  then have F2: "FTB_GET s2 b = FTB_GET s b" for b
    by (simp add: s2_def atb_macros FTB_atb) (simp add: s1_def)
  have m2: "gc_mem s2 = gc_mem s" "gc_last_free_atb_index s2 =
      (if n = 1 then (st + 1) div 4 else gc_last_free_atb_index s)"
    by (simp_all add: s2_def s1_def atb_macros)
  have "\<forall>b. st + 1 \<le> b \<and> b < st + n \<longrightarrow> gc_free_block s2 b"
    using free by (auto simp: k2 run_at_def)
  then have "run_result s2 (st + 1) (st + n) AT_TAIL s3"
    unfolding s3_def using tok n e f2' by (intro fold_FREE_TO_TAIL) auto
  then have r3: "gc_frame s3 = gc_frame s2" "gc_mem s3 = gc_mem s2"
      "gc_last_free_atb_index s3 = gc_last_free_atb_index s2" "\<And>b. FTB_GET s3 b = FTB_GET s2 b"
      "\<And>b. ATB_GET_KIND s3 b = (if st < b \<and> b < st + n then AT_TAIL else ATB_GET_KIND s2 b)"
    by (simp_all add: run_result_def Suc_le_eq)
  have f3: "gc_frame s3 = gc_frame s" using r3(1) f2 by simp
  note f3' = gc_frameD [OF f3]
  define s5 where "s5 = s3\<lparr>gc_alloc_amount := u64 (gc_alloc_amount s3 + n),
    gc_mem := memset p 0 (n * 32) (gc_mem s3)\<rparr>"
  have ends: "st + n - 1 + 1 = st + n" "st + n - n = st" "st + n - 1 - st + 1 = n" using n by auto
  have res: "gc_take_blocks fin n (st + n - 1, n) s = (gc_pool_start s3 + st * 32,
      let s5 = s3\<lparr>gc_alloc_amount := u64 (gc_alloc_amount s3 + n),
             gc_mem := memset (gc_pool_start s3 + st * 32) 0 (n * 32) (gc_mem s3)\<rparr>
      in if fin then FTB_SET st (s5\<lparr>gc_mem := memset (gc_pool_start s3 + st * 32) 0 8 (gc_mem s5)\<rparr>)
         else s5)"
    unfolding gc_take_blocks_def Let_def prod.case ends s1_def [symmetric] s2_def [symmetric]
      s3_def [symmetric] by simp
  have p': "p = gc_pool_start s + st * 32" using take res f3' by simp
  have t: "t = (if fin then FTB_SET st (s5\<lparr>gc_mem := memset p 0 8 (gc_mem s5)\<rparr>) else s5)"
    using take res by (simp add: s5_def Let_def)
  show "p = PTR_FROM_BLOCK s st" using p' by (simp add: PTR_FROM_BLOCK_def)
  have f5: "gc_frame s5 = gc_frame s" using f3 by (simp add: s5_def gc_frame_def)
  then show "gc_frame t = gc_frame s" by (simp add: t)
  let ?s6 = "s5\<lparr>gc_mem := memset p 0 8 (gc_mem s5)\<rparr>"
  have k5: "ATB_GET_KIND s5 b = ATB_GET_KIND s3 b" "FTB_GET s5 b = FTB_GET s3 b" for b
    by (simp_all add: s5_def ATB_GET_KIND_def FTB_GET_def ftb_byte_def)
  have g6: "gc_tables_ok ?s6" "gc_blocks ?s6 = gc_blocks s"
    using gc_frameD(7,8) [OF f5] gc_frameD(7,8) [of ?s6 s5] tok by auto
  { assume b: "b < gc_blocks s"
    show "ATB_GET_KIND t b = (if b = st then AT_HEAD
        else if st < b \<and> b < st + n then AT_TAIL else ATB_GET_KIND s b)"
      using kind_FTB(1) [of b ?s6 st] b g6 by (auto simp: t k5 r3 k2)
    show "FTB_GET t b \<longleftrightarrow> FTB_GET s b \<or> fin \<and> b = st"
      using FTB_GET_SET [of ?s6 st b] g6 st(1) by (auto simp: t k5 r3 F2) }
  show "gc_mem t = memset p 0 (n * BYTES_PER_BLOCK) (gc_mem s)"
    using n by (auto simp: t s5_def r3 m2 memset_def fun_eq_iff)
  show "gc_last_free_atb_index t = (if n = 1 then (st + 1) div BLOCKS_PER_ATB else gc_last_free_atb_index s)"
    by (simp add: t s5_def r3 m2)
qed

end
