(* ===== verification/GcHeap.thy ===== *)
theory GcHeap
  imports GcAlloc
begin

text \<open>
  The properties of allocation: every operation keeps the heap invariant \<open>gc_ok\<close>; \<open>gc_alloc\<close> is
  first fit and fails only when no run of blocks is long enough; \<open>gc_free\<close>, \<open>gc_nbytes\<close> and
  \<open>gc_realloc\<close> act on exactly the chain they are given, except where a chain reaches the end of
  the pool and the bits after the allocation table are read as one more tail.
\<close>

section \<open>First fit\<close>

lemma gc_okD:
  assumes "gc_ok s"
  shows "gc_tables_ok s" "gc_chains_ok s" "b < gc_blocks s \<Longrightarrow> ATB_GET_KIND s b \<noteq> AT_MARK"
    "gc_lock_depth s < 65536" "b < gc_blocks s \<Longrightarrow> FTB_GET s b \<Longrightarrow> ATB_GET_KIND s b = AT_HEAD"
    "b < gc_blocks s \<Longrightarrow> b div BLOCKS_PER_ATB < gc_last_free_atb_index s \<Longrightarrow> ATB_GET_KIND s b \<noteq> AT_FREE"
  using assms by (auto simp: gc_ok_def gc_marked_def)

lemma gc_run_from_last_free:
  assumes "gc_ok s" and "1 \<le> n" and "run_at (gc_free_block s) st n" and "st + n \<le> gc_blocks s"
  shows "gc_last_free_atb_index s * 4 \<le> st"
proof (rule ccontr)
  assume "\<not> ?thesis"
  then have "st div 4 < gc_last_free_atb_index s" by auto
  moreover have "gc_free_block s st" "st < gc_blocks s" using assms(2-4) by (auto simp: run_at_def)
  ultimately show False using gc_okD(6) [OF assms(1)] by blast
qed

lemma gc_find_free_None:
  assumes "gc_ok s" and "1 \<le> n" and "gc_find_free s n = None"
    and "run_at (gc_free_block s) st n" and "st + n \<le> gc_blocks s"
  shows False
proof -
  let ?l = "gc_last_free_atb_index s * 4"
  have l: "?l \<le> st" by (rule gc_run_from_last_free [OF assms(1,2,4,5)])
  then have "?l \<le> st + n - 1" using assms(2) by linarith
  with l show False
    using find_run_first [where b = ?l and m = 0 and a = ?l and r = None and c = "gc_blocks s",
        OF _ _ _ _ _ assms(4)] assms by (simp add: gc_find_free_run)
qed

lemma gc_find_free_Some:
  assumes "gc_ok s" and "1 \<le> n" and "gc_find_free s n = Some r"
  obtains st where "r = (st + n - 1, n)" and "st + n \<le> gc_blocks s"
    and "run_at (gc_free_block s) st n"
    and "\<And>st'. run_at (gc_free_block s) st' n \<Longrightarrow> st' + n \<le> gc_blocks s \<Longrightarrow> st \<le> st'"
proof -
  let ?l = "gc_last_free_atb_index s * 4"
  obtain e k where r: "r = (e, k)" by (cases r)
  have run: "find_run (gc_free_block s) n [?l..<gc_blocks s] 0 = Some (e, k)"
    using assms(3) r by (simp add: gc_find_free_run)
  have "\<forall>i. ?l - 0 \<le> i \<and> i < ?l \<longrightarrow> gc_free_block s i" by auto
  from find_run_Some [OF run _ _ this] assms(2)
  have k: "k = n" and e: "e < gc_blocks s" "?l + n \<le> e + 1"
    and free: "\<forall>i. e + 1 - n \<le> i \<and> i \<le> e \<longrightarrow> gc_free_block s i" by auto
  have "e + 1 - n \<le> st'" if r': "run_at (gc_free_block s) st' n" "st' + n \<le> gc_blocks s" for st'
  proof -
    have l: "?l \<le> st'" by (rule gc_run_from_last_free [OF assms(1,2) r'])
    then have "?l \<le> st' + n - 1" using assms(2) by linarith
    with l show ?thesis using find_run_first [OF run _ _ _ _ r'(1), of ?l] r' assms(2) by auto
  qed
  then show thesis
    using that [of "e + 1 - n"] r k e free assms(2) by (auto simp: run_at_def less_Suc_eq_le)
qed

text \<open>The three ways \<open>gc_alloc\<close> ends.\<close>

lemma gc_alloc_cases:
  assumes "gc_alloc E n_bytes flags s = (p, t)" and "gc_ok s"
  obtains (refused) "gc_req_blocks n_bytes = 0 \<or> gc_lock_depth s > 0" "p = 0" "t = s"
  | (full) "gc_req_blocks n_bytes > 0" "gc_lock_depth s = 0" "p = 0"
      "gc_find_free t (gc_req_blocks n_bytes) = None"
      "t = gc_collect E s \<or> t = s \<and> \<not> gc_auto_collect_enabled s"
  | (found) u r where "gc_req_blocks n_bytes > 0" "gc_lock_depth s = 0" "u = s \<or> u = gc_collect E s"
      "gc_find_free u (gc_req_blocks n_bytes) = Some r"
      "gc_take_blocks (odd flags) (gc_req_blocks n_bytes) r u = (p, t)"
proof (cases "gc_req_blocks n_bytes = 0 \<or> gc_lock_depth s > 0")
  case True
  then show thesis using assms(1) refused by (auto simp: gc_alloc_def Let_def split: if_splits)
next
  case False
  then have live: "gc_req_blocks n_bytes \<noteq> 0" "\<not> gc_lock_depth s > 0" by auto
  let ?n = "gc_req_blocks n_bytes"
  define now where "now = (gc_auto_collect_enabled s \<and> gc_alloc_amount s \<ge> gc_alloc_threshold s)"
  define u where "u = (if now then gc_collect E s else s)"
  have eq: "gc_alloc E n_bytes flags s =
      (case gc_find_free u ?n of
         Some found \<Rightarrow> gc_take_blocks (odd flags) ?n found u
       | None \<Rightarrow> if \<not> gc_auto_collect_enabled s \<or> now then (0, u)
                else case gc_find_free (gc_collect E u) ?n of
                       Some found \<Rightarrow> gc_take_blocks (odd flags) ?n found (gc_collect E u)
                     | None \<Rightarrow> (0, gc_collect E u))"
    unfolding gc_alloc_def Let_def u_def now_def using live by (auto split: option.splits)
  show thesis
  proof (cases "gc_find_free u ?n")
    case None
    then show thesis
      using eq assms(1) full found live
      by (auto simp: u_def now_def split: if_splits option.splits)
  next
    case (Some r)
    then show thesis using eq assms(1) found [of u r] live by (auto simp: u_def)
  qed
qed

section \<open>Allocation keeps the invariant\<close>

lemma gc_ok_intro:
  assumes "gc_frame t = gc_frame s" and "gc_ok s"
    and "\<And>b. b < gc_blocks s \<Longrightarrow> ATB_GET_KIND t b \<noteq> AT_MARK"
    and "\<And>b. b < gc_blocks s \<Longrightarrow> ATB_GET_KIND t b = AT_TAIL \<Longrightarrow> 0 < b \<and> ATB_GET_KIND t (b - 1) \<noteq> AT_FREE"
    and "\<And>b. b < gc_blocks s \<Longrightarrow> FTB_GET t b \<Longrightarrow> ATB_GET_KIND t b = AT_HEAD"
    and "\<And>b. b < gc_blocks s \<Longrightarrow> b div BLOCKS_PER_ATB < gc_last_free_atb_index t \<Longrightarrow> ATB_GET_KIND t b \<noteq> AT_FREE"
  shows "gc_ok t"
  using assms gc_frameD [OF assms(1)] by (auto simp: gc_ok_def gc_chains_ok_def gc_marked_def)

lemma gc_tail_pred:
  assumes "gc_ok s" and "b < gc_blocks s" and "ATB_GET_KIND s b = AT_TAIL"
  shows "0 < b \<and> ATB_GET_KIND s (b - 1) \<noteq> AT_FREE"
  using assms by (auto simp: gc_ok_def gc_chains_ok_def)

lemma gc_take_blocks_ok:
  assumes ok: "gc_ok s" and n: "1 \<le> n" and e: "st + n \<le> gc_blocks s"
    and free: "run_at (gc_free_block s) st n"
    and least: "\<And>st'. run_at (gc_free_block s) st' n \<Longrightarrow> st' + n \<le> gc_blocks s \<Longrightarrow> st \<le> st'"
    and take: "gc_take_blocks fin n (st + n - 1, n) s = (p, t)"
  shows "gc_ok t"
proof -
  note eff = gc_take_blocks_effect [OF gc_okD(1) [OF ok] n e free take]
  note k = eff(3) and F = eff(4)
  have isfree: "gc_free_block s b" if "st \<le> b" "b < st + n" for b using free that by (auto simp: run_at_def)
  show ?thesis
  proof (rule gc_ok_intro [OF eff(2) ok])
    fix b assume b: "b < gc_blocks s"
    show "ATB_GET_KIND t b \<noteq> AT_MARK" using k [OF b] gc_okD(3) [OF ok b] by auto
    show "0 < b \<and> ATB_GET_KIND t (b - 1) \<noteq> AT_FREE" if "ATB_GET_KIND t b = AT_TAIL"
      using that k [OF b] k [of "b - 1"] b gc_tail_pred [OF ok b] by (auto split: if_splits)
    show "ATB_GET_KIND t b = AT_HEAD" if "FTB_GET t b"
      using that k [OF b] F [OF b] gc_okD(5) [OF ok b] isfree [of b] by auto
    show "ATB_GET_KIND t b \<noteq> AT_FREE" if "b div 4 < gc_last_free_atb_index t"
    proof (cases "n = 1")
      case True
      with that eff(6) have "b \<le> st" by auto
      moreover have "\<not> gc_free_block s b" if "b < st"
      proof
        assume "gc_free_block s b"
        then have "run_at (gc_free_block s) b n" using True by (auto simp: run_at_def less_Suc_eq_le)
        from least [OF this] b True that show False by simp
      qed
      ultimately show ?thesis using k [OF b] by (cases "b = st") auto
    next
      case False
      then show ?thesis using that eff(6) k [OF b] gc_okD(6) [OF ok b] by auto
    qed
  qed
qed

lemma gc_chain_interval:
  assumes "1 \<le> n" and "st + n \<le> gc_blocks s"
    and "\<And>i. st < i \<Longrightarrow> i < st + n \<Longrightarrow> ATB_GET_KIND s i = AT_TAIL"
    and "st + n < gc_blocks s \<Longrightarrow> ATB_GET_KIND s (st + n) \<noteq> AT_TAIL"
  shows "gc_chain s st = {st..<st + n}"
proof (intro equalityI subsetI)
  fix b assume b: "b \<in> gc_chain s st"
  have "b < st + n"
  proof (rule ccontr)
    assume "\<not> b < st + n"
    with b assms(1) have "st + n < gc_blocks s" "ATB_GET_KIND s (st + n) = AT_TAIL"
      by (auto simp: gc_chain_def)
    with assms(4) show False by blast
  qed
  with b show "b \<in> {st..<st + n}" by (auto simp: gc_chain_def)
next
  fix b assume "b \<in> {st..<st + n}"
  then show "b \<in> gc_chain s st" using assms(2,3) by (auto simp: gc_chain_def)
qed

lemma gc_take_blocks_chain:
  assumes ok: "gc_ok s" and n: "1 \<le> n" and e: "st + n \<le> gc_blocks s"
    and free: "run_at (gc_free_block s) st n"
    and take: "gc_take_blocks fin n (st + n - 1, n) s = (p, t)"
  shows "gc_chain t st = {st..<st + n}"
proof -
  note eff = gc_take_blocks_effect [OF gc_okD(1) [OF ok] n e free take]
  have last: "gc_free_block s (st + n - 1)" using free n by (auto simp: run_at_def)
  show ?thesis
  proof (rule gc_chain_interval [OF n])
    show "ATB_GET_KIND t i = AT_TAIL" if "st < i" "i < st + n" for i
      using eff(3) [of i] that e by simp
    show "ATB_GET_KIND t (st + n) \<noteq> AT_TAIL" if "st + n < gc_blocks t"
      using eff(3) [of "st + n"] gc_tail_pred [OF ok, of "st + n"] that n last gc_frameD(7) [OF eff(2)]
      by auto
  qed (use e gc_frameD(7) [OF eff(2)] in simp)
qed

section \<open>The chain at an address\<close>

lemma PTR_BLOCK:
  assumes "gc_tables_ok s"
  shows "BLOCK_FROM_PTR s (PTR_FROM_BLOCK s b) = b"
    and "b < gc_blocks s \<Longrightarrow> VERIFY_PTR s (PTR_FROM_BLOCK s b)"
  using assms
  by (auto simp: BLOCK_FROM_PTR_def PTR_FROM_BLOCK_def VERIFY_PTR_def gc_tables_ok_def nat_and_mask
      mod_add_eq [symmetric] simp del: mod_add_eq)

lemma PTR_FROM_BLOCK_pos: "gc_tables_ok s \<Longrightarrow> 0 < PTR_FROM_BLOCK s b"
  by (simp add: PTR_FROM_BLOCK_def gc_tables_ok_def)

lemma VERIFY_PTR_at:
  assumes "gc_tables_ok s" and "VERIFY_PTR s p"
  shows "p = PTR_FROM_BLOCK s (BLOCK_FROM_PTR s p)" and "BLOCK_FROM_PTR s p < gc_blocks s"
proof -
  have m: "p mod 32 = 0" "gc_pool_start s \<le> p" "p < gc_pool_start s + gc_blocks s * 32"
      "gc_pool_start s mod 32 = 0"
    using assms by (auto simp: VERIFY_PTR_def gc_tables_ok_def nat_and_mask)
  then have "32 dvd p - gc_pool_start s" by (intro dvd_diff_nat) (auto simp: mod_0_imp_dvd)
  then have "(p - gc_pool_start s) div 32 * 32 = p - gc_pool_start s" by simp
  then show "p = PTR_FROM_BLOCK s (BLOCK_FROM_PTR s p)" using m(2) by (simp add: PTR_FROM_BLOCK_def BLOCK_FROM_PTR_def)
  have "p - gc_pool_start s < gc_blocks s * 32" using m(2,3) by linarith
  then show "BLOCK_FROM_PTR s p < gc_blocks s" by (simp add: BLOCK_FROM_PTR_def less_mult_imp_div_less)
qed

text \<open>
  The number of blocks of a chain, and the condition under which the code's loops stop where the
  chain does.  At the last block of the pool they read the kind of the block after it, whose two
  bits are the finaliser bits of blocks 0 and 1.
\<close>

definition gc_chain_len :: "gc \<Rightarrow> nat \<Rightarrow> nat" where
  "gc_chain_len s h = card (gc_chain s h)"

definition gc_stops :: "gc \<Rightarrow> nat \<Rightarrow> bool" where
  "gc_stops s h \<longleftrightarrow> gc_blocks s - 1 \<notin> gc_chain s h \<or> FTB_GET s 0 \<or> \<not> FTB_GET s 1"

lemma kind_after_pool:
  "ATB_GET_KIND s (gc_blocks s) = AT_TAIL \<longleftrightarrow> \<not> FTB_GET s 0 \<and> FTB_GET s 1"
proof -
  let ?w = "table_byte (gc_tables s) (gc_alloc_table_byte_len s)"
  have "ATB_GET_KIND s (gc_blocks s) = ?w AND 3"
    by (simp add: ATB_GET_KIND_def gc_blocks_def BLOCK_SHIFT_eq)
  moreover have "FTB_GET s 0 \<longleftrightarrow> bit ?w 0" "FTB_GET s 1 \<longleftrightarrow> bit ?w 1"
    by (simp_all add: FTB_GET_bit ftb_byte_def)
  moreover have "?w AND 3 = 2 \<longleftrightarrow> \<not> bit ?w 0 \<and> bit ?w 1"
  proof
    assume e: "?w AND 3 = 2"
    have "bit (?w AND 3) 0 = bit (2 :: 8 word) 0" "bit (?w AND 3) 1 = bit (2 :: 8 word) 1"
      by (simp_all only: e)
    then show "\<not> bit ?w 0 \<and> bit ?w 1" by (simp add: word8_two_bits)
  next
    assume b: "\<not> bit ?w 0 \<and> bit ?w 1"
    show "?w AND 3 = 2"
    proof (rule bit_eqI)
      fix n
      have "bit (2 :: 8 word) n \<longleftrightarrow> n = 1" using bit_exp_iff [where 'a = "8 word", of 1 n] by auto
      with b show "bit (?w AND 3) n \<longleftrightarrow> bit (2 :: 8 word) n"
        by (auto simp: word8_two_bits less_2_cases_iff)
    qed
  qed
  ultimately show ?thesis by simp
qed

lemma gc_chain_span:
  assumes "h < gc_blocks s"
  obtains n where "1 \<le> n" "h + n \<le> gc_blocks s" "gc_chain s h = {h..<h + n}" "gc_chain_len s h = n"
    "\<And>i. h < i \<Longrightarrow> i < h + n \<Longrightarrow> ATB_GET_KIND s i = AT_TAIL"
    "h + n < gc_blocks s \<Longrightarrow> ATB_GET_KIND s (h + n) \<noteq> AT_TAIL"
proof -
  define P where "P k \<longleftrightarrow> 1 \<le> k \<and> (h + k = gc_blocks s \<or> ATB_GET_KIND s (h + k) \<noteq> AT_TAIL)" for k
  have "P (gc_blocks s - h)" using assms by (simp add: P_def)
  then have P: "P (LEAST k. P k)" and le: "(LEAST k. P k) \<le> gc_blocks s - h"
    by (auto intro: LeastI Least_le)
  let ?n = "LEAST k. P k"
  have tails: "ATB_GET_KIND s i = AT_TAIL" if "h < i" "i < h + ?n" for i
    using not_less_Least [of "i - h" P] that by (auto simp: P_def)
  have "1 \<le> ?n" "h + ?n \<le> gc_blocks s" using P le assms by (auto simp: P_def)
  moreover have nt: "ATB_GET_KIND s (h + ?n) \<noteq> AT_TAIL" if "h + ?n < gc_blocks s"
    using P that by (auto simp: P_def)
  ultimately have "gc_chain s h = {h..<h + ?n}" using tails by (intro gc_chain_interval)
  with \<open>1 \<le> ?n\<close> \<open>h + ?n \<le> gc_blocks s\<close> show thesis
    using that [of ?n] tails nt by (simp add: gc_chain_len_def)
qed

lemma gc_stops_kind:
  assumes "gc_stops s h" and "gc_chain s h = {h..<h + n}" and "1 \<le> n" and "h + n \<le> gc_blocks s"
    and "h + n < gc_blocks s \<Longrightarrow> ATB_GET_KIND s (h + n) \<noteq> AT_TAIL"
  shows "ATB_GET_KIND s (h + n) \<noteq> AT_TAIL"
proof (cases "h + n = gc_blocks s")
  case True
  with assms(2,3) have "gc_blocks s - 1 \<in> gc_chain s h" by auto
  with assms(1) True show ?thesis using kind_after_pool [of s] by (auto simp: gc_stops_def)
qed (use assms(4,5) in auto)

lemma chain_len_run:
  assumes "\<And>i. h + k \<le> i \<Longrightarrow> i < h + n \<Longrightarrow> ATB_GET_KIND s i = AT_TAIL" and "k \<le> n"
    and "ATB_GET_KIND s (h + n) \<noteq> AT_TAIL"
  shows "chain_len s h k = n"
  using assms(1,2)
proof (induction "n - k" arbitrary: k)
  case 0
  with assms(3) show ?case by (simp add: chain_len.simps)
next
  case (Suc d)
  then have "chain_len s h (Suc k) = n" by (intro Suc.hyps(1)) auto
  with Suc show ?case by (simp add: chain_len.simps [of s h k])
qed

lemma gc_free_chain_run:
  assumes "\<And>i. h < i \<Longrightarrow> i < h + n \<Longrightarrow> ATB_GET_KIND s i = AT_TAIL" and "1 \<le> n"
    and "ATB_GET_KIND s (h + n) \<noteq> AT_TAIL" and "(h + n - 1) div 4 < length (gc_tables s)"
  shows "gc_free_chain h s = fold ATB_ANY_TO_FREE [h..<h + n] s"
  using assms
proof (induction n arbitrary: h s)
  case (Suc n)
  let ?s = "ATB_ANY_TO_FREE h s"
  have "h div 4 \<le> (h + Suc n - 1) div 4" by (intro div_le_mono) simp
  with Suc.prems(4) have hl: "h div 4 < length (gc_tables s)" by linarith
  note k = kind_ANY_TO_FREE [OF hl]
  show ?case
  proof (cases n)
    case 0
    then show ?thesis using Suc.prems(3) k [of "Suc h"] by (simp add: gc_free_chain.simps Let_def)
  next
    case (Suc m)
    have "gc_free_chain (Suc h) ?s = fold ATB_ANY_TO_FREE [Suc h..<Suc h + n] ?s"
    proof (rule Suc.IH)
      show "ATB_GET_KIND ?s i = AT_TAIL" if "Suc h < i" "i < Suc h + n" for i
        using Suc.prems(1) [of i] that by (simp add: k)
    qed (use Suc Suc.prems k [of "Suc h + n"] in \<open>simp_all add: atb_macros\<close>)
    moreover have "ATB_GET_KIND ?s (Suc h) = AT_TAIL" using Suc.prems(1) [of "Suc h"] Suc by (simp add: k)
    moreover have "[h..<h + Suc n] = h # [Suc h..<Suc h + n]" by (simp add: upt_conv_Cons)
    ultimately show ?thesis by (simp add: gc_free_chain.simps [of h] Let_def)
  qed
qed simp

section \<open>Freeing\<close>

lemma gc_blocks_mult4: "gc_blocks s mod 4 = 0"
  by (simp add: gc_blocks_def)

lemma gc_chain_cong:
  assumes "gc_blocks t = gc_blocks s"
    and "\<And>b. b < gc_blocks s \<Longrightarrow> ATB_GET_KIND t b = AT_TAIL \<longleftrightarrow> ATB_GET_KIND s b = AT_TAIL"
  shows "gc_chain t h = gc_chain s h"
  using assms by (auto simp: gc_chain_def)

lemma gc_stops_clear:
  assumes ok: "gc_ok s" and h: "h < gc_blocks s" and stops: "gc_stops s h"
  shows "gc_stops (FTB_CLEAR h s) h"
proof -
  note tok = gc_okD(1) [OF ok]
  have chain: "gc_chain (FTB_CLEAR h s) h = gc_chain s h"
    by (rule gc_chain_cong) (simp_all add: kind_FTB)
  have "\<not> FTB_GET s 1" if "h = 0" "gc_blocks s - 1 \<in> gc_chain s h"
  proof
    assume f: "FTB_GET s 1"
    have "4 \<le> gc_blocks s" using h gc_blocks_mult4 [of s] by presburger
    with that have "ATB_GET_KIND s 1 = AT_TAIL" by (auto simp: gc_chain_def)
    with f gc_okD(5) [OF ok, of 1] \<open>4 \<le> gc_blocks s\<close> show False by auto
  qed
  then have "gc_blocks s - 1 \<notin> gc_chain s h \<or> (FTB_GET s 0 \<and> h \<noteq> 0) \<or> \<not> FTB_GET s 1"
    using stops unfolding gc_stops_def by blast
  then show ?thesis by (auto simp: gc_stops_def chain FTB_GET_CLEAR [OF tok h])
qed

lemma gc_free_effect:
  assumes ok: "gc_ok s" and ul: "gc_lock_depth s = 0" and h: "h < gc_blocks s"
    and stops: "gc_stops s h"
  defines "t \<equiv> gc_free (PTR_FROM_BLOCK s h) s"
  shows "gc_frame t = gc_frame s" and "gc_mem t = gc_mem s"
    and "b < gc_blocks s \<Longrightarrow> ATB_GET_KIND t b = (if b \<in> gc_chain s h then AT_FREE else ATB_GET_KIND s b)"
    and "b < gc_blocks s \<Longrightarrow> FTB_GET t b \<longleftrightarrow> FTB_GET s b \<and> b \<noteq> h"
    and "gc_last_free_atb_index t = min (gc_last_free_atb_index s) (h div BLOCKS_PER_ATB)"
proof -
  note tok = gc_okD(1) [OF ok]
  define s1 where "s1 = FTB_CLEAR h s"
  define s2 where "s2 = (if h div 4 < gc_last_free_atb_index s1
    then s1\<lparr>gc_last_free_atb_index := h div 4\<rparr> else s1)"
  have t: "t = gc_free_chain h s2"
    using ul PTR_FROM_BLOCK_pos [OF tok, of h]
    by (auto simp: t_def gc_free_def PTR_BLOCK [OF tok] s1_def s2_def Let_def)
  have f2: "gc_frame s2 = gc_frame s" by (simp add: s2_def s1_def)
  note f2' = gc_frameD [OF f2]
  have k2: "ATB_GET_KIND s2 b = ATB_GET_KIND s b" if "b < gc_blocks s" for b
    using kind_FTB(2) [OF that] by (simp add: s2_def s1_def)
  have F2: "FTB_GET s2 b \<longleftrightarrow> FTB_GET s b \<and> b \<noteq> h" for b
    using FTB_GET_CLEAR [OF tok h, of b] by (auto simp: s2_def s1_def)
  have chain: "gc_chain s2 h = gc_chain s h" by (rule gc_chain_cong) (simp_all add: f2' k2)
  have stops2: "gc_stops s2 h"
    using gc_stops_clear [OF ok h stops] by (simp add: s2_def s1_def gc_stops_def gc_blocks_def gc_chain_def)
  obtain n where n: "1 \<le> n" "h + n \<le> gc_blocks s2" "gc_chain s2 h = {h..<h + n}"
    "\<And>i. h < i \<Longrightarrow> i < h + n \<Longrightarrow> ATB_GET_KIND s2 i = AT_TAIL"
    "h + n < gc_blocks s2 \<Longrightarrow> ATB_GET_KIND s2 (h + n) \<noteq> AT_TAIL"
    using gc_chain_span [of h s2] h f2' by metis
  have "(h + n - 1) div 4 < length (gc_tables s2)"
    using n(1,2) tok f2' by (intro block_in_tables(1)) auto
  then have "gc_free_chain h s2 = fold ATB_ANY_TO_FREE [h..<h + n] s2"
    using gc_free_chain_run [OF n(4) n(1) gc_stops_kind [OF stops2 n(3,1,2,5)]] by blast
  moreover have "run_result s2 h (h + n) AT_FREE (fold ATB_ANY_TO_FREE [h..<h + n] s2)"
    using n tok f2' by (intro fold_ANY_TO_FREE) auto
  ultimately have r: "run_result s2 h (h + n) AT_FREE t" by (simp add: t)
  have c: "gc_chain s h = {h..<h + n}" using chain n(3) by simp
  show "gc_frame t = gc_frame s" "gc_mem t = gc_mem s"
    "gc_last_free_atb_index t = min (gc_last_free_atb_index s) (h div BLOCKS_PER_ATB)"
    using r f2 by (auto simp: run_result_def s2_def s1_def)
  { assume b: "b < gc_blocks s"
    show "ATB_GET_KIND t b = (if b \<in> gc_chain s h then AT_FREE else ATB_GET_KIND s b)"
      using r c k2 [OF b] by (auto simp: run_result_def)
    show "FTB_GET t b \<longleftrightarrow> FTB_GET s b \<and> b \<noteq> h" using r by (simp add: run_result_def F2) }
qed

lemma gc_free_ok:
  assumes ok: "gc_ok s" and ul: "gc_lock_depth s = 0" and h: "h < gc_blocks s"
    and hd: "ATB_GET_KIND s h = AT_HEAD" and stops: "gc_stops s h"
  shows "gc_ok (gc_free (PTR_FROM_BLOCK s h) s)"
proof -
  note e = gc_free_effect [OF ok ul h stops]
  let ?t = "gc_free (PTR_FROM_BLOCK s h) s"
  show ?thesis
  proof (rule gc_ok_intro [OF e(1) ok])
    fix b assume b: "b < gc_blocks s"
    show "ATB_GET_KIND ?t b \<noteq> AT_MARK" using e(3) [OF b] gc_okD(3) [OF ok b] by auto
    show "0 < b \<and> ATB_GET_KIND ?t (b - 1) \<noteq> AT_FREE" if t: "ATB_GET_KIND ?t b = AT_TAIL"
    proof -
      have tl: "ATB_GET_KIND s b = AT_TAIL" "b \<notin> gc_chain s h"
        using t e(3) [OF b] by (auto split: if_splits)
      note p = gc_tail_pred [OF ok b tl(1)]
      have "b - 1 \<notin> gc_chain s h"
      proof
        assume "b - 1 \<in> gc_chain s h"
        then have "b \<in> gc_chain s h" using tl(1) p b by (cases b) (auto simp: gc_chain_def le_Suc_eq)
        with tl(2) show False ..
      qed
      with p e(3) [of "b - 1"] b show ?thesis by auto
    qed
    show "ATB_GET_KIND ?t b = AT_HEAD" if "FTB_GET ?t b"
    proof -
      have f: "FTB_GET s b" "b \<noteq> h" using that e(4) [OF b] by auto
      then have "ATB_GET_KIND s b = AT_HEAD" using gc_okD(5) [OF ok b] by blast
      moreover from this f(2) have "b \<notin> gc_chain s h" by (force simp: gc_chain_def)
      ultimately show ?thesis using e(3) [OF b] by simp
    qed
    show "ATB_GET_KIND ?t b \<noteq> AT_FREE" if "b div 4 < gc_last_free_atb_index ?t"
    proof -
      have "b div 4 < gc_last_free_atb_index s" "b div 4 < h div 4" using that e(5) by auto
      moreover from this(2) have "b < h" by (meson div_le_mono not_le)
      ultimately show ?thesis using e(3) [OF b] gc_okD(6) [OF ok b] by (auto simp: gc_chain_def)
    qed
  qed
qed

section \<open>Reallocation\<close>

lemma gc_measure_tails:
  assumes "\<And>i. h + k \<le> i \<Longrightarrow> i < h + n \<Longrightarrow> ATB_GET_KIND s i = AT_TAIL" and "k \<le> n" and "h + n \<le> mx"
  shows "gc_measure s nb [h + k..<mx] k 0 = gc_measure s nb [h + n..<mx] n 0"
  using assms(1,2)
proof (induction "n - k" arbitrary: k)
  case (Suc d)
  then have "[h + k..<mx] = (h + k) # [h + Suc k..<mx]" using assms(3) by (simp add: upt_conv_Cons)
  moreover have "ATB_GET_KIND s (h + k) = AT_TAIL" using Suc by auto
  moreover have "gc_measure s nb [h + Suc k..<mx] (Suc k) 0 = gc_measure s nb [h + n..<mx] n 0"
    using Suc by (intro Suc.hyps(1)) auto
  ultimately show ?case by simp
qed simp

lemma gc_measure_free:
  assumes ok: "gc_ok s" and "c + f \<le> gc_blocks s" and "run_at (gc_free_block s) c f"
    and "c < gc_blocks s \<Longrightarrow> ATB_GET_KIND s c \<noteq> AT_TAIL"
  shows "\<exists>f'. gc_measure s nb [c + f..<gc_blocks s] n f = (n, f') \<and> c + f' \<le> gc_blocks s \<and>
    run_at (gc_free_block s) c f' \<and>
    (nb \<le> n + f' \<or> c + f' = gc_blocks s \<or> \<not> gc_free_block s (c + f'))"
  using assms(2,3)
proof (induction "gc_blocks s - (c + f)" arbitrary: f)
  case 0
  then show ?case by auto
next
  case (Suc d)
  then have lt: "c + f < gc_blocks s" by auto
  then have up: "[c + f..<gc_blocks s] = (c + f) # [c + Suc f..<gc_blocks s]" by (simp add: upt_conv_Cons)
  have nt: "ATB_GET_KIND s (c + f) \<noteq> AT_TAIL"
  proof (cases f)
    case (Suc g)
    then have "gc_free_block s (c + f - 1)" using Suc.prems(2) by (auto simp: run_at_def)
    then show ?thesis using gc_tail_pred [OF ok lt] by auto
  qed (use assms(4) lt in auto)
  show ?case
  proof (cases "gc_free_block s (c + f)")
    case True
    then have run: "run_at (gc_free_block s) c (Suc f)"
      using Suc.prems(2) by (auto simp: run_at_def less_Suc_eq)
    show ?thesis
    proof (cases "n + (f + 1) \<ge> nb")
      case False
      have "\<exists>f'. gc_measure s nb [c + Suc f..<gc_blocks s] n (Suc f) = (n, f') \<and> c + f' \<le> gc_blocks s \<and>
        run_at (gc_free_block s) c f' \<and>
        (nb \<le> n + f' \<or> c + f' = gc_blocks s \<or> \<not> gc_free_block s (c + f'))"
        using Suc.hyps(2) lt run by (intro Suc.hyps(1)) auto
      with True False up show ?thesis by simp
    qed (use True lt run up in \<open>auto intro: exI [of _ "Suc f"]\<close>)
  next
    case False
    with nt lt up Suc.prems show ?thesis by auto
  qed
qed

lemma gc_measure_chain:
  assumes ok: "gc_ok s" and h: "h < gc_blocks s" and L: "L = gc_chain_len s h"
  obtains f where "gc_measure s nb [h + 1..<gc_alloc_table_byte_len s * BLOCKS_PER_ATB] 1 0 = (L, f)"
    and "h + L + f \<le> gc_blocks s" and "run_at (gc_free_block s) (h + L) f"
    and "nb \<le> L + f \<or> h + L + f = gc_blocks s \<or> \<not> gc_free_block s (h + L + f)"
proof -
  obtain n where n: "1 \<le> n" "h + n \<le> gc_blocks s" "gc_chain_len s h = n"
    "\<And>i. h < i \<Longrightarrow> i < h + n \<Longrightarrow> ATB_GET_KIND s i = AT_TAIL"
    "h + n < gc_blocks s \<Longrightarrow> ATB_GET_KIND s (h + n) \<noteq> AT_TAIL"
    using gc_chain_span [OF h] by metis
  have "gc_measure s nb [h + 1..<gc_blocks s] 1 0 = gc_measure s nb [h + n..<gc_blocks s] n 0"
    using n by (intro gc_measure_tails) auto
  moreover obtain f where "gc_measure s nb [h + n + 0..<gc_blocks s] n 0 = (n, f)"
    "h + n + f \<le> gc_blocks s" "run_at (gc_free_block s) (h + n) f"
    "nb \<le> n + f \<or> h + n + f = gc_blocks s \<or> \<not> gc_free_block s (h + n + f)"
    using gc_measure_free [OF ok, of "h + n" 0 nb n] n by (auto simp: run_at_def)
  ultimately show thesis using that [of f] n(3) L by (simp add: gc_blocks_def)
qed

lemma gc_chain_tails:
  assumes "gc_chain s h = {h..<h + L}" and "h < b" and "b < h + L"
  shows "ATB_GET_KIND s b = AT_TAIL"
proof -
  have "b \<in> gc_chain s h" using assms by simp
  with assms(2) show ?thesis by (simp add: gc_chain_def)
qed

lemma gc_chain_end:
  assumes "gc_chain s h = {h..<h + L}" and "h + L < gc_blocks s" and "1 \<le> L"
  shows "ATB_GET_KIND s (h + L) \<noteq> AT_TAIL"
proof
  assume "ATB_GET_KIND s (h + L) = AT_TAIL"
  then have "h + L \<in> gc_chain s h"
    using gc_chain_tails [OF assms(1)] assms(2) by (auto simp: gc_chain_def le_less)
  with assms(1) show False by simp
qed

text \<open>Giving back the blocks of a chain from \<open>a\<close> on.\<close>

lemma gc_shrink_ok:
  assumes ok: "gc_ok s" and h: "h < a" "a < h + L" and L: "gc_chain s h = {h..<h + L}" "h + L \<le> gc_blocks s"
    and r: "run_result s a (h + L) AT_FREE u"
    and t: "t = (if a div 4 < gc_last_free_atb_index u then u\<lparr>gc_last_free_atb_index := a div 4\<rparr> else u)"
  shows "gc_ok t" and "gc_chain t h = {h..<a}"
proof -
  have fr: "gc_frame t = gc_frame s" using r by (auto simp: t run_result_def)
  note f = gc_frameD [OF fr]
  have k: "ATB_GET_KIND t b = (if a \<le> b \<and> b < h + L then AT_FREE else ATB_GET_KIND s b)" for b
    using r by (auto simp: t run_result_def)
  have tl: "ATB_GET_KIND s b = AT_TAIL" if "h < b" "b < h + L" for b
    by (rule gc_chain_tails [OF L(1) that])
  note nt = gc_chain_end [OF L(1)]
  show "gc_ok t"
  proof (rule gc_ok_intro [OF fr ok])
    fix b assume b: "b < gc_blocks s"
    show "ATB_GET_KIND t b \<noteq> AT_MARK" using k gc_okD(3) [OF ok b] by auto
    show "0 < b \<and> ATB_GET_KIND t (b - 1) \<noteq> AT_FREE" if "ATB_GET_KIND t b = AT_TAIL"
    proof -
      have b': "ATB_GET_KIND s b = AT_TAIL" "\<not> (a \<le> b \<and> b < h + L)" using that k [of b] by (auto split: if_splits)
      with nt b h have "b \<noteq> h + L" by auto
      with b'(2) have "b < a \<or> h + L < b" by linarith
      then have "\<not> (a \<le> b - 1 \<and> b - 1 < h + L)" by auto
      with k [of "b - 1"] gc_tail_pred [OF ok b b'(1)] show ?thesis by auto
    qed
    show "ATB_GET_KIND t b = AT_HEAD" if "FTB_GET t b"
    proof -
      have "FTB_GET s b" using that r by (auto simp: t run_result_def split: if_splits)
      then have "ATB_GET_KIND s b = AT_HEAD" using gc_okD(5) [OF ok b] by blast
      with tl [of b] h k [of b] show ?thesis by auto
    qed
    show "ATB_GET_KIND t b \<noteq> AT_FREE" if "b div 4 < gc_last_free_atb_index t"
    proof -
      have "b div 4 < gc_last_free_atb_index s" "b div 4 < a div 4"
        using that r by (auto simp: t run_result_def split: if_splits)
      moreover from this(2) have "b < a" by (meson div_le_mono not_le)
      ultimately show ?thesis using k gc_okD(6) [OF ok b] by auto
    qed
  qed
  have "gc_chain t h = {h..<h + (a - h)}"
    by (rule gc_chain_interval) (use h tl k L(2) f in auto)
  with h show "gc_chain t h = {h..<a}" by simp
qed

text \<open>Taking free blocks into the chain before them.\<close>

lemma gc_grow_ok:
  assumes ok: "gc_ok s" and L: "gc_chain s h = {h..<h + L}" "1 \<le> L" and hd: "ATB_GET_KIND s h = AT_HEAD"
    and n: "L \<le> n" "h + n \<le> gc_blocks s" and free: "run_at (gc_free_block s) (h + L) (n - L)"
    and nt: "n = L \<Longrightarrow> h + n < gc_blocks s \<Longrightarrow> ATB_GET_KIND s (h + n) \<noteq> AT_TAIL"
    and r: "run_result s (h + L) (h + n) AT_TAIL u" and t: "t = u\<lparr>gc_mem := m\<rparr>"
  shows "gc_ok t" and "gc_chain t h = {h..<h + n}"
proof -
  have fr: "gc_frame t = gc_frame s" using r by (auto simp: t run_result_def)
  note f = gc_frameD [OF fr]
  have k: "ATB_GET_KIND t b = (if h + L \<le> b \<and> b < h + n then AT_TAIL else ATB_GET_KIND s b)" for b
    using r by (auto simp: t run_result_def)
  have isfree: "gc_free_block s b" if "h + L \<le> b" "b < h + n" for b
    using free that n by (auto simp: run_at_def)
  have tl: "ATB_GET_KIND s b = AT_TAIL" if "h < b" "b < h + L" for b
    by (rule gc_chain_tails [OF L(1) that])
  have used: "ATB_GET_KIND t b \<noteq> AT_FREE" if "ATB_GET_KIND s b \<noteq> AT_FREE" for b
    using k [of b] that by auto
  have last: "ATB_GET_KIND t (h + n) \<noteq> AT_TAIL" if "h + n < gc_blocks s"
    using k [of "h + n"] nt that isfree [of "h + n - 1"] gc_tail_pred [OF ok that] n(1) L(2)
    by (cases "n = L") auto
  show "gc_ok t"
  proof (rule gc_ok_intro [OF fr ok])
    fix b assume b: "b < gc_blocks s"
    show "ATB_GET_KIND t b \<noteq> AT_MARK" using k gc_okD(3) [OF ok b] by auto
    show "0 < b \<and> ATB_GET_KIND t (b - 1) \<noteq> AT_FREE" if "ATB_GET_KIND t b = AT_TAIL"
    proof (cases "h + L \<le> b \<and> b < h + n")
      case True
      have "ATB_GET_KIND s (h + L - 1) \<noteq> AT_FREE"
        using tl [of "h + L - 1"] hd L(2) by (cases "L = 1") auto
      with True show ?thesis using k [of "b - 1"] used [of "b - 1"] L(2)
        by (cases "b = h + L") auto
    next
      case False
      with that k have "ATB_GET_KIND s b = AT_TAIL" by auto
      with gc_tail_pred [OF ok b] used show ?thesis by auto
    qed
    show "ATB_GET_KIND t b = AT_HEAD" if "FTB_GET t b"
    proof -
      have "FTB_GET s b" using that r by (auto simp: t run_result_def)
      then have "ATB_GET_KIND s b = AT_HEAD" using gc_okD(5) [OF ok b] by blast
      with isfree [of b] k [of b] show ?thesis by auto
    qed
    show "ATB_GET_KIND t b \<noteq> AT_FREE" if "b div 4 < gc_last_free_atb_index t"
      using that r gc_okD(6) [OF ok b] used by (auto simp: t run_result_def)
  qed
  show "gc_chain t h = {h..<h + n}"
  proof (rule gc_chain_interval)
    show "ATB_GET_KIND t i = AT_TAIL" if "h < i" "i < h + n" for i
      using k [of i] tl [of i] that by auto
  qed (use L n last f in auto)
qed

section \<open>What an allocation leaves alone\<close>

text \<open>
  \<open>gc_keeps\<close>: the chain with head \<open>h\<close> has the same blocks, of the same kinds and with the same
  contents, in both heaps.
\<close>

definition gc_keeps :: "gc \<Rightarrow> gc \<Rightarrow> nat \<Rightarrow> bool" where
  "gc_keeps s t h \<longleftrightarrow> gc_chain t h = gc_chain s h \<and>
     (\<forall>b \<in> gc_chain s h. ATB_GET_KIND t b = ATB_GET_KIND s b \<and>
       (\<forall>i < BYTES_PER_BLOCK. gc_mem t (PTR_FROM_BLOCK s b + i) = gc_mem s (PTR_FROM_BLOCK s b + i)))"

definition gc_no_finalisers :: "gc \<Rightarrow> bool" where
  "gc_no_finalisers s \<longleftrightarrow> (\<forall>b < gc_blocks s. \<not> FTB_GET s b)"

lemma gc_collect_frame_eq:
  assumes "gc_ok s"
  shows "gc_frame (gc_collect E s) = gc_frame s"
  using gc_collect_frame [OF assms, of E] by (simp add: gc_frame_def)

lemma gc_keepsI:
  assumes "gc_blocks t = gc_blocks s" and "h < gc_blocks s"
    and "\<And>b. b \<in> gc_chain s h \<Longrightarrow> ATB_GET_KIND t b = ATB_GET_KIND s b"
    and "\<And>b. b \<notin> gc_chain s h \<Longrightarrow> b - 1 \<in> gc_chain s h \<Longrightarrow> b < gc_blocks s \<Longrightarrow> ATB_GET_KIND t b \<noteq> AT_TAIL"
    and "\<And>b i. b \<in> gc_chain s h \<Longrightarrow> i < BYTES_PER_BLOCK \<Longrightarrow>
      gc_mem t (PTR_FROM_BLOCK s b + i) = gc_mem s (PTR_FROM_BLOCK s b + i)"
  shows "gc_keeps s t h"
proof -
  obtain n where n: "1 \<le> n" "h + n \<le> gc_blocks s" "gc_chain s h = {h..<h + n}"
    using gc_chain_span [OF assms(2)] by metis
  have "gc_chain t h = {h..<h + n}"
  proof (rule gc_chain_interval)
    show "ATB_GET_KIND t i = AT_TAIL" if "h < i" "i < h + n" for i
      using assms(3) [of i] gc_chain_tails [OF n(3) that] that n(3) by simp
    show "ATB_GET_KIND t (h + n) \<noteq> AT_TAIL" if "h + n < gc_blocks t"
      using assms(1) assms(4) [of "h + n"] n that by auto
  qed (use n assms(1) in auto)
  then show ?thesis using n(3) assms(3,5) by (simp add: gc_keeps_def)
qed

lemma gc_keeps_refl: "gc_keeps s s h"
  by (simp add: gc_keeps_def)

lemma gc_keeps_trans:
  assumes "gc_keeps s t h" and "gc_keeps t u h" and "gc_frame t = gc_frame s"
  shows "gc_keeps s u h"
  using assms gc_frameD(9) [OF assms(3)] by (simp add: gc_keeps_def)

lemma gc_collect_keeps:
  assumes ok: "gc_ok s" and nf: "gc_no_finalisers s" and h: "ATB_GET_KIND s h = AT_HEAD"
    and R: "h \<in> gc_reachable s (gc_roots E)"
  shows "gc_keeps s (gc_collect E s) h"
proof (rule gc_keepsI)
  let ?t = "gc_collect E s"
  note k = gc_collect_kinds(1) [OF ok, of _ E]
  show "gc_blocks ?t = gc_blocks s" by (rule gc_collect_frame [OF ok])
  show "h < gc_blocks s" using gc_reachable_head [OF R] by (simp add: gc_head_def)
  show "ATB_GET_KIND ?t b = ATB_GET_KIND s b" if "b \<in> gc_chain s h" for b
    using k [of b] gc_kept_kind_chain [OF ok h that] R gc_reachable_head that
    by (auto simp: gc_chain_def)
  show "ATB_GET_KIND ?t b \<noteq> AT_TAIL"
    if b: "b \<notin> gc_chain s h" "b - 1 \<in> gc_chain s h" "b < gc_blocks s" for b
  proof
    assume "ATB_GET_KIND ?t b = AT_TAIL"
    then have "ATB_GET_KIND s b = AT_TAIL" using k [OF b(3)] by (auto simp: gc_kept_kind_def split: if_splits)
    with b show False by (cases b) (auto simp: gc_chain_def le_Suc_eq)
  qed
  show "gc_mem ?t (PTR_FROM_BLOCK s b + i) = gc_mem s (PTR_FROM_BLOCK s b + i)" for b i
    using gc_collect_counts(2) [OF ok] nf by (simp add: gc_no_finalisers_def)
qed

lemma gc_collect_no_finalisers:
  assumes "gc_ok s" and "gc_no_finalisers s"
  shows "gc_no_finalisers (gc_collect E s)"
  using assms gc_collect_kinds(2) [OF assms(1), of _ E] gc_collect_frame(1) [OF assms(1), of E]
  by (auto simp: gc_no_finalisers_def)

lemma gc_take_blocks_keeps:
  assumes ok: "gc_ok s" and n: "1 \<le> n" and e: "st + n \<le> gc_blocks s"
    and free: "run_at (gc_free_block s) st n"
    and take: "gc_take_blocks fin n (st + n - 1, n) s = (p, t)"
    and h: "ATB_GET_KIND s h = AT_HEAD" "h < gc_blocks s"
  shows "gc_keeps s t h"
proof -
  note eff = gc_take_blocks_effect [OF gc_okD(1) [OF ok] n e free take]
  have used: "\<not> (st \<le> b \<and> b < st + n)" if "b \<in> gc_chain s h" for b
    using that free h(1) by (cases "b = h") (auto simp: gc_chain_def run_at_def)
  show ?thesis
  proof (rule gc_keepsI)
    show "gc_blocks t = gc_blocks s" using gc_frameD(7) [OF eff(2)] .
    show "ATB_GET_KIND t b = ATB_GET_KIND s b" if "b \<in> gc_chain s h" for b
      using eff(3) [of b] used [OF that] that n by (auto simp: gc_chain_def)
    show "ATB_GET_KIND t b \<noteq> AT_TAIL"
      if b: "b \<notin> gc_chain s h" "b - 1 \<in> gc_chain s h" "b < gc_blocks s" for b
    proof
      assume "ATB_GET_KIND t b = AT_TAIL"
      then have "st < b \<and> b < st + n \<or> ATB_GET_KIND s b = AT_TAIL"
        using eff(3) [OF b(3)] by (auto split: if_splits)
      then show False
      proof
        assume "st < b \<and> b < st + n"
        with used [OF b(2)] show False by auto
      next
        assume "ATB_GET_KIND s b = AT_TAIL"
        with b show False by (cases b) (auto simp: gc_chain_def le_Suc_eq)
      qed
    qed
    show "gc_mem t (PTR_FROM_BLOCK s b + i) = gc_mem s (PTR_FROM_BLOCK s b + i)"
      if "b \<in> gc_chain s h" "i < 32" for b i
      using used [OF that(1)] that(2) by (auto simp: eff(1,5) memset_def PTR_FROM_BLOCK_def)
  qed (rule h(2))
qed

text \<open>The result of \<open>gc_alloc\<close>, for the properties below.\<close>

lemma gc_alloc_result:
  assumes ok: "gc_ok s" and al: "gc_alloc E n_bytes flags s = (p, t)"
  shows "gc_ok t" and "gc_frame t = gc_frame s"
    and "p \<noteq> 0 \<Longrightarrow> \<exists>u st. (u = s \<or> u = gc_collect E s) \<and> 0 < gc_req_blocks n_bytes \<and>
      p = PTR_FROM_BLOCK s st \<and> st + gc_req_blocks n_bytes \<le> gc_blocks s \<and>
      run_at (gc_free_block u) st (gc_req_blocks n_bytes) \<and>
      (\<forall>st'. run_at (gc_free_block u) st' (gc_req_blocks n_bytes) \<and>
         st' + gc_req_blocks n_bytes \<le> gc_blocks s \<longrightarrow> st \<le> st') \<and>
      gc_take_blocks (odd flags) (gc_req_blocks n_bytes) (st + gc_req_blocks n_bytes - 1,
        gc_req_blocks n_bytes) u = (p, t)"
    and "p = 0 \<Longrightarrow> 0 < gc_req_blocks n_bytes \<Longrightarrow> gc_lock_depth s = 0 \<Longrightarrow>
      (t = gc_collect E s \<or> t = s \<and> \<not> gc_auto_collect_enabled s) \<and>
      (\<forall>st. st + gc_req_blocks n_bytes \<le> gc_blocks s \<longrightarrow>
         \<not> run_at (gc_free_block t) st (gc_req_blocks n_bytes))"
    and "p = 0 \<Longrightarrow> t = s \<or> t = gc_collect E s"
proof -
  let ?n = "gc_req_blocks n_bytes"
  have "gc_ok t \<and> gc_frame t = gc_frame s \<and> (p \<noteq> 0 \<longrightarrow> (\<exists>u st. (u = s \<or> u = gc_collect E s) \<and> 0 < ?n \<and>
      p = PTR_FROM_BLOCK s st \<and> st + ?n \<le> gc_blocks s \<and> run_at (gc_free_block u) st ?n \<and>
      (\<forall>st'. run_at (gc_free_block u) st' ?n \<and> st' + ?n \<le> gc_blocks s \<longrightarrow> st \<le> st') \<and>
      gc_take_blocks (odd flags) ?n (st + ?n - 1, ?n) u = (p, t))) \<and>
     (p = 0 \<and> 0 < ?n \<and> gc_lock_depth s = 0 \<longrightarrow>
      (t = gc_collect E s \<or> t = s \<and> \<not> gc_auto_collect_enabled s) \<and>
      (\<forall>st. st + ?n \<le> gc_blocks s \<longrightarrow> \<not> run_at (gc_free_block t) st ?n)) \<and>
     (p = 0 \<longrightarrow> t = s \<or> t = gc_collect E s)"
    using al ok
  proof (cases rule: gc_alloc_cases)
    case refused
    with ok show ?thesis by auto
  next
    case full
    have t: "gc_ok t" "gc_frame t = gc_frame s"
      using full(5) ok gc_collect_ok gc_collect_frame_eq by auto
    with full show ?thesis
      using gc_find_free_None [OF t(1) _ full(4)] gc_frameD(7) [OF t(2)] by auto
  next
    case (found u r)
    have u: "gc_ok u" "gc_frame u = gc_frame s"
      using found(3) ok gc_collect_ok gc_collect_frame_eq by auto
    have n: "1 \<le> ?n" using found(1) by simp
    obtain st where st: "r = (st + ?n - 1, ?n)" "st + ?n \<le> gc_blocks u" "run_at (gc_free_block u) st ?n"
      "\<And>st'. run_at (gc_free_block u) st' ?n \<Longrightarrow> st' + ?n \<le> gc_blocks u \<Longrightarrow> st \<le> st'"
      using gc_find_free_Some [OF u(1) n found(4)] by blast
    have take: "gc_take_blocks (odd flags) ?n (st + ?n - 1, ?n) u = (p, t)" using found(5) st(1) by simp
    note eff = gc_take_blocks_effect [OF gc_okD(1) [OF u(1)] n st(2,3) take]
    have "gc_ok t" using gc_take_blocks_ok [OF u(1) n st(2-4) take] .
    moreover have "p = PTR_FROM_BLOCK s st" using eff(1) gc_frameD(9) [OF u(2)] by simp
    moreover have "p \<noteq> 0" using eff(1) PTR_FROM_BLOCK_pos [OF gc_okD(1) [OF u(1)], of st] by simp
    ultimately show ?thesis
      using found(1,3) st(2-4) take eff(2) u(2) gc_frameD(7) [OF u(2)] by auto
  qed
  then show "gc_ok t" "gc_frame t = gc_frame s"
    "p \<noteq> 0 \<Longrightarrow> \<exists>u st. (u = s \<or> u = gc_collect E s) \<and> 0 < ?n \<and>
      p = PTR_FROM_BLOCK s st \<and> st + ?n \<le> gc_blocks s \<and> run_at (gc_free_block u) st ?n \<and>
      (\<forall>st'. run_at (gc_free_block u) st' ?n \<and> st' + ?n \<le> gc_blocks s \<longrightarrow> st \<le> st') \<and>
      gc_take_blocks (odd flags) ?n (st + ?n - 1, ?n) u = (p, t)"
    "p = 0 \<Longrightarrow> 0 < ?n \<Longrightarrow> gc_lock_depth s = 0 \<Longrightarrow>
      (t = gc_collect E s \<or> t = s \<and> \<not> gc_auto_collect_enabled s) \<and>
      (\<forall>st. st + ?n \<le> gc_blocks s \<longrightarrow> \<not> run_at (gc_free_block t) st ?n)"
    "p = 0 \<Longrightarrow> t = s \<or> t = gc_collect E s"
    by blast+
qed

lemma gc_alloc_keeps:
  assumes ok: "gc_ok s" and nf: "gc_no_finalisers s" and al: "gc_alloc E n_bytes flags s = (p, t)"
    and h: "ATB_GET_KIND s h = AT_HEAD" and R: "h \<in> gc_reachable s (gc_roots E)"
  shows "gc_keeps s t h" and "even flags \<Longrightarrow> gc_no_finalisers t"
    and "p \<noteq> 0 \<Longrightarrow> \<exists>st. p = PTR_FROM_BLOCK s st \<and> st + gc_req_blocks n_bytes \<le> gc_blocks s \<and>
      0 < gc_req_blocks n_bytes \<and> ATB_GET_KIND t st = AT_HEAD \<and>
      gc_chain t st = {st..<st + gc_req_blocks n_bytes} \<and> gc_chain t st \<inter> gc_chain s h = {}"
proof -
  note r = gc_alloc_result [OF ok al]
  let ?n = "gc_req_blocks n_bytes"
  have hb: "h < gc_blocks s" using gc_reachable_head [OF R] by (simp add: gc_head_def)
  have base: "gc_ok u" "gc_frame u = gc_frame s" "gc_keeps s u h" "gc_no_finalisers u"
    if "u = s \<or> u = gc_collect E s" for u
    using that ok nf gc_collect_ok gc_collect_frame_eq gc_collect_keeps [OF ok nf h R]
      gc_keeps_refl gc_collect_no_finalisers by auto
  have "gc_keeps s t h \<and> (even flags \<longrightarrow> gc_no_finalisers t) \<and> (p \<noteq> 0 \<longrightarrow> (\<exists>st. p = PTR_FROM_BLOCK s st \<and> st + ?n \<le> gc_blocks s \<and>
      0 < ?n \<and> ATB_GET_KIND t st = AT_HEAD \<and>
      gc_chain t st = {st..<st + ?n} \<and> gc_chain t st \<inter> gc_chain s h = {}))"
  proof (cases "p = 0")
    case True
    then show ?thesis using base [OF r(5)] by simp
  next
    case False
    then obtain u st where u: "u = s \<or> u = gc_collect E s" and n: "0 < ?n" and p: "p = PTR_FROM_BLOCK s st"
      and e: "st + ?n \<le> gc_blocks s" and free: "run_at (gc_free_block u) st ?n"
      and take: "gc_take_blocks (odd flags) ?n (st + ?n - 1, ?n) u = (p, t)"
      using r(3) by blast
    note b = base [OF u]
    have e': "st + ?n \<le> gc_blocks u" using e gc_frameD(7) [OF b(2)] by simp
    have n': "1 \<le> ?n" using n by simp
    have h': "ATB_GET_KIND u h = AT_HEAD" "h < gc_blocks u"
      using b(3) h hb gc_frameD(7) [OF b(2)] by (auto simp: gc_keeps_def gc_chain_def)
    have k: "gc_keeps u t h" by (rule gc_take_blocks_keeps [OF b(1) n' e' free take h'])
    note eff = gc_take_blocks_effect [OF gc_okD(1) [OF b(1)] n' e' free take]
    have c: "gc_chain t st = {st..<st + ?n}" by (rule gc_take_blocks_chain [OF b(1) n' e' free take])
    have "gc_chain t st \<inter> gc_chain u h = {}"
      using free h'(1) unfolding c by (auto simp: gc_chain_def run_at_def le_less)
    then have "gc_chain t st \<inter> gc_chain s h = {}" using b(3) by (simp add: gc_keeps_def)
    moreover have "gc_no_finalisers t" if "even flags"
      using b(4) eff(4) that gc_frameD(7) [OF eff(2)] by (auto simp: gc_no_finalisers_def)
    moreover have "ATB_GET_KIND t st = AT_HEAD" using eff(3) [of st] e' n' by simp
    ultimately show ?thesis using gc_keeps_trans [OF b(3) k b(2)] c n p e by blast
  qed
  then show "gc_keeps s t h" "even flags \<Longrightarrow> gc_no_finalisers t"
    "p \<noteq> 0 \<Longrightarrow> \<exists>st. p = PTR_FROM_BLOCK s st \<and> st + ?n \<le> gc_blocks s \<and> 0 < ?n \<and> ATB_GET_KIND t st = AT_HEAD \<and>
      gc_chain t st = {st..<st + ?n} \<and> gc_chain t st \<inter> gc_chain s h = {}"
    by blast+
qed

lemma gc_no_finalisers_stops:
  assumes "gc_ok s" and "gc_no_finalisers s" and "h < gc_blocks s"
  shows "gc_stops s h"
proof -
  have "4 \<le> gc_blocks s" using assms(3) gc_blocks_mult4 [of s] by presburger
  then show ?thesis using assms(2) by (simp add: gc_stops_def gc_no_finalisers_def)
qed

lemma gc_free_keeps:
  assumes ok: "gc_ok s" and ul: "gc_lock_depth s = 0" and h: "h < gc_blocks s"
    and hd: "ATB_GET_KIND s h = AT_HEAD" and stops: "gc_stops s h"
    and h': "ATB_GET_KIND s h' = AT_HEAD" "h' < gc_blocks s" "h' \<noteq> h"
  shows "gc_keeps s (gc_free (PTR_FROM_BLOCK s h) s) h'"
proof -
  note e = gc_free_effect [OF ok ul h stops]
  have heads: "gc_head s h" "gc_head s h'" using h hd h' by (simp_all add: gc_head_def)
  have dis: "b \<notin> gc_chain s h" if "b \<in> gc_chain s h'" for b
    using gc_chain_head_unique [OF heads _ that] h'(3) by blast
  show ?thesis
  proof (rule gc_keepsI)
    show "gc_blocks (gc_free (PTR_FROM_BLOCK s h) s) = gc_blocks s" using gc_frameD(7) [OF e(1)] .
    show "ATB_GET_KIND (gc_free (PTR_FROM_BLOCK s h) s) b = ATB_GET_KIND s b"
      if "b \<in> gc_chain s h'" for b
      using e(3) [of b] dis [OF that] that by (auto simp: gc_chain_def)
    show "ATB_GET_KIND (gc_free (PTR_FROM_BLOCK s h) s) b \<noteq> AT_TAIL"
      if b: "b \<notin> gc_chain s h'" "b - 1 \<in> gc_chain s h'" "b < gc_blocks s" for b
    proof
      assume "ATB_GET_KIND (gc_free (PTR_FROM_BLOCK s h) s) b = AT_TAIL"
      then have "ATB_GET_KIND s b = AT_TAIL" using e(3) [OF b(3)] by (auto split: if_splits)
      with b show False by (cases b) (auto simp: gc_chain_def le_Suc_eq)
    qed
  qed (use h'(2) e(2) in auto)
qed

end
