(* ===== verification/GcProps.thy ===== *)
theory GcProps
  imports GcHeap
begin

text \<open>
  The properties of the memory manager: initialisation, allocation, freeing, sizes and
  reallocation, and the read past the allocation table.
\<close>

section \<open>The branches of \<open>gc_realloc\<close>\<close>

text \<open>A chain of \<open>nb\<close> blocks from \<open>c\<close> that starts with the contents of the old chain at \<open>h\<close>.\<close>

definition gc_resized :: "gc \<Rightarrow> nat \<Rightarrow> nat \<Rightarrow> gc \<Rightarrow> nat \<Rightarrow> bool" where
  "gc_resized s h nb t c \<longleftrightarrow> ATB_GET_KIND t c = AT_HEAD \<and> gc_chain t c = {c..<c + nb} \<and>
     (\<forall>i < min nb (gc_chain_len s h) * BYTES_PER_BLOCK.
        gc_mem t (PTR_FROM_BLOCK s c + i) = gc_mem s (PTR_FROM_BLOCK s h + i))"

lemma gc_keeps_bytes:
  assumes "gc_keeps s t h" and "gc_chain s h = {h..<h + L}" and "i < L * BYTES_PER_BLOCK"
  shows "gc_mem t (PTR_FROM_BLOCK s h + i) = gc_mem s (PTR_FROM_BLOCK s h + i)"
proof -
  have "i div 32 < L" using assms(3) by (simp add: less_mult_imp_div_less)
  then have "h + i div 32 \<in> gc_chain s h" using assms(2) by simp
  moreover have "PTR_FROM_BLOCK s (h + i div 32) + i mod 32 = PTR_FROM_BLOCK s h + i"
    by (simp add: PTR_FROM_BLOCK_def algebra_simps)
  ultimately show ?thesis
    using assms(1) by (metis gc_keeps_def mod_less_divisor zero_less_numeral)
qed

lemma gc_realloc_eq:
  assumes ok: "gc_ok s" and ul: "gc_lock_depth s = 0" and h: "h < gc_blocks s" and n: "0 < n_bytes"
    and L: "L = gc_chain_len s h" and nb: "nb = gc_req_blocks n_bytes" and p: "p = PTR_FROM_BLOCK s h"
    and f: "gc_measure s nb [h + 1..<gc_alloc_table_byte_len s * BLOCKS_PER_ATB] 1 0 = (L, f)"
  shows "gc_realloc E p n_bytes allow_move s =
    (if nb = L then (p, s)
     else if nb < L then
       (let u = fold ATB_ANY_TO_FREE [h + nb..<h + L] s
        in (p, if (h + nb) div 4 < gc_last_free_atb_index u
               then u\<lparr>gc_last_free_atb_index := (h + nb) div 4\<rparr> else u))
     else if nb \<le> L + f then
       (let u = fold ATB_FREE_TO_TAIL [h + L..<h + nb] s
        in (p, u\<lparr>gc_mem := memset (p + L * 32) 0 ((nb - L) * 32) (gc_mem u)\<rparr>))
     else if \<not> allow_move then (0, s)
     else (let (q, u) = gc_alloc E n_bytes (if FTB_GET s h then 1 else 0) s
           in if q = 0 then (0, u)
              else (q, gc_free p (u\<lparr>gc_mem := memcpy q p (L * 32) (gc_mem u)\<rparr>))))"
  using ul n PTR_FROM_BLOCK_pos [OF gc_okD(1) [OF ok], of h] f
  unfolding gc_realloc_def Let_def nb [symmetric] p PTR_BLOCK [OF gc_okD(1) [OF ok]] by simp

lemma gc_shrink_post:
  assumes ok: "gc_ok s" and h: "h < gc_blocks s" "ATB_GET_KIND s h = AT_HEAD"
    and nb: "0 < nb" "nb < L" and L: "gc_chain s h = {h..<h + L}" "h + L \<le> gc_blocks s"
    and u: "u = fold ATB_ANY_TO_FREE [h + nb..<h + L] s"
    and t: "t = (if (h + nb) div 4 < gc_last_free_atb_index u
               then u\<lparr>gc_last_free_atb_index := (h + nb) div 4\<rparr> else u)"
  shows "gc_ok t \<and> gc_resized s h nb t h \<and>
    (\<forall>h'. h' \<noteq> h \<and> h' < gc_blocks s \<and> ATB_GET_KIND s h' = AT_HEAD \<longrightarrow> gc_keeps s t h')"
proof -
  have r: "run_result s (h + nb) (h + L) AT_FREE u"
    unfolding u using nb L(2) gc_okD(1) [OF ok] by (intro fold_ANY_TO_FREE) auto
  have k: "ATB_GET_KIND t b = (if h + nb \<le> b \<and> b < h + L then AT_FREE else ATB_GET_KIND s b)" for b
    using r by (auto simp: t run_result_def)
  have m: "gc_mem t = gc_mem s" "gc_frame t = gc_frame s" using r by (auto simp: t run_result_def)
  have s: "gc_ok t" "gc_chain t h = {h..<h + nb}"
    using gc_shrink_ok [OF ok _ _ L r t] nb by auto
  have "gc_resized s h nb t h"
    using s(2) k [of h] h nb m(1) by (auto simp: gc_resized_def)
  moreover have "gc_keeps s t h'" if h': "h' \<noteq> h" "h' < gc_blocks s" "ATB_GET_KIND s h' = AT_HEAD" for h'
  proof (rule gc_keepsI)
    have dis: "b \<notin> gc_chain s h" if "b \<in> gc_chain s h'" for b
      using gc_chain_head_unique [of s h h' b] h h' that by (auto simp: gc_head_def)
    show "ATB_GET_KIND t b = ATB_GET_KIND s b" if "b \<in> gc_chain s h'" for b
      using k [of b] dis [OF that] L(1) by auto
    show "ATB_GET_KIND t b \<noteq> AT_TAIL"
      if b: "b \<notin> gc_chain s h'" "b - 1 \<in> gc_chain s h'" "b < gc_blocks s" for b
      using b k [of b] by (cases b) (auto simp: gc_chain_def le_Suc_eq)
  qed (use h' m gc_frameD(7) [OF m(2)] in auto)
  ultimately show ?thesis using s(1) by blast
qed

lemma gc_grow_post:
  assumes ok: "gc_ok s" and h: "h < gc_blocks s" "ATB_GET_KIND s h = AT_HEAD"
    and L: "gc_chain s h = {h..<h + L}" "1 \<le> L" and nb: "L < nb" "h + nb \<le> gc_blocks s"
    and free: "run_at (gc_free_block s) (h + L) (nb - L)"
    and u: "u = fold ATB_FREE_TO_TAIL [h + L..<h + nb] s"
    and t: "t = u\<lparr>gc_mem := memset (PTR_FROM_BLOCK s h + L * 32) 0 ((nb - L) * 32) (gc_mem u)\<rparr>"
  shows "gc_ok t \<and> gc_resized s h nb t h \<and>
    (\<forall>h'. h' \<noteq> h \<and> h' < gc_blocks s \<and> ATB_GET_KIND s h' = AT_HEAD \<longrightarrow> gc_keeps s t h')"
proof -
  have isfree: "gc_free_block s b" if "h + L \<le> b" "b < h + nb" for b
    using free that nb by (auto simp: run_at_def)
  have r: "run_result s (h + L) (h + nb) AT_TAIL u"
    unfolding u using nb gc_okD(1) [OF ok] isfree by (intro fold_FREE_TO_TAIL) auto
  have k: "ATB_GET_KIND t b = (if h + L \<le> b \<and> b < h + nb then AT_TAIL else ATB_GET_KIND s b)" for b
    using r by (auto simp: t run_result_def)
  have m: "gc_mem t = memset (PTR_FROM_BLOCK s h + L * 32) 0 ((nb - L) * 32) (gc_mem s)"
    "gc_frame t = gc_frame s" using r by (auto simp: t run_result_def)
  have s: "gc_ok t" "gc_chain t h = {h..<h + nb}"
    using gc_grow_ok [OF ok L h(2) _ nb(2) free _ r t] nb by auto
  have "gc_chain_len s h = L" using L by (simp add: gc_chain_len_def)
  then have "gc_resized s h nb t h"
    using s(2) k [of h] h nb L(2) by (auto simp: gc_resized_def m(1) memset_def)
  moreover have "gc_keeps s t h'" if h': "h' \<noteq> h" "h' < gc_blocks s" "ATB_GET_KIND s h' = AT_HEAD" for h'
  proof (rule gc_keepsI)
    have out: "\<not> (h + L \<le> b \<and> b < h + nb)" if "b \<in> gc_chain s h'" for b
      using isfree [of b] that h'(3) by (cases "b = h'") (auto simp: gc_chain_def)
    show "ATB_GET_KIND t b = ATB_GET_KIND s b" if "b \<in> gc_chain s h'" for b
      using k [of b] out [OF that] by auto
    show "ATB_GET_KIND t b \<noteq> AT_TAIL"
      if b: "b \<notin> gc_chain s h'" "b - 1 \<in> gc_chain s h'" "b < gc_blocks s" for b
    proof
      assume tl: "ATB_GET_KIND t b = AT_TAIL"
      have "ATB_GET_KIND s b \<noteq> AT_TAIL" using b by (cases b) (auto simp: gc_chain_def le_Suc_eq)
      with tl k [of b] have "h + L \<le> b \<and> b < h + nb" by (auto split: if_splits)
      with out [OF b(2)] have "b = h + L" by auto
      with L have "b - 1 \<in> gc_chain s h" by auto
      with gc_chain_head_unique [of s h h' "b - 1"] b(2) h h' show False by (auto simp: gc_head_def)
    qed
    show "gc_mem t (PTR_FROM_BLOCK s b + i) = gc_mem s (PTR_FROM_BLOCK s b + i)"
      if "b \<in> gc_chain s h'" "i < 32" for b i
      using out [OF that(1)] that(2) nb(1) by (auto simp: m(1) memset_def PTR_FROM_BLOCK_def)
  qed (use h' gc_frameD(7) [OF m(2)] in auto)
  ultimately show ?thesis using s(1) by blast
qed

lemma gc_ok_mem_update: "gc_ok (s\<lparr>gc_mem := m\<rparr>) = gc_ok s"
proof -
  have "gc_frame (s\<lparr>gc_mem := m\<rparr>) = gc_frame s" by simp
  note f = gc_frameD [OF this]
  show ?thesis unfolding gc_ok_def f gc_chains_ok_def gc_marked_def kind_updates FTB_updates by simp
qed

lemma gc_chain_mem_update: "gc_chain (s\<lparr>gc_mem := m\<rparr>) h = gc_chain s h"
  by (simp add: gc_chain_def gc_blocks_def)

lemma gc_chain_self: "h < gc_blocks s \<Longrightarrow> h \<in> gc_chain s h"
  by (auto simp: gc_chain_def)

lemma gc_move_post:
  assumes ok: "gc_ok s" and ul: "gc_lock_depth s = 0" and nf: "gc_no_finalisers s"
    and h: "ATB_GET_KIND s h = AT_HEAD" "h \<in> gc_reachable s (gc_roots E)"
    and L: "gc_chain s h = {h..<h + L}" "1 \<le> L" and nb: "nb = gc_req_blocks n_bytes" "L < nb"
    and al: "gc_alloc E n_bytes 0 s = (q, u)" "q \<noteq> 0" and p: "p = PTR_FROM_BLOCK s h"
    and t: "t = gc_free p (u\<lparr>gc_mem := memcpy q p (L * 32) (gc_mem u)\<rparr>)"
  obtains c where "q = PTR_FROM_BLOCK s c" "q \<noteq> p" "gc_ok t" "gc_resized s h nb t c"
    "\<forall>b \<in> gc_chain s h. gc_free_block t b"
    "\<forall>h'. h' \<noteq> h \<and> ATB_GET_KIND s h' = AT_HEAD \<and> h' \<in> gc_reachable s (gc_roots E) \<longrightarrow> gc_keeps s t h'"
proof -
  note keeps = gc_alloc_keeps [OF ok nf al(1)]
  have uok: "gc_ok u" "gc_frame u = gc_frame s" using gc_alloc_result [OF ok al(1)] by auto
  note fu = gc_frameD [OF uok(2)]
  obtain c where c: "q = PTR_FROM_BLOCK s c" "c + nb \<le> gc_blocks s" "ATB_GET_KIND u c = AT_HEAD"
    "gc_chain u c = {c..<c + nb}" "gc_chain u c \<inter> gc_chain s h = {}"
    using keeps(3) [OF h al(2)] nb(1) by blast
  have hb: "h < gc_blocks s" using gc_reachable_head [OF h(2)] by (simp add: gc_head_def)
  have ch: "c \<noteq> h" using c(4,5) L nb(2) by auto
  define v where "v = u\<lparr>gc_mem := memcpy q p (L * 32) (gc_mem u)\<rparr>"
  have vok: "gc_ok v" "gc_frame v = gc_frame s" using uok by (simp_all add: v_def gc_ok_mem_update)
  note fv = gc_frameD [OF vok(2)]
  have kv: "ATB_GET_KIND v b = ATB_GET_KIND u b" "gc_chain v b = gc_chain u b" for b
    by (simp_all add: v_def gc_chain_mem_update)
  have ku: "gc_keeps s u h" by (rule keeps(1) [OF h])
  have hv: "ATB_GET_KIND v h = AT_HEAD" "gc_chain v h = gc_chain s h"
    using ku h(1) gc_chain_self [OF hb] by (simp_all add: kv gc_keeps_def)
  have nfv: "gc_no_finalisers v"
    using keeps(2) [OF h] by (simp add: v_def gc_no_finalisers_def gc_blocks_def)
  have stops: "gc_stops v h" using gc_no_finalisers_stops [OF vok(1) nfv] hb fv by simp
  have lv: "gc_lock_depth v = 0" using ul fv by simp
  have hbv: "h < gc_blocks v" using hb fv by simp
  have t': "t = gc_free (PTR_FROM_BLOCK v h) v" unfolding t v_def [symmetric] using p fv(9) by simp
  note e = gc_free_effect [OF vok(1) lv hbv stops, folded t']
  have tok: "gc_ok t" unfolding t' by (rule gc_free_ok [OF vok(1) lv hbv hv(1) stops])
  have freed: "\<forall>b \<in> gc_chain s h. gc_free_block t b"
    using e(3) hv(2) fv(7) by (auto simp: gc_chain_def)
  have kc: "gc_keeps v t c"
    unfolding t' by (rule gc_free_keeps [OF vok(1) lv hbv hv(1) stops]) (use c nb(2) ch fv kv in auto)
  then have ct: "ATB_GET_KIND t c = AT_HEAD" "gc_chain t c = {c..<c + nb}"
    using c(3,4) nb(2) kv by (auto simp: gc_keeps_def)
  have mt: "gc_mem t = memcpy q p (L * 32) (gc_mem u)" using e(2) by (simp add: v_def)
  have "gc_mem t (q + i) = gc_mem s (p + i)" if "i < L * 32" for i
    using gc_keeps_bytes [OF ku L(1) that] that by (simp add: mt memcpy_def p)
  then have res: "gc_resized s h nb t c"
    using ct c(1) p L nb(2) by (simp add: gc_resized_def gc_chain_len_def)
  have others: "gc_keeps s t h'"
    if h': "h' \<noteq> h" "ATB_GET_KIND s h' = AT_HEAD" "h' \<in> gc_reachable s (gc_roots E)" for h'
  proof -
    have k1: "gc_keeps s u h'" by (rule keeps(1) [OF h'(2,3)])
    obtain c' where "q = PTR_FROM_BLOCK s c'" "gc_chain u c' \<inter> gc_chain s h' = {}"
      using keeps(3) [OF h'(2,3) al(2)] by blast
    then have dis: "gc_chain u c \<inter> gc_chain s h' = {}" using c(1) by (simp add: PTR_FROM_BLOCK_def)
    have hb': "h' < gc_blocks s" using gc_reachable_head [OF h'(3)] by (simp add: gc_head_def)
    have k2: "gc_keeps u v h'"
      unfolding gc_keeps_def
    proof (intro conjI ballI allI impI)
      fix b i assume b: "b \<in> gc_chain u h'" and i: "i < (32 :: nat)"
      have "b \<notin> {c..<c + nb}" using dis b c(4) k1 by (auto simp: gc_keeps_def)
      with i nb(2) show "gc_mem v (PTR_FROM_BLOCK u b + i) = gc_mem u (PTR_FROM_BLOCK u b + i)"
        by (auto simp: v_def memcpy_def c(1) fu PTR_FROM_BLOCK_def)
    qed (simp_all add: kv)
    have k3: "gc_keeps v t h'"
      unfolding t' by (rule gc_free_keeps [OF vok(1) lv hbv hv(1) stops])
        (use k1 h' hb' fv kv in \<open>auto simp: gc_keeps_def gc_chain_def\<close>)
    have "gc_keeps s v h'" by (rule gc_keeps_trans [OF k1 k2 uok(2)])
    from gc_keeps_trans [OF this k3 vok(2)] show ?thesis .
  qed
  have "q \<noteq> p" using ch by (simp add: c(1) p PTR_FROM_BLOCK_def)
  then show thesis using that [OF c(1) _ tok res freed] others by blast
qed

text \<open>What \<open>gc_realloc\<close> promises of its result \<open>(q, t)\<close>.\<close>

definition gc_realloc_spec :: "gc_env \<Rightarrow> gc \<Rightarrow> nat \<Rightarrow> nat \<Rightarrow> nat \<Rightarrow> bool \<Rightarrow> nat \<Rightarrow> gc \<Rightarrow> bool" where
  "gc_realloc_spec E s h p nb allow_move q t \<longleftrightarrow> gc_ok t \<and>
    (q \<noteq> 0 \<longrightarrow> (\<exists>c. q = PTR_FROM_BLOCK s c \<and> gc_resized s h nb t c)) \<and>
    (q \<noteq> 0 \<and> q \<noteq> p \<longrightarrow> allow_move \<and> (\<forall>b \<in> gc_chain s h. gc_free_block t b)) \<and>
    (q = 0 \<longrightarrow> gc_keeps s t h) \<and>
    (nb \<le> card (gc_chain s h) \<or> h + nb \<le> gc_blocks s \<and>
       run_at (gc_free_block s) (h + card (gc_chain s h)) (nb - card (gc_chain s h)) \<longrightarrow> q = p) \<and>
    (\<forall>h'. h' \<noteq> h \<and> ATB_GET_KIND s h' = AT_HEAD \<and> h' \<in> gc_reachable s (gc_roots E) \<longrightarrow>
       gc_keeps s t h')"

lemma gc_realloc_spec_in_place:
  assumes "gc_ok t \<and> gc_resized s h nb t h \<and>
      (\<forall>h'. h' \<noteq> h \<and> h' < gc_blocks s \<and> ATB_GET_KIND s h' = AT_HEAD \<longrightarrow> gc_keeps s t h')"
    and "p = PTR_FROM_BLOCK s h" and "p \<noteq> 0"
  shows "gc_realloc_spec E s h p nb allow_move p t"
proof -
  have "h' < gc_blocks s" if "h' \<in> gc_reachable s (gc_roots E)" for h'
    using gc_reachable_head [OF that] by (simp add: gc_head_def)
  with assms show ?thesis unfolding gc_realloc_spec_def by blast
qed

lemma gc_realloc_spec_no_room:
  assumes ok: "gc_ok s" and ul: "gc_lock_depth s = 0" and nf: "gc_no_finalisers s"
    and h: "ATB_GET_KIND s h = AT_HEAD" "h \<in> gc_reachable s (gc_roots E)"
    and L: "gc_chain s h = {h..<h + L}" "1 \<le> L" and nb: "nb = gc_req_blocks n_bytes" "L < nb"
    and nofit: "\<not> (h + nb \<le> gc_blocks s \<and> run_at (gc_free_block s) (h + L) (nb - L))"
    and p: "p = PTR_FROM_BLOCK s h"
    and re: "(q, t) = (if \<not> allow_move then (0, s)
     else (let (q, u) = gc_alloc E n_bytes (if FTB_GET s h then 1 else 0) s
           in if q = 0 then (0, u)
              else (q, gc_free p (u\<lparr>gc_mem := memcpy q p (L * 32) (gc_mem u)\<rparr>))))"
  shows "gc_realloc_spec E s h p nb allow_move q t"
proof -
  have c: "card (gc_chain s h) = L" using L by simp
  have hb: "h < gc_blocks s" using gc_reachable_head [OF h(2)] by (simp add: gc_head_def)
  then have ftb: "\<not> FTB_GET s h" using nf by (simp add: gc_no_finalisers_def)
  obtain q' u where al: "gc_alloc E n_bytes 0 s = (q', u)" by (cases "gc_alloc E n_bytes 0 s")
  consider "\<not> allow_move" | "allow_move" "q' = 0" | "allow_move" "q' \<noteq> 0" by blast
  then show ?thesis
  proof cases
    case 1
    then show ?thesis using re ok nofit nb(2) c gc_keeps_refl by (auto simp: gc_realloc_spec_def)
  next
    case 2
    then have "q = 0" "t = u" using re al ftb by auto
    then show ?thesis
      using gc_alloc_result(1) [OF ok al] gc_alloc_keeps(1) [OF ok nf al] h nofit nb(2) c
      by (auto simp: gc_realloc_spec_def)
  next
    case 3
    then have qt: "q = q'" "t = gc_free p (u\<lparr>gc_mem := memcpy q p (L * 32) (gc_mem u)\<rparr>)"
      using re al ftb by auto
    then show ?thesis
      using gc_move_post [OF ok ul nf h L nb al [folded qt(1)] _ p qt(2)] 3 nofit nb(2) c
      unfolding gc_realloc_spec_def by (metis not_le)
  qed
qed

section \<open>Initialisation\<close>

lemma gc_layout_arith:
  fixes A k :: nat
  assumes "A = k * 8 div 1036"
  shows "A + (A * 4 + 7) div 8 + A * 4 * 32 \<le> k"
    and "k < (A + 1) + ((A + 1) * 4 + 7) div 8 + (A + 1) * 4 * 32"
proof -
  have k: "A * 1036 \<le> k * 8" "k * 8 < A * 1036 + 1036"
    using div_mult_mod_eq [of "k * 8" 1036] mod_less_divisor [of 1036 "k * 8"]
    unfolding assms by linarith+
  have h: "(n * 4 + 7) div 8 = (n + 1) div 2" for n :: nat by linarith
  consider m where "A = 2 * m" | m where "A = 2 * m + 1" by (metis oddE evenE)
  then show "A + (A * 4 + 7) div 8 + A * 4 * 32 \<le> k"
    "k < (A + 1) + ((A + 1) * 4 + 7) div 8 + (A + 1) * 4 * 32"
    using k unfolding h by (cases; simp)+
qed

lemma gc_init_layout:
  assumes e: "e = end_in - end_in mod BYTES_PER_BLOCK" and T: "0 < start" "start \<le> e"
    and small: "(e - start) * 8 < 2 ^ 64"
    and A: "A = gc_alloc_table_byte_len (gc_init start end_in mem)"
  shows "start + (A + (A * 4 + 7) div 8 + A * 4 * 32) \<le> e"
    and "e < start + (A + 1) + ((A + 1) * 4 + 7) div 8 + (A + 1) * 4 * 32"
proof -
  have "A = (e - start) * 8 div 1036" using small by (simp add: A gc_init_def Let_def e u64_def)
  note k = gc_layout_arith [OF this]
  show "start + (A + (A * 4 + 7) div 8 + A * 4 * 32) \<le> e" using k(1) T(2) by linarith
  show "e < start + (A + 1) + ((A + 1) * 4 + 7) div 8 + (A + 1) * 4 * 32" using k(2) T(2) by linarith
qed

lemma gc_init_fields:
  assumes "e = end_in - end_in mod BYTES_PER_BLOCK"
    and "A = gc_alloc_table_byte_len (gc_init start end_in mem)"
  shows "gc_tables (gc_init start end_in mem) = replicate (A + (A * 4 + 7) div 8) 0"
    "gc_pool_start (gc_init start end_in mem) = e - A * 4 * 32"
    "gc_pool_end (gc_init start end_in mem) = e" "gc_lock_depth (gc_init start end_in mem) = 0"
    "gc_last_free_atb_index (gc_init start end_in mem) = 0"
  using assms by (simp_all add: gc_init_def Let_def replicate_add add.commute)

lemma gc_init_kind: "ATB_GET_KIND (gc_init start end_in mem) b = AT_FREE"
  "\<not> FTB_GET (gc_init start end_in mem) b"
  by (simp_all add: ATB_GET_KIND_def FTB_GET_def table_byte_def gc_init_fields [OF refl refl])

lemma gc_init_ok:
  assumes e: "e = end_in - end_in mod BYTES_PER_BLOCK" and T: "0 < start" "start \<le> e"
    and small: "(e - start) * 8 < 2 ^ 64"
  shows "gc_ok (gc_init start end_in mem)"
proof -
  let ?s = "gc_init start end_in mem"
  note lay = gc_init_layout [OF e T small refl] and f = gc_init_fields [OF e refl]
  have "e mod 32 = 0" by (simp add: e minus_mod_eq_mult_div)
  moreover have "(e - 128 * k) mod 32 = 0" if "e mod 32 = 0" for k
    using that by (simp add: mod_0_imp_dvd dvd_imp_mod_0)
  ultimately have "gc_tables_ok ?s"
    using lay(1) [of mem] T(1) f [of start mem] by (simp add: gc_tables_ok_def gc_blocks_def add.commute)
  then show ?thesis
    by (simp add: gc_ok_def gc_chains_ok_def gc_marked_def gc_init_kind f)
qed

section \<open>Properties\<close>

text \<open>
  C2 (functional): \<open>gc_alloc\<close> is a first-fit allocator.  On a well-formed heap it returns either the
  address of the first run of free blocks that is long enough, turned into a chain of exactly the
  blocks requested, zeroed, outside every existing chain; or \<^verbatim>\<open>NULL\<close>, and then the request was
  for no block, or the heap was locked, or no run of that length is free even after a
  collection (unless automatic collection is off).  The invariant is kept in every case.
\<close>

theorem gc_alloc_first_fit:
  assumes ok: "gc_ok s" and n: "n_bytes < 2 ^ 64"
    and al: "gc_alloc E n_bytes flags s = (p, t)" and nb: "nb = gc_req_blocks n_bytes"
  shows "gc_ok t \<and>
    (p \<noteq> 0 \<longrightarrow> (\<exists>u st. (u = s \<or> u = gc_collect E s) \<and> p = PTR_FROM_BLOCK s st \<and>
       n_bytes \<le> nb * BYTES_PER_BLOCK \<and> st + nb \<le> gc_blocks s \<and> run_at (gc_free_block u) st nb \<and>
       (\<forall>st'. run_at (gc_free_block u) st' nb \<and> st' + nb \<le> gc_blocks s \<longrightarrow> st \<le> st') \<and>
       ATB_GET_KIND t st = AT_HEAD \<and> gc_chain t st = {st..<st + nb} \<and>
       (\<forall>b < gc_blocks s. b < st \<or> st + nb \<le> b \<longrightarrow> ATB_GET_KIND t b = ATB_GET_KIND u b) \<and>
       (\<forall>b < gc_blocks s. FTB_GET t b \<longleftrightarrow> FTB_GET u b \<or> odd flags \<and> b = st) \<and>
       gc_mem t = memset p 0 (nb * BYTES_PER_BLOCK) (gc_mem u))) \<and>
    (p = 0 \<longrightarrow> nb = 0 \<or> gc_lock_depth s > 0 \<or>
       (t = gc_collect E s \<or> t = s \<and> \<not> gc_auto_collect_enabled s) \<and>
       (\<forall>st. st + nb \<le> gc_blocks s \<longrightarrow> \<not> run_at (gc_free_block t) st nb))"
proof -
  note r = gc_alloc_result [OF ok al, folded nb]
  have size: "n_bytes \<le> nb * 32" if "0 < nb"
  proof (cases "n_bytes + 31 < 2 ^ 64")
    case True
    then show ?thesis by (simp add: nb gc_req_blocks_def u64_def)
  next
    case False
    with n have "u64 (n_bytes + 32 - 1) = n_bytes + 31 - 2 ^ 64"
      by (simp add: u64_def le_mod_geq)
    with n have "u64 (n_bytes + 32 - 1) < 32" by simp
    then have "nb = 0" by (simp add: nb gc_req_blocks_def)
    with that show ?thesis by simp
  qed
  { assume "p \<noteq> 0"
    then obtain u st where u: "u = s \<or> u = gc_collect E s" "0 < nb" "p = PTR_FROM_BLOCK s st"
      and e: "st + nb \<le> gc_blocks s" and free: "run_at (gc_free_block u) st nb"
      and least: "\<forall>st'. run_at (gc_free_block u) st' nb \<and> st' + nb \<le> gc_blocks s \<longrightarrow> st \<le> st'"
      and take: "gc_take_blocks (odd flags) nb (st + nb - 1, nb) u = (p, t)"
      using r(3) by blast
    have uok: "gc_ok u" "gc_frame u = gc_frame s"
      using u(1) ok gc_collect_ok gc_collect_frame_eq by auto
    have e': "st + nb \<le> gc_blocks u" "1 \<le> nb" using e gc_frameD(7) [OF uok(2)] u(2) by auto
    note eff = gc_take_blocks_effect [OF gc_okD(1) [OF uok(1)] e'(2,1) free take]
    have "ATB_GET_KIND t st = AT_HEAD"
      "\<forall>b < gc_blocks s. b < st \<or> st + nb \<le> b \<longrightarrow> ATB_GET_KIND t b = ATB_GET_KIND u b"
      "\<forall>b < gc_blocks s. FTB_GET t b \<longleftrightarrow> FTB_GET u b \<or> odd flags \<and> b = st"
      using eff(3,4) e' gc_frameD(7) [OF uok(2)] by auto
    then have "\<exists>u st. (u = s \<or> u = gc_collect E s) \<and> p = PTR_FROM_BLOCK s st \<and>
       n_bytes \<le> nb * BYTES_PER_BLOCK \<and> st + nb \<le> gc_blocks s \<and> run_at (gc_free_block u) st nb \<and>
       (\<forall>st'. run_at (gc_free_block u) st' nb \<and> st' + nb \<le> gc_blocks s \<longrightarrow> st \<le> st') \<and>
       ATB_GET_KIND t st = AT_HEAD \<and> gc_chain t st = {st..<st + nb} \<and>
       (\<forall>b < gc_blocks s. b < st \<or> st + nb \<le> b \<longrightarrow> ATB_GET_KIND t b = ATB_GET_KIND u b) \<and>
       (\<forall>b < gc_blocks s. FTB_GET t b \<longleftrightarrow> FTB_GET u b \<or> odd flags \<and> b = st) \<and>
       gc_mem t = memset p 0 (nb * BYTES_PER_BLOCK) (gc_mem u)"
      using u e free least size eff(5) gc_take_blocks_chain [OF uok(1) e'(2,1) free take] by blast }
  then show ?thesis using r(1,4) by blast
qed

text \<open>
  C3 (functional): \<open>gc_free\<close> and \<open>gc_nbytes\<close> act on exactly one chain.  For the address of a
  head in an unlocked well-formed heap, \<open>gc_nbytes\<close> is the size of its chain and \<open>gc_free\<close> makes
  the blocks of the chain free, drops its finaliser bit, changes nothing else, and keeps the
  invariant.  The hypothesis \<open>gc_stops\<close> excludes a chain that ends at the end of the pool while block
  1 has a finaliser and block 0 has none.
\<close>

theorem gc_free_one_chain:
  assumes ok: "gc_ok s" and ul: "gc_lock_depth s = 0" and p: "VERIFY_PTR s p"
    and h: "h = BLOCK_FROM_PTR s p" "ATB_GET_KIND s h = AT_HEAD" and stops: "gc_stops s h"
  shows "gc_nbytes s p = card (gc_chain s h) * BYTES_PER_BLOCK \<and> gc_ok (gc_free p s) \<and>
    (\<forall>b < gc_blocks s. ATB_GET_KIND (gc_free p s) b =
       (if b \<in> gc_chain s h then AT_FREE else ATB_GET_KIND s b)) \<and>
    (\<forall>b < gc_blocks s. FTB_GET (gc_free p s) b \<longleftrightarrow> FTB_GET s b \<and> b \<noteq> h) \<and>
    gc_mem (gc_free p s) = gc_mem s"
proof -
  have hb: "h < gc_blocks s" and p': "p = PTR_FROM_BLOCK s h"
    using VERIFY_PTR_at [OF gc_okD(1) [OF ok] p] h(1) by auto
  obtain n where n: "1 \<le> n" "h + n \<le> gc_blocks s" "gc_chain s h = {h..<h + n}"
    "\<And>i. h < i \<Longrightarrow> i < h + n \<Longrightarrow> ATB_GET_KIND s i = AT_TAIL"
    "h + n < gc_blocks s \<Longrightarrow> ATB_GET_KIND s (h + n) \<noteq> AT_TAIL"
    using gc_chain_span [OF hb] by metis
  have "chain_len s h 1 = n"
    using n(1,4) gc_stops_kind [OF stops n(3,1,2,5)] by (intro chain_len_run) auto
  then have "gc_nbytes s p = card (gc_chain s h) * BYTES_PER_BLOCK"
    using p h n(3) by (simp add: gc_nbytes_def)
  then show ?thesis
    using gc_free_ok [OF ok ul hb h(2) stops] gc_free_effect [OF ok ul hb stops] p' by blast
qed


text \<open>
  C5 (functional): \<open>gc_init\<close> lays the heap out correctly.  The two tables and the pool fit
  between \<^verbatim>\<open>start\<close> and the aligned end without overlapping (the \<^verbatim>\<open>assert\<close> of the code
  holds), one more table byte would not fit, every block is free, and the invariant holds.
\<close>

theorem gc_init_correct:
  assumes "e = end_in - end_in mod BYTES_PER_BLOCK" and "0 < start" and "start \<le> e"
    and "(e - start) * 8 < 2 ^ 64" and "s = gc_init start end_in mem" and "A = gc_alloc_table_byte_len s"
  shows "gc_ok s \<and> (\<forall>b < gc_blocks s. gc_free_block s b) \<and>
    start + length (gc_tables s) \<le> gc_pool_start s \<and> gc_pool_end s = e \<and>
    e < start + (A + 1) + ((A + 1) * 4 + 7) div 8 + (A + 1) * 4 * BYTES_PER_BLOCK"
proof -
  let ?s = "gc_init start end_in mem"
  let ?A = "gc_alloc_table_byte_len ?s"
  note lay = gc_init_layout [OF assms(1-4) refl, of mem] and f = gc_init_fields [OF assms(1) refl, of start mem]
  have "length (gc_tables ?s) = ?A + (?A * 4 + 7) div 8" by (simp add: f)
  then have "start + length (gc_tables ?s) \<le> gc_pool_start ?s" using lay(1) f(2) by linarith
  then show ?thesis
    using gc_init_ok [OF assms(1-4), of mem] gc_init_kind(1) [of start end_in mem] lay(2) f(3)
    unfolding assms(5,6) by blast
qed

theorem gc_init_correct_witness:
  "gc_ok (gc_init 97 260 (\<lambda>_. 0)) \<and> 97 + 2 \<le> gc_pool_start (gc_init 97 260 (\<lambda>_. 0)) \<and>
   gc_alloc_table_byte_len (gc_init 97 260 (\<lambda>_. 0)) = 1"
  using gc_init_correct [of 256 260 97 "gc_init 97 260 (\<lambda>_. 0)" "\<lambda>_. 0" 1] by (simp add: gc_init_def u64_def)

end
