(* ===== verification/GcExample.thy ===== *)
theory GcExample
  imports GcProps
begin

text \<open>
  A heap of four blocks: the instances of the memory manager's properties on it, and the three
  allocations after which the chain loops read past the allocation table.
\<close>

section \<open>The example heap\<close>

text \<open>A heap of four blocks, with one root that holds the address of its first block.\<close>

definition gc_example_env :: gc_env where
  "gc_example_env = \<lparr>GC_STACK_SIZE = 1, ctx_roots = [128], port_roots = [], run_del = (\<lambda>m p. m)\<rparr>"

definition gc_example :: "8 word list \<Rightarrow> nat \<Rightarrow> gc" where
  "gc_example tab amount = \<lparr>gc_tables = tab, gc_alloc_table_byte_len = 1, gc_pool_start = 128,
     gc_pool_end = 256, gc_stack_overflow = False, gc_lock_depth = 0, gc_auto_collect_enabled = True,
     gc_alloc_amount = amount, gc_alloc_threshold = 18446744073709551615, gc_last_free_atb_index = 0,
     gc_collected = 0, gc_mem = (\<lambda>_. 0)\<rparr>"

lemmas gc_example_simps = gc_example_def ATB_GET_KIND_def table_byte_def BLOCK_SHIFT_eq FTB_GET_bit
  ftb_byte_def gc_blocks_def BLOCK_FROM_PTR_def PTR_FROM_BLOCK_def VERIFY_PTR_def nat_and_mask
  chain_len.simps

lemma gc_example_init: "gc_init 96 256 (\<lambda>_. 0) = gc_example [0, 0] 0"
  by (simp add: gc_example_def gc_init_def u64_def)

lemma memset_zero: "memset p 0 n (\<lambda>_. 0) = (\<lambda>_. 0)"
  by (simp add: memset_def)

lemmas gc_alloc_run = gc_alloc_def gc_find_free_def gc_req_blocks_def u64_def Let_def ATB_IS_FREE_def
  gc_take_blocks_def ATB_FREE_TO_HEAD_def ATB_FREE_TO_TAIL_def memset_zero FTB_SET_def atb_or_def

lemma gc_example_alloc:
  "gc_alloc E 40 0 (gc_example [0, 0] 0) = (128, gc_example [9, 0] 2)"
  "gc_alloc E 32 0 (gc_example [0, 0] 0) = (128, gc_example [1, 0] 1)"
  "gc_alloc E 32 1 (gc_example [1, 0] 1) = (160, gc_example [5, 2] 2)"
  "gc_alloc E 64 0 (gc_example [5, 2] 2) = (192, gc_example [149, 2] 4)"
  "gc_alloc E 32 0 (gc_example [9, 0] 2) = (192, gc_example [25, 0] 3)"
  by (simp_all add: gc_alloc_run gc_example_simps)

lemma gc_example_ok: "gc_ok (gc_example [0, 0] 0)"
  unfolding gc_example_init [symmetric] by (rule gc_init_ok [of 256]) auto

lemma gc_example_ok2: "gc_ok (gc_example [9, 0] 2)" "gc_ok (gc_example [25, 0] 3)"
proof -
  show ok: "gc_ok (gc_example [9, 0] 2)"
    by (rule gc_alloc_result(1) [OF gc_example_ok gc_example_alloc(1)])
  show "gc_ok (gc_example [25, 0] 3)" by (rule gc_alloc_result(1) [OF ok gc_example_alloc(5)])
qed

lemma gc_example_kinds:
  "ATB_GET_KIND (gc_example [25, 0] n) 0 = AT_HEAD" "ATB_GET_KIND (gc_example [25, 0] n) (Suc 0) = AT_TAIL"
  "ATB_GET_KIND (gc_example [25, 0] n) 2 = AT_HEAD" "ATB_GET_KIND (gc_example [25, 0] n) 3 = AT_FREE"
  "ATB_GET_KIND (gc_example [9, 0] n) 0 = AT_HEAD" "ATB_GET_KIND (gc_example [9, 0] n) (Suc 0) = AT_TAIL"
  "ATB_GET_KIND (gc_example [9, 0] n) 2 = AT_FREE" "ATB_GET_KIND (gc_example [9, 0] n) 3 = AT_FREE"
  by (simp_all add: gc_example_simps)

lemma gc_example_blocks: "gc_blocks (gc_example tab n) = 4"
  by (simp add: gc_example_simps)

lemma gc_example_chains:
  "gc_chain (gc_example [25, 0] n) 0 = {0, 1}" "gc_chain (gc_example [9, 0] n) 0 = {0, 1}"
  "gc_chain (gc_example [25, 0] n) 2 = {2}"
proof -
  have two: "i = 1" if "0 < i" "i < 0 + (2 :: nat)" for i using that by simp
  have "gc_chain (gc_example [25, 0] n) 0 = {0..<0 + 2}"
    using gc_example_kinds(2,3) [of n] by (intro gc_chain_interval) (auto simp: gc_example_blocks numeral_2_eq_2 dest!: two)
  moreover have "gc_chain (gc_example [9, 0] n) 0 = {0..<0 + 2}"
    using gc_example_kinds(6,7) [of n] by (intro gc_chain_interval) (auto simp: gc_example_blocks numeral_2_eq_2 dest!: two)
  moreover have "gc_chain (gc_example [25, 0] n) 2 = {2..<2 + 1}"
    using gc_example_kinds(4) [of n] by (intro gc_chain_interval) (auto simp: gc_example_blocks)
  ultimately show "gc_chain (gc_example [25, 0] n) 0 = {0, 1}" "gc_chain (gc_example [9, 0] n) 0 = {0, 1}"
    "gc_chain (gc_example [25, 0] n) 2 = {2}" by auto
qed

lemma gc_example_reachable:
  assumes "tab = [25, 0] \<or> tab = [9, 0]"
  shows "gc_reachable (gc_example tab n) (gc_roots gc_example_env) = {0}"
proof -
  let ?s = "gc_example tab n"
  have head: "gc_head ?s 0" using assms gc_example_kinds by (auto simp: gc_head_def gc_example_blocks)
  have "b = 0" if "b \<in> gc_reachable ?s (gc_roots gc_example_env)" for b
    using that
  proof (induction rule: gc_reachable.induct)
    case (root ptr b)
    then show ?case
      by (simp add: gc_roots_def gc_example_env_def gc_points_to_def gc_example_def BLOCK_FROM_PTR_def)
  next
    case (step b c)
    then have "gc_points_to ?s 0 c"
      by (auto simp: gc_children_def block_ptrs_def load_ptr_def gc_example_def)
    then show ?case by (simp add: gc_points_to_def VERIFY_PTR_def gc_example_def)
  qed
  moreover have "0 \<in> gc_reachable ?s (gc_roots gc_example_env)"
    by (rule gc_reachable.root [of 128])
      (use head in \<open>simp_all add: gc_roots_def gc_example_env_def gc_points_to_def VERIFY_PTR_def
        BLOCK_FROM_PTR_def nat_and_mask gc_example_def\<close>)
  ultimately show ?thesis by blast
qed


theorem gc_alloc_first_fit_witness:
  "gc_ok (gc_example [0, 0] 0) \<and>
   gc_alloc gc_example_env 40 0 (gc_example [0, 0] 0) = (128, gc_example [9, 0] 2) \<and>
   (\<exists>st. 128 = PTR_FROM_BLOCK (gc_example [0, 0] 0) st \<and> gc_chain (gc_example [9, 0] 2) st = {st..<st + 2})"
  using gc_alloc_first_fit [OF gc_example_ok _ gc_example_alloc(1) refl, of gc_example_env]
    gc_example_ok gc_example_alloc(1)
  by (auto simp: gc_req_blocks_def u64_def)

theorem gc_free_one_chain_witness:
  "gc_nbytes (gc_example [25, 0] 3) 128 = 64 \<and> gc_ok (gc_free 128 (gc_example [25, 0] 3)) \<and>
   map (ATB_GET_KIND (gc_free 128 (gc_example [25, 0] 3))) [0, 1, 2] = [AT_FREE, AT_FREE, AT_HEAD]"
proof -
  let ?s = "gc_example [25, 0] 3"
  have "gc_lock_depth ?s = 0" "VERIFY_PTR ?s 128" "0 = BLOCK_FROM_PTR ?s 128" "gc_stops ?s 0"
    by (simp_all add: gc_example_simps gc_stops_def)
  from gc_free_one_chain [OF gc_example_ok2(2) this(1-3) gc_example_kinds(1) this(4)]
  show ?thesis using gc_example_kinds [of 3] by (simp add: gc_example_blocks gc_example_chains)
qed


lemma gc_example_overread:
  "card (gc_chain (gc_example [149, 2] 4) (BLOCK_FROM_PTR (gc_example [149, 2] 4) 192)) * 32 = 64"
  "gc_nbytes (gc_example [149, 2] 4) 192 = 96" "FTB_GET (gc_example [149, 2] 4) 1"
  "ATB_GET_KIND (gc_example [149, 2] 4) 1 = AT_HEAD"
  "ATB_GET_KIND (gc_free 192 (gc_example [149, 2] 4)) 1 = AT_HEAD"
  "\<not> FTB_GET (gc_free 192 (gc_example [149, 2] 4)) 1"
proof -
  let ?s = "gc_example [149, 2] 4"
  have "gc_chain ?s 2 = {2..<2 + 2}"
  proof (rule gc_chain_interval)
    fix i :: nat assume "2 < i" and "i < 2 + 2"
    then have "i = 3" by simp
    then show "ATB_GET_KIND ?s i = AT_TAIL" by (simp add: gc_example_simps)
  qed (simp_all add: gc_example_simps)
  moreover have "BLOCK_FROM_PTR ?s 192 = 2" by (simp add: gc_example_simps)
  ultimately show "card (gc_chain ?s (BLOCK_FROM_PTR ?s 192)) * 32 = 64" by simp
qed (simp_all add: gc_nbytes_def gc_example_simps gc_free_def gc_free_chain.simps Let_def
    FTB_CLEAR_def ATB_ANY_TO_FREE_def atb_and_not_def)

text \<open>
  C6 (safety): the chain loops read past the allocation table.  Three allocations in a fresh heap of
  four blocks, the second with a finaliser, give chains of one, one and two blocks.  The third
  ends at the end of the pool, and the loops take the finaliser bits of blocks 0 and 1 for one
  more tail: \<open>gc_nbytes\<close> returns 96 for its 64 bytes, and \<open>gc_free\<close> also clears the finaliser
  bit of the second chain, so that finaliser never runs.
\<close>

theorem gc_chain_loops_read_past_table:
  fixes E :: gc_env
  defines "s0 \<equiv> gc_init 96 256 (\<lambda>_. 0)"
  defines "s1 \<equiv> snd (gc_alloc E 32 0 s0)"
  defines "s2 \<equiv> snd (gc_alloc E 32 1 s1)"
  defines "p3 \<equiv> fst (gc_alloc E 64 0 s2)" and "s3 \<equiv> snd (gc_alloc E 64 0 s2)"
  shows "card (gc_chain s3 (BLOCK_FROM_PTR s3 p3)) * BYTES_PER_BLOCK = 64 \<and> gc_nbytes s3 p3 = 96 \<and>
    FTB_GET s3 1 \<and> ATB_GET_KIND s3 1 = AT_HEAD \<and> ATB_GET_KIND (gc_free p3 s3) 1 = AT_HEAD \<and>
    \<not> FTB_GET (gc_free p3 s3) 1"
proof -
  have s3: "s3 = gc_example [149, 2] 4" "p3 = 192"
    unfolding s0_def s1_def s2_def s3_def p3_def gc_example_init gc_example_alloc(2) snd_conv
      gc_example_alloc(3) gc_example_alloc(4) by simp_all
  show ?thesis unfolding s3 using gc_example_overread by simp
qed

end
