(* ===== verification/HashProbe.thy ===== *)
theory HashProbe
  imports Prelude
begin

text \<open>
  Open addressing with linear probing, shared by the maps and the sets of \<^verbatim>\<open>py/map.c\<close>.  A key
  slot is \<^verbatim>\<open>MP_OBJ_NULL\<close> (never used), \<^verbatim>\<open>MP_OBJ_SENTINEL\<close> (deleted) or an object.  \<open>probe\<close>
  is the body of the search loop of \<^verbatim>\<open>mp_map_lookup\<close> and \<^verbatim>\<open>mp_set_lookup\<close>; its count runs
  down from \<^verbatim>\<open>alloc\<close>, which is when \<^verbatim>\<open>pos\<close> is back at \<^verbatim>\<open>start_pos\<close>.
\<close>

section \<open>Slots and the search loop\<close>

datatype 'o mp_key = MP_OBJ_NULL | MP_OBJ_SENTINEL | Obj 'o

datatype probe_result = Found nat | Empty nat | Wrapped "nat option"

fun probe :: "('o \<Rightarrow> bool) \<Rightarrow> 'o mp_key list \<Rightarrow> nat \<Rightarrow> nat option \<Rightarrow> nat \<Rightarrow> probe_result" where
  "probe matches ks pos avail_slot 0 = Wrapped avail_slot"
| "probe matches ks pos avail_slot (Suc k) =
     (case ks ! pos of
        MP_OBJ_NULL \<Rightarrow> Empty (case avail_slot of None \<Rightarrow> pos | Some a \<Rightarrow> a)
      | MP_OBJ_SENTINEL \<Rightarrow>
          probe matches ks ((pos + 1) mod length ks)
            (case avail_slot of None \<Rightarrow> Some pos | Some a \<Rightarrow> Some a) k
      | Obj key \<Rightarrow>
          if matches key then Found pos
          else probe matches ks ((pos + 1) mod length ks) avail_slot k)"

text \<open>What is stored in a slot whose element is removed.\<close>

definition vacated :: "'o mp_key list \<Rightarrow> nat \<Rightarrow> 'o mp_key" where
  "vacated ks pos =
     (if ks ! ((pos + 1) mod length ks) = MP_OBJ_NULL then MP_OBJ_NULL else MP_OBJ_SENTINEL)"

section \<open>The probe sequence\<close>

definition slot :: "nat \<Rightarrow> nat \<Rightarrow> nat \<Rightarrow> nat" where
  "slot h n i = (h + i) mod n"

lemma slot_less [simp]: "0 < n \<Longrightarrow> slot h n i < n"
  by (simp add: slot_def)

lemma slot_Suc: "slot h n (Suc i) = (slot h n i + 1) mod n"
  by (simp add: slot_def mod_Suc_eq)

lemma slot_0: "h < n \<Longrightarrow> slot h n 0 = h"
  by (simp add: slot_def)

lemma slot_reaches:
  assumes "h < n" and "p < n"
  obtains i where "i < n" "p = slot h n i"
proof (cases "h \<le> p")
  case True
  then show thesis using that [of "p - h"] assms by (simp add: slot_def)
next
  case False
  then have "(h + (p + n - h)) mod n = p" using assms by simp
  then show thesis using that [of "p + n - h"] assms False by (simp add: slot_def)
qed

definition passed :: "('o \<Rightarrow> bool) \<Rightarrow> 'o mp_key \<Rightarrow> bool" where
  "passed matches x \<longleftrightarrow> x \<noteq> MP_OBJ_NULL \<and> (\<forall>key. x = Obj key \<longrightarrow> \<not> matches key)"

text \<open>What the slot remembered on the way says of the part of the sequence already passed.\<close>

definition avail_inv :: "'o mp_key list \<Rightarrow> nat \<Rightarrow> nat \<Rightarrow> nat option \<Rightarrow> bool" where
  "avail_inv ks h i avail \<longleftrightarrow>
     (avail = None \<longrightarrow> (\<forall>j < i. ks ! slot h (length ks) j \<noteq> MP_OBJ_SENTINEL)) \<and>
     (\<forall>a. avail = Some a \<longrightarrow> (\<exists>j < i. a = slot h (length ks) j \<and> ks ! a = MP_OBJ_SENTINEL))"

definition probe_post :: "('o \<Rightarrow> bool) \<Rightarrow> 'o mp_key list \<Rightarrow> nat \<Rightarrow> probe_result \<Rightarrow> bool" where
  "probe_post matches ks h r \<longleftrightarrow>
     (case r of
        Found p \<Rightarrow> \<exists>i < length ks. p = slot h (length ks) i \<and>
          (\<exists>key. ks ! p = Obj key \<and> matches key) \<and>
          (\<forall>j < i. passed matches (ks ! slot h (length ks) j))
      | Empty a \<Rightarrow> \<exists>i < length ks. ks ! slot h (length ks) i = MP_OBJ_NULL \<and>
          (\<forall>j < i. passed matches (ks ! slot h (length ks) j)) \<and>
          (\<exists>j \<le> i. a = slot h (length ks) j \<and> (\<forall>key. ks ! a \<noteq> Obj key))
      | Wrapped avail \<Rightarrow> (\<forall>j < length ks. passed matches (ks ! slot h (length ks) j)) \<and>
          avail_inv ks h (length ks) avail)"

lemma probe_post_gen:
  assumes "i \<le> length ks" and "\<forall>j < i. passed matches (ks ! slot h (length ks) j)"
    and "avail_inv ks h i avail"
  shows "probe_post matches ks h (probe matches ks (slot h (length ks) i) avail (length ks - i))"
  using assms
proof (induction "length ks - i" arbitrary: i avail)
  case 0
  then show ?case by (simp add: probe_post_def)
next
  case (Suc k)
  let ?p = "slot h (length ks) i"
  have lt: "i < length ks" and k: "length ks - i = Suc k" "k = length ks - Suc i" using Suc.hyps(2) by auto
  have step: "probe_post matches ks h (probe matches ks ((?p + 1) mod length ks) a k)"
    if "passed matches (ks ! ?p)" "avail_inv ks h (Suc i) a" for a
    using Suc.hyps(1) [OF k(2), of a] Suc.prems lt that k
    by (simp add: slot_Suc less_Suc_eq)
  show ?case
  proof (cases "ks ! ?p")
    case MP_OBJ_NULL
    have "\<exists>j \<le> i. (case avail of None \<Rightarrow> ?p | Some a \<Rightarrow> a) = slot h (length ks) j \<and>
        (\<forall>key. ks ! (case avail of None \<Rightarrow> ?p | Some a \<Rightarrow> a) \<noteq> Obj key)"
      using Suc.prems(3) MP_OBJ_NULL
      by (cases avail) (auto simp: avail_inv_def intro: less_imp_le)
    then show ?thesis
      using MP_OBJ_NULL Suc.prems lt k by (auto simp: probe_post_def)
  next
    case MP_OBJ_SENTINEL
    have "avail_inv ks h (Suc i) (case avail of None \<Rightarrow> Some ?p | Some a \<Rightarrow> Some a)"
      using Suc.prems(3) MP_OBJ_SENTINEL by (cases avail) (auto simp: avail_inv_def less_Suc_eq)
    moreover have "passed matches (ks ! ?p)" using MP_OBJ_SENTINEL by (simp add: passed_def)
    ultimately show ?thesis using step MP_OBJ_SENTINEL k by simp
  next
    case (Obj key)
    show ?thesis
    proof (cases "matches key")
      case True
      then show ?thesis using Obj Suc.prems lt k by (auto simp: probe_post_def)
    next
      case False
      have "avail_inv ks h (Suc i) avail"
        using Suc.prems(3) Obj by (auto simp: avail_inv_def less_Suc_eq)
      moreover have "passed matches (ks ! ?p)" using Obj False by (simp add: passed_def)
      ultimately show ?thesis using step Obj False k by simp
    qed
  qed
qed

lemma probe_correct:
  assumes "h < length ks"
  shows "probe_post matches ks h (probe matches ks h None (length ks))"
  using probe_post_gen [of 0 ks matches h None] assms by (simp add: slot_0 avail_inv_def)

section \<open>The table invariant\<close>

text \<open>
  Every object can be reached from its hash position without crossing a slot that was never used,
  and no two slots hold equal objects.  \<open>R\<close> is equality of objects, \<open>H\<close> their hash.
\<close>

definition reachable_keys :: "('o \<Rightarrow> nat) \<Rightarrow> 'o mp_key list \<Rightarrow> bool" where
  "reachable_keys H ks \<longleftrightarrow> (\<forall>p < length ks. \<forall>key. ks ! p = Obj key \<longrightarrow>
     (\<exists>i < length ks. p = slot (H key mod length ks) (length ks) i \<and>
        (\<forall>j < i. ks ! slot (H key mod length ks) (length ks) j \<noteq> MP_OBJ_NULL)))"

definition distinct_keys :: "('o \<Rightarrow> 'o \<Rightarrow> bool) \<Rightarrow> 'o mp_key list \<Rightarrow> bool" where
  "distinct_keys R ks \<longleftrightarrow> (\<forall>p < length ks. \<forall>q < length ks. \<forall>a b.
     ks ! p = Obj a \<longrightarrow> ks ! q = Obj b \<longrightarrow> R a b \<longrightarrow> p = q)"

definition is_obj :: "'o mp_key \<Rightarrow> bool" where
  "is_obj x \<longleftrightarrow> (case x of Obj _ \<Rightarrow> True | _ \<Rightarrow> False)"

lemma is_obj_iff: "is_obj x \<longleftrightarrow> (\<exists>key. x = Obj key)"
  by (cases x) (simp_all add: is_obj_def)

definition key_count :: "'o mp_key list \<Rightarrow> nat" where
  "key_count ks = length (filter is_obj ks)"

definition key_set :: "'o mp_key list \<Rightarrow> 'o set" where
  "key_set ks = {key. Obj key \<in> set ks}"

lemma key_count_le: "key_count ks \<le> length ks"
  by (simp add: key_count_def)

lemma key_count_update:
  assumes "p < length ks"
  shows "key_count (ks[p := x]) + (if is_obj (ks ! p) then 1 else 0) =
    key_count ks + (if is_obj x then 1 else 0)"
  using assms
proof (induction ks arbitrary: p)
  case (Cons y ks)
  then show ?case by (cases p) (auto simp: key_count_def)
qed simp

lemma key_set_nth: "key \<in> key_set ks \<longleftrightarrow> (\<exists>p < length ks. ks ! p = Obj key)"
  by (auto simp: key_set_def in_set_conv_nth)

lemma probe_found:
  assumes "0 < length ks" and "reachable_keys H ks" and "distinct_keys R ks"
    and "p < length ks" and "ks ! p = Obj key" and "R key index" and "H key = H index"
    and "\<And>k. k \<in> key_set ks \<Longrightarrow> matches k \<longleftrightarrow> R k index"
    and "\<And>k. R k index \<Longrightarrow> R k key"
  shows "probe matches ks (H index mod length ks) None (length ks) = Found p"
proof -
  let ?n = "length ks" and ?h = "H index mod length ks"
  have h: "?h < ?n" using assms(1) by simp
  obtain i where i: "i < ?n" "p = slot ?h ?n i" "\<forall>j < i. ks ! slot ?h ?n j \<noteq> MP_OBJ_NULL"
    using assms(2,4,5,7) unfolding reachable_keys_def by (metis (full_types))
  have mp: "matches key" using assms(4,5,6,8) by (auto simp: key_set_nth)
  then have np: "\<not> passed matches (ks ! slot ?h ?n i)" using assms(5) i(2) by (simp add: passed_def)
  note post = probe_correct [OF h, of matches]
  show ?thesis
  proof (cases "probe matches ks ?h None ?n")
    case (Found q)
    then obtain i' where i': "i' < ?n" "q = slot ?h ?n i'" "\<exists>k. ks ! q = Obj k \<and> matches k"
      using post by (auto simp: probe_post_def)
    then obtain k where k: "ks ! q = Obj k" "matches k" by blast
    have q: "q < ?n" using i'(2) assms(1) by simp
    then have "R k index" using assms(8) k by (auto simp: key_set_nth)
    then have "R k key" by (rule assms(9))
    then have "q = p" using assms(3,4,5) k(1) q by (auto simp: distinct_keys_def)
    with Found show ?thesis by simp
  next
    case (Empty a)
    then obtain i' where i': "i' < ?n" "ks ! slot ?h ?n i' = MP_OBJ_NULL"
      "\<forall>j < i'. passed matches (ks ! slot ?h ?n j)" using post by (auto simp: probe_post_def)
    have "i' \<noteq> i" using i'(2) i(2) assms(5) by auto
    then have False using i' i(3) np by (cases i i' rule: linorder_cases) auto
    then show ?thesis ..
  next
    case (Wrapped avail)
    then have False using post np i(1) by (auto simp: probe_post_def)
    then show ?thesis ..
  qed
qed

lemma probe_not_found:
  assumes "0 < length ks" and "\<And>k. k \<in> key_set ks \<Longrightarrow> \<not> matches k" and "h < length ks"
  shows "probe matches ks h None (length ks) \<noteq> Found p"
proof
  assume "probe matches ks h None (length ks) = Found p"
  with probe_correct [OF assms(3), of matches] obtain key i where
    "ks ! p = Obj key" "matches key" "p = slot h (length ks) i"
    by (auto simp: probe_post_def)
  moreover from this(3) have "p < length ks" using assms(1) by simp
  ultimately show False using assms(2) [of key] by (auto simp: key_set_nth)
qed

section \<open>Insertion and removal\<close>

lemma update_obj_not_null:
  assumes "q < length ks" and "ks ! q \<noteq> MP_OBJ_NULL"
  shows "ks[a := Obj key] ! q \<noteq> MP_OBJ_NULL"
  using assms by (cases "q = a") auto

lemma reachable_keys_insert:
  assumes reach: "reachable_keys H ks" and a: "a = slot (H index mod length ks) (length ks) j" "j < length ks"
    and free: "\<not> is_obj (ks ! a)"
    and before: "\<forall>j' < j. ks ! slot (H index mod length ks) (length ks) j' \<noteq> MP_OBJ_NULL"
  shows "reachable_keys H (ks[a := Obj index])"
  unfolding reachable_keys_def
proof (intro allI impI, goal_cases)
  case (1 p key)
  have n: "0 < length ks" using a(2) by linarith
  show ?case
  proof (cases "p = a")
    case True
    then have "key = index" using 1 a n by simp
    moreover have "ks[a := Obj index] ! slot (H index mod length ks) (length ks) j' \<noteq> MP_OBJ_NULL"
      if "j' < j" for j'
      using before that n by (intro update_obj_not_null) auto
    ultimately show ?thesis using True a by (auto intro!: exI [of _ j])
  next
    case False
    with 1 have "p < length ks" "ks ! p = Obj key" by auto
    with reach obtain i where "i < length ks" "p = slot (H key mod length ks) (length ks) i"
      "\<forall>j < i. ks ! slot (H key mod length ks) (length ks) j \<noteq> MP_OBJ_NULL"
      unfolding reachable_keys_def by blast
    moreover from this have "ks[a := Obj index] ! slot (H key mod length ks) (length ks) j \<noteq> MP_OBJ_NULL"
      if "j < i" for j
      using that n by (intro update_obj_not_null) auto
    ultimately show ?thesis by (auto intro!: exI [of _ i])
  qed
qed

lemma reachable_keys_remove:
  assumes reach: "reachable_keys H ks" and p: "p < length ks"
  shows "reachable_keys H (ks[p := vacated ks p])"
  unfolding reachable_keys_def
proof (intro allI impI, goal_cases)
  case (1 q key)
  then have q: "q \<noteq> p" "q < length ks" "ks ! q = Obj key"
    using p by (auto simp: nth_list_update vacated_def split: if_splits)
  let ?h = "H key mod length ks" and ?n = "length ks"
  obtain i where i: "i < ?n" "q = slot ?h ?n i" "\<forall>j < i. ks ! slot ?h ?n j \<noteq> MP_OBJ_NULL"
    using reach q unfolding reachable_keys_def by blast
  have "ks[p := vacated ks p] ! slot ?h ?n j \<noteq> MP_OBJ_NULL" if "j < i" for j
  proof (cases "slot ?h ?n j = p \<and> vacated ks p = MP_OBJ_NULL")
    case True
    then have "ks ! slot ?h ?n (Suc j) = MP_OBJ_NULL" by (auto simp: slot_Suc vacated_def split: if_splits)
    with i q(3) that have False by (cases "Suc j = i") (auto simp: less_Suc_eq)
    then show ?thesis ..
  next
    case False
    then show ?thesis using i(3) that p by (auto simp: nth_list_update)
  qed
  with i show ?case by (auto intro!: exI [of _ i])
qed

lemma distinct_keys_insert:
  assumes "distinct_keys R ks" and "\<And>k. k \<in> key_set ks \<Longrightarrow> \<not> R k index \<and> \<not> R index k" and "a < length ks"
  shows "distinct_keys R (ks[a := Obj index])"
proof -
  have "\<forall>p < length ks. \<forall>k. ks ! p = Obj k \<longrightarrow> \<not> R k index \<and> \<not> R index k"
    using assms(2) by (auto simp: key_set_nth)
  with assms(1,3) show ?thesis unfolding distinct_keys_def by (auto simp: nth_list_update)
qed

lemma distinct_keys_vacate:
  assumes "distinct_keys R ks" and "\<not> is_obj x"
  shows "distinct_keys R (ks[p := x])"
proof (cases "p < length ks")
  case True
  with assms show ?thesis unfolding distinct_keys_def is_obj_iff by (auto simp: nth_list_update)
qed (use assms in \<open>simp add: list_update_beyond\<close>)

lemma vacated_not_obj [simp]: "\<not> is_obj (vacated ks p)"
  by (simp add: vacated_def is_obj_def)

lemma probe_room:
  assumes "h < length ks" and "key_count ks < length ks"
  shows "probe matches ks h None (length ks) \<noteq> Wrapped None"
proof
  assume w: "probe matches ks h None (length ks) = Wrapped None"
  have "is_obj (ks ! p)" if p: "p < length ks" for p
  proof -
    obtain i where i: "i < length ks" "p = slot h (length ks) i" using slot_reaches [OF assms(1) p] .
    with w probe_correct [OF assms(1), of matches]
    have "passed matches (ks ! p)" "ks ! p \<noteq> MP_OBJ_SENTINEL"
      by (auto simp: probe_post_def avail_inv_def)
    then show ?thesis by (cases "ks ! p") (auto simp: passed_def is_obj_def)
  qed
  then have "filter is_obj ks = ks" by (auto simp: filter_id_conv in_set_conv_nth)
  with assms(2) show False by (simp add: key_count_def)
qed

text \<open>The slot an absent object is put into.\<close>

lemma probe_insert_slot:
  assumes "h < length ks"
    and "probe matches ks h None (length ks) = Empty a \<or> probe matches ks h None (length ks) = Wrapped (Some a)"
  obtains j where "j < length ks" "a = slot h (length ks) j" "\<not> is_obj (ks ! a)"
    "\<forall>j' < j. ks ! slot h (length ks) j' \<noteq> MP_OBJ_NULL"
  using assms(2)
proof
  assume "probe matches ks h None (length ks) = Empty a"
  with probe_correct [OF assms(1), of matches] obtain i j where
    ij: "i < length ks" "j \<le> i" "\<forall>j < i. passed matches (ks ! slot h (length ks) j)"
      "a = slot h (length ks) j" "\<forall>key. ks ! a \<noteq> Obj key"
    by (auto simp: probe_post_def)
  then show thesis by (intro that [of j]) (auto simp: is_obj_iff passed_def)
next
  assume "probe matches ks h None (length ks) = Wrapped (Some a)"
  with probe_correct [OF assms(1), of matches] obtain j where
    "j < length ks" "a = slot h (length ks) j" "ks ! a = MP_OBJ_SENTINEL"
    "\<forall>j < length ks. passed matches (ks ! slot h (length ks) j)"
    by (auto simp: probe_post_def avail_inv_def)
  then show thesis by (intro that [of j]) (auto simp: is_obj_def passed_def)
qed

section \<open>Objects as keys\<close>

text \<open>
  What the tables use of objects: equality (\<^verbatim>\<open>mp_obj_equal\<close>), the hash
  (\<^verbatim>\<open>MP_UNARY_OP_HASH\<close> and, for interned strings, \<^verbatim>\<open>qstr_hash\<close>), whether an object is an
  interned string or a string object, and whether the allocator can serve a table of \<open>n\<close>
  slots (\<^verbatim>\<open>m_new0\<close>, \<^verbatim>\<open>m_renew\<close>), which raises \<^verbatim>\<open>MemoryError\<close> otherwise.
\<close>

record 'o obj_ops =
  obj_equal :: "'o \<Rightarrow> 'o \<Rightarrow> bool"
  obj_hash :: "'o \<Rightarrow> nat"
  qstr_hash :: "'o \<Rightarrow> nat"
  is_qstr :: "'o \<Rightarrow> bool"
  is_str :: "'o \<Rightarrow> bool"
  mem_ok :: "nat \<Rightarrow> bool"

text \<open>
  The protocol of hashable objects: equality is an equivalence that respects the hash, interned
  strings are equal only when identical, and only strings are equal to an interned string.
\<close>

definition obj_laws :: "'o obj_ops \<Rightarrow> bool" where
  "obj_laws E \<longleftrightarrow> equivp (obj_equal E) \<and>
     (\<forall>a b. obj_equal E a b \<longrightarrow> obj_hash E a = obj_hash E b) \<and>
     (\<forall>a. is_qstr E a \<longrightarrow> qstr_hash E a = obj_hash E a) \<and>
     (\<forall>a b. is_qstr E a \<longrightarrow> is_qstr E b \<longrightarrow> obj_equal E a b \<longrightarrow> a = b) \<and>
     (\<forall>a b. is_qstr E a \<longrightarrow> obj_equal E a b \<longrightarrow> is_qstr E b \<or> is_str E b)"

lemma obj_lawsD:
  assumes "obj_laws E"
  shows "obj_equal E a a" "obj_equal E a b \<Longrightarrow> obj_equal E b a"
    "obj_equal E a b \<Longrightarrow> obj_equal E b c \<Longrightarrow> obj_equal E a c"
    "obj_equal E a b \<Longrightarrow> obj_hash E a = obj_hash E b"
    "is_qstr E a \<Longrightarrow> qstr_hash E a = obj_hash E a"
    "is_qstr E a \<Longrightarrow> is_qstr E b \<Longrightarrow> obj_equal E a b \<Longrightarrow> a = b"
    "is_qstr E a \<Longrightarrow> obj_equal E a b \<Longrightarrow> is_qstr E b \<or> is_str E b"
  using assms unfolding obj_laws_def
  by (blast dest: equivp_reflp equivp_symp equivp_transp)+

text \<open>Kinds of lookup; the last one is used by sets only.\<close>

datatype mp_map_lookup_kind = MP_MAP_LOOKUP | MP_MAP_LOOKUP_ADD_IF_NOT_FOUND
  | MP_MAP_LOOKUP_REMOVE_IF_FOUND | MP_MAP_LOOKUP_ADD_IF_NOT_FOUND_OR_REMOVE_IF_FOUND

definition kind_adds :: "mp_map_lookup_kind \<Rightarrow> bool" where
  "kind_adds kind \<longleftrightarrow> kind = MP_MAP_LOOKUP_ADD_IF_NOT_FOUND \<or>
     kind = MP_MAP_LOOKUP_ADD_IF_NOT_FOUND_OR_REMOVE_IF_FOUND"

definition kind_removes :: "mp_map_lookup_kind \<Rightarrow> bool" where
  "kind_removes kind \<longleftrightarrow> kind = MP_MAP_LOOKUP_REMOVE_IF_FOUND \<or>
     kind = MP_MAP_LOOKUP_ADD_IF_NOT_FOUND_OR_REMOVE_IF_FOUND"

section \<open>Table sizes\<close>

definition hash_allocation_sizes :: "nat list" where
  "hash_allocation_sizes =
     [0, 2, 4, 6, 8, 10, 12,
      17, 23, 29, 37, 47, 59, 73,
      97, 127, 167, 223, 293, 389, 521, 691, 919, 1223, 1627, 2161,
      3229, 4831, 7243, 10861, 16273, 24407, 36607, 54907]"

definition get_hash_alloc_greater_or_equal_to :: "nat \<Rightarrow> nat" where
  "get_hash_alloc_greater_or_equal_to x =
     (case find (\<lambda>sz. x \<le> sz) hash_allocation_sizes of
        Some sz \<Rightarrow> sz
      | None \<Rightarrow> or (x + x div 2) 1)"

lemma get_hash_alloc_ge: "x \<le> get_hash_alloc_greater_or_equal_to x"
proof (cases "find (\<lambda>sz. x \<le> sz) hash_allocation_sizes")
  case None
  have "x + x div 2 \<le> or (x + x div 2) 1" unfolding or_one_eq by simp
  with None show ?thesis by (simp add: get_hash_alloc_greater_or_equal_to_def)
next
  case (Some sz)
  then have "x \<le> sz" by (auto simp: find_Some_iff)
  with Some show ?thesis by (simp add: get_hash_alloc_greater_or_equal_to_def)
qed

section \<open>An example universe of objects\<close>

text \<open>Interned strings, string objects and small integers, with a hash that collides often.\<close>

datatype example_obj = Interned string | Heap_str string | Small_int nat

fun example_value :: "example_obj \<Rightarrow> string + nat" where
  "example_value (Interned cs) = Inl cs"
| "example_value (Heap_str cs) = Inl cs"
| "example_value (Small_int i) = Inr i"

definition example_ops :: "(nat \<Rightarrow> bool) \<Rightarrow> example_obj obj_ops" where
  "example_ops f = \<lparr>
     obj_equal = (\<lambda>a b. example_value a = example_value b),
     obj_hash = (\<lambda>a. case example_value a of Inl cs \<Rightarrow> length cs | Inr i \<Rightarrow> i),
     qstr_hash = (\<lambda>a. case example_value a of Inl cs \<Rightarrow> length cs | Inr i \<Rightarrow> i),
     is_qstr = (\<lambda>a. case a of Interned _ \<Rightarrow> True | _ \<Rightarrow> False),
     is_str = (\<lambda>a. case a of Heap_str _ \<Rightarrow> True | _ \<Rightarrow> False),
     mem_ok = f\<rparr>"

lemma example_ops_laws: "obj_laws (example_ops f)"
proof -
  have "equivp (\<lambda>a b. example_value a = example_value b)"
    by (rule equivpI) (auto simp: reflp_def symp_def transp_def)
  then show ?thesis
    by (auto simp: obj_laws_def example_ops_def split: example_obj.splits)
qed

end
