(* ===== verification/HashSet.thy ===== *)
theory HashSet
  imports HashProbe
begin

text \<open>
  Sets of \<^verbatim>\<open>py/map.c\<close>.  The calls between \<open>mp_set_lookup\<close> and \<open>mp_set_rehash\<close> are bounded by fuel;
  \<open>None\<close> is running out of it, which the properties rule out.  An operation returns its outcome
  (\<open>Inl\<close> an exception, \<open>Inr\<close> a value) with the state it leaves behind.
\<close>

section \<open>Operations\<close>

record 'o mp_set =
  set_alloc :: nat
  set_used :: nat
  set_table :: "'o mp_key list"

definition mp_set_init :: "'o obj_ops \<Rightarrow> nat \<Rightarrow> mp_exn + 'o mp_set" where
  "mp_set_init E n =
     (if n = 0 \<or> mem_ok E n
      then Inr \<lparr>set_alloc = n, set_used = 0, set_table = replicate n MP_OBJ_NULL\<rparr>
      else Inl MemoryError)"

definition mp_set_slot_is_filled :: "'o mp_set \<Rightarrow> nat \<Rightarrow> bool" where
  "mp_set_slot_is_filled s pos \<longleftrightarrow>
     set_table s ! pos \<noteq> MP_OBJ_NULL \<and> set_table s ! pos \<noteq> MP_OBJ_SENTINEL"

text \<open>Putting an object into a slot and deleting the object in a slot.\<close>

definition set_put :: "'o \<Rightarrow> nat \<Rightarrow> 'o mp_set \<Rightarrow> 'o mp_set" where
  "set_put index a s = s\<lparr>set_used := set_used s + 1, set_table := (set_table s)[a := Obj index]\<rparr>"

definition set_drop :: "nat \<Rightarrow> 'o mp_set \<Rightarrow> 'o mp_set" where
  "set_drop pos s = s\<lparr>set_used := set_used s - 1,
     set_table := (set_table s)[pos := vacated (set_table s) pos]\<rparr>"

fun key_obj :: "'o mp_key \<Rightarrow> 'o option" where
  "key_obj (Obj key) = Some key"
| "key_obj _ = None"

fun mp_set_lookup_n :: "nat \<Rightarrow> 'o obj_ops \<Rightarrow> mp_map_lookup_kind \<Rightarrow> 'o \<Rightarrow> 'o mp_set \<Rightarrow>
    ((mp_exn + 'o option) \<times> 'o mp_set) option"
  and mp_set_search_n :: "nat \<Rightarrow> 'o obj_ops \<Rightarrow> mp_map_lookup_kind \<Rightarrow> 'o \<Rightarrow> 'o mp_set \<Rightarrow>
    ((mp_exn + 'o option) \<times> 'o mp_set) option"
  and mp_set_rehash_n :: "nat \<Rightarrow> 'o obj_ops \<Rightarrow> 'o mp_set \<Rightarrow> ((mp_exn + unit) \<times> 'o mp_set) option" where
  "mp_set_lookup_n 0 E kind index s = None"
| "mp_set_search_n 0 E kind index s = None"
| "mp_set_rehash_n 0 E s = None"
| "mp_set_lookup_n (Suc n) E kind index s =
     (if set_alloc s = 0 then
        (if kind_adds kind then
           (case mp_set_rehash_n n E s of
              Some (Inr _, s) \<Rightarrow> mp_set_search_n n E kind index s
            | Some (Inl e, s) \<Rightarrow> Some (Inl e, s)
            | None \<Rightarrow> None)
         else Some (Inr None, s))
      else mp_set_search_n n E kind index s)"
| "mp_set_search_n (Suc n) E kind index s =
     (case probe (\<lambda>elem. obj_equal E elem index) (set_table s) (obj_hash E index mod set_alloc s)
             None (set_alloc s) of
        Empty a \<Rightarrow> if kind_adds kind then Some (Inr (Some index), set_put index a s)
                   else Some (Inr None, s)
      | Found pos \<Rightarrow> Some (Inr (key_obj (set_table s ! pos)),
                          if kind_removes kind then set_drop pos s else s)
      | Wrapped (Some a) \<Rightarrow> if kind_adds kind then Some (Inr (Some index), set_put index a s)
                            else Some (Inr None, s)
      | Wrapped None \<Rightarrow>
          if kind_adds kind then
            (case mp_set_rehash_n n E s of
               Some (Inr _, s) \<Rightarrow> mp_set_search_n n E kind index s
             | Some (Inl e, s) \<Rightarrow> Some (Inl e, s)
             | None \<Rightarrow> None)
          else Some (Inr None, s))"
| "mp_set_rehash_n (Suc n) E s =
     (let old_table = set_table s;
          s = s\<lparr>set_alloc := get_hash_alloc_greater_or_equal_to (set_alloc s + 1), set_used := 0\<rparr>
      in if \<not> mem_ok E (set_alloc s) then Some (Inl MemoryError, s)
         else fold (\<lambda>k r. case r of
                  Some (Inr _, s) \<Rightarrow>
                    (case k of
                       Obj key \<Rightarrow>
                         (case mp_set_lookup_n n E MP_MAP_LOOKUP_ADD_IF_NOT_FOUND key s of
                            Some (Inr _, s) \<Rightarrow> Some (Inr (), s)
                          | Some (Inl e, s) \<Rightarrow> Some (Inl e, s)
                          | None \<Rightarrow> None)
                     | _ \<Rightarrow> Some (Inr (), s))
                | _ \<Rightarrow> r)
                old_table
                (Some (Inr (), s\<lparr>set_table := replicate (set_alloc s) MP_OBJ_NULL\<rparr>)))"

declare mp_set_lookup_n.simps [simp del] mp_set_search_n.simps [simp del] mp_set_rehash_n.simps [simp del]

definition mp_set_lookup :: "'o obj_ops \<Rightarrow> mp_map_lookup_kind \<Rightarrow> 'o \<Rightarrow> 'o mp_set \<Rightarrow>
    ((mp_exn + 'o option) \<times> 'o mp_set) option" where
  "mp_set_lookup = mp_set_lookup_n 5"

fun first_filled :: "'o mp_key list \<Rightarrow> nat \<Rightarrow> nat option" where
  "first_filled [] pos = None"
| "first_filled (k # ks) pos = (case k of Obj _ \<Rightarrow> Some pos | _ \<Rightarrow> first_filled ks (pos + 1))"

definition mp_set_remove_first :: "'o mp_set \<Rightarrow> 'o option \<times> 'o mp_set" where
  "mp_set_remove_first s =
     (case first_filled (take (set_alloc s) (set_table s)) 0 of
        Some pos \<Rightarrow> (key_obj (set_table s ! pos), set_drop pos s)
      | None \<Rightarrow> (None, s))"

definition mp_set_clear :: "'o mp_set \<Rightarrow> 'o mp_set" where
  "mp_set_clear s = s\<lparr>set_alloc := 0, set_used := 0, set_table := []\<rparr>"

section \<open>Invariant and contents\<close>

definition set_ok :: "'o obj_ops \<Rightarrow> 'o mp_set \<Rightarrow> bool" where
  "set_ok E s \<longleftrightarrow> set_alloc s = length (set_table s) \<and> set_used s = key_count (set_table s) \<and>
     reachable_keys (obj_hash E) (set_table s) \<and> distinct_keys (obj_equal E) (set_table s)"

definition set_elems :: "'o mp_set \<Rightarrow> 'o set" where
  "set_elems s = key_set (set_table s)"

text \<open>What a lookup promises of its result and of the set it leaves.\<close>

definition set_lookup_post :: "'o obj_ops \<Rightarrow> mp_map_lookup_kind \<Rightarrow> 'o \<Rightarrow> 'o mp_set \<Rightarrow> 'o option \<Rightarrow> 'o mp_set \<Rightarrow> bool" where
  "set_lookup_post E kind index s r t \<longleftrightarrow> set_ok E t \<and>
     (\<forall>elem \<in> set_elems s. obj_equal E elem index \<longrightarrow> r = Some elem \<and>
        set_elems t = (if kind_removes kind then set_elems s - {elem} else set_elems s)) \<and>
     ((\<forall>elem \<in> set_elems s. \<not> obj_equal E elem index) \<longrightarrow>
        r = (if kind_adds kind then Some index else None) \<and>
        set_elems t = (if kind_adds kind then insert index (set_elems s) else set_elems s))"

lemma key_set_update:
  assumes "a < length ks" and "\<not> is_obj (ks ! a)"
  shows "key_set (ks[a := Obj index]) = insert index (key_set ks)"
proof -
  have "Obj k \<in> set (ks[a := Obj index]) \<longleftrightarrow> k = index \<or> Obj k \<in> set ks" for k
    using assms
    by (auto simp: in_set_conv_nth nth_list_update is_obj_iff)
  then show ?thesis by (auto simp: key_set_def)
qed

lemma key_set_vacate:
  assumes "distinct_keys (obj_equal E) ks" and "obj_laws E" and "p < length ks" and "ks ! p = Obj key"
    and "\<not> is_obj x"
  shows "key_set (ks[p := x]) = key_set ks - {key}"
proof -
  have "ks[p := x] ! q = Obj k \<longleftrightarrow> ks ! q = Obj k \<and> k \<noteq> key" if q: "q < length ks" for q k
  proof (cases "q = p")
    case True
    then show ?thesis using assms(3-5) by (auto simp: is_obj_iff)
  next
    case False
    then have "k \<noteq> key" if "ks ! q = Obj k"
      using assms(1,3,4) q that obj_lawsD(1) [OF assms(2), of key] by (auto simp: distinct_keys_def)
    with False show ?thesis by auto
  qed
  then show ?thesis by (simp add: set_eq_iff key_set_nth) blast
qed

lemma distinct_keys_Cons:
  assumes "distinct_keys R (k # ks)"
  shows "distinct_keys R ks" and "k = Obj a \<Longrightarrow> b \<in> key_set ks \<Longrightarrow> \<not> R a b"
proof -
  show "distinct_keys R ks"
    unfolding distinct_keys_def
  proof (intro allI impI)
    fix p q a b assume "p < length ks" "q < length ks" "ks ! p = Obj a" "ks ! q = Obj b" "R a b"
    with assms [unfolded distinct_keys_def, rule_format, of "Suc p" "Suc q" a b] show "p = q" by simp
  qed
  assume "k = Obj a" and "b \<in> key_set ks"
  then obtain q where "q < length ks" "ks ! q = Obj b" by (auto simp: key_set_nth)
  with assms [unfolded distinct_keys_def, rule_format, of 0 "Suc q" a b] \<open>k = Obj a\<close> show "\<not> R a b" by auto
qed

lemma key_set_Cons: "key_set (k # ks) = (case k of Obj a \<Rightarrow> insert a (key_set ks) | _ \<Rightarrow> key_set ks)"
  by (cases k) (auto simp: key_set_def)

lemma key_count_card:
  assumes "obj_laws E" and "distinct_keys (obj_equal E) ks"
  shows "key_count ks = card (key_set ks)" and "finite (key_set ks)"
proof -
  have "key_count ks = card (key_set ks) \<and> finite (key_set ks)" using assms(2)
  proof (induction ks)
    case Nil
    show ?case by (simp add: key_count_def key_set_def)
  next
    case (Cons k ks)
    note IH = Cons.IH [OF distinct_keys_Cons(1) [OF Cons.prems]]
    show ?case
    proof (cases k)
      case (Obj a)
      then have "a \<notin> key_set ks"
        using distinct_keys_Cons(2) [OF Cons.prems, of a a] obj_lawsD(1) [OF assms(1)] by auto
      with IH Obj show ?thesis by (simp add: key_set_Cons key_count_def is_obj_def)
    qed (use IH in \<open>simp_all add: key_set_Cons key_count_def is_obj_def\<close>)
  qed
  then show "key_count ks = card (key_set ks)" "finite (key_set ks)" by auto
qed

lemma set_used_card:
  assumes "obj_laws E" and "set_ok E s"
  shows "set_used s = card (set_elems s)" and "finite (set_elems s)"
  using key_count_card [OF assms(1)] assms(2) by (auto simp: set_ok_def set_elems_def)

lemma set_put_ok:
  assumes "obj_laws E" and ok: "set_ok E s" and "\<forall>elem \<in> set_elems s. \<not> obj_equal E elem index"
    and j: "j < length (set_table s)"
      "a = slot (obj_hash E index mod length (set_table s)) (length (set_table s)) j"
      "\<not> is_obj (set_table s ! a)"
      "\<forall>j' < j. set_table s ! slot (obj_hash E index mod length (set_table s)) (length (set_table s)) j' \<noteq> MP_OBJ_NULL"
  shows "set_ok E (set_put index a s)" and "set_elems (set_put index a s) = insert index (set_elems s)"
proof -
  have n: "0 < length (set_table s)" using j(1) by linarith
  then have a: "a < length (set_table s)" using j(2) by simp
  show "set_elems (set_put index a s) = insert index (set_elems s)"
    by (simp add: set_elems_def set_put_def key_set_update [OF a j(3)])
  have "distinct_keys (obj_equal E) ((set_table s)[a := Obj index])"
    using ok assms(3) obj_lawsD(2) [OF assms(1)] a
    by (intro distinct_keys_insert) (auto simp: set_ok_def set_elems_def)
  moreover have "reachable_keys (obj_hash E) ((set_table s)[a := Obj index])"
    using ok j by (intro reachable_keys_insert) (auto simp: set_ok_def)
  moreover have "key_count ((set_table s)[a := Obj index]) = key_count (set_table s) + 1"
    using key_count_update [OF a, of "Obj index"] j(3) by (simp add: is_obj_def)
  ultimately show "set_ok E (set_put index a s)" using ok by (simp add: set_ok_def set_put_def)
qed

lemma set_drop_ok:
  assumes "obj_laws E" and ok: "set_ok E s" and p: "p < length (set_table s)" "set_table s ! p = Obj key"
  shows "set_ok E (set_drop p s)" and "set_elems (set_drop p s) = set_elems s - {key}"
proof -
  let ?ks = "set_table s"
  show "set_elems (set_drop p s) = set_elems s - {key}"
    using key_set_vacate [OF _ assms(1) p, of "vacated ?ks p"] ok
    by (simp add: set_elems_def set_drop_def set_ok_def)
  have "key_count (?ks[p := vacated ?ks p]) + 1 = key_count ?ks"
    using key_count_update [OF p(1), of "vacated ?ks p"] p(2) by (simp add: is_obj_def [of "Obj key"])
  then show "set_ok E (set_drop p s)"
    using ok reachable_keys_remove [of "obj_hash E" ?ks p] distinct_keys_vacate [of "obj_equal E" ?ks "vacated ?ks p" p] p(1)
    by (simp add: set_ok_def set_drop_def)
qed

section \<open>Lookups\<close>

lemma set_ok_elem:
  assumes "obj_laws E" and "set_ok E s" and "elem \<in> set_elems s" and "obj_equal E elem index"
  obtains p where "p < length (set_table s)" "set_table s ! p = Obj elem"
    "probe (\<lambda>elem. obj_equal E elem index) (set_table s) (obj_hash E index mod length (set_table s))
       None (length (set_table s)) = Found p"
proof -
  obtain p where p: "p < length (set_table s)" "set_table s ! p = Obj elem"
    using assms(3) by (auto simp: set_elems_def key_set_nth)
  moreover have "0 < length (set_table s)" using p(1) by linarith
  moreover have "obj_equal E k elem" if "obj_equal E k index" for k
    using obj_lawsD(2,3) [OF assms(1)] that assms(4) by blast
  ultimately show thesis
    using that [of p] probe_found [of "set_table s" "obj_hash E" "obj_equal E" p elem index
        "\<lambda>elem. obj_equal E elem index"] assms obj_lawsD(4) [OF assms(1,4)]
    by (auto simp: set_ok_def)
qed

lemma set_search_post:
  assumes laws: "obj_laws E" and ok: "set_ok E s" and n: "0 < set_alloc s"
    and room: "\<not> kind_adds kind \<or> (\<exists>elem \<in> set_elems s. obj_equal E elem index) \<or> set_used s < set_alloc s"
  obtains r t where "mp_set_search_n (Suc m) E kind index s = Some (Inr r, t)"
    and "set_lookup_post E kind index s r t" and "set_alloc t = set_alloc s"
proof (cases "\<exists>elem \<in> set_elems s. obj_equal E elem index")
  case True
  then obtain elem where e: "elem \<in> set_elems s" "obj_equal E elem index" by blast
  obtain p where p: "p < length (set_table s)" "set_table s ! p = Obj elem"
    "probe (\<lambda>elem. obj_equal E elem index) (set_table s) (obj_hash E index mod length (set_table s))
       None (length (set_table s)) = Found p" using set_ok_elem [OF laws ok e] .
  have uniq: "elem' = elem" if e': "elem' \<in> set_elems s" "obj_equal E elem' index" for elem'
  proof -
    obtain p' where "set_table s ! p' = Obj elem'"
      "probe (\<lambda>elem. obj_equal E elem index) (set_table s) (obj_hash E index mod length (set_table s))
       None (length (set_table s)) = Found p'" using set_ok_elem [OF laws ok e'] by blast
    with p show ?thesis by simp
  qed
  let ?t = "if kind_removes kind then set_drop p s else s"
  have t: "set_ok E ?t" "set_elems ?t = (if kind_removes kind then set_elems s - {elem} else set_elems s)"
    using set_drop_ok [OF laws ok p(1,2)] ok by auto
  have "set_lookup_post E kind index s (Some elem) ?t"
    unfolding set_lookup_post_def
  proof (intro conjI ballI impI)
    fix x assume "x \<in> set_elems s" and "obj_equal E x index"
    then have "x = elem" by (rule uniq)
    then show "Some elem = Some x" "set_elems ?t = (if kind_removes kind then set_elems s - {x} else set_elems s)"
      using t(2) by simp_all
  qed (use t(1) e in blast)+
  moreover have "mp_set_search_n (Suc m) E kind index s = Some (Inr (Some elem), ?t)"
    using p ok by (simp add: set_ok_def mp_set_search_n.simps)
  moreover have "set_alloc ?t = set_alloc s" by (simp add: set_drop_def)
  ultimately show thesis by (intro that)
next
  case False
  let ?ks = "set_table s" and ?h = "obj_hash E index mod length (set_table s)"
  have len: "set_alloc s = length ?ks" using ok by (simp add: set_ok_def)
  have h: "?h < length ?ks" using n len by simp
  let ?pr = "probe (\<lambda>elem. obj_equal E elem index) ?ks ?h None (length ?ks)"
  have nf: "?pr \<noteq> Found p" for p
    using False n len by (intro probe_not_found) (auto simp: set_elems_def)
  have put: "set_lookup_post E kind index s (Some index) (set_put index a s) \<and>
      set_alloc (set_put index a s) = set_alloc s"
    if a: "?pr = Empty a \<or> ?pr = Wrapped (Some a)" "kind_adds kind" for a
  proof -
    obtain j where "j < length ?ks" "a = slot ?h (length ?ks) j" "\<not> is_obj (?ks ! a)"
      "\<forall>j' < j. ?ks ! slot ?h (length ?ks) j' \<noteq> MP_OBJ_NULL"
      using probe_insert_slot [OF h a(1)] .
    note put = set_put_ok [OF laws ok _ this]
    have none: "\<forall>elem \<in> set_elems s. \<not> obj_equal E elem index" using False by blast
    have "set_alloc (set_put index a s) = set_alloc s" by (simp add: set_put_def)
    moreover have "set_lookup_post E kind index s (Some index) (set_put index a s)"
      unfolding set_lookup_post_def using put [OF none] none a(2) by auto
    ultimately show ?thesis by blast
  qed
  show thesis
  proof (cases "kind_adds kind")
    case False
    with \<open>\<not> (\<exists>elem \<in> set_elems s. obj_equal E elem index)\<close> ok
    have "set_lookup_post E kind index s None s" by (auto simp: set_lookup_post_def)
    moreover have "mp_set_search_n (Suc m) E kind index s = Some (Inr None, s)"
      using nf False len by (cases ?pr) (auto simp: mp_set_search_n.simps split: option.split)
    ultimately show thesis by (intro that [of None s]) auto
  next
    case True
    with room False ok len have "?pr \<noteq> Wrapped None" by (intro probe_room) (use h in \<open>auto simp: set_ok_def\<close>)
    with nf obtain a where a: "?pr = Empty a \<or> ?pr = Wrapped (Some a)"
      by (cases ?pr) (auto elim: option.exhaust)
    with True have "mp_set_search_n (Suc m) E kind index s = Some (Inr (Some index), set_put index a s)"
      by (auto simp: len mp_set_search_n.simps)
    then show thesis using that put [OF a True] by blast
  qed
qed

lemma set_lookup_no_rehash:
  assumes "obj_laws E" and "set_ok E s" and "0 < set_alloc s"
    and "\<not> kind_adds kind \<or> (\<exists>elem \<in> set_elems s. obj_equal E elem index) \<or> set_used s < set_alloc s"
  obtains r t where "mp_set_lookup_n (Suc (Suc m)) E kind index s = Some (Inr r, t)"
    and "set_lookup_post E kind index s r t" and "set_alloc t = set_alloc s"
proof -
  obtain r t where "mp_set_search_n (Suc m) E kind index s = Some (Inr r, t)"
    "set_lookup_post E kind index s r t" "set_alloc t = set_alloc s"
    using set_search_post [OF assms] .
  then show thesis using that assms(3) by (simp add: mp_set_lookup_n.simps)
qed

section \<open>Rehashing\<close>

definition set_reinsert :: "nat \<Rightarrow> 'o obj_ops \<Rightarrow> 'o mp_key \<Rightarrow> ((mp_exn + unit) \<times> 'o mp_set) option \<Rightarrow>
    ((mp_exn + unit) \<times> 'o mp_set) option" where
  "set_reinsert n E k r = (case r of
     Some (Inr _, s) \<Rightarrow>
       (case k of
          Obj key \<Rightarrow>
            (case mp_set_lookup_n n E MP_MAP_LOOKUP_ADD_IF_NOT_FOUND key s of
               Some (Inr _, s) \<Rightarrow> Some (Inr (), s)
             | Some (Inl e, s) \<Rightarrow> Some (Inl e, s)
             | None \<Rightarrow> None)
        | _ \<Rightarrow> Some (Inr (), s))
   | _ \<Rightarrow> r)"

lemma mp_set_rehash_n_reinsert:
  "mp_set_rehash_n (Suc n) E s =
     (let s' = s\<lparr>set_alloc := get_hash_alloc_greater_or_equal_to (set_alloc s + 1), set_used := 0\<rparr>
      in if \<not> mem_ok E (set_alloc s') then Some (Inl MemoryError, s')
         else fold (set_reinsert n E) (set_table s)
                (Some (Inr (), s'\<lparr>set_table := replicate (set_alloc s') MP_OBJ_NULL\<rparr>)))"
  by (simp add: mp_set_rehash_n.simps set_reinsert_def [abs_def] Let_def)

lemma set_reinsert_all:
  assumes laws: "obj_laws E" and "set_ok E s" and "set_used s + key_count ks < set_alloc s"
    and "distinct_keys (obj_equal E) ks"
    and "\<forall>a \<in> set_elems s. \<forall>b \<in> key_set ks. \<not> obj_equal E a b"
  shows "\<exists>t. fold (set_reinsert (Suc (Suc n)) E) ks (Some (Inr (), s)) = Some (Inr (), t) \<and> set_ok E t \<and>
    set_alloc t = set_alloc s \<and> set_elems t = set_elems s \<union> key_set ks"
  using assms(2-5)
proof (induction ks arbitrary: s)
  case Nil
  then show ?case by (simp add: key_set_def)
next
  case (Cons k ks)
  note d = distinct_keys_Cons [OF Cons.prems(3)]
  show ?case
  proof (cases k)
    case (Obj a)
    have absent: "\<forall>x \<in> set_elems s. \<not> obj_equal E x a" using Cons.prems(4) Obj by (simp add: key_set_Cons)
    have room: "set_used s < set_alloc s" "0 < set_alloc s" using Cons.prems(2) by auto
    obtain r t where t: "mp_set_lookup_n (Suc (Suc n)) E MP_MAP_LOOKUP_ADD_IF_NOT_FOUND a s = Some (Inr r, t)"
      "set_lookup_post E MP_MAP_LOOKUP_ADD_IF_NOT_FOUND a s r t" "set_alloc t = set_alloc s"
      using set_lookup_no_rehash [OF laws Cons.prems(1) room(2)] room(1) by metis
    have e: "set_ok E t" "set_elems t = insert a (set_elems s)"
      using t(2) absent by (simp_all add: set_lookup_post_def kind_adds_def)
    have "a \<notin> set_elems s" using absent obj_lawsD(1) [OF laws] by blast
    then have "set_used t = set_used s + 1"
      using set_used_card [OF laws e(1)] set_used_card [OF laws Cons.prems(1)] e(2) by simp
    moreover have "key_count (k # ks) = key_count ks + 1" using Obj by (simp add: key_count_def is_obj_def)
    moreover have "\<forall>x \<in> set_elems t. \<forall>b \<in> key_set ks. \<not> obj_equal E x b"
      using e(2) d(2) [OF Obj] Cons.prems(4) Obj by (auto simp: key_set_Cons)
    ultimately obtain u where "fold (set_reinsert (Suc (Suc n)) E) ks (Some (Inr (), t)) = Some (Inr (), u)"
      "set_ok E u" "set_alloc u = set_alloc t" "set_elems u = set_elems t \<union> key_set ks"
      using Cons.IH [OF e(1) _ d(1)] Cons.prems(2) t(3) by auto
    moreover have "set_reinsert (Suc (Suc n)) E k (Some (Inr (), s)) = Some (Inr (), t)"
      using t(1) Obj by (simp add: set_reinsert_def)
    ultimately show ?thesis using t(3) Obj e(2) by (auto simp: key_set_Cons)
  qed (use Cons.IH [OF Cons.prems(1) _ d(1)] Cons.prems set_reinsert_def [of "Suc (Suc n)" E k] in
      \<open>simp_all add: key_set_Cons key_count_def is_obj_def\<close>)
qed

lemma set_rehash_ok:
  assumes laws: "obj_laws E" and ok: "set_ok E s"
    and mem: "mem_ok E (get_hash_alloc_greater_or_equal_to (set_alloc s + 1))"
  obtains t where "mp_set_rehash_n (Suc (Suc (Suc n))) E s = Some (Inr (), t)" and "set_ok E t"
    and "set_elems t = set_elems s" and "set_used t < set_alloc t" and "set_used t = set_used s"
proof -
  let ?m = "get_hash_alloc_greater_or_equal_to (set_alloc s + 1)"
  let ?f = "s\<lparr>set_alloc := ?m, set_used := 0, set_table := replicate ?m MP_OBJ_NULL\<rparr>"
  have m: "set_alloc s < ?m" using get_hash_alloc_ge [of "set_alloc s + 1"] by simp
  have empty: "set_elems ?f = {}" by (auto simp: set_elems_def key_set_def)
  have "set_ok E ?f"
    by (simp add: set_ok_def key_count_def is_obj_def reachable_keys_def distinct_keys_def)
  moreover have "key_count (set_table s) < ?m"
    using m ok key_count_le [of "set_table s"] by (simp add: set_ok_def)
  ultimately obtain t where t: "fold (set_reinsert (Suc (Suc n)) E) (set_table s) (Some (Inr (), ?f)) = Some (Inr (), t)"
    "set_ok E t" "set_alloc t = ?m" "set_elems t = set_elems ?f \<union> key_set (set_table s)"
    using set_reinsert_all [OF laws, of ?f "set_table s" n] ok empty by (auto simp: set_ok_def)
  have e: "set_elems t = set_elems s" using t(4) empty by (simp add: set_elems_def)
  then have u: "set_used t = set_used s" using set_used_card [OF laws] t(2) ok by simp
  show thesis
    using that [of t] t e u mem m ok key_count_le [of "set_table s"]
    by (simp add: mp_set_rehash_n_reinsert Let_def set_ok_def)
qed

section \<open>Properties\<close>

lemma set_lookup_post_rehashed:
  assumes "set_lookup_post E kind index t r u" and "set_elems t = set_elems s"
  shows "set_lookup_post E kind index s r u"
  using assms by (simp add: set_lookup_post_def)

lemma four_Suc: "(4 :: nat) = Suc 3" "(5 :: nat) = Suc 4"
  by simp_all

lemma mp_set_lookup_eq:
  "mp_set_lookup E kind index s =
     (if set_alloc s = 0 then
        (if kind_adds kind then
           (case mp_set_rehash_n 4 E s of
              Some (Inr _, t) \<Rightarrow> mp_set_search_n 4 E kind index t
            | Some (Inl e, t) \<Rightarrow> Some (Inl e, t)
            | None \<Rightarrow> None)
         else Some (Inr None, s))
      else mp_set_search_n 4 E kind index s)"
  unfolding mp_set_lookup_def four_Suc(2) mp_set_lookup_n.simps(2) ..

lemma mp_set_lookup_full:
  assumes ok: "set_ok E s" and adds: "kind_adds kind"
    and absent: "\<forall>elem \<in> set_elems s. \<not> obj_equal E elem index" and full: "set_used s = set_alloc s"
  obtains n where "mp_set_lookup E kind index s =
    (case mp_set_rehash_n (Suc (Suc (Suc n))) E s of
       Some (Inr _, t) \<Rightarrow> mp_set_search_n (Suc (Suc (Suc n))) E kind index t
     | Some (Inl e, t) \<Rightarrow> Some (Inl e, t)
     | None \<Rightarrow> None)"
proof (cases "set_alloc s = 0")
  case True
  have "(4 :: nat) = Suc (Suc (Suc 1))" by simp
  with True adds show thesis by (intro that [of 1]) (simp only: mp_set_lookup_eq simp_thms if_True)
next
  case False
  let ?ks = "set_table s" and ?h = "obj_hash E index mod length (set_table s)"
  let ?pr = "probe (\<lambda>elem. obj_equal E elem index) ?ks ?h None (length ?ks)"
  have len: "set_alloc s = length ?ks" and h: "?h < length ?ks" and cnt: "key_count ?ks = length ?ks"
    using ok False full by (auto simp: set_ok_def)
  have all: "is_obj (?ks ! p)" if "p < length ?ks" for p
  proof -
    have "filter is_obj ?ks = ?ks" using cnt length_filter_less [of _ ?ks is_obj]
      by (auto simp: key_count_def filter_id_conv)
    then show ?thesis using that by (metis filter_id_conv nth_mem)
  qed
  have "?pr \<noteq> Found p" for p
    using absent h by (intro probe_not_found) (auto simp: set_elems_def)
  moreover have "\<not> (?pr = Empty a \<or> ?pr = Wrapped (Some a))" for a
  proof
    assume "?pr = Empty a \<or> ?pr = Wrapped (Some a)"
    then obtain j where "a = slot ?h (length ?ks) j" "\<not> is_obj (?ks ! a)"
      using probe_insert_slot [OF h] by metis
    moreover have "0 < length ?ks" using h by linarith
    ultimately show False using all [of a] by simp
  qed
  ultimately have "?pr = Wrapped None" by (cases ?pr) (auto elim: option.exhaust)
  then have "mp_set_search_n (Suc m) E kind index s =
    (case mp_set_rehash_n m E s of
       Some (Inr _, t) \<Rightarrow> mp_set_search_n m E kind index t
     | Some (Inl e, t) \<Rightarrow> Some (Inl e, t)
     | None \<Rightarrow> None)" for m
    using adds len by (simp add: mp_set_search_n.simps(2))
  from this [of 3] have "mp_set_lookup E kind index s =
    (case mp_set_rehash_n 3 E s of
       Some (Inr _, t) \<Rightarrow> mp_set_search_n 3 E kind index t
     | Some (Inl e, t) \<Rightarrow> Some (Inl e, t)
     | None \<Rightarrow> None)"
    using False by (simp add: mp_set_lookup_eq)
  then show thesis unfolding numeral_3_eq_3 by (rule that)
qed

text \<open>
  C8 (refinement): \<open>mp_set_lookup\<close> implements the operations of a finite set.  On a well-formed set,
  and when the allocator can serve the next larger table, every kind of lookup returns (it runs
  through at most one rehash), keeps the set well-formed, finds an element exactly when an equal
  one is in the set, adds the index when it is absent and adding is asked for, and removes the
  equal element when removing is asked for.
\<close>

theorem mp_set_lookup_refines_set:
  assumes laws: "obj_laws E" and ok: "set_ok E s"
    and mem: "mem_ok E (get_hash_alloc_greater_or_equal_to (set_alloc s + 1))"
  shows "\<exists>r t. mp_set_lookup E kind index s = Some (Inr r, t) \<and> set_ok E t \<and>
    (\<forall>elem \<in> set_elems s. obj_equal E elem index \<longrightarrow> r = Some elem \<and>
       set_elems t = (if kind_removes kind then set_elems s - {elem} else set_elems s)) \<and>
    ((\<forall>elem \<in> set_elems s. \<not> obj_equal E elem index) \<longrightarrow>
       r = (if kind_adds kind then Some index else None) \<and>
       set_elems t = (if kind_adds kind then insert index (set_elems s) else set_elems s)) \<and>
    set_used t = card (set_elems t)"
proof -
  have "\<exists>r t. mp_set_lookup E kind index s = Some (Inr r, t) \<and> set_lookup_post E kind index s r t"
  proof (cases "kind_adds kind \<and> (\<forall>elem \<in> set_elems s. \<not> obj_equal E elem index) \<and> set_used s = set_alloc s")
    case True
    then have adds: "kind_adds kind" and absent: "\<forall>elem \<in> set_elems s. \<not> obj_equal E elem index"
      and full: "set_used s = set_alloc s" by auto
    obtain n where n: "mp_set_lookup E kind index s =
      (case mp_set_rehash_n (Suc (Suc (Suc n))) E s of
         Some (Inr _, t) \<Rightarrow> mp_set_search_n (Suc (Suc (Suc n))) E kind index t
       | Some (Inl e, t) \<Rightarrow> Some (Inl e, t)
       | None \<Rightarrow> None)"
      using mp_set_lookup_full [OF ok adds absent full] .
    obtain t where t: "mp_set_rehash_n (Suc (Suc (Suc n))) E s = Some (Inr (), t)" "set_ok E t"
      "set_elems t = set_elems s" "set_used t < set_alloc t"
      using set_rehash_ok [OF laws ok mem] by metis
    obtain r u where "mp_set_search_n (Suc (Suc (Suc n))) E kind index t = Some (Inr r, u)"
      "set_lookup_post E kind index t r u"
      using set_search_post [OF laws t(2)] t(4) by (metis gr_implies_not_zero not_gr_zero)
    then show ?thesis using t(1) set_lookup_post_rehashed [OF _ t(3)] unfolding n by auto
  next
    case False
    have le: "set_used s \<le> set_alloc s" using ok key_count_le by (auto simp: set_ok_def)
    show ?thesis
    proof (cases "set_alloc s = 0")
      case True
      then have "set_elems s = {}" using ok by (simp add: set_ok_def set_elems_def key_set_def)
      then show ?thesis
        using True False ok le by (auto simp: mp_set_lookup_eq set_lookup_post_def)
    next
      case n: False
      have "\<not> kind_adds kind \<or> (\<exists>elem \<in> set_elems s. obj_equal E elem index) \<or> set_used s < set_alloc s"
        using False le by auto
      then obtain r t where "mp_set_search_n (Suc 3) E kind index s = Some (Inr r, t)"
        "set_lookup_post E kind index s r t" using set_search_post [OF laws ok] n by (metis not_gr_zero)
      with n show ?thesis by (auto simp: mp_set_lookup_eq)
    qed
  qed
  then obtain r t where "mp_set_lookup E kind index s = Some (Inr r, t)" "set_lookup_post E kind index s r t" by blast
  then show ?thesis using set_used_card(1) [OF laws, of t] unfolding set_lookup_post_def by blast
qed

text \<open>A full set of two small integers.\<close>

definition set_example :: "example_obj mp_set" where
  "set_example = \<lparr>set_alloc = 2, set_used = 2, set_table = [Obj (Small_int 0), Obj (Small_int 1)]\<rparr>"

lemma less_2: "p < Suc (Suc 0) \<longleftrightarrow> p = 0 \<or> p = Suc 0"
  by auto

lemma set_example_ok: "set_ok (example_ops f) set_example"
  by (auto simp: set_ok_def set_example_def key_count_def is_obj_def reachable_keys_def
      distinct_keys_def less_2 slot_def example_ops_def intro!: exI [of _ 0])

lemma set_example_elems: "set_elems set_example = {Small_int 0, Small_int 1}"
  by (auto simp: set_elems_def key_set_def set_example_def)

theorem mp_set_lookup_refines_set_witness:
  "\<exists>r t. mp_set_lookup (example_ops (\<lambda>_. True)) MP_MAP_LOOKUP_ADD_IF_NOT_FOUND (Small_int 6) set_example =
       Some (Inr r, t) \<and> r = Some (Small_int 6) \<and>
     set_elems t = {Small_int 6, Small_int 0, Small_int 1} \<and> set_used t = 3"
  using mp_set_lookup_refines_set [OF example_ops_laws set_example_ok, of "\<lambda>_. True"
      MP_MAP_LOOKUP_ADD_IF_NOT_FOUND "Small_int 6"]
  by (auto simp: set_example_elems example_ops_def kind_adds_def)

text \<open>
  C12 (error): a failed rehash corrupts the set.  When a full set must grow to take a new element
  and the allocator fails, \<open>mp_set_lookup\<close> raises \<^verbatim>\<open>MemoryError\<close> and leaves the old table in place
  with the new, larger \<^verbatim>\<open>alloc\<close> and \<^verbatim>\<open>used\<close> 0: the set has lost its length, and the next
  lookup probes slots past the end of the table.
\<close>

theorem mp_set_lookup_memory_error_corrupts:
  assumes ok: "set_ok E s" and full: "set_used s = set_alloc s"
    and absent: "\<forall>elem \<in> set_elems s. \<not> obj_equal E elem index"
    and mem: "\<not> mem_ok E (get_hash_alloc_greater_or_equal_to (set_alloc s + 1))"
  shows "\<exists>t. mp_set_lookup E MP_MAP_LOOKUP_ADD_IF_NOT_FOUND index s = Some (Inl MemoryError, t) \<and>
    set_table t = set_table s \<and> set_used t = 0 \<and> length (set_table t) < set_alloc t"
proof -
  have grow: "set_alloc s < get_hash_alloc_greater_or_equal_to (set_alloc s + 1)"
    using get_hash_alloc_ge [of "set_alloc s + 1"] by simp
  have "mp_set_rehash_n (Suc n) E s = Some (Inl MemoryError,
      s\<lparr>set_alloc := get_hash_alloc_greater_or_equal_to (set_alloc s + 1), set_used := 0\<rparr>)" for n
    using mem by (simp add: mp_set_rehash_n_reinsert Let_def)
  moreover obtain n where "mp_set_lookup E MP_MAP_LOOKUP_ADD_IF_NOT_FOUND index s =
      (case mp_set_rehash_n (Suc (Suc (Suc n))) E s of
         Some (Inr _, t) \<Rightarrow> mp_set_search_n (Suc (Suc (Suc n))) E MP_MAP_LOOKUP_ADD_IF_NOT_FOUND index t
       | Some (Inl e, t) \<Rightarrow> Some (Inl e, t)
       | None \<Rightarrow> None)"
    using mp_set_lookup_full [OF ok _ absent full, of MP_MAP_LOOKUP_ADD_IF_NOT_FOUND] by (auto simp: kind_adds_def)
  ultimately show ?thesis using grow ok by (simp add: set_ok_def)
qed

theorem mp_set_lookup_memory_error_corrupts_witness:
  "\<exists>t. mp_set_lookup (example_ops (\<lambda>_. False)) MP_MAP_LOOKUP_ADD_IF_NOT_FOUND (Small_int 6) set_example =
     Some (Inl MemoryError, t) \<and> 2 < set_alloc t \<and> set_used t = 0 \<and> length (set_table t) = 2"
proof -
  have full: "set_used set_example = set_alloc set_example" by (simp add: set_example_def)
  have absent: "\<forall>elem \<in> set_elems set_example. \<not> obj_equal (example_ops (\<lambda>_. False)) elem (Small_int 6)"
    by (simp add: set_example_elems example_ops_def)
  have mem: "\<not> mem_ok (example_ops (\<lambda>_. False)) (get_hash_alloc_greater_or_equal_to (set_alloc set_example + 1))"
    by (simp add: example_ops_def)
  obtain t where t: "mp_set_lookup (example_ops (\<lambda>_. False)) MP_MAP_LOOKUP_ADD_IF_NOT_FOUND (Small_int 6) set_example =
     Some (Inl MemoryError, t)" "set_table t = set_table set_example" "set_used t = 0"
    "length (set_table t) < set_alloc t"
    using mp_set_lookup_memory_error_corrupts [OF set_example_ok full absent mem] by blast
  then show ?thesis by (auto simp: set_example_def)
qed

lemma first_filled_Some:
  "first_filled ks pos = Some p \<Longrightarrow> pos \<le> p \<and> p < pos + length ks \<and> is_obj (ks ! (p - pos))"
proof (induction ks arbitrary: pos)
  case (Cons k ks)
  then show ?case
    by (cases k) (auto simp: is_obj_def Suc_diff_le nth_Cons' dest!: Cons.IH)
qed simp

lemma first_filled_None: "first_filled ks pos = None \<Longrightarrow> key_set ks = {}"
  by (induction ks arbitrary: pos) (auto simp: key_set_def split: mp_key.splits)

text \<open>
  \<open>mp_set_remove_first\<close> takes one element out of a non-empty set and returns it; on
  an empty set it returns \<^verbatim>\<open>MP_OBJ_NULL\<close> and changes nothing.
\<close>

lemma mp_set_remove_first_correct:
  assumes laws: "obj_laws E" and ok: "set_ok E s" and r: "mp_set_remove_first s = (r, t)"
  shows "set_ok E t \<and> (case r of
      None \<Rightarrow> set_elems s = {} \<and> t = s
    | Some elem \<Rightarrow> elem \<in> set_elems s \<and> set_elems t = set_elems s - {elem})"
proof (cases "first_filled (set_table s) 0")
  case None
  then show ?thesis
    using r ok first_filled_None [OF None] by (simp add: mp_set_remove_first_def set_ok_def set_elems_def)
next
  case (Some p)
  note p = first_filled_Some [OF Some]
  then obtain key where key: "set_table s ! p = Obj key" by (auto simp: is_obj_iff)
  have "r = Some key" "t = set_drop p s"
    using r Some ok key by (simp_all add: mp_set_remove_first_def set_ok_def)
  then show ?thesis
    using set_drop_ok [OF laws ok _ key] p key by (auto simp: set_elems_def key_set_nth)
qed

end
