(* ===== verification/HashMap.thy ===== *)
theory HashMap
  imports HashSet
begin

text \<open>
  Maps of \<^verbatim>\<open>py/map.c\<close>: hash tables and ordered arrays.  A slot is a key with a value, \<open>None\<close>
  for the value \<^verbatim>\<open>MP_OBJ_NULL\<close>; the pointer to a slot that \<open>mp_map_lookup\<close> returns is an index
  into the table.  Fuel and outcomes are as for sets.
\<close>

section \<open>Operations\<close>

type_synonym ('o, 'v) mp_map_elem = "'o mp_key \<times> 'v option"

record ('o, 'v) mp_map =
  map_all_keys_are_qstrs :: bool
  map_is_fixed :: bool
  map_is_ordered :: bool
  map_used :: nat
  map_alloc :: nat
  map_table :: "('o, 'v) mp_map_elem list"

definition mp_map_init :: "'o obj_ops \<Rightarrow> nat \<Rightarrow> mp_exn + ('o, 'v) mp_map" where
  "mp_map_init E n =
     (if n = 0 \<or> mem_ok E n
      then Inr \<lparr>map_all_keys_are_qstrs = True, map_is_fixed = False, map_is_ordered = False,
                map_used = 0, map_alloc = n, map_table = replicate n (MP_OBJ_NULL, None)\<rparr>
      else Inl MemoryError)"

definition mp_map_init_fixed_table :: "nat \<Rightarrow> ('o, 'v) mp_map_elem list \<Rightarrow> ('o, 'v) mp_map" where
  "mp_map_init_fixed_table n table =
     \<lparr>map_all_keys_are_qstrs = True, map_is_fixed = True, map_is_ordered = True,
      map_used = n, map_alloc = n, map_table = table\<rparr>"

text \<open>The table of a map that owns it is freed; the model forgets it.\<close>

definition mp_map_deinit :: "('o, 'v) mp_map \<Rightarrow> ('o, 'v) mp_map" where
  "mp_map_deinit m = m\<lparr>map_table := (if map_is_fixed m then map_table m else []),
     map_used := 0, map_alloc := 0\<rparr>"

definition mp_map_clear :: "('o, 'v) mp_map \<Rightarrow> ('o, 'v) mp_map" where
  "mp_map_clear m = m\<lparr>map_alloc := 0, map_used := 0, map_all_keys_are_qstrs := True,
     map_is_fixed := False, map_table := []\<rparr>"

definition mp_map_slot_is_filled :: "('o, 'v) mp_map \<Rightarrow> nat \<Rightarrow> bool" where
  "mp_map_slot_is_filled m pos \<longleftrightarrow>
     fst (map_table m ! pos) \<noteq> MP_OBJ_NULL \<and> fst (map_table m ! pos) \<noteq> MP_OBJ_SENTINEL"

text \<open>
  The first part of \<open>mp_map_lookup\<close>: \<open>None\<close> is the early return, \<open>Some c\<close> the value of
  \<^verbatim>\<open>compare_only_ptrs\<close>.
\<close>

definition map_compare_only_ptrs :: "'o obj_ops \<Rightarrow> mp_map_lookup_kind \<Rightarrow> 'o \<Rightarrow> ('o, 'v) mp_map \<Rightarrow> bool option" where
  "map_compare_only_ptrs E kind index m =
     (if map_all_keys_are_qstrs m then
        (if is_qstr E index then Some True
         else if is_str E index then Some False
         else if kind \<noteq> MP_MAP_LOOKUP_ADD_IF_NOT_FOUND then None
         else Some True)
      else Some False)"

definition map_matches :: "'o obj_ops \<Rightarrow> bool \<Rightarrow> 'o \<Rightarrow> 'o \<Rightarrow> bool" where
  "map_matches E compare_only_ptrs index key \<longleftrightarrow>
     key = index \<or> \<not> compare_only_ptrs \<and> obj_equal E key index"

text \<open>The ordered array: a linear search over the first \<^verbatim>\<open>used\<close> elements.\<close>

fun ordered_find :: "('o \<Rightarrow> bool) \<Rightarrow> 'o mp_key list \<Rightarrow> nat \<Rightarrow> nat option" where
  "ordered_find matches [] i = None"
| "ordered_find matches (k # ks) i =
     (case k of Obj key \<Rightarrow> if matches key then Some i else ordered_find matches ks (i + 1)
      | _ \<Rightarrow> ordered_find matches ks (i + 1))"

definition ordered_remove :: "nat \<Rightarrow> ('o, 'v) mp_map \<Rightarrow> ('o, 'v) mp_map" where
  "ordered_remove i m =
     m\<lparr>map_used := map_used m - 1,
       map_table := take i (map_table m) @ drop (i + 1) (take (map_used m) (map_table m)) @
         [(MP_OBJ_NULL, snd (map_table m ! i))] @ drop (map_used m) (map_table m)\<rparr>"

definition ordered_append :: "'o obj_ops \<Rightarrow> 'o \<Rightarrow> ('o, 'v) mp_map \<Rightarrow> (mp_exn + nat option) \<times> ('o, 'v) mp_map" where
  "ordered_append E index m =
     (let grow = (map_used m = map_alloc m);
          m = (if grow then m\<lparr>map_alloc := map_alloc m + 4\<rparr> else m)
      in if grow \<and> \<not> mem_ok E (map_alloc m) then (Inl MemoryError, m)
         else
           let m = (if grow then m\<lparr>map_table := map_table m @ replicate 4 (MP_OBJ_NULL, None)\<rparr> else m);
               pos = map_used m
           in (Inr (Some pos),
               m\<lparr>map_used := map_used m + 1,
                 map_table := (map_table m)[pos := (Obj index, snd (map_table m ! pos))],
                 map_all_keys_are_qstrs := map_all_keys_are_qstrs m \<and> is_qstr E index\<rparr>))"

definition mp_map_lookup_ordered :: "'o obj_ops \<Rightarrow> mp_map_lookup_kind \<Rightarrow> bool \<Rightarrow> 'o \<Rightarrow> ('o, 'v) mp_map \<Rightarrow>
    (mp_exn + nat option) \<times> ('o, 'v) mp_map" where
  "mp_map_lookup_ordered E kind compare_only_ptrs index m =
     (case ordered_find (map_matches E compare_only_ptrs index)
             (map fst (take (map_used m) (map_table m))) 0 of
        Some i \<Rightarrow>
          if kind = MP_MAP_LOOKUP_REMOVE_IF_FOUND
          then let m = ordered_remove i m in (Inr (Some (map_used m)), m)
          else (Inr (Some i), m)
      | None \<Rightarrow>
          if kind \<noteq> MP_MAP_LOOKUP_ADD_IF_NOT_FOUND then (Inr None, m)
          else ordered_append E index m)"

text \<open>The hash table.\<close>

definition map_hash :: "'o obj_ops \<Rightarrow> 'o \<Rightarrow> nat" where
  "map_hash E index = (if is_qstr E index then qstr_hash E index else obj_hash E index)"

definition map_put :: "'o obj_ops \<Rightarrow> 'o \<Rightarrow> nat \<Rightarrow> ('o, 'v) mp_map \<Rightarrow> ('o, 'v) mp_map" where
  "map_put E index a m = m\<lparr>map_used := map_used m + 1,
     map_table := (map_table m)[a := (Obj index, None)],
     map_all_keys_are_qstrs := map_all_keys_are_qstrs m \<and> is_qstr E index\<rparr>"

definition map_drop :: "nat \<Rightarrow> ('o, 'v) mp_map \<Rightarrow> ('o, 'v) mp_map" where
  "map_drop pos m = m\<lparr>map_used := map_used m - 1,
     map_table := (map_table m)[pos := (vacated (map fst (map_table m)) pos, snd (map_table m ! pos))]\<rparr>"

definition map_set_value :: "nat \<Rightarrow> 'v option \<Rightarrow> ('o, 'v) mp_map \<Rightarrow> ('o, 'v) mp_map" where
  "map_set_value pos v m = m\<lparr>map_table := (map_table m)[pos := (fst (map_table m ! pos), v)]\<rparr>"

fun mp_map_lookup_n :: "nat \<Rightarrow> 'o obj_ops \<Rightarrow> mp_map_lookup_kind \<Rightarrow> 'o \<Rightarrow> ('o, 'v) mp_map \<Rightarrow>
    ((mp_exn + nat option) \<times> ('o, 'v) mp_map) option"
  and mp_map_search_n :: "nat \<Rightarrow> 'o obj_ops \<Rightarrow> mp_map_lookup_kind \<Rightarrow> bool \<Rightarrow> 'o \<Rightarrow> ('o, 'v) mp_map \<Rightarrow>
    ((mp_exn + nat option) \<times> ('o, 'v) mp_map) option"
  and mp_map_rehash_n :: "nat \<Rightarrow> 'o obj_ops \<Rightarrow> ('o, 'v) mp_map \<Rightarrow>
    ((mp_exn + unit) \<times> ('o, 'v) mp_map) option" where
  "mp_map_lookup_n 0 E kind index m = None"
| "mp_map_search_n 0 E kind compare_only_ptrs index m = None"
| "mp_map_rehash_n 0 E m = None"
| "mp_map_lookup_n (Suc n) E kind index m =
     (case map_compare_only_ptrs E kind index m of
        None \<Rightarrow> Some (Inr None, m)
      | Some compare_only_ptrs \<Rightarrow>
          if map_is_ordered m then Some (mp_map_lookup_ordered E kind compare_only_ptrs index m)
          else if map_alloc m = 0 then
            (if kind = MP_MAP_LOOKUP_ADD_IF_NOT_FOUND then
               (case mp_map_rehash_n n E m of
                  Some (Inr _, m) \<Rightarrow> mp_map_search_n n E kind compare_only_ptrs index m
                | Some (Inl e, m) \<Rightarrow> Some (Inl e, m)
                | None \<Rightarrow> None)
             else Some (Inr None, m))
          else mp_map_search_n n E kind compare_only_ptrs index m)"
| "mp_map_search_n (Suc n) E kind compare_only_ptrs index m =
     (case probe (map_matches E compare_only_ptrs index) (map fst (map_table m))
             (map_hash E index mod map_alloc m) None (map_alloc m) of
        Empty a \<Rightarrow>
          if kind = MP_MAP_LOOKUP_ADD_IF_NOT_FOUND then Some (Inr (Some a), map_put E index a m)
          else Some (Inr None, m)
      | Found pos \<Rightarrow>
          Some (Inr (Some pos), if kind = MP_MAP_LOOKUP_REMOVE_IF_FOUND then map_drop pos m else m)
      | Wrapped (Some a) \<Rightarrow>
          if kind = MP_MAP_LOOKUP_ADD_IF_NOT_FOUND then Some (Inr (Some a), map_put E index a m)
          else Some (Inr None, m)
      | Wrapped None \<Rightarrow>
          if kind = MP_MAP_LOOKUP_ADD_IF_NOT_FOUND then
            (case mp_map_rehash_n n E m of
               Some (Inr _, m) \<Rightarrow> mp_map_search_n n E kind compare_only_ptrs index m
             | Some (Inl e, m) \<Rightarrow> Some (Inl e, m)
             | None \<Rightarrow> None)
          else Some (Inr None, m))"
| "mp_map_rehash_n (Suc n) E m =
     (let new_alloc = get_hash_alloc_greater_or_equal_to (map_alloc m + 1);
          old_table = map_table m
      in if \<not> mem_ok E new_alloc then Some (Inl MemoryError, m)
         else fold (\<lambda>(k, v) r. case r of
                  Some (Inr _, m) \<Rightarrow>
                    (case k of
                       Obj key \<Rightarrow>
                         (case mp_map_lookup_n n E MP_MAP_LOOKUP_ADD_IF_NOT_FOUND key m of
                            Some (Inr (Some pos), m) \<Rightarrow> Some (Inr (), map_set_value pos v m)
                          | Some (Inl e, m) \<Rightarrow> Some (Inl e, m)
                          | _ \<Rightarrow> None)
                     | _ \<Rightarrow> Some (Inr (), m))
                | _ \<Rightarrow> r)
                old_table
                (Some (Inr (), m\<lparr>map_alloc := new_alloc, map_used := 0, map_all_keys_are_qstrs := True,
                   map_table := replicate new_alloc (MP_OBJ_NULL, None)\<rparr>)))"

declare mp_map_lookup_n.simps [simp del] mp_map_search_n.simps [simp del] mp_map_rehash_n.simps [simp del]

definition mp_map_lookup :: "'o obj_ops \<Rightarrow> mp_map_lookup_kind \<Rightarrow> 'o \<Rightarrow> ('o, 'v) mp_map \<Rightarrow>
    ((mp_exn + nat option) \<times> ('o, 'v) mp_map) option" where
  "mp_map_lookup = mp_map_lookup_n 5"

section \<open>Invariant and contents\<close>

definition tab_entries :: "('o, 'v) mp_map_elem list \<Rightarrow> ('o \<times> 'v option) set" where
  "tab_entries tab = {(key, v). (Obj key, v) \<in> set tab}"

definition map_entries :: "('o, 'v) mp_map \<Rightarrow> ('o \<times> 'v option) set" where
  "map_entries m = tab_entries (if map_is_ordered m then take (map_used m) (map_table m) else map_table m)"

abbreviation map_keys :: "('o, 'v) mp_map \<Rightarrow> 'o mp_key list" where
  "map_keys m \<equiv> map fst (map_table m)"

definition map_ok :: "'o obj_ops \<Rightarrow> ('o, 'v) mp_map \<Rightarrow> bool" where
  "map_ok E m \<longleftrightarrow> \<not> map_is_ordered m \<and> map_alloc m = length (map_table m) \<and>
     map_used m = key_count (map_keys m) \<and> reachable_keys (obj_hash E) (map_keys m) \<and>
     distinct_keys (obj_equal E) (map_keys m) \<and>
     (map_all_keys_are_qstrs m \<longrightarrow> (\<forall>key \<in> key_set (map_keys m). is_qstr E key))"

definition map_ordered_ok :: "'o obj_ops \<Rightarrow> ('o, 'v) mp_map \<Rightarrow> bool" where
  "map_ordered_ok E m \<longleftrightarrow> map_is_ordered m \<and> map_alloc m = length (map_table m) \<and>
     map_used m \<le> map_alloc m \<and> (\<forall>k \<in> set (take (map_used m) (map_keys m)). is_obj k) \<and>
     distinct_keys (obj_equal E) (take (map_used m) (map_keys m)) \<and>
     (map_all_keys_are_qstrs m \<longrightarrow> (\<forall>key \<in> key_set (take (map_used m) (map_keys m)). is_qstr E key))"

lemma key_set_entries: "key_set (map fst tab) = fst ` tab_entries tab"
  by (force simp: key_set_def tab_entries_def)

lemma map_entries_hash: "\<not> map_is_ordered m \<Longrightarrow> map_entries m = tab_entries (map_table m)"
  by (simp add: map_entries_def)

text \<open>The comparison the code chooses decides equality on the keys of the map.\<close>

lemma map_matches_equal:
  assumes "obj_laws E" and "map_compare_only_ptrs E kind index m = Some c"
    and "map_all_keys_are_qstrs m \<longrightarrow> (\<forall>key \<in> K. is_qstr E key)" and "key \<in> K"
  shows "map_matches E c index key \<longleftrightarrow> obj_equal E key index"
proof -
  have refl: "key = index \<Longrightarrow> obj_equal E key index" using obj_lawsD(1) [OF assms(1)] by simp
  show ?thesis
  proof (cases c)
    case False
    then show ?thesis using refl by (auto simp: map_matches_def)
  next
    case True
    then have flag: "map_all_keys_are_qstrs m" and i: "is_qstr E index \<or> \<not> is_str E index"
      using assms(2) by (auto simp: map_compare_only_ptrs_def split: if_splits)
    then have "is_qstr E key" using assms(3,4) by blast
    then have "obj_equal E key index \<Longrightarrow> key = index"
      using i obj_lawsD(6,7) [OF assms(1)] by blast
    with True refl show ?thesis by (auto simp: map_matches_def)
  qed
qed

lemma map_compare_none:
  assumes "obj_laws E" and "map_compare_only_ptrs E kind index m = None"
    and "map_all_keys_are_qstrs m \<longrightarrow> (\<forall>key \<in> K. is_qstr E key)"
  shows "key \<in> K \<Longrightarrow> \<not> obj_equal E key index" and "kind \<noteq> MP_MAP_LOOKUP_ADD_IF_NOT_FOUND"
  using assms(2-3) obj_lawsD(7) [OF assms(1), of key index]
  by (auto simp: map_compare_only_ptrs_def split: if_splits)

lemma map_hash_eq: "obj_laws E \<Longrightarrow> map_hash E = obj_hash E"
  using obj_lawsD(5) by (auto simp: map_hash_def fun_eq_iff)

lemma tab_entries_nth: "(key, v) \<in> tab_entries tab \<longleftrightarrow> (\<exists>p < length tab. tab ! p = (Obj key, v))"
  by (auto simp: tab_entries_def in_set_conv_nth)

lemma tab_entries_put:
  assumes "a < length tab" and "\<not> is_obj (fst (tab ! a))"
  shows "tab_entries (tab[a := (Obj index, v)]) = insert (index, v) (tab_entries tab)"
proof -
  have "(k, w) \<in> tab_entries (tab[a := (Obj index, v)]) \<longleftrightarrow> (k, w) = (index, v) \<or> (k, w) \<in> tab_entries tab" for k w
  proof -
    have "tab ! a \<noteq> (Obj k, w)" using assms(2) by (auto simp: is_obj_def)
    then show ?thesis using assms(1)
      unfolding tab_entries_nth by (auto simp: nth_list_update)
  qed
  then show ?thesis by auto
qed

lemma tab_entries_drop:
  assumes "distinct_keys (obj_equal E) (map fst tab)" and "obj_laws E" and "p < length tab"
    and "tab ! p = (Obj key, v)" and "\<not> is_obj x"
  shows "tab_entries (tab[p := (x, w)]) = tab_entries tab - {(key, v)}"
proof -
  have eq: "tab[p := (x, w)] ! q = (Obj k, u) \<longleftrightarrow> tab ! q = (Obj k, u) \<and> (k, u) \<noteq> (key, v)"
    if q: "q < length tab" for q k u
  proof (cases "q = p")
    case True
    then show ?thesis using assms(3-5) by (auto simp: is_obj_iff)
  next
    case False
    have "k \<noteq> key" if t: "tab ! q = (Obj k, u)"
    proof
      assume "k = key"
      with t assms(3,4) q have "map fst tab ! q = Obj key" "map fst tab ! p = Obj key" by simp_all
      then have "q = p"
        using assms(1,3) q obj_lawsD(1) [OF assms(2), of key] by (auto simp: distinct_keys_def)
      with False show False by simp
    qed
    with False show ?thesis by auto
  qed
  have "(k, u) \<in> tab_entries (tab[p := (x, w)]) \<longleftrightarrow> (k, u) \<in> tab_entries tab \<and> (k, u) \<noteq> (key, v)" for k u
    unfolding tab_entries_nth length_list_update using eq by blast
  then show ?thesis by auto
qed

lemma map_put_ok:
  assumes "obj_laws E" and ok: "map_ok E m" and absent: "\<forall>key \<in> key_set (map_keys m). \<not> obj_equal E key index"
    and j: "j < length (map_table m)"
      "a = slot (obj_hash E index mod length (map_table m)) (length (map_table m)) j"
      "\<not> is_obj (map_keys m ! a)"
      "\<forall>j' < j. map_keys m ! slot (obj_hash E index mod length (map_table m)) (length (map_table m)) j' \<noteq> MP_OBJ_NULL"
  shows "map_ok E (map_put E index a m)" and "map_entries (map_put E index a m) = insert (index, None) (map_entries m)"
    and "a < length (map_table m)"
proof -
  have n: "0 < length (map_table m)" using j(1) by linarith
  then show a: "a < length (map_table m)" using j(2) by simp
  have un: "\<not> map_is_ordered m" using ok by (simp add: map_ok_def)
  show "map_entries (map_put E index a m) = insert (index, None) (map_entries m)"
    using tab_entries_put [of a "map_table m" index None] a j(3) un
    by (simp add: map_entries_def map_put_def)
  have ks: "map_keys (map_put E index a m) = (map_keys m)[a := Obj index]"
    by (simp add: map_put_def map_update)
  have "distinct_keys (obj_equal E) ((map_keys m)[a := Obj index])"
    using ok absent obj_lawsD(2) [OF assms(1)] a
    by (intro distinct_keys_insert) (auto simp: map_ok_def)
  moreover have "reachable_keys (obj_hash E) ((map_keys m)[a := Obj index])"
    using ok j by (intro reachable_keys_insert) (auto simp: map_ok_def)
  moreover have "key_count ((map_keys m)[a := Obj index]) = key_count (map_keys m) + 1"
    using key_count_update [of a "map_keys m" "Obj index"] a j(3) by (simp add: is_obj_def)
  moreover have "key_set ((map_keys m)[a := Obj index]) = insert index (key_set (map_keys m))"
    using a j(3) by (intro key_set_update) auto
  ultimately show "map_ok E (map_put E index a m)"
    using ok unfolding map_ok_def ks by (auto simp: map_put_def)
qed

lemma map_drop_ok:
  assumes "obj_laws E" and ok: "map_ok E m" and p: "p < length (map_table m)" "map_table m ! p = (Obj key, v)"
  shows "map_ok E (map_drop p m)" and "map_entries (map_drop p m) = map_entries m - {(key, v)}"
    and "snd (map_table (map_drop p m) ! p) = v" and "\<not> is_obj (fst (map_table (map_drop p m) ! p))"
proof -
  let ?ks = "map_keys m"
  have un: "\<not> map_is_ordered m" and d: "distinct_keys (obj_equal E) ?ks" using ok by (simp_all add: map_ok_def)
  show "map_entries (map_drop p m) = map_entries m - {(key, v)}"
    using tab_entries_drop [OF d assms(1) p vacated_not_obj] un by (simp add: map_entries_def map_drop_def)
  show "snd (map_table (map_drop p m) ! p) = v" using p by (simp add: map_drop_def)
  show "\<not> is_obj (fst (map_table (map_drop p m) ! p))" using p by (simp add: map_drop_def vacated_not_obj)
  have ks: "map_keys (map_drop p m) = ?ks[p := vacated ?ks p]" by (simp add: map_drop_def map_update)
  have kp: "?ks ! p = Obj key" "p < length ?ks" using p by simp_all
  have "key_count (?ks[p := vacated ?ks p]) + 1 = key_count ?ks"
    using key_count_update [OF kp(2), of "vacated ?ks p"] kp(1) by (simp add: is_obj_def [of "Obj key"])
  moreover have "key_set (?ks[p := vacated ?ks p]) = key_set ?ks - {key}"
    by (rule key_set_vacate [OF d assms(1) kp(2,1) vacated_not_obj])
  moreover have "reachable_keys (obj_hash E) (?ks[p := vacated ?ks p])"
    using ok kp(2) by (intro reachable_keys_remove) (auto simp: map_ok_def)
  moreover have "distinct_keys (obj_equal E) (?ks[p := vacated ?ks p])"
    by (rule distinct_keys_vacate [OF d vacated_not_obj])
  ultimately show "map_ok E (map_drop p m)"
    using ok unfolding map_ok_def ks by (auto simp: map_drop_def)
qed

lemma map_used_card:
  assumes "obj_laws E" and "map_ok E m"
  shows "map_used m = card (key_set (map_keys m))"
  using key_count_card [OF assms(1)] assms(2) by (auto simp: map_ok_def)

section \<open>Lookups in a hash table\<close>

definition map_absent :: "'o obj_ops \<Rightarrow> 'o \<Rightarrow> ('o, 'v) mp_map \<Rightarrow> bool" where
  "map_absent E index m \<longleftrightarrow> (\<forall>(key, v) \<in> map_entries m. \<not> obj_equal E key index)"

text \<open>What a lookup promises of the slot \<open>r\<close> it returns and of the map \<open>t\<close> it leaves.\<close>

definition map_lookup_post :: "'o obj_ops \<Rightarrow> mp_map_lookup_kind \<Rightarrow> 'o \<Rightarrow> ('o, 'v) mp_map \<Rightarrow>
    nat option \<Rightarrow> ('o, 'v) mp_map \<Rightarrow> bool" where
  "map_lookup_post E kind index m r t \<longleftrightarrow> map_ok E t \<and>
     (\<forall>(key, v) \<in> map_entries m. obj_equal E key index \<longrightarrow>
        (\<exists>p < length (map_table t). r = Some p \<and>
           (if kind = MP_MAP_LOOKUP_REMOVE_IF_FOUND
            then snd (map_table t ! p) = v \<and> \<not> is_obj (fst (map_table t ! p)) \<and> map_entries t = map_entries m - {(key, v)}
            else map_table t ! p = (Obj key, v) \<and> t = m))) \<and>
     (map_absent E index m \<longrightarrow>
        (if kind = MP_MAP_LOOKUP_ADD_IF_NOT_FOUND
         then \<exists>p < length (map_table t). r = Some p \<and> map_table t ! p = (Obj index, None) \<and>
                map_entries t = insert (index, None) (map_entries m)
         else r = None \<and> t = m))"

lemma map_absent_keys: "\<not> map_is_ordered m \<Longrightarrow>
    map_absent E index m \<longleftrightarrow> (\<forall>key \<in> key_set (map_keys m). \<not> obj_equal E key index)"
  by (auto simp: map_absent_def key_set_entries map_entries_hash)

lemma map_probe_found:
  assumes "obj_laws E" and ok: "map_ok E m" and e: "(key, v) \<in> map_entries m" "obj_equal E key index"
    and mt: "\<forall>k \<in> key_set (map_keys m). map_matches E c index k \<longleftrightarrow> obj_equal E k index"
  obtains p where "p < length (map_table m)" "map_table m ! p = (Obj key, v)"
    "probe (map_matches E c index) (map_keys m) (map_hash E index mod map_alloc m) None (map_alloc m) = Found p"
proof -
  obtain p where p: "p < length (map_table m)" "map_table m ! p = (Obj key, v)"
    using e(1) ok by (auto simp: map_ok_def map_entries_def tab_entries_nth)
  moreover have "0 < length (map_keys m)" using p(1) by (metis length_map gr_implies_not_zero not_gr_zero)
  moreover have "obj_equal E k key" if "obj_equal E k index" for k
    using obj_lawsD(2,3) [OF assms(1)] that e(2) by blast
  ultimately have "probe (map_matches E c index) (map_keys m) (obj_hash E index mod length (map_keys m)) None (length (map_keys m)) = Found p"
    using ok mt obj_lawsD(4) [OF assms(1) e(2)] e(2)
    by (intro probe_found [where R = "obj_equal E" and key = key]) (auto simp: map_ok_def)
  then show thesis using that p ok by (simp add: map_ok_def map_hash_eq [OF assms(1)])
qed

lemma map_search_present:
  assumes laws: "obj_laws E" and ok: "map_ok E m" and present: "\<not> map_absent E index m"
    and mt: "\<forall>k \<in> key_set (map_keys m). map_matches E c index k \<longleftrightarrow> obj_equal E k index"
  obtains r t where "mp_map_search_n (Suc n) E kind c index m = Some (Inr r, t)"
    and "map_lookup_post E kind index m r t" and "map_alloc t = map_alloc m"
proof -
  obtain key v where e: "(key, v) \<in> map_entries m" "obj_equal E key index"
    using present by (auto simp: map_absent_def)
  obtain p where p: "p < length (map_table m)" "map_table m ! p = (Obj key, v)"
    "probe (map_matches E c index) (map_keys m) (map_hash E index mod map_alloc m) None (map_alloc m) = Found p"
    using map_probe_found [OF laws ok e mt] .
  have uniq: "(key', v') = (key, v)" if e': "(key', v') \<in> map_entries m" "obj_equal E key' index" for key' v'
  proof -
    obtain p' where "map_table m ! p' = (Obj key', v')"
      "probe (map_matches E c index) (map_keys m) (map_hash E index mod map_alloc m) None (map_alloc m) = Found p'"
      using map_probe_found [OF laws ok e' mt] by blast
    with p show ?thesis by simp
  qed
  let ?t = "if kind = MP_MAP_LOOKUP_REMOVE_IF_FOUND then map_drop p m else m"
  have t: "map_ok E ?t" "length (map_table ?t) = length (map_table m)"
    using map_drop_ok(1) [OF laws ok p(1,2)] ok by (auto simp: map_drop_def)
  have "\<exists>q < length (map_table ?t). Some p = Some q \<and>
        (if kind = MP_MAP_LOOKUP_REMOVE_IF_FOUND
         then snd (map_table ?t ! q) = v \<and> \<not> is_obj (fst (map_table ?t ! q)) \<and> map_entries ?t = map_entries m - {(key, v)}
         else map_table ?t ! q = (Obj key, v) \<and> ?t = m)"
    using t(2) p(1,2) map_drop_ok(2-4) [OF laws ok p(1,2)] by auto
  then have "map_lookup_post E kind index m (Some p) ?t"
    unfolding map_lookup_post_def using t(1) uniq present by blast
  then show thesis using that p(3) by (simp add: mp_map_search_n.simps map_drop_def)
qed

lemma map_probe_absent:
  assumes laws: "obj_laws E" and ok: "map_ok E m" and absent: "map_absent E index m" and n: "0 < map_alloc m"
    and mt: "\<forall>k \<in> key_set (map_keys m). map_matches E c index k \<longleftrightarrow> obj_equal E k index"
    and pr: "pr = probe (map_matches E c index) (map_keys m) (map_hash E index mod map_alloc m) None (map_alloc m)"
  shows "pr \<noteq> Found p" and "pr = Empty a \<or> pr = Wrapped (Some a) \<Longrightarrow>
      map_lookup_post E MP_MAP_LOOKUP_ADD_IF_NOT_FOUND index m (Some a) (map_put E index a m)"
    and "map_used m < map_alloc m \<Longrightarrow> pr \<noteq> Wrapped None"
    and "pr = Empty a \<or> pr = Wrapped (Some a) \<Longrightarrow> map_used m < map_alloc m"
proof -
  let ?ks = "map_keys m" and ?h = "obj_hash E index mod length (map_keys m)"
  have un: "\<not> map_is_ordered m" and len: "map_alloc m = length ?ks" using ok by (simp_all add: map_ok_def)
  have h: "?h < length ?ks" using n len by simp
  have keys: "\<forall>k \<in> key_set ?ks. \<not> obj_equal E k index" using absent map_absent_keys [OF un] by blast
  have pr': "pr = probe (map_matches E c index) ?ks ?h None (length ?ks)"
    using pr len by (simp add: map_hash_eq [OF laws])
  show "pr \<noteq> Found p" unfolding pr' using keys mt h by (intro probe_not_found) auto
  show "pr \<noteq> Wrapped None" if "map_used m < map_alloc m"
    unfolding pr' using h that ok len by (intro probe_room) (auto simp: map_ok_def)
  { assume "pr = Empty a \<or> pr = Wrapped (Some a)"
    then obtain j where j: "j < length ?ks" "a = slot ?h (length ?ks) j" "\<not> is_obj (?ks ! a)"
      "\<forall>j' < j. ?ks ! slot ?h (length ?ks) j' \<noteq> MP_OBJ_NULL"
      using probe_insert_slot [OF h] unfolding pr' by metis
    note put = map_put_ok [OF laws ok keys j(1) [unfolded length_map] j(2) [unfolded length_map] j(3) j(4) [unfolded length_map]]
    have "map_table (map_put E index a m) ! a = (Obj index, None)" "a < length (map_table (map_put E index a m))"
      using put(3) by (simp_all add: map_put_def)
    then show "map_lookup_post E MP_MAP_LOOKUP_ADD_IF_NOT_FOUND index m (Some a) (map_put E index a m)"
      using put(1,2) absent by (auto simp: map_lookup_post_def map_absent_def)
    have "key_count ?ks \<noteq> length ?ks"
      using j(3) put(3) by (metis (mono_tags, lifting) filter_id_conv key_count_def length_filter_less length_map less_irrefl nth_mem)
    then show "map_used m < map_alloc m" using key_count_le [of ?ks] ok len by (simp add: map_ok_def) }
qed

lemma map_search_post:
  assumes laws: "obj_laws E" and ok: "map_ok E m" and n: "0 < map_alloc m"
    and room: "kind \<noteq> MP_MAP_LOOKUP_ADD_IF_NOT_FOUND \<or> \<not> map_absent E index m \<or> map_used m < map_alloc m"
    and mt: "\<forall>k \<in> key_set (map_keys m). map_matches E c index k \<longleftrightarrow> obj_equal E k index"
  obtains r t where "mp_map_search_n (Suc i) E kind c index m = Some (Inr r, t)"
    and "map_lookup_post E kind index m r t" and "map_alloc t = map_alloc m"
proof (cases "map_absent E index m")
  case False
  then show thesis using map_search_present [OF laws ok False mt, of i kind] that by blast
next
  case True
  define pr where "pr = probe (map_matches E c index) (map_keys m) (map_hash E index mod map_alloc m) None (map_alloc m)"
  note p = map_probe_absent [OF laws ok True n mt pr_def]
  show thesis
  proof (cases "kind = MP_MAP_LOOKUP_ADD_IF_NOT_FOUND")
    case False
    with True ok have "map_lookup_post E kind index m None m"
      by (auto simp: map_lookup_post_def map_absent_def)
    moreover have "mp_map_search_n (Suc i) E kind c index m = Some (Inr None, m)"
      using p(1) False by (cases pr) (auto simp: mp_map_search_n.simps pr_def [symmetric] split: option.split)
    ultimately show thesis using that by blast
  next
    case add: True
    with room True p(1,3) obtain a where a: "pr = Empty a \<or> pr = Wrapped (Some a)"
      by (metis not_None_eq probe_result.exhaust)
    then have "mp_map_search_n (Suc i) E kind c index m = Some (Inr (Some a), map_put E index a m)"
      using add by (auto simp: mp_map_search_n.simps pr_def [symmetric])
    then show thesis using that p(2) [OF a] add by (simp add: map_put_def)
  qed
qed

lemma map_ok_qstrs: "map_ok E m \<Longrightarrow> map_all_keys_are_qstrs m \<longrightarrow> (\<forall>key \<in> key_set (map_keys m). is_qstr E key)"
  by (simp add: map_ok_def)

lemma map_lookup_no_rehash:
  assumes laws: "obj_laws E" and ok: "map_ok E m" and n: "0 < map_alloc m"
    and room: "kind \<noteq> MP_MAP_LOOKUP_ADD_IF_NOT_FOUND \<or> \<not> map_absent E index m \<or> map_used m < map_alloc m"
  obtains r t where "mp_map_lookup_n (Suc (Suc i)) E kind index m = Some (Inr r, t)"
    and "map_lookup_post E kind index m r t" and "map_alloc t = map_alloc m"
proof (cases "map_compare_only_ptrs E kind index m")
  case None
  have un: "\<not> map_is_ordered m" using ok by (simp add: map_ok_def)
  note none = map_compare_none [OF laws None map_ok_qstrs [OF ok]]
  then have "map_absent E index m" using map_absent_keys [OF un] by blast
  then have "map_lookup_post E kind index m None m"
    using ok none(2) by (auto simp: map_lookup_post_def map_absent_def)
  then show thesis using that None by (simp add: mp_map_lookup_n.simps)
next
  case (Some c)
  have "\<forall>k \<in> key_set (map_keys m). map_matches E c index k \<longleftrightarrow> obj_equal E k index"
    using map_matches_equal [OF laws Some map_ok_qstrs [OF ok]] by blast
  then obtain r t where "mp_map_search_n (Suc i) E kind c index m = Some (Inr r, t)"
    "map_lookup_post E kind index m r t" "map_alloc t = map_alloc m"
    using map_search_post [OF laws ok n room] by blast
  then show thesis using that Some n ok by (simp add: mp_map_lookup_n.simps map_ok_def)
qed

section \<open>Rehashing\<close>

lemma tab_entries_set:
  assumes "distinct_keys (obj_equal E) (map fst tab)" and "obj_laws E" and "p < length tab"
    and "tab ! p = (Obj key, u)"
  shows "tab_entries (tab[p := (Obj key, v)]) = insert (key, v) (tab_entries tab - {(key, u)})"
proof -
  let ?tab = "tab[p := (MP_OBJ_NULL, None)]"
  have "tab_entries ?tab = tab_entries tab - {(key, u)}"
    by (rule tab_entries_drop [OF assms]) (simp add: is_obj_def)
  moreover have "tab_entries (?tab[p := (Obj key, v)]) = insert (key, v) (tab_entries ?tab)"
    using assms(3) by (intro tab_entries_put) (simp_all add: is_obj_def)
  ultimately show ?thesis by simp
qed

lemma map_set_value_ok:
  assumes "obj_laws E" and ok: "map_ok E m" and p: "p < length (map_table m)" "map_table m ! p = (Obj key, u)"
  shows "map_ok E (map_set_value p v m)"
    and "map_entries (map_set_value p v m) = insert (key, v) (map_entries m - {(key, u)})"
proof -
  have ks: "map_keys (map_set_value p v m) = map_keys m"
    using p by (simp add: map_set_value_def map_update list_update_same_conv)
  show "map_ok E (map_set_value p v m)"
    using ok unfolding map_ok_def ks by (simp add: map_set_value_def)
  show "map_entries (map_set_value p v m) = insert (key, v) (map_entries m - {(key, u)})"
    using tab_entries_set [OF _ assms(1) p] ok p(2)
    by (simp add: map_entries_def map_ok_def map_set_value_def)
qed

definition map_reinsert :: "nat \<Rightarrow> 'o obj_ops \<Rightarrow> ('o, 'v) mp_map_elem \<Rightarrow>
    ((mp_exn + unit) \<times> ('o, 'v) mp_map) option \<Rightarrow> ((mp_exn + unit) \<times> ('o, 'v) mp_map) option" where
  "map_reinsert n E = (\<lambda>(k, v) r. case r of
     Some (Inr _, m) \<Rightarrow>
       (case k of
          Obj key \<Rightarrow>
            (case mp_map_lookup_n n E MP_MAP_LOOKUP_ADD_IF_NOT_FOUND key m of
               Some (Inr (Some pos), m) \<Rightarrow> Some (Inr (), map_set_value pos v m)
             | Some (Inl e, m) \<Rightarrow> Some (Inl e, m)
             | _ \<Rightarrow> None)
        | _ \<Rightarrow> Some (Inr (), m))
   | _ \<Rightarrow> r)"

lemma mp_map_rehash_n_reinsert:
  "mp_map_rehash_n (Suc n) E m =
     (let new_alloc = get_hash_alloc_greater_or_equal_to (map_alloc m + 1)
      in if \<not> mem_ok E new_alloc then Some (Inl MemoryError, m)
         else fold (map_reinsert n E) (map_table m)
                (Some (Inr (), m\<lparr>map_alloc := new_alloc, map_used := 0, map_all_keys_are_qstrs := True,
                   map_table := replicate new_alloc (MP_OBJ_NULL, None)\<rparr>)))"
  by (simp add: mp_map_rehash_n.simps map_reinsert_def [abs_def] Let_def)

lemma map_reinsert_skip:
  "map_reinsert n E (MP_OBJ_NULL, v) (Some (Inr x, m)) = Some (Inr (), m)"
  "map_reinsert n E (MP_OBJ_SENTINEL, v) (Some (Inr x, m)) = Some (Inr (), m)"
  by (simp_all add: map_reinsert_def)

lemma tab_entries_Cons: "tab_entries ((k, v) # tab) =
    (case k of Obj a \<Rightarrow> insert (a, v) (tab_entries tab) | _ \<Rightarrow> tab_entries tab)"
  by (cases k) (auto simp: tab_entries_def)

lemma map_reinsert_all:
  assumes laws: "obj_laws E" and "map_ok E m" and "map_used m + key_count (map fst tab) < map_alloc m"
    and "distinct_keys (obj_equal E) (map fst tab)"
    and "\<forall>a \<in> key_set (map_keys m). \<forall>b \<in> key_set (map fst tab). \<not> obj_equal E a b"
  shows "\<exists>t. fold (map_reinsert (Suc (Suc n)) E) tab (Some (Inr (), m)) = Some (Inr (), t) \<and> map_ok E t \<and>
    map_alloc t = map_alloc m \<and> map_entries t = map_entries m \<union> tab_entries tab"
  using assms(2-5)
proof (induction tab arbitrary: m)
  case Nil
  then show ?case by (simp add: tab_entries_def)
next
  case (Cons kv tab)
  obtain k v where kv: "kv = (k, v)" by (cases kv)
  have d: "distinct_keys (obj_equal E) (map fst tab)"
    and d2: "\<And>a b. k = Obj a \<Longrightarrow> b \<in> key_set (map fst tab) \<Longrightarrow> \<not> obj_equal E a b"
    using distinct_keys_Cons [of "obj_equal E" k "map fst tab"] Cons.prems(3) kv by auto
  show ?case
  proof (cases k)
    case (Obj a)
    have un: "\<not> map_is_ordered m" using Cons.prems(1) by (simp add: map_ok_def)
    have keys: "\<forall>x \<in> key_set (map_keys m). \<not> obj_equal E x a" using Cons.prems(4) Obj kv by (simp add: key_set_Cons)
    then have absent: "map_absent E a m" using map_absent_keys [OF un] by blast
    have room: "map_used m < map_alloc m" "0 < map_alloc m" using Cons.prems(2) by auto
    obtain r t where t: "mp_map_lookup_n (Suc (Suc n)) E MP_MAP_LOOKUP_ADD_IF_NOT_FOUND a m = Some (Inr r, t)"
      "map_lookup_post E MP_MAP_LOOKUP_ADD_IF_NOT_FOUND a m r t" "map_alloc t = map_alloc m"
      using map_lookup_no_rehash [OF laws Cons.prems(1) room(2)] room(1) by blast
    then obtain p where p: "p < length (map_table t)" "r = Some p" "map_table t ! p = (Obj a, None)"
      and tok: "map_ok E t" and e: "map_entries t = insert (a, None) (map_entries m)"
      using absent by (auto simp: map_lookup_post_def)
    let ?u = "map_set_value p v t"
    note u = map_set_value_ok [OF laws tok p(1,3), of v]
    have ua: "map_alloc ?u = map_alloc m" using t(3) by (simp add: map_set_value_def)
    have anew: "a \<notin> key_set (map_keys m)" using keys obj_lawsD(1) [OF laws] by blast
    have ue: "map_entries ?u = insert (a, v) (map_entries m)"
      using u(2) e anew un by (auto simp: key_set_entries map_entries_hash rev_image_eqI)
    have unu: "\<not> map_is_ordered ?u" using u(1) by (simp add: map_ok_def)
    have uk: "key_set (map_keys ?u) = insert a (key_set (map_keys m))"
      using ue un unu by (simp add: key_set_entries map_entries_hash)
    have "map_used ?u = map_used m + 1"
      using map_used_card [OF laws u(1)] map_used_card [OF laws Cons.prems(1)] uk anew
        key_count_card(2) [OF laws, of "map_keys m"] Cons.prems(1) by (simp add: map_ok_def)
    moreover have "key_count (map fst (kv # tab)) = key_count (map fst tab) + 1"
      using Obj kv by (simp add: key_count_def is_obj_def)
    moreover have "\<forall>x \<in> key_set (map_keys ?u). \<forall>b \<in> key_set (map fst tab). \<not> obj_equal E x b"
      using uk d2 [OF Obj] Cons.prems(4) Obj kv by (auto simp: key_set_Cons)
    ultimately obtain w where "fold (map_reinsert (Suc (Suc n)) E) tab (Some (Inr (), ?u)) = Some (Inr (), w)"
      "map_ok E w" "map_alloc w = map_alloc ?u" "map_entries w = map_entries ?u \<union> tab_entries tab"
      using Cons.IH [OF u(1) _ d] Cons.prems(2) ua by auto
    moreover have "map_reinsert (Suc (Suc n)) E kv (Some (Inr (), m)) = Some (Inr (), ?u)"
      using t(1) Obj kv p(2) by (simp add: map_reinsert_def)
    ultimately show ?thesis using ua Obj ue kv by (auto simp: tab_entries_Cons)
  qed (use Cons.IH [OF Cons.prems(1) _ d] Cons.prems kv in
      \<open>simp_all add: map_reinsert_skip tab_entries_Cons key_set_Cons key_count_def is_obj_def\<close>)
qed

lemma map_rehash_ok:
  assumes laws: "obj_laws E" and ok: "map_ok E m"
    and mem: "mem_ok E (get_hash_alloc_greater_or_equal_to (map_alloc m + 1))"
  obtains t where "mp_map_rehash_n (Suc (Suc (Suc n))) E m = Some (Inr (), t)" and "map_ok E t"
    and "map_entries t = map_entries m" and "map_used t < map_alloc t"
proof -
  let ?a = "get_hash_alloc_greater_or_equal_to (map_alloc m + 1)"
  let ?f = "m\<lparr>map_alloc := ?a, map_used := 0, map_all_keys_are_qstrs := True,
    map_table := replicate ?a (MP_OBJ_NULL, None)\<rparr>"
  have a: "map_alloc m < ?a" using get_hash_alloc_ge [of "map_alloc m + 1"] by simp
  have un: "\<not> map_is_ordered m" using ok by (simp add: map_ok_def)
  have empty: "map_entries ?f = {}" "key_set (map_keys ?f) = {}"
    using un by (auto simp: map_entries_def tab_entries_def key_set_def)
  have "map_ok E ?f"
    using un empty(2)
    by (simp add: map_ok_def key_count_def is_obj_def reachable_keys_def distinct_keys_def)
  moreover have cnt: "key_count (map_keys m) < ?a"
    using a ok key_count_le [of "map_keys m"] by (simp add: map_ok_def)
  ultimately obtain t where t: "fold (map_reinsert (Suc (Suc n)) E) (map_table m) (Some (Inr (), ?f)) = Some (Inr (), t)"
    "map_ok E t" "map_alloc t = ?a" "map_entries t = map_entries ?f \<union> tab_entries (map_table m)"
    using map_reinsert_all [OF laws, of ?f "map_table m" n] ok empty by (auto simp: map_ok_def)
  have e: "map_entries t = map_entries m" using t(4) empty un by (simp add: map_entries_hash)
  have "\<not> map_is_ordered t" using t(2) by (simp add: map_ok_def)
  then have "key_set (map_keys t) = key_set (map_keys m)"
    using e un by (simp add: key_set_entries map_entries_hash)
  then have "map_used t = map_used m" using map_used_card [OF laws t(2)] map_used_card [OF laws ok] by simp
  then have "map_used t < map_alloc t" using cnt t(3) ok by (simp add: map_ok_def)
  then show thesis using that [of t] t(1,2) e mem by (simp add: mp_map_rehash_n_reinsert Let_def)
qed

end
