(* ===== verification/MapProps.thy ===== *)
theory MapProps
  imports HashMap
begin

text \<open>
  The properties of the maps of \<^verbatim>\<open>py/map.c\<close> (\<open>HashMap\<close>): the ordered array, which keeps
  insertion order and is searched linearly, and the hash table, which refines a finite map.
\<close>

section \<open>Ordered arrays\<close>

definition map_items :: "('o, 'v) mp_map \<Rightarrow> ('o, 'v) mp_map_elem list" where
  "map_items m = take (map_used m) (map_table m)"

lemma ordered_find_Some:
  "ordered_find P ks i = Some j \<Longrightarrow> i \<le> j \<and> j < i + length ks \<and> (\<exists>key. ks ! (j - i) = Obj key \<and> P key)"
proof (induction ks arbitrary: i)
  case (Cons k ks)
  show ?case
  proof (cases "ordered_find P (k # ks) i = Some i \<and> (\<exists>key. k = Obj key \<and> P key)")
    case True
    with Cons.prems show ?thesis by auto
  next
    case False
    with Cons.prems have "ordered_find P ks (i + 1) = Some j" by (cases k) (auto split: if_splits)
    from Cons.IH [OF this] show ?thesis by (auto simp: nth_Cons' Suc_diff_le)
  qed
qed simp

lemma ordered_find_None: "ordered_find P ks i = None \<Longrightarrow> key \<in> key_set ks \<Longrightarrow> \<not> P key"
  by (induction ks arbitrary: i) (auto simp: key_set_def split: mp_key.splits if_splits)

lemma distinct_keys_sorted_wrt:
  assumes "\<And>a b. R a b \<Longrightarrow> R b a"
  shows "distinct_keys R ks \<longleftrightarrow> sorted_wrt (\<lambda>x y. \<forall>a b. x = Obj a \<longrightarrow> y = Obj b \<longrightarrow> \<not> R a b) ks"
  unfolding distinct_keys_def sorted_wrt_iff_nth_less
proof (intro iffI allI impI notI, goal_cases)
  case (1 i j a b)
  then show ?case by (metis less_irrefl less_trans)
next
  case (2 p q a b)
  then show ?case using assms by (metis nat_neq_iff)
qed

lemma distinct_keys_delete:
  assumes "obj_laws E" and "distinct_keys (obj_equal E) (xs @ x # ys)"
  shows "distinct_keys (obj_equal E) (xs @ ys)"
  using assms
  by (simp add: distinct_keys_sorted_wrt [of "obj_equal E", OF obj_lawsD(2) [OF assms(1)]] sorted_wrt_append)

lemma distinct_keys_snoc:
  assumes "obj_laws E" and "distinct_keys (obj_equal E) ks" and "\<forall>key \<in> key_set ks. \<not> obj_equal E key index"
  shows "distinct_keys (obj_equal E) (ks @ [Obj index])"
  using assms(2,3)
  by (simp add: distinct_keys_sorted_wrt [of "obj_equal E", OF obj_lawsD(2) [OF assms(1)]] sorted_wrt_append key_set_def)
    blast

lemma key_set_append: "key_set (xs @ ys) = key_set xs \<union> key_set ys"
  by (auto simp: key_set_def)

lemma map_ordered_ok_items:
  "map_ordered_ok E m \<longleftrightarrow> map_is_ordered m \<and> map_alloc m = length (map_table m) \<and>
     map_used m \<le> map_alloc m \<and> (\<forall>k \<in> set (map fst (map_items m)). is_obj k) \<and>
     distinct_keys (obj_equal E) (map fst (map_items m)) \<and>
     (map_all_keys_are_qstrs m \<longrightarrow> (\<forall>key \<in> key_set (map fst (map_items m)). is_qstr E key))"
  by (simp add: map_ordered_ok_def map_items_def take_map)

lemma ordered_remove_ok:
  assumes laws: "obj_laws E" and ok: "map_ordered_ok E m" and i: "i < map_used m"
  shows "map_ordered_ok E (ordered_remove i m)"
    and "map_items (ordered_remove i m) = take i (map_items m) @ drop (Suc i) (map_items m)"
    and "map_used (ordered_remove i m) < length (map_table (ordered_remove i m))"
    and "map_table (ordered_remove i m) ! map_used (ordered_remove i m) = (MP_OBJ_NULL, snd (map_table m ! i))"
proof -
  let ?t = "ordered_remove i m" and ?its = "map_items m"
  have len: "length (map_table m) = map_alloc m" "map_used m \<le> length (map_table m)" "length ?its = map_used m"
    using ok by (auto simp: map_ordered_ok_def map_items_def)
  have tab: "map_table ?t = (take i ?its @ drop (Suc i) ?its) @ [(MP_OBJ_NULL, snd (map_table m ! i))] @ drop (map_used m) (map_table m)"
    using i by (simp add: ordered_remove_def map_items_def min_absorb1)
  have used: "map_used ?t = length (take i ?its @ drop (Suc i) ?its)"
    using i len(3) by (simp add: ordered_remove_def)
  have ends: "take (length xs) (xs @ ys) = xs" "(xs @ [z] @ ys) ! length xs = z" for xs ys :: "'z list" and z by simp_all
  show items: "map_items ?t = take i ?its @ drop (Suc i) ?its"
    unfolding map_items_def [of ?t] tab used by (rule ends(1))
  show "map_used ?t < length (map_table ?t)" unfolding tab used by simp
  show "map_table ?t ! map_used ?t = (MP_OBJ_NULL, snd (map_table m ! i))"
    unfolding tab used by (rule ends(2))
  have its: "?its = take i ?its @ (?its ! i) # drop (Suc i) ?its" using i len(3) by (intro id_take_nth_drop) simp
  have set: "set (take i ?its @ drop (Suc i) ?its) \<subseteq> set ?its"
    using set_take_subset [of i ?its] set_drop_subset [of "Suc i" ?its] by auto
  have "distinct_keys (obj_equal E) (map fst (take i ?its @ (?its ! i) # drop (Suc i) ?its))"
    using ok unfolding map_ordered_ok_items its [symmetric] by blast
  then have "distinct_keys (obj_equal E) (map fst (map_items ?t))"
    unfolding items map_append list.map by (rule distinct_keys_delete [OF laws])
  moreover have "length (map_table ?t) = length (map_table m)"
    unfolding tab using i len by simp
  moreover have "map_is_ordered ?t" "map_alloc ?t = map_alloc m" "map_all_keys_are_qstrs ?t = map_all_keys_are_qstrs m"
    using ok by (auto simp: ordered_remove_def map_ordered_ok_def)
  moreover have "\<forall>k \<in> set (map fst (map_items ?t)). is_obj k"
    "key_set (map fst (map_items ?t)) \<subseteq> key_set (map fst ?its)"
    using set ok unfolding items map_ordered_ok_items by (auto simp: key_set_def)
  moreover have "map_used ?t \<le> map_alloc m" using i len by (simp add: ordered_remove_def)
  ultimately show "map_ordered_ok E ?t" using ok unfolding map_ordered_ok_items by (simp add: subset_iff)
qed

lemma ordered_append_ok:
  assumes laws: "obj_laws E" and ok: "map_ordered_ok E m" and mem: "mem_ok E (map_alloc m + 4)"
    and absent: "\<forall>key \<in> key_set (map fst (map_items m)). \<not> obj_equal E key index"
  obtains t v where "ordered_append E index m = (Inr (Some (map_used m)), t)" and "map_ordered_ok E t"
    and "map_items t = map_items m @ [(Obj index, v)]" and "map_used t = map_used m + 1"
proof -
  define m' where "m' = (if map_used m = map_alloc m
    then m\<lparr>map_alloc := map_alloc m + 4, map_table := map_table m @ replicate 4 (MP_OBJ_NULL, None)\<rparr> else m)"
  have len: "length (map_table m) = map_alloc m" "map_used m \<le> length (map_table m)"
    using ok by (auto simp: map_ordered_ok_def)
  have m': "map_used m' = map_used m" "map_used m < length (map_table m')" "map_alloc m' = length (map_table m')"
    "take (map_used m) (map_table m') = map_items m" "map_is_ordered m'" "map_all_keys_are_qstrs m' = map_all_keys_are_qstrs m"
    using ok len by (auto simp: m'_def map_items_def map_ordered_ok_def)
  let ?v = "snd (map_table m' ! map_used m)"
  let ?t = "m'\<lparr>map_used := map_used m + 1, map_table := (map_table m')[map_used m := (Obj index, ?v)],
    map_all_keys_are_qstrs := map_all_keys_are_qstrs m \<and> is_qstr E index\<rparr>"
  have eq: "ordered_append E index m = (Inr (Some (map_used m)), ?t)"
    using mem by (simp add: ordered_append_def m'_def Let_def)
  have items: "map_items ?t = map_items m @ [(Obj index, ?v)]"
    using m'(2,4) by (simp add: map_items_def take_Suc_conv_app_nth)
  have "map_ordered_ok E ?t"
    unfolding map_ordered_ok_items items map_append
    using ok distinct_keys_snoc [OF laws _ absent] m'
    by (auto simp: map_ordered_ok_items key_set_append is_obj_def key_set_def)
  then show thesis using that [OF eq _ items] by simp
qed

text \<open>The outcome of a lookup in an ordered array, when the key is present and when it is absent.\<close>

lemma nth_in_key_set: "ks ! i = Obj key \<Longrightarrow> i < length ks \<Longrightarrow> key \<in> key_set ks"
  unfolding key_set_def by (metis (mono_tags) mem_Collect_eq nth_mem)

lemma ordered_present:
  assumes laws: "obj_laws E" and ok: "map_ordered_ok E m"
    and i: "i < map_used m" "map_items m ! i = (Obj key, v)" "obj_equal E key index"
    and mt: "\<And>k. k \<in> key_set (map fst (map_items m)) \<Longrightarrow> map_matches E c index k \<longleftrightarrow> obj_equal E k index"
  shows "mp_map_lookup_ordered E kind c index m =
    (if kind = MP_MAP_LOOKUP_REMOVE_IF_FOUND then (Inr (Some (map_used m - 1)), ordered_remove i m)
     else (Inr (Some i), m))"
proof -
  let ?ks = "map fst (map_items m)"
  have len: "length ?ks = map_used m" and dist: "distinct_keys (obj_equal E) ?ks"
    using ok by (auto simp: map_ordered_ok_items map_items_def)
  have ki: "?ks ! i = Obj key" using i len by simp
  then have "key \<in> key_set ?ks" using i(1) len by (intro nth_in_key_set) simp_all
  then obtain j where some: "ordered_find (map_matches E c index) ?ks 0 = Some j"
    using ordered_find_None mt i(3) by (metis not_None_eq)
  then obtain k where j: "j < map_used m" "?ks ! j = Obj k" "map_matches E c index k"
    using ordered_find_Some [OF some] len by auto
  then have "k \<in> key_set ?ks" using len by (intro nth_in_key_set) simp_all
  then have "obj_equal E key k" using j(3) mt i(3) obj_lawsD(2,3) [OF laws] by blast
  then have "i = j" using dist j(1,2) ki i(1) len unfolding distinct_keys_def by metis
  with some show ?thesis by (simp add: mp_map_lookup_ordered_def map_items_def Let_def ordered_remove_def)
qed

lemma ordered_absent:
  assumes "\<forall>key \<in> key_set (map fst (map_items m)). \<not> map_matches E c index key"
  shows "mp_map_lookup_ordered E kind c index m =
    (if kind = MP_MAP_LOOKUP_ADD_IF_NOT_FOUND then ordered_append E index m else (Inr None, m))"
proof -
  have "ordered_find (map_matches E c index) (map fst (map_items m)) 0 = None"
  proof (rule ccontr)
    assume "\<not> ?thesis"
    then obtain j where "ordered_find (map_matches E c index) (map fst (map_items m)) 0 = Some j" by blast
    from ordered_find_Some [OF this] show False using assms nth_in_key_set by fastforce
  qed
  then show ?thesis by (simp add: mp_map_lookup_ordered_def map_items_def)
qed

lemma map_ok_key_set: "map_ok E m \<Longrightarrow> key_set (map_keys m) = fst ` map_entries m"
  by (simp add: map_ok_def map_entries_def key_set_entries)

section \<open>Properties\<close>

lemma mp_map_lookup_eq:
  "mp_map_lookup E kind index m =
     (case map_compare_only_ptrs E kind index m of
        None \<Rightarrow> Some (Inr None, m)
      | Some c \<Rightarrow>
          if map_is_ordered m then Some (mp_map_lookup_ordered E kind c index m)
          else if map_alloc m = 0 then
            (if kind = MP_MAP_LOOKUP_ADD_IF_NOT_FOUND then
               (case mp_map_rehash_n 4 E m of
                  Some (Inr _, m) \<Rightarrow> mp_map_search_n 4 E kind c index m
                | Some (Inl e, m) \<Rightarrow> Some (Inl e, m)
                | None \<Rightarrow> None)
             else Some (Inr None, m))
          else mp_map_search_n 4 E kind c index m)"
  unfolding mp_map_lookup_def four_Suc(2) mp_map_lookup_n.simps(2) ..

lemma map_lookup_post_rehashed:
  assumes "map_lookup_post E MP_MAP_LOOKUP_ADD_IF_NOT_FOUND index t r u" and "map_entries t = map_entries m"
    and "map_absent E index m"
  shows "map_lookup_post E MP_MAP_LOOKUP_ADD_IF_NOT_FOUND index m r u"
  using assms by (auto simp: map_lookup_post_def map_absent_def)

lemma map_lookup_rehash:
  assumes laws: "obj_laws E" and ok: "map_ok E m" and absent: "map_absent E index m"
    and full: "map_used m = map_alloc m" and kind: "kind = MP_MAP_LOOKUP_ADD_IF_NOT_FOUND"
  obtains c n where "map_compare_only_ptrs E kind index m = Some c"
    and "mp_map_lookup E kind index m =
      (case mp_map_rehash_n (Suc (Suc (Suc n))) E m of
         Some (Inr _, t) \<Rightarrow> mp_map_search_n (Suc (Suc (Suc n))) E kind c index t
       | Some (Inl e, t) \<Rightarrow> Some (Inl e, t)
       | None \<Rightarrow> None)"
proof -
  have "map_compare_only_ptrs E kind index m \<noteq> None"
    using kind map_compare_none(2) [OF laws _ map_ok_qstrs [OF ok]] by (rule contrapos_pn)
  then obtain c where c: "map_compare_only_ptrs E kind index m = Some c" by blast
  have un: "\<not> map_is_ordered m" using ok by (simp add: map_ok_def)
  show thesis
  proof (cases "map_alloc m = 0")
    case True
    have four: "(4 :: nat) = Suc (Suc (Suc 1))" by simp
    have "mp_map_lookup E kind index m =
      (case mp_map_rehash_n 4 E m of
         Some (Inr _, t) \<Rightarrow> mp_map_search_n 4 E kind c index t
       | Some (Inl e, t) \<Rightarrow> Some (Inl e, t)
       | None \<Rightarrow> None)"
      using True c un unfolding kind by (simp add: mp_map_lookup_eq)
    then show thesis unfolding four by (rule that [OF c])
  next
    case False
    have mt: "\<forall>k \<in> key_set (map_keys m). map_matches E c index k \<longleftrightarrow> obj_equal E k index"
      using map_matches_equal [OF laws c map_ok_qstrs [OF ok]] by blast
    define pr where "pr = probe (map_matches E c index) (map_keys m) (map_hash E index mod map_alloc m) None (map_alloc m)"
    note p = map_probe_absent [OF laws ok absent _ mt pr_def]
    have "pr \<noteq> Found q" "\<not> (pr = Empty a \<or> pr = Wrapped (Some a))" for q a
      using p(1) p(4) [of a] False full by auto
    then have "pr = Wrapped None" by (metis not_None_eq probe_result.exhaust)
    then have "mp_map_search_n (Suc i) E kind c index m =
      (case mp_map_rehash_n i E m of
         Some (Inr _, t) \<Rightarrow> mp_map_search_n i E kind c index t
       | Some (Inl e, t) \<Rightarrow> Some (Inl e, t)
       | None \<Rightarrow> None)" for i
      unfolding kind by (simp add: mp_map_search_n.simps(2) pr_def [symmetric])
    from this [of 3] have "mp_map_lookup E kind index m =
      (case mp_map_rehash_n 3 E m of
         Some (Inr _, t) \<Rightarrow> mp_map_search_n 3 E kind c index t
       | Some (Inl e, t) \<Rightarrow> Some (Inl e, t)
       | None \<Rightarrow> None)"
      using False c un by (simp add: mp_map_lookup_eq)
    then show thesis unfolding numeral_3_eq_3 by (rule that [OF c])
  qed
qed

lemma map_lookup_post_holds:
  assumes laws: "obj_laws E" and ok: "map_ok E m"
    and mem: "mem_ok E (get_hash_alloc_greater_or_equal_to (map_alloc m + 1))"
  shows "\<exists>r t. mp_map_lookup E kind index m = Some (Inr r, t) \<and> map_lookup_post E kind index m r t"
proof (cases "kind = MP_MAP_LOOKUP_ADD_IF_NOT_FOUND \<and> map_absent E index m \<and> map_used m = map_alloc m")
  case True
  then have kind: "kind = MP_MAP_LOOKUP_ADD_IF_NOT_FOUND" and absent: "map_absent E index m"
    and full: "map_used m = map_alloc m" by auto
  obtain c n where c: "map_compare_only_ptrs E kind index m = Some c"
    and n: "mp_map_lookup E kind index m =
      (case mp_map_rehash_n (Suc (Suc (Suc n))) E m of
         Some (Inr _, t) \<Rightarrow> mp_map_search_n (Suc (Suc (Suc n))) E kind c index t
       | Some (Inl e, t) \<Rightarrow> Some (Inl e, t)
       | None \<Rightarrow> None)"
    using map_lookup_rehash [OF laws ok absent full kind] .
  obtain t where t: "mp_map_rehash_n (Suc (Suc (Suc n))) E m = Some (Inr (), t)" "map_ok E t"
    "map_entries t = map_entries m" "map_used t < map_alloc t"
    using map_rehash_ok [OF laws ok mem] by metis
  have mt: "\<forall>k \<in> key_set (map_keys t). map_matches E c index k \<longleftrightarrow> obj_equal E k index"
    using map_matches_equal [OF laws c map_ok_qstrs [OF ok]] map_ok_key_set [OF t(2)] map_ok_key_set [OF ok] t(3)
    by metis
  obtain r u where "mp_map_search_n (Suc (Suc (Suc n))) E kind c index t = Some (Inr r, u)"
    "map_lookup_post E kind index t r u"
    using map_search_post [OF laws t(2) _ _ mt] t(4) by (metis gr_implies_not_zero not_gr_zero)
  then show ?thesis using t(1) map_lookup_post_rehashed [OF _ t(3) absent] kind unfolding n by auto
next
  case False
  have le: "map_used m \<le> map_alloc m" using ok key_count_le [of "map_keys m"] by (simp add: map_ok_def)
  show ?thesis
  proof (cases "map_alloc m = 0")
    case True
    then have "map_entries m = {}" using ok by (simp add: map_ok_def map_entries_def tab_entries_def)
    then show ?thesis using True False ok le
      by (auto simp: mp_map_lookup_eq map_lookup_post_def map_absent_def map_ok_def split: option.split)
  next
    case n: False
    have "kind \<noteq> MP_MAP_LOOKUP_ADD_IF_NOT_FOUND \<or> \<not> map_absent E index m \<or> map_used m < map_alloc m"
      using False le by auto
    then obtain r t where "mp_map_lookup_n (Suc (Suc 3)) E kind index m = Some (Inr r, t)"
      "map_lookup_post E kind index m r t" using map_lookup_no_rehash [OF laws ok] n by (metis not_gr_zero)
    then show ?thesis by (auto simp: mp_map_lookup_def)
  qed
qed

text \<open>
  C7 (refinement): \<open>mp_map_lookup\<close> on a hash table implements the operations of a finite map.  On a
  well-formed map, and when the allocator can serve the next larger table, every kind of lookup
  returns (it runs through at most one rehash), keeps the map well-formed, returns the slot that
  holds the equal key and its value when there is one (with that entry removed when removing is
  asked for, its value left in a slot without a key), and otherwise adds a slot for the key with a null value exactly when adding is asked
  for.  The length of the map is the number of its keys.
\<close>

theorem mp_map_lookup_refines_map:
  assumes laws: "obj_laws E" and ok: "map_ok E m"
    and mem: "mem_ok E (get_hash_alloc_greater_or_equal_to (map_alloc m + 1))"
  shows "\<exists>r t. mp_map_lookup E kind index m = Some (Inr r, t) \<and> map_ok E t \<and>
    (\<forall>(key, v) \<in> map_entries m. obj_equal E key index \<longrightarrow>
       (\<exists>p < length (map_table t). r = Some p \<and>
          (if kind = MP_MAP_LOOKUP_REMOVE_IF_FOUND
           then snd (map_table t ! p) = v \<and> \<not> is_obj (fst (map_table t ! p)) \<and> map_entries t = map_entries m - {(key, v)}
           else map_table t ! p = (Obj key, v) \<and> t = m))) \<and>
    ((\<forall>(key, v) \<in> map_entries m. \<not> obj_equal E key index) \<longrightarrow>
       (if kind = MP_MAP_LOOKUP_ADD_IF_NOT_FOUND
        then \<exists>p < length (map_table t). r = Some p \<and> map_table t ! p = (Obj index, None) \<and>
               map_entries t = insert (index, None) (map_entries m)
        else r = None \<and> t = m)) \<and>
    map_used t = card (fst ` map_entries t)"
proof -
  obtain r t where r: "mp_map_lookup E kind index m = Some (Inr r, t)"
    and post: "map_lookup_post E kind index m r t" using map_lookup_post_holds [OF assms] by blast
  have "map_used t = card (fst ` map_entries t)"
    using map_used_card [OF laws] map_ok_key_set post by (metis map_lookup_post_def)
  with r post show ?thesis unfolding map_lookup_post_def map_absent_def
    by (elim conjE, intro exI conjI) assumption+
qed

text \<open>
  C10 (error): a failed rehash leaves a hash map as it was.  When a full map must grow to take a new
  key and the allocator fails, \<open>mp_map_lookup\<close> raises \<^verbatim>\<open>MemoryError\<close> and the map is unchanged (the
  new table is allocated before the map is edited, unlike in a set).
\<close>

theorem mp_map_lookup_memory_error_safe:
  assumes laws: "obj_laws E" and ok: "map_ok E m" and full: "map_used m = map_alloc m"
    and absent: "\<forall>(key, v) \<in> map_entries m. \<not> obj_equal E key index"
    and mem: "\<not> mem_ok E (get_hash_alloc_greater_or_equal_to (map_alloc m + 1))"
  shows "mp_map_lookup E MP_MAP_LOOKUP_ADD_IF_NOT_FOUND index m = Some (Inl MemoryError, m)"
proof -
  have "mp_map_rehash_n (Suc n) E m = Some (Inl MemoryError, m)" for n
    using mem by (simp add: mp_map_rehash_n.simps Let_def)
  moreover have "map_absent E index m" using absent by (simp add: map_absent_def)
  ultimately show ?thesis by (rule_tac map_lookup_rehash [OF laws ok _ full refl, of index]) simp_all
qed

text \<open>A full hash map with two interned keys.\<close>

definition map_example :: "(example_obj, int) mp_map" where
  "map_example = \<lparr>map_all_keys_are_qstrs = False, map_is_fixed = False, map_is_ordered = False,
     map_used = 2, map_alloc = 2, map_table = [(Obj (Small_int 0), Some 10), (Obj (Small_int 1), Some 11)]\<rparr>"

lemma map_example_ok: "map_ok (example_ops f) map_example"
  by (auto simp: map_ok_def map_example_def key_count_def is_obj_def reachable_keys_def
      distinct_keys_def less_2 slot_def example_ops_def intro!: exI [of _ 0])

lemma map_example_entries: "map_entries map_example = {(Small_int 0, Some 10), (Small_int 1, Some 11)}"
  by (auto simp: map_entries_def tab_entries_def map_example_def)

theorem mp_map_lookup_refines_map_witness:
  "\<exists>r t. mp_map_lookup (example_ops (\<lambda>_. True)) MP_MAP_LOOKUP_ADD_IF_NOT_FOUND (Small_int 6) map_example =
       Some (Inr r, t) \<and>
     map_entries t = {(Small_int 6, None), (Small_int 0, Some 10), (Small_int 1, Some 11)} \<and> map_used t = 3"
  using mp_map_lookup_refines_map [OF example_ops_laws map_example_ok, of "\<lambda>_. True"
      MP_MAP_LOOKUP_ADD_IF_NOT_FOUND "Small_int 6"]
  by (auto simp: map_example_entries example_ops_def)

theorem mp_map_lookup_memory_error_safe_witness:
  "mp_map_lookup (example_ops (\<lambda>_. False)) MP_MAP_LOOKUP_ADD_IF_NOT_FOUND (Small_int 6) map_example =
     Some (Inl MemoryError, map_example)"
  by (rule mp_map_lookup_memory_error_safe [OF example_ops_laws map_example_ok])
    (simp_all add: map_example_def map_entries_def tab_entries_def example_ops_def)

definition ordered_lookup_post :: "'o obj_ops \<Rightarrow> mp_map_lookup_kind \<Rightarrow> 'o \<Rightarrow> ('o, 'v) mp_map \<Rightarrow>
    nat option \<Rightarrow> ('o, 'v) mp_map \<Rightarrow> bool" where
  "ordered_lookup_post E kind index m r t \<longleftrightarrow> map_ordered_ok E t \<and>
    (\<forall>i key v. i < map_used m \<and> map_items m ! i = (Obj key, v) \<and> obj_equal E key index \<longrightarrow>
       (if kind = MP_MAP_LOOKUP_REMOVE_IF_FOUND
        then r = Some (map_used t) \<and> map_table t ! map_used t = (MP_OBJ_NULL, v) \<and>
          map_items t = take i (map_items m) @ drop (Suc i) (map_items m)
        else r = Some i \<and> t = m)) \<and>
    ((\<forall>key \<in> key_set (map fst (map_items m)). \<not> obj_equal E key index) \<longrightarrow>
       (if kind = MP_MAP_LOOKUP_ADD_IF_NOT_FOUND
        then r = Some (map_used m) \<and> (\<exists>v. map_items t = map_items m @ [(Obj index, v)])
        else r = None \<and> t = m))"

lemma map_items_key: "map_ordered_ok E m \<Longrightarrow> i < map_used m \<Longrightarrow> map_items m ! i = (Obj key, v) \<Longrightarrow>
    key \<in> key_set (map fst (map_items m))"
  by (rule nth_in_key_set [of _ i]) (simp_all add: map_ordered_ok_def map_items_def)

lemma ordered_present_post:
  assumes laws: "obj_laws E" and ok: "map_ordered_ok E m"
    and i: "i < map_used m" "map_items m ! i = (Obj key, v)" "obj_equal E key index"
    and mt: "\<And>k. k \<in> key_set (map fst (map_items m)) \<Longrightarrow> map_matches E c index k \<longleftrightarrow> obj_equal E k index"
    and look: "mp_map_lookup_ordered E kind c index m = (Inr r, t)"
  shows "ordered_lookup_post E kind index m r t"
proof -
  note found = ordered_present [OF laws ok _ _ _ mt]
  have uniq: "j = i \<and> k = key \<and> w = v"
    if "j < map_used m" "map_items m ! j = (Obj k, w)" "obj_equal E k index" for j k w
    using found [OF i, of MP_MAP_LOOKUP] found [OF that, of MP_MAP_LOOKUP] i that by auto
  have v: "snd (map_table m ! i) = v" using i by (metis map_items_def nth_take snd_conv)
  have present: "\<not> (\<forall>k \<in> key_set (map fst (map_items m)). \<not> obj_equal E k index)"
    using map_items_key [OF ok i(1,2)] i(3) by blast
  show ?thesis
  proof (cases "kind = MP_MAP_LOOKUP_REMOVE_IF_FOUND")
    case True
    then have rt: "r = Some (map_used t)" "t = ordered_remove i m"
      using found [OF i, of kind] look by (auto simp: ordered_remove_def)
    moreover have "\<forall>j k w. j < map_used m \<and> map_items m ! j = (Obj k, w) \<and> obj_equal E k index \<longrightarrow> j = i \<and> w = v"
      using uniq by blast
    ultimately show ?thesis
      using ordered_remove_ok [OF laws ok i(1)] True present v unfolding ordered_lookup_post_def by force
  next
    case False
    then have rt: "r = Some i" "t = m" using found [OF i, of kind] look by auto
    have "\<forall>j k w. j < map_used m \<and> map_items m ! j = (Obj k, w) \<and> obj_equal E k index \<longrightarrow>
        Some i = Some j \<and> m = m" using uniq by blast
    then show ?thesis using ok present unfolding ordered_lookup_post_def rt if_not_P [OF False] by blast
  qed
qed

lemma ordered_absent_post:
  assumes laws: "obj_laws E" and ok: "map_ordered_ok E m" and mem: "mem_ok E (map_alloc m + 4)"
    and absent: "\<forall>key \<in> key_set (map fst (map_items m)). \<not> obj_equal E key index"
    and mt: "\<And>k. k \<in> key_set (map fst (map_items m)) \<Longrightarrow> map_matches E c index k \<longleftrightarrow> obj_equal E k index"
  shows "\<exists>r t. mp_map_lookup_ordered E kind c index m = (Inr r, t) \<and> ordered_lookup_post E kind index m r t"
proof -
  have none: "\<not> (i < map_used m \<and> map_items m ! i = (Obj key, v) \<and> obj_equal E key index)" for i key v
    using map_items_key [OF ok] absent by blast
  have look: "mp_map_lookup_ordered E kind c index m =
    (if kind = MP_MAP_LOOKUP_ADD_IF_NOT_FOUND then ordered_append E index m else (Inr None, m))"
    using mt absent by (intro ordered_absent) blast
  obtain t v where t: "ordered_append E index m = (Inr (Some (map_used m)), t)" "map_ordered_ok E t"
    "map_items t = map_items m @ [(Obj index, v)]"
    using ordered_append_ok [OF laws ok mem absent] by metis
  show ?thesis
  proof (cases "kind = MP_MAP_LOOKUP_ADD_IF_NOT_FOUND")
    case True
    then show ?thesis using t none unfolding ordered_lookup_post_def look if_P [OF True] by blast
  next
    case False
    then show ?thesis using ok none unfolding ordered_lookup_post_def look if_not_P [OF False] by blast
  qed
qed


definition ordered_example :: "(example_obj, int) mp_map" where
  "ordered_example = map_example\<lparr>map_is_ordered := True\<rparr>"

lemma ordered_example_ok: "map_ordered_ok (example_ops f) ordered_example"
  by (auto simp: map_ordered_ok_def ordered_example_def map_example_def is_obj_def distinct_keys_def
      less_2 example_ops_def)

lemma ordered_example_items:
  "map_items ordered_example = [(Obj (Small_int 0), Some 10), (Obj (Small_int 1), Some 11)]"
  "map_used ordered_example = 2" "map_alloc ordered_example = 2"
  by (simp_all add: map_items_def ordered_example_def map_example_def)


text \<open>
  C11 (error): a failed append corrupts an ordered array.  \<^verbatim>\<open>map->alloc += 4\<close> runs before \<open>m_renew\<close>,
  so when a full ordered dictionary must grow and the allocator fails, \<open>mp_map_lookup\<close> raises
  \<^verbatim>\<open>MemoryError\<close> and leaves \<^verbatim>\<open>alloc\<close> four above the length of the table.  Adding the key again then
  finds \<^verbatim>\<open>used < alloc\<close>, allocates nothing, and returns a slot past the end of the table.
\<close>

theorem mp_map_lookup_ordered_memory_error_corrupts:
  assumes laws: "obj_laws E" and ok: "map_ordered_ok E m" and full: "map_used m = map_alloc m"
    and absent: "\<forall>key \<in> key_set (map fst (map_items m)). \<not> obj_equal E key index"
    and mem: "\<not> mem_ok E (map_alloc m + 4)"
  shows "\<exists>t u. mp_map_lookup E MP_MAP_LOOKUP_ADD_IF_NOT_FOUND index m = Some (Inl MemoryError, t) \<and>
    map_table t = map_table m \<and> map_alloc t = length (map_table t) + 4 \<and>
    mp_map_lookup E MP_MAP_LOOKUP_ADD_IF_NOT_FOUND index t = Some (Inr (Some (length (map_table t))), u)"
proof -
  let ?add = MP_MAP_LOOKUP_ADD_IF_NOT_FOUND and ?t = "m\<lparr>map_alloc := map_alloc m + 4\<rparr>"
  have q: "map_all_keys_are_qstrs m \<longrightarrow> (\<forall>key \<in> key_set (map fst (map_items m)). is_qstr E key)"
    and ord: "map_is_ordered m" and len: "map_alloc m = length (map_table m)"
    using ok by (auto simp: map_ordered_ok_items)
  have "map_compare_only_ptrs E ?add index m \<noteq> None"
    using map_compare_none(2) [OF laws _ q] by blast
  then obtain c where c: "map_compare_only_ptrs E ?add index m = Some c" by blast
  then have ct: "map_compare_only_ptrs E ?add index ?t = Some c" by (simp add: map_compare_only_ptrs_def)
  have none: "\<forall>key \<in> key_set (map fst (map_items m)). \<not> map_matches E c index key"
    using map_matches_equal [OF laws c q] absent by blast
  then have nt: "\<forall>key \<in> key_set (map fst (map_items ?t)). \<not> map_matches E c index key"
    by (simp add: map_items_def)
  have "mp_map_lookup E ?add index m = Some (Inl MemoryError, ?t)"
    using full mem ord by (simp add: mp_map_lookup_eq c ordered_absent [OF none] ordered_append_def)
  moreover have "mp_map_lookup E ?add index ?t = Some (ordered_append E index ?t)"
    using ord by (simp add: mp_map_lookup_eq ct ordered_absent [OF nt])
  moreover obtain u where "ordered_append E index ?t = (Inr (Some (length (map_table ?t))), u)"
    using full len by (simp add: ordered_append_def Let_def)
  ultimately show ?thesis using len by (intro exI [of _ ?t] exI [of _ u]) simp
qed

theorem mp_map_lookup_ordered_memory_error_corrupts_witness:
  "\<exists>t u. mp_map_lookup (example_ops (\<lambda>_. False)) MP_MAP_LOOKUP_ADD_IF_NOT_FOUND (Small_int 6) ordered_example =
       Some (Inl MemoryError, t) \<and> length (map_table t) = 2 \<and> map_alloc t = 6 \<and>
     mp_map_lookup (example_ops (\<lambda>_. False)) MP_MAP_LOOKUP_ADD_IF_NOT_FOUND (Small_int 6) t = Some (Inr (Some 2), u)"
proof -
  have full: "map_used ordered_example = map_alloc ordered_example" by (simp add: ordered_example_items)
  have absent: "\<forall>key \<in> key_set (map fst (map_items ordered_example)). \<not> obj_equal (example_ops (\<lambda>_. False)) key (Small_int 6)"
    by (simp add: ordered_example_items key_set_def example_ops_def)
  have mem: "\<not> mem_ok (example_ops (\<lambda>_. False)) (map_alloc ordered_example + 4)" by (simp add: example_ops_def)
  have len: "length (map_table ordered_example) = 2" by (simp add: ordered_example_def map_example_def)
  obtain t u where "mp_map_lookup (example_ops (\<lambda>_. False)) MP_MAP_LOOKUP_ADD_IF_NOT_FOUND (Small_int 6) ordered_example =
       Some (Inl MemoryError, t)" "map_table t = map_table ordered_example" "map_alloc t = length (map_table t) + 4"
     "mp_map_lookup (example_ops (\<lambda>_. False)) MP_MAP_LOOKUP_ADD_IF_NOT_FOUND (Small_int 6) t =
        Some (Inr (Some (length (map_table t))), u)"
    using mp_map_lookup_ordered_memory_error_corrupts [OF example_ops_laws ordered_example_ok full absent mem] by blast
  then show ?thesis using len by (intro exI [of _ t] exI [of _ u]) simp
qed

end
