(* ===== verification/Mpn.thy ===== *)
theory Mpn
  imports Prelude
begin

text \<open>
  The digit arrays of \<^verbatim>\<open>py/mpz.c\<close>: the \<^verbatim>\<open>mpn_*\<close> functions on little-endian arrays of 32-bit
  digits.  The memory is a map from buffers to digit lists, and a function is given the buffers its
  pointers point to, so that two of its arguments may be the same buffer, as its comment in the
  source allows.  A \<^verbatim>\<open>mpz_dbl_dig_t\<close> is a natural number below \<open>2 ^ 64\<close>; \<^verbatim>\<open>x & DIG_MASK\<close> and
  \<^verbatim>\<open>x >> DIG_SIZE\<close> are remainder and quotient by \<open>DIG_BASE\<close>.

  \<open>dig_loop\<close> is the loop that all the in-place routines share: it runs a body on the positions from
  \<open>p\<close> up, storing the digit the body computes in the buffer \<open>i\<close> and handing on the carry.  The lemma
  \<open>dig_loop_seq\<close> reduces it, for a body that reads only digits not yet overwritten, to the same loop
  on the digits the buffers held at the start; every routine is then correct by an induction on
  digit lists.
\<close>

unbundle bit_operations_syntax

section \<open>Digits\<close>

abbreviation (input) DIG_SIZE :: nat where "DIG_SIZE \<equiv> 32"

definition DIG_BASE :: nat where "DIG_BASE = 2 ^ DIG_SIZE"

definition DIG_MASK :: nat where "DIG_MASK = DIG_BASE - 1"

definition DIG_MSB :: nat where "DIG_MSB = 2 ^ (DIG_SIZE - 1)"

type_synonym 'r bufs = "'r \<Rightarrow> nat list"

fun dval :: "nat list \<Rightarrow> nat" where
  "dval [] = 0"
| "dval (d # ds) = d + DIG_BASE * dval ds"

definition digits :: "nat list \<Rightarrow> bool" where
  "digits ds \<longleftrightarrow> (\<forall>d \<in> set ds. d < DIG_BASE)"

section \<open>The routines\<close>

fun dig_loop :: "('r bufs \<Rightarrow> nat \<Rightarrow> 'c \<Rightarrow> nat \<times> 'c) \<Rightarrow> 'r \<Rightarrow> nat \<Rightarrow> nat \<Rightarrow> 'c \<Rightarrow> 'r bufs \<Rightarrow> 'c \<times> 'r bufs" where
  "dig_loop body i p 0 carry m = (carry, m)"
| "dig_loop body i p (Suc n) carry m =
     (let (d, carry) = body m p carry in dig_loop body i (p + 1) n carry (m(i := (m i)[p := d])))"

primrec mpn_remove_trailing_zeros :: "nat list \<Rightarrow> nat \<Rightarrow> nat" where
  "mpn_remove_trailing_zeros ds 0 = 0"
| "mpn_remove_trailing_zeros ds (Suc n) = (if ds ! n = 0 then mpn_remove_trailing_zeros ds n else Suc n)"

primrec mpn_cmp_loop :: "nat list \<Rightarrow> nat list \<Rightarrow> nat \<Rightarrow> int" where
  "mpn_cmp_loop ids jds 0 = 0"
| "mpn_cmp_loop ids jds (Suc n) =
     (let cmp = int (ids ! n) - int (jds ! n)
      in if cmp < 0 then -1 else if cmp > 0 then 1 else mpn_cmp_loop ids jds n)"

definition mpn_cmp :: "nat list \<Rightarrow> nat \<Rightarrow> nat list \<Rightarrow> nat \<Rightarrow> int" where
  "mpn_cmp ids ilen jds jlen =
     (if ilen < jlen then -1 else if ilen > jlen then 1 else mpn_cmp_loop ids jds ilen)"

text \<open>The digits of \<^verbatim>\<open>j << n\<close>, stored from the high end of the arrays down.\<close>

fun mpn_shl_loop :: "'r \<Rightarrow> 'r \<Rightarrow> nat \<Rightarrow> nat \<Rightarrow> nat \<Rightarrow> nat \<Rightarrow> 'r bufs \<Rightarrow> nat \<times> 'r bufs" where
  "mpn_shl_loop i j n_whole n_part 0 d m = (d, m)"
| "mpn_shl_loop i j n_whole n_part (Suc r) d m =
     (let d = d OR m j ! r;
          m = m(i := (m i)[r + n_whole := drop_bit (DIG_SIZE - n_part) d mod DIG_BASE])
      in mpn_shl_loop i j n_whole n_part r (u64 (push_bit DIG_SIZE d)) m)"

definition mpn_shl :: "'r \<Rightarrow> 'r \<Rightarrow> nat \<Rightarrow> nat \<Rightarrow> 'r bufs \<Rightarrow> nat \<times> 'r bufs" where
  "mpn_shl i j jlen n m =
     (let n_whole = (n + DIG_SIZE - 1) div DIG_SIZE;
          n_part = n mod DIG_SIZE;
          n_part = (if n_part = 0 then DIG_SIZE else n_part);
          (d, m) = mpn_shl_loop i j n_whole n_part jlen 0 m;
          m = m(i := (m i)[n_whole - 1 := drop_bit (DIG_SIZE - n_part) d mod DIG_BASE]);
          m = m(i := replicate (n_whole - 1) 0 @ drop (n_whole - 1) (m i))
      in (mpn_remove_trailing_zeros (m i) (jlen + n_whole), m))"

definition mpn_shr :: "'r \<Rightarrow> 'r \<Rightarrow> nat \<Rightarrow> nat \<Rightarrow> 'r bufs \<Rightarrow> nat \<times> 'r bufs" where
  "mpn_shr i j jlen n m =
     (let n_whole = n div DIG_SIZE;
          n_part = n mod DIG_SIZE
      in if n_whole \<ge> jlen then (0, m)
         else
           let jlen = jlen - n_whole;
               (_, m) = dig_loop (\<lambda>m p _.
                   let d = m j ! (n_whole + p);
                       d = (if jlen - p > 1 then d OR push_bit DIG_SIZE (m j ! (n_whole + p + 1)) else d)
                   in (drop_bit n_part d mod DIG_BASE, ())) i 0 jlen () m
           in (if m i ! (jlen - 1) = 0 then jlen - 1 else jlen, m))"

definition mpn_add :: "'r \<Rightarrow> 'r \<Rightarrow> nat \<Rightarrow> 'r \<Rightarrow> nat \<Rightarrow> 'r bufs \<Rightarrow> nat \<times> 'r bufs" where
  "mpn_add i j jlen k klen m =
     (let (carry, m) = dig_loop (\<lambda>m p carry.
              let carry = u64 (carry + (m j ! p + m k ! p)) in (carry mod DIG_BASE, carry div DIG_BASE)) i 0 klen 0 m;
          (carry, m) = dig_loop (\<lambda>m p carry.
              let carry = u64 (carry + m j ! p) in (carry mod DIG_BASE, carry div DIG_BASE)) i klen (jlen - klen) carry m
      in if carry \<noteq> 0 then (jlen + 1, m(i := (m i)[jlen := carry])) else (jlen, m))"

text \<open>\<^verbatim>\<open>borrow\<close> is signed: its \<^verbatim>\<open>>>\<close> is an arithmetic shift, that is, a quotient rounded down.\<close>

definition mpn_sub :: "'r \<Rightarrow> 'r \<Rightarrow> nat \<Rightarrow> 'r \<Rightarrow> nat \<Rightarrow> 'r bufs \<Rightarrow> nat \<times> 'r bufs" where
  "mpn_sub i j jlen k klen m =
     (let (borrow, m) = dig_loop (\<lambda>m p borrow.
              let borrow = borrow + (int (m j ! p) - int (m k ! p))
              in (nat (borrow mod int DIG_BASE), borrow div int DIG_BASE)) i 0 klen (0 :: int) m;
          (borrow, m) = dig_loop (\<lambda>m p borrow.
              let borrow = borrow + int (m j ! p)
              in (nat (borrow mod int DIG_BASE), borrow div int DIG_BASE)) i klen (jlen - klen) borrow m
      in (mpn_remove_trailing_zeros (m i) jlen, m))"

text \<open>
  The bitwise routines on magnitudes, used when \<^verbatim>\<open>MICROPY_OPT_MPZ_BITWISE\<close> is set, and the general
  ones, which work on two's complement digit by digit.  In these the test \<^verbatim>\<open>--klen <= --jlen\<close> on
  unsigned lengths tells whether \<open>k\<close> still has digits: \<^verbatim>\<open>klen\<close> wraps around when they are used up.
\<close>

definition mpn_and :: "'r \<Rightarrow> 'r \<Rightarrow> 'r \<Rightarrow> nat \<Rightarrow> 'r bufs \<Rightarrow> nat \<times> 'r bufs" where
  "mpn_and i j k klen m =
     (let (_, m) = dig_loop (\<lambda>m p _. (m j ! p AND m k ! p, ())) i 0 klen () m
      in (mpn_remove_trailing_zeros (m i) klen, m))"

definition mpn_or :: "'r \<Rightarrow> 'r \<Rightarrow> nat \<Rightarrow> 'r \<Rightarrow> nat \<Rightarrow> 'r bufs \<Rightarrow> nat \<times> 'r bufs" where
  "mpn_or i j jlen k klen m =
     (let (_, m) = dig_loop (\<lambda>m p _. (m j ! p OR m k ! p, ())) i 0 klen () m;
          (_, m) = dig_loop (\<lambda>m p _. (m j ! p, ())) i klen (jlen - klen) () m
      in (jlen, m))"

definition mpn_xor :: "'r \<Rightarrow> 'r \<Rightarrow> nat \<Rightarrow> 'r \<Rightarrow> nat \<Rightarrow> 'r bufs \<Rightarrow> nat \<times> 'r bufs" where
  "mpn_xor i j jlen k klen m =
     (let (_, m) = dig_loop (\<lambda>m p _. (m j ! p XOR m k ! p, ())) i 0 klen () m;
          (_, m) = dig_loop (\<lambda>m p _. (m j ! p, ())) i klen (jlen - klen) () m
      in (mpn_remove_trailing_zeros (m i) jlen, m))"

definition k_has_digit :: "nat \<Rightarrow> nat \<Rightarrow> nat \<Rightarrow> bool" where
  "k_has_digit jlen klen p \<longleftrightarrow> to_u64 (int klen - int p - 1) \<le> jlen - p - 1"

definition carry_mask :: "nat \<Rightarrow> nat" where
  "carry_mask carry = (if carry = 0 then 0 else DIG_MASK)"

definition mpn_and_neg :: "'r \<Rightarrow> 'r \<Rightarrow> nat \<Rightarrow> 'r \<Rightarrow> nat \<Rightarrow> nat \<Rightarrow> nat \<Rightarrow> nat \<Rightarrow> 'r bufs \<Rightarrow> nat \<times> 'r bufs" where
  "mpn_and_neg i j jlen k klen carryi carryj carryk m =
     (let imask = carry_mask carryi;
          jmask = carry_mask carryj;
          kmask = carry_mask carryk;
          ((carryi, carryj, carryk), m) = dig_loop (\<lambda>m p (carryi, carryj, carryk).
             let carryj = carryj + (m j ! p XOR jmask);
                 carryk = carryk + (if k_has_digit jlen klen p then m k ! p XOR kmask else kmask);
                 carryi = carryi + (((carryj AND carryk) XOR imask) AND DIG_MASK)
             in (carryi mod DIG_BASE, (carryi div DIG_BASE, carryj div DIG_BASE, carryk div DIG_BASE)))
             i 0 jlen (carryi, carryj, carryk) m;
          (ilen, m) = (if carryi \<noteq> 0 then (jlen + 1, m(i := (m i)[jlen := carryi])) else (jlen, m))
      in (mpn_remove_trailing_zeros (m i) ilen, m))"

definition mpn_or_neg :: "'r \<Rightarrow> 'r \<Rightarrow> nat \<Rightarrow> 'r \<Rightarrow> nat \<Rightarrow> nat \<Rightarrow> nat \<Rightarrow> nat \<Rightarrow> 'r bufs \<Rightarrow> nat \<times> 'r bufs" where
  "mpn_or_neg i j jlen k klen carryi carryj carryk m =
     (let imask = carry_mask carryi;
          jmask = carry_mask carryj;
          kmask = carry_mask carryk;
          (_, m) = dig_loop (\<lambda>m p (carryi, carryj, carryk).
             let carryj = carryj + (m j ! p XOR jmask);
                 carryk = carryk + (if k_has_digit jlen klen p then m k ! p XOR kmask else kmask);
                 carryi = carryi + (((carryj OR carryk) XOR imask) AND DIG_MASK)
             in (carryi mod DIG_BASE, (carryi div DIG_BASE, carryj div DIG_BASE, carryk div DIG_BASE)))
             i 0 jlen (carryi, carryj, carryk) m
      in (mpn_remove_trailing_zeros (m i) jlen, m))"

text \<open>With \<^verbatim>\<open>MICROPY_OPT_MPZ_BITWISE\<close> set, \<^verbatim>\<open>mpn_or_neg\<close> always negates its result.\<close>

definition mpn_or_neg_opt :: "'r \<Rightarrow> 'r \<Rightarrow> nat \<Rightarrow> 'r \<Rightarrow> nat \<Rightarrow> nat \<Rightarrow> nat \<Rightarrow> 'r bufs \<Rightarrow> nat \<times> 'r bufs" where
  "mpn_or_neg_opt i j jlen k klen carryj carryk m =
     (let jmask = carry_mask carryj;
          kmask = carry_mask carryk;
          (_, m) = dig_loop (\<lambda>m p (carryi, carryj, carryk).
             let carryj = carryj + (m j ! p XOR jmask);
                 carryk = carryk + (if k_has_digit jlen klen p then m k ! p XOR kmask else kmask);
                 carryi = carryi + (((carryj OR carryk) XOR DIG_MASK) AND DIG_MASK)
             in (carryi mod DIG_BASE, (carryi div DIG_BASE, carryj div DIG_BASE, carryk div DIG_BASE)))
             i 0 jlen (1, carryj, carryk) m
      in (mpn_remove_trailing_zeros (m i) jlen, m))"

definition mpn_xor_neg :: "'r \<Rightarrow> 'r \<Rightarrow> nat \<Rightarrow> 'r \<Rightarrow> nat \<Rightarrow> nat \<Rightarrow> nat \<Rightarrow> nat \<Rightarrow> 'r bufs \<Rightarrow> nat \<times> 'r bufs" where
  "mpn_xor_neg i j jlen k klen carryi carryj carryk m =
     (let ((carryi, carryj, carryk), m) = dig_loop (\<lambda>m p (carryi, carryj, carryk).
             let carryj = carryj + (m j ! p + DIG_MASK);
                 carryk = carryk + (if k_has_digit jlen klen p then m k ! p + DIG_MASK else DIG_MASK);
                 carryi = carryi + ((carryj XOR carryk) AND DIG_MASK)
             in (carryi mod DIG_BASE, (carryi div DIG_BASE, carryj div DIG_BASE, carryk div DIG_BASE)))
             i 0 jlen (carryi, carryj, carryk) m;
          (ilen, m) = (if carryi \<noteq> 0 then (jlen + 1, m(i := (m i)[jlen := carryi])) else (jlen, m))
      in (mpn_remove_trailing_zeros (m i) ilen, m))"

definition mpn_mul_dig_add_dig :: "'r \<Rightarrow> nat \<Rightarrow> nat \<Rightarrow> nat \<Rightarrow> 'r bufs \<Rightarrow> nat \<times> 'r bufs" where
  "mpn_mul_dig_add_dig i ilen dmul dadd m =
     (let (carry, m) = dig_loop (\<lambda>m p carry.
              let carry = u64 (carry + u64 (m i ! p * dmul)) in (carry mod DIG_BASE, carry div DIG_BASE)) i 0 ilen dadd m
      in if carry \<noteq> 0 then (ilen + 1, m(i := (m i)[ilen := carry])) else (ilen, m))"

text \<open>Long multiplication: the row of the \<open>q\<close>-th digit of \<open>k\<close> is added to \<open>i\<close> from position \<open>q\<close> up.\<close>

definition mpn_mul_row :: "'r \<Rightarrow> 'r \<Rightarrow> nat \<Rightarrow> nat \<Rightarrow> nat \<Rightarrow> 'r bufs \<Rightarrow> nat \<times> 'r bufs" where
  "mpn_mul_row i j jlen d q m =
     (let (carry, m) = dig_loop (\<lambda>m p carry.
              let carry = u64 (carry + u64 (m i ! p + u64 (m j ! (p - q) * d)))
              in (carry mod DIG_BASE, carry div DIG_BASE)) i q jlen 0 m
      in if carry \<noteq> 0 then (q + jlen + 1, m(i := (m i)[q + jlen := carry])) else (q + jlen, m))"

fun mpn_mul_rows :: "'r \<Rightarrow> 'r \<Rightarrow> nat \<Rightarrow> 'r \<Rightarrow> nat \<Rightarrow> nat \<Rightarrow> nat \<Rightarrow> 'r bufs \<Rightarrow> nat \<times> 'r bufs" where
  "mpn_mul_rows i j jlen k q 0 ilen m = (ilen, m)"
| "mpn_mul_rows i j jlen k q (Suc n) ilen m =
     (let (ilen, m) = mpn_mul_row i j jlen (m k ! q) q m in mpn_mul_rows i j jlen k (q + 1) n ilen m)"

definition mpn_mul :: "'r \<Rightarrow> 'r \<Rightarrow> nat \<Rightarrow> 'r \<Rightarrow> nat \<Rightarrow> 'r bufs \<Rightarrow> nat \<times> 'r bufs" where
  "mpn_mul i j jlen k klen m = mpn_mul_rows i j jlen k 0 klen 0 m"

section \<open>Values of digit lists\<close>

lemma DIG_BASE_pos [simp]: "0 < DIG_BASE" "1 < DIG_BASE" "Suc 0 < DIG_BASE" "DIG_BASE \<noteq> 0" "Suc 0 \<le> DIG_BASE"
  by (simp_all add: DIG_BASE_def)

lemma digits_Nil [simp]: "digits []" by (simp add: digits_def)

lemma digits_Cons [simp]: "digits (d # ds) \<longleftrightarrow> d < DIG_BASE \<and> digits ds" by (simp add: digits_def)

lemma digits_append [simp]: "digits (xs @ ys) \<longleftrightarrow> digits xs \<and> digits ys" by (auto simp: digits_def)

lemma digits_take: "digits ds \<Longrightarrow> digits (take n ds)" by (auto simp: digits_def dest: in_set_takeD)

lemma digits_drop: "digits ds \<Longrightarrow> digits (drop n ds)" by (auto simp: digits_def dest: in_set_dropD)

lemma digits_replicate [simp]: "digits (replicate n 0)" by (simp add: digits_def)

lemma digits_nth: "digits ds \<Longrightarrow> p < length ds \<Longrightarrow> ds ! p < DIG_BASE" by (simp add: digits_def)

lemma digits_update: "digits ds \<Longrightarrow> d < DIG_BASE \<Longrightarrow> digits (ds[p := d])"
  by (auto simp: digits_def dest: set_update_subset_insert [THEN subsetD])

lemma dval_append: "dval (xs @ ys) = dval xs + DIG_BASE ^ length xs * dval ys"
  by (induction xs) (simp_all add: algebra_simps)

lemma dval_replicate [simp]: "dval (replicate n 0) = 0"
  by (induction n) simp_all

lemma dval_less: "digits ds \<Longrightarrow> dval ds < DIG_BASE ^ length ds"
proof (induction ds)
  case (Cons d ds)
  then have "dval ds + 1 \<le> DIG_BASE ^ length ds" "d < DIG_BASE" by auto
  then have "d + DIG_BASE * dval ds < DIG_BASE * (dval ds + 1)" by simp
  also have "\<dots> \<le> DIG_BASE * DIG_BASE ^ length ds" using \<open>dval ds + 1 \<le> _\<close> by (intro mult_le_mono2)
  finally show ?case by simp
qed simp

lemma dval_snoc: "dval (ds @ [d]) = dval ds + DIG_BASE ^ length ds * d"
  by (simp add: dval_append)

lemma take_snoc: "n < length ds \<Longrightarrow> take (Suc n) ds = take n ds @ [ds ! n]"
  by (rule take_Suc_conv_app_nth)

section \<open>In-place loops\<close>

fun dig_seq :: "(nat \<Rightarrow> 'c \<Rightarrow> nat \<times> 'c) \<Rightarrow> nat \<Rightarrow> nat \<Rightarrow> 'c \<Rightarrow> nat list \<times> 'c" where
  "dig_seq f p 0 carry = ([], carry)"
| "dig_seq f p (Suc n) carry =
     (let (d, carry) = f p carry; (ds, carry) = dig_seq f (p + 1) n carry in (d # ds, carry))"

text \<open>At position \<open>p\<close> the body reads of the buffer \<open>i\<close> it writes only the positions from \<open>p\<close> up.\<close>

definition reads_ahead :: "('r bufs \<Rightarrow> nat \<Rightarrow> 'c \<Rightarrow> nat \<times> 'c) \<Rightarrow> 'r \<Rightarrow> 'r bufs \<Rightarrow> bool" where
  "reads_ahead body i m \<longleftrightarrow>
     (\<forall>m' p carry. (\<forall>b. b \<noteq> i \<longrightarrow> m' b = m b) \<and> (\<forall>q \<ge> p. m' i ! q = m i ! q) \<longrightarrow> body m' p carry = body m p carry)"

lemma dig_seq_Suc:
  "dig_seq f p (Suc n) c = (fst (f p c) # fst (dig_seq f (p + 1) n (snd (f p c))), snd (dig_seq f (p + 1) n (snd (f p c))))"
  by (simp split: prod.split)

declare dig_seq.simps(2) [simp del]

lemma length_dig_seq [simp]: "length (fst (dig_seq f p n c)) = n"
  by (induction n arbitrary: p c) (simp_all add: dig_seq_Suc)

lemma dig_loop_seq_gen:
  assumes "reads_ahead body i m" and "\<forall>b. b \<noteq> i \<longrightarrow> m' b = m b" and "\<forall>q \<ge> p. m' i ! q = m i ! q"
    and "p + n \<le> length (m' i)"
  shows "dig_loop body i p n c m' = (snd (dig_seq (body m) p n c),
    m'(i := take p (m' i) @ fst (dig_seq (body m) p n c) @ drop (p + n) (m' i)))"
  using assms(2-)
proof (induction n arbitrary: p c m')
  case 0
  then show ?case by simp
next
  case (Suc n)
  obtain d c' where d: "body m p c = (d, c')" by (cases "body m p c")
  have "body m' p c = body m p c" using assms(1) Suc.prems(1,2) unfolding reads_ahead_def by blast
  then have step: "dig_loop body i p (Suc n) c m' = dig_loop body i (p + 1) n c' (m'(i := (m' i)[p := d]))"
    by (simp add: d)
  have "dig_loop body i (p + 1) n c' (m'(i := (m' i)[p := d])) = (snd (dig_seq (body m) (p + 1) n c'),
    m'(i := take (p + 1) ((m' i)[p := d]) @ fst (dig_seq (body m) (p + 1) n c') @ drop (p + 1 + n) ((m' i)[p := d])))"
    using Suc.prems by (subst Suc.IH) (auto simp: nth_list_update)
  moreover have "take (p + 1) ((m' i)[p := d]) = take p (m' i) @ [d]"
    using Suc.prems(3) by (simp add: take_Suc_conv_app_nth)
  ultimately show ?case unfolding step by (auto simp: d dig_seq_Suc fun_eq_iff)
qed

lemma dig_loop_seq:
  assumes "reads_ahead body i m" and "p + n \<le> length (m i)"
  shows "dig_loop body i p n c m = (snd (dig_seq (body m) p n c),
    m(i := take p (m i) @ fst (dig_seq (body m) p n c) @ drop (p + n) (m i)))"
  by (rule dig_loop_seq_gen) (use assms in auto)

text \<open>The part of a buffer that a loop walks over.\<close>

definition dig_slice :: "nat list \<Rightarrow> nat \<Rightarrow> nat \<Rightarrow> nat list" where
  "dig_slice ds p n = take n (drop p ds)"

lemma slice_0 [simp]: "dig_slice ds p 0 = []" "dig_slice ds 0 n = take n ds"
  by (simp_all add: dig_slice_def)

lemma slice_Suc: "p < length ds \<Longrightarrow> dig_slice ds p (Suc n) = ds ! p # dig_slice ds (Suc p) n"
  by (simp add: dig_slice_def take_drop Cons_nth_drop_Suc [symmetric])

lemma length_slice: "p + n \<le> length ds \<Longrightarrow> length (dig_slice ds p n) = n"
  by (simp add: dig_slice_def)

lemma take_slice: "q \<le> n \<Longrightarrow> take n ds = take q ds @ dig_slice ds q (n - q)"
  by (metis append_take_drop_id le_add_diff_inverse dig_slice_def take_add)

lemma dval_take_slice: "q \<le> n \<Longrightarrow> n \<le> length ds \<Longrightarrow>
    dval (take n ds) = dval (take q ds) + DIG_BASE ^ q * dval (dig_slice ds q (n - q))"
  by (subst take_slice [of q n]) (simp_all add: dval_append)

section \<open>Leading zeros and comparison\<close>

lemma mpn_remove_trailing_zeros_le: "mpn_remove_trailing_zeros ds n \<le> n"
  by (induction n) auto

lemma mpn_remove_trailing_zeros_top:
  "0 < mpn_remove_trailing_zeros ds n \<Longrightarrow> ds ! (mpn_remove_trailing_zeros ds n - 1) \<noteq> 0"
  by (induction n) auto

lemma mpn_remove_trailing_zeros_val:
  "n \<le> length ds \<Longrightarrow> dval (take (mpn_remove_trailing_zeros ds n) ds) = dval (take n ds)"
  by (induction n) (auto simp: take_snoc dval_snoc)

text \<open>A number is normalised when its top digit is not zero.\<close>

definition normal :: "nat list \<Rightarrow> nat \<Rightarrow> bool" where
  "normal ds n \<longleftrightarrow> n \<le> length ds \<and> digits ds \<and> (0 < n \<longrightarrow> ds ! (n - 1) \<noteq> 0)"

lemma normal_remove_trailing_zeros:
  "digits ds \<Longrightarrow> n \<le> length ds \<Longrightarrow> normal ds (mpn_remove_trailing_zeros ds n)"
  using mpn_remove_trailing_zeros_le [of ds n] mpn_remove_trailing_zeros_top [of ds n] by (simp add: normal_def)

lemma normal_ge: "normal ds n \<Longrightarrow> 0 < n \<Longrightarrow> DIG_BASE ^ (n - 1) \<le> dval (take n ds)"
  by (cases n) (auto simp: normal_def take_snoc dval_snoc intro!: trans_le_add2)

lemma normal_less: "normal ds n \<Longrightarrow> dval (take n ds) < DIG_BASE ^ n"
  using dval_less [of "take n ds"] by (simp add: normal_def digits_take min_absorb2)

lemma normal_zero: "normal ds n \<Longrightarrow> dval (take n ds) = 0 \<longleftrightarrow> n = 0"
proof (cases "n = 0")
  case False
  moreover assume "normal ds n"
  ultimately have "0 < DIG_BASE ^ (n - 1)" "DIG_BASE ^ (n - 1) \<le> dval (take n ds)" using normal_ge by simp_all
  then have "0 < dval (take n ds)" by linarith
  with False show ?thesis by simp
qed simp

lemma normal_len_less: "normal ds n \<Longrightarrow> normal es k \<Longrightarrow> n < k \<Longrightarrow> dval (take n ds) < dval (take k es)"
proof -
  assume a: "normal ds n" "normal es k" "n < k"
  have "dval (take n ds) < DIG_BASE ^ n" by (rule normal_less [OF a(1)])
  also have "\<dots> \<le> DIG_BASE ^ (k - 1)" using a(3) by (intro power_increasing) simp_all
  also have "\<dots> \<le> dval (take k es)" using normal_ge [OF a(2)] a(3) by simp
  finally show ?thesis .
qed

lemma dval_less_lex:
  assumes "x < y" and "digits xs" and "length xs = length ys"
  shows "dval (xs @ [x]) < dval (ys @ [y])"
proof -
  have "dval (xs @ [x]) < DIG_BASE ^ length xs * (x + 1)" using dval_less [OF assms(2)] by (simp add: dval_snoc)
  also have "\<dots> \<le> DIG_BASE ^ length xs * y" using assms(1) by (intro mult_le_mono2) simp
  also have "\<dots> \<le> dval (ys @ [y])" using assms(3) by (simp add: dval_snoc)
  finally show ?thesis .
qed

lemma mpn_cmp_loop_sgn:
  assumes "n \<le> length ids" and "n \<le> length jds" and "digits ids" and "digits jds"
  shows "mpn_cmp_loop ids jds n = sgn (int (dval (take n ids)) - int (dval (take n jds)))"
  using assms
proof (induction n)
  case (Suc n)
  have l: "ids ! n < jds ! n \<Longrightarrow> dval (take (Suc n) ids) < dval (take (Suc n) jds)"
    "jds ! n < ids ! n \<Longrightarrow> dval (take (Suc n) jds) < dval (take (Suc n) ids)"
    using Suc.prems dval_less_lex [of _ _ "take n ids" "take n jds"] dval_less_lex [of _ _ "take n jds" "take n ids"]
    by (simp_all add: take_snoc digits_take)
  show ?case
  proof (cases "ids ! n" "jds ! n" rule: linorder_cases)
    case less
    then show ?thesis using l(1) by (simp add: sgn_if)
  next
    case equal
    then show ?thesis using Suc by (simp add: take_snoc dval_snoc)
  next
    case greater
    then show ?thesis using l(2) by (simp add: sgn_if)
  qed
qed simp

lemma mpn_cmp_sgn:
  assumes "normal ids ilen" and "normal jds jlen"
  shows "mpn_cmp ids ilen jds jlen = sgn (int (dval (take ilen ids)) - int (dval (take jlen jds)))"
  using normal_len_less [OF assms] normal_len_less [OF assms(2,1)] mpn_cmp_loop_sgn [of ilen ids jds] assms
  by (cases ilen jlen rule: linorder_cases) (auto simp: mpn_cmp_def normal_def)

section \<open>Sums, differences and products\<close>

lemma map_nth_slice: "p + n \<le> length ds \<Longrightarrow> map ((!) ds) [p..<p + n] = dig_slice ds p n"
  by (rule nth_equalityI) (simp_all add: dig_slice_def)

lemma dval_map_add: "dval (map (\<lambda>q. s q + t q) qs) = dval (map s qs) + dval (map t qs)"
  by (induction qs) (simp_all add: algebra_simps)

lemma dval_map_mult: "dval (map (\<lambda>q. s q * d) qs) = dval (map s qs) * d"
  by (induction qs) (simp_all add: algebra_simps)

text \<open>A loop that adds a term per position, with a carry bounded by \<open>C\<close>.\<close>

lemma carry_seq:
  assumes "\<forall>q \<in> {p..<p + n}. \<forall>c \<le> C. f q c = ((c + t q) mod DIG_BASE, (c + t q) div DIG_BASE) \<and> (c + t q) div DIG_BASE \<le> C"
    and "c \<le> C"
  shows "dval (fst (dig_seq f p n c)) + DIG_BASE ^ n * snd (dig_seq f p n c) = c + dval (map t [p..<p + n])"
    and "snd (dig_seq f p n c) \<le> C" and "digits (fst (dig_seq f p n c))"
proof -
  have "dval (fst (dig_seq f p n c)) + DIG_BASE ^ n * snd (dig_seq f p n c) = c + dval (map t [p..<p + n]) \<and>
    snd (dig_seq f p n c) \<le> C \<and> digits (fst (dig_seq f p n c))"
    using assms
  proof (induction n arbitrary: p c)
    case (Suc n)
    have f: "f p c = ((c + t p) mod DIG_BASE, (c + t p) div DIG_BASE)" "(c + t p) div DIG_BASE \<le> C"
      using Suc.prems by auto
    let ?c = "(c + t p) div DIG_BASE" and ?r = "dig_seq f (Suc p) n ((c + t p) div DIG_BASE)"
    have IH: "dval (fst ?r) + DIG_BASE ^ n * snd ?r = ?c + dval (map t [Suc p..<Suc p + n])"
      "snd ?r \<le> C" "digits (fst ?r)"
      using Suc.IH [of "Suc p" ?c] Suc.prems(1) f(2) by auto
    have "(c + t p) mod DIG_BASE + DIG_BASE * dval (fst ?r) + DIG_BASE ^ Suc n * snd ?r =
        (c + t p) mod DIG_BASE + DIG_BASE * (dval (fst ?r) + DIG_BASE ^ n * snd ?r)" by (simp add: algebra_simps)
    also have "\<dots> = (c + t p) + DIG_BASE * dval (map t [Suc p..<Suc p + n])"
      unfolding IH(1) by (simp add: algebra_simps)
    finally show ?case using IH(2,3) f by (simp add: dig_seq_Suc upt_rec [of p] del: upt_Suc)
  qed simp
  then show "dval (fst (dig_seq f p n c)) + DIG_BASE ^ n * snd (dig_seq f p n c) = c + dval (map t [p..<p + n])"
    and "snd (dig_seq f p n c) \<le> C" and "digits (fst (dig_seq f p n c))" by auto
qed

lemma DIG_BASE_square: "DIG_BASE * DIG_BASE = 18446744073709551616"
  by (simp add: DIG_BASE_def)

lemma u64_sq [simp]: "n < DIG_BASE * DIG_BASE \<Longrightarrow> u64 n = n"
  by (simp add: DIG_BASE_square)

lemma div_DIG_BASE_le: "x < DIG_BASE * (C + 1) \<Longrightarrow> x div DIG_BASE \<le> C"
  using less_mult_imp_div_less [of x "C + 1" DIG_BASE] by (simp add: mult.commute)

lemma carry_store:
  assumes "length ds = n" and "n < length xs \<or> c = 0"
  shows "take (if c \<noteq> 0 then n + 1 else n) ((ds @ drop n xs)[n := c]) = (if c \<noteq> 0 then ds @ [c] else ds)"
  using assms by (auto simp: list_update_append take_Suc_conv_app_nth)

text \<open>What a routine that stores the digits \<open>es\<close> at the low end of the buffer \<open>i\<close> leaves in memory.\<close>

definition stored :: "'r \<Rightarrow> nat \<Rightarrow> nat \<Rightarrow> 'r bufs \<Rightarrow> 'r bufs \<Rightarrow> bool" where
  "stored i v n m m' \<longleftrightarrow> (\<forall>b. b \<noteq> i \<longrightarrow> m' b = m b) \<and> length (m' i) = length (m i) \<and> normal (m' i) n \<and>
     dval (take n (m' i)) = v"

lemma add_carry:
  assumes "digits xs" and "digits ys" and "p < length xs" and "p < length ys" and "c \<le> 1"
  shows "u64 (c + (xs ! p + ys ! p)) = c + (xs ! p + ys ! p)" and "(c + (xs ! p + ys ! p)) div DIG_BASE \<le> 1"
    and "u64 (c + xs ! p) = c + xs ! p" and "(c + xs ! p) div DIG_BASE \<le> 1"
proof -
  have "xs ! p < DIG_BASE" "ys ! p < DIG_BASE" using assms digits_nth by auto
  then have "c + (xs ! p + ys ! p) < 2 * DIG_BASE" "c + xs ! p < 2 * DIG_BASE" using assms(5) by auto
  moreover have "2 * DIG_BASE < DIG_BASE * DIG_BASE" by (simp add: DIG_BASE_def)
  ultimately show "u64 (c + (xs ! p + ys ! p)) = c + (xs ! p + ys ! p)" "(c + (xs ! p + ys ! p)) div DIG_BASE \<le> 1"
    "u64 (c + xs ! p) = c + xs ! p" "(c + xs ! p) div DIG_BASE \<le> 1"
    using less_mult_imp_div_less [of _ 2 DIG_BASE] by (auto simp: less_Suc_eq_le [symmetric] numeral_2_eq_2 simp del: u64_id)
qed

lemma normalI:
  assumes "digits ds" and "n \<le> length ds" and "0 < n \<Longrightarrow> DIG_BASE ^ (n - 1) \<le> dval (take n ds)"
  shows "normal ds n"
proof -
  have "ds ! (n - 1) \<noteq> 0" if "0 < n"
  proof
    assume "ds ! (n - 1) = 0"
    with that assms(2) have "dval (take n ds) = dval (take (n - 1) ds)"
      by (cases n) (simp_all add: take_snoc dval_snoc)
    also have "\<dots> < DIG_BASE ^ (n - 1)"
      using dval_less [of "take (n - 1) ds"] assms(1,2) by (simp add: digits_take)
    finally show False using assms(3) that by simp
  qed
  with assms show ?thesis by (simp add: normal_def)
qed

lemma reads_ahead_nth:
  "reads_ahead (\<lambda>m p c. g (m j ! p) c) i m" "reads_ahead (\<lambda>m p c. h (m j ! p) (m k ! p) c) i m"
  by (auto simp: reads_ahead_def) (metis le_refl)+

text \<open>Two loops over the low and the high part of the buffer, as one over its digits.\<close>

lemma dig_seq_add: "dig_seq f p (a + b) c =
    (fst (dig_seq f p a c) @ fst (dig_seq f (p + a) b (snd (dig_seq f p a c))), snd (dig_seq f (p + a) b (snd (dig_seq f p a c))))"
  by (induction a arbitrary: p c) (simp_all add: dig_seq_Suc)

lemma dig_seq_cong:
  assumes "\<And>q c. p \<le> q \<Longrightarrow> q < p + n \<Longrightarrow> f q c = g q c"
  shows "dig_seq f p n c = dig_seq g p n c"
  using assms
proof (induction n arbitrary: p c)
  case (Suc n)
  have "dig_seq f (p + 1) n c' = dig_seq g (p + 1) n c'" for c' using Suc.prems by (intro Suc.IH) auto
  then show ?case using Suc.prems [of p] by (simp add: dig_seq_Suc)
qed simp

lemma dig_loop_twice:
  assumes "reads_ahead body1 i m" and "reads_ahead body2 i m" and "a + b \<le> length (m i)"
    and "r = dig_seq (\<lambda>p. if p < a then body1 m p else body2 m p) 0 (a + b) c"
  obtains c1 m1 where "dig_loop body1 i 0 a c m = (c1, m1)"
    and "dig_loop body2 i a b c1 m1 = (snd r, m(i := fst r @ drop (a + b) (m i)))"
proof -
  let ?f = "\<lambda>p. if p < a then body1 m p else body2 m p"
  let ?r = "dig_seq (body1 m) 0 a c"
  let ?m = "m(i := fst ?r @ drop a (m i))"
  have one: "dig_loop body1 i 0 a c m = (snd ?r, ?m)"
    using dig_loop_seq [OF assms(1), of 0 a c] assms(3) by simp
  have "dig_loop body2 i a b (snd ?r) ?m = (snd (dig_seq (body2 m) a b (snd ?r)),
      ?m(i := take a (?m i) @ fst (dig_seq (body2 m) a b (snd ?r)) @ drop (a + b) (?m i)))"
    using assms(2,3) by (intro dig_loop_seq_gen) (auto simp: nth_append)
  then have two: "dig_loop body2 i a b (snd ?r) ?m = (snd (dig_seq (body2 m) a b (snd ?r)),
      m(i := fst ?r @ fst (dig_seq (body2 m) a b (snd ?r)) @ drop (a + b) (m i)))"
    by (simp add: add.commute)
  have "r = (fst ?r @ fst (dig_seq (body2 m) a b (snd ?r)), snd (dig_seq (body2 m) a b (snd ?r)))"
    unfolding assms(4) dig_seq_add
    by (simp add: dig_seq_cong [of 0 a ?f "body1 m"] dig_seq_cong [of a b ?f "body2 m"])
  then show thesis using that [OF one] two by simp
qed

text \<open>A sum stored over \<open>n\<close> digits with the last carry in one more.\<close>

lemma carry_stored:
  assumes ds: "digits ds" "length ds = n" and c: "c < DIG_BASE" "n < length (m i) \<or> c = 0"
    and m: "digits (m i)" "n \<le> length (m i)" and val: "dval ds + DIG_BASE ^ n * c = v"
    and big: "0 < n \<Longrightarrow> DIG_BASE ^ (n - 1) \<le> v"
  shows "stored i v (if c \<noteq> 0 then n + 1 else n) m
     (m(i := if c \<noteq> 0 then (ds @ drop n (m i))[n := c] else ds @ drop n (m i)))"
proof -
  let ?n = "if c \<noteq> 0 then n + 1 else n" and ?xs = "if c \<noteq> 0 then (ds @ drop n (m i))[n := c] else ds @ drop n (m i)"
  have take: "take ?n ?xs = (if c \<noteq> 0 then ds @ [c] else ds)"
    using carry_store [OF ds(2) c(2)] ds(2) by (auto split: if_splits)
  then have v: "dval (take ?n ?xs) = v" using val ds(2) by (auto simp: dval_snoc)
  have "digits ?xs" using ds(1) m(1) c(1) by (simp add: digits_update digits_drop)
  moreover have len: "length ?xs = length (m i)" using ds(2) m(2) by simp
  moreover have "normal ?xs ?n"
  proof (rule normalI)
    show "?n \<le> length ?xs" using c(2) m(2) len by (auto split: if_splits)
    show "DIG_BASE ^ (?n - 1) \<le> dval (take ?n ?xs)" if "0 < ?n"
    proof (cases "c = 0")
      case True
      then show ?thesis unfolding v using big that by simp
    next
      case False
      then have "DIG_BASE ^ n \<le> DIG_BASE ^ n * c" by simp
      then have "DIG_BASE ^ n \<le> v" using val by linarith
      then show ?thesis unfolding v using False by simp
    qed
  qed fact
  ultimately show ?thesis using v by (auto simp: stored_def)
qed

text \<open>The shorter operand counts as zero-extended.\<close>

definition zext :: "nat list \<Rightarrow> nat \<Rightarrow> nat \<Rightarrow> nat" where
  "zext ds n p = (if p < n then ds ! p else 0)"

lemma dval_zext:
  assumes "n \<le> k" and "n \<le> length ds"
  shows "dval (map (zext ds n) [0..<k]) = dval (take n ds)"
proof -
  have "map (zext ds n) [0..<k] = take n ds @ replicate (k - n) 0"
    using assms by (intro nth_equalityI) (auto simp: zext_def nth_append)
  then show ?thesis by (simp add: dval_append)
qed

lemma dval_map_nth: "n \<le> length ds \<Longrightarrow> dval (map ((!) ds) [0..<n]) = dval (take n ds)"
  using map_nth_slice [of 0 n ds] by simp

lemma carry_zero:
  assumes "dval ds + DIG_BASE ^ n * c = v" and "v < DIG_BASE ^ n"
  shows "c = 0"
proof (rule ccontr)
  assume "c \<noteq> 0"
  then have "DIG_BASE ^ n \<le> DIG_BASE ^ n * c" by simp
  with assms show False by linarith
qed

lemma mpn_add_stored:
  assumes j: "normal (m j) jlen" and k: "normal (m k) klen" and le: "klen \<le> jlen"
    and i: "digits (m i)" "jlen \<le> length (m i)"
    and room: "jlen < length (m i) \<or> dval (take jlen (m j)) + dval (take klen (m k)) < DIG_BASE ^ jlen"
  obtains n m' where "mpn_add i j jlen k klen m = (n, m')"
    and "stored i (dval (take jlen (m j)) + dval (take klen (m k))) n m m'"
proof -
  define body1 where "body1 m p c = (let c = u64 (c + (m j ! p + m k ! p)) in (c mod DIG_BASE, c div DIG_BASE))"
    for m :: "'a bufs" and p c
  define body2 where "body2 m p c = (let c = u64 (c + m j ! p) in (c mod DIG_BASE, c div DIG_BASE))"
    for m :: "'a bufs" and p c
  let ?t = "\<lambda>p. m j ! p + zext (m k) klen p"
  let ?r = "dig_seq (\<lambda>p. if p < klen then body1 m p else body2 m p) 0 jlen 0"
  have ra: "reads_ahead body1 i m" "reads_ahead body2 i m"
    unfolding body1_def body2_def by (rule reads_ahead_nth)+
  have jk: "digits (m j)" "digits (m k)" "jlen \<le> length (m j)" "klen \<le> length (m k)"
    using j k by (auto simp: normal_def)
  have "\<forall>q \<in> {0..<0 + jlen}. \<forall>c \<le> 1. (if q < klen then body1 m q else body2 m q) c =
      ((c + ?t q) mod DIG_BASE, (c + ?t q) div DIG_BASE) \<and> (c + ?t q) div DIG_BASE \<le> 1"
    using add_carry [OF jk(1,2)] add_carry [OF jk(1,1)] jk(3,4) le
    by (auto simp: zext_def body1_def body2_def Let_def simp del: u64_id One_nat_def)
  note seq = carry_seq [OF this le0]
  have val: "dval (fst ?r) + DIG_BASE ^ jlen * snd ?r = dval (take jlen (m j)) + dval (take klen (m k))"
    using seq(1) dval_zext [OF le jk(4)] dval_map_nth [OF jk(3)] by (simp add: dval_map_add)
  have big: "0 < jlen \<Longrightarrow> DIG_BASE ^ (jlen - 1) \<le> dval (take jlen (m j)) + dval (take klen (m k))"
    using normal_ge [OF j] by (simp add: trans_le_add1)
  have c: "snd ?r < DIG_BASE" "jlen < length (m i) \<or> snd ?r = 0"
    using seq(2) room carry_zero [OF val] DIG_BASE_pos(2) by linarith+
  obtain c1 m1 where "dig_loop body1 i 0 klen 0 m = (c1, m1)"
    "dig_loop body2 i klen (jlen - klen) c1 m1 = (snd ?r, m(i := fst ?r @ drop jlen (m i)))"
    using dig_loop_twice [OF ra, of klen "jlen - klen" ?r 0] i(2) le by auto
  then have "mpn_add i j jlen k klen m = (if snd ?r \<noteq> 0 then jlen + 1 else jlen,
      m(i := if snd ?r \<noteq> 0 then (fst ?r @ drop jlen (m i))[jlen := snd ?r] else fst ?r @ drop jlen (m i)))"
    unfolding mpn_add_def body1_def [symmetric] body2_def [symmetric] by simp
  then show thesis by (rule that) (rule carry_stored [where m = m and i = i, OF seq(3) length_dig_seq c i val big])
qed

lemma mul_carry:
  assumes "a < DIG_BASE" and "b < DIG_BASE" and "x < DIG_BASE" and "c < DIG_BASE"
  shows "u64 (c + u64 (x + u64 (a * b))) = c + (x + a * b)" and "(c + (x + a * b)) div DIG_BASE < DIG_BASE"
    and "u64 (c + u64 (a * b)) = c + a * b" and "(c + a * b) div DIG_BASE < DIG_BASE"
proof -
  have "a * b \<le> (DIG_BASE - 1) * (DIG_BASE - 1)" using assms by (intro mult_le_mono) simp_all
  also have "\<dots> = DIG_BASE * DIG_BASE - 2 * DIG_BASE + 1"
    by (simp add: DIG_BASE_def)
  finally have "c + (x + a * b) < DIG_BASE * DIG_BASE"
    using assms by (auto simp: DIG_BASE_def)
  then have b: "a * b < DIG_BASE * DIG_BASE" "x + a * b < DIG_BASE * DIG_BASE" "c + a * b < DIG_BASE * DIG_BASE"
    "c + (x + a * b) < DIG_BASE * DIG_BASE" by linarith+
  then show "u64 (c + u64 (x + u64 (a * b))) = c + (x + a * b)" "u64 (c + u64 (a * b)) = c + a * b"
    by (simp_all only: u64_sq)
  show "(c + (x + a * b)) div DIG_BASE < DIG_BASE" "(c + a * b) div DIG_BASE < DIG_BASE"
    using b less_mult_imp_div_less by blast+
qed

lemma mpn_mul_dig_add_dig_stored:
  assumes i: "normal (m i) ilen" and d: "0 < dmul" "dmul < DIG_BASE" "dadd < DIG_BASE"
    and room: "ilen < length (m i) \<or> dval (take ilen (m i)) * dmul + dadd < DIG_BASE ^ ilen"
  obtains n m' where "mpn_mul_dig_add_dig i ilen dmul dadd m = (n, m')"
    and "stored i (dval (take ilen (m i)) * dmul + dadd) n m m'"
proof -
  define body where "body m p c = (let c = u64 (c + u64 (m i ! p * dmul)) in (c mod DIG_BASE, c div DIG_BASE))"
    for m :: "'a bufs" and p c
  let ?r = "dig_seq (body m) 0 ilen dadd"
  have ra: "reads_ahead body i m" unfolding body_def by (rule reads_ahead_nth)
  have i': "digits (m i)" "ilen \<le> length (m i)" using i by (auto simp: normal_def)
  have "\<forall>q \<in> {0..<0 + ilen}. \<forall>c \<le> DIG_BASE - 1. body m q c =
      ((c + m i ! q * dmul) mod DIG_BASE, (c + m i ! q * dmul) div DIG_BASE) \<and> (c + m i ! q * dmul) div DIG_BASE \<le> DIG_BASE - 1"
  proof (intro ballI allI impI)
    fix q c
    assume q: "q \<in> {0..<0 + ilen}" and c: "c \<le> DIG_BASE - 1"
    have "m i ! q < DIG_BASE" using q i' digits_nth by auto
    moreover have "c < DIG_BASE" using c DIG_BASE_pos(1) by linarith
    ultimately show "body m q c = ((c + m i ! q * dmul) mod DIG_BASE, (c + m i ! q * dmul) div DIG_BASE) \<and>
        (c + m i ! q * dmul) div DIG_BASE \<le> DIG_BASE - 1"
      using mul_carry(3,4) [OF _ d(2) DIG_BASE_pos(1), of "m i ! q" c]
      by (simp add: body_def Let_def less_eq_Suc_le del: u64_sq u64_id)
  qed
  note seq = carry_seq [OF this, of dadd]
  have dadd: "dadd \<le> DIG_BASE - 1" using d by simp
  have val: "dval (fst ?r) + DIG_BASE ^ ilen * snd ?r = dval (take ilen (m i)) * dmul + dadd"
    using seq(1) [OF dadd] dval_map_nth [OF i'(2)] by (simp add: dval_map_mult)
  have big: "DIG_BASE ^ (ilen - 1) \<le> dval (take ilen (m i)) * dmul + dadd" if "0 < ilen"
  proof -
    have "DIG_BASE ^ (ilen - 1) \<le> dval (take ilen (m i)) * 1" using normal_ge [OF i that] by simp
    also have "\<dots> \<le> dval (take ilen (m i)) * dmul" using d(1) by (intro mult_le_mono2) simp
    finally show ?thesis by simp
  qed
  have c: "snd ?r < DIG_BASE" "ilen < length (m i) \<or> snd ?r = 0"
    using seq(2) [OF dadd] room carry_zero [OF val] DIG_BASE_pos(2) by linarith+
  have "dig_loop body i 0 ilen dadd m = (snd ?r, m(i := fst ?r @ drop ilen (m i)))"
    using dig_loop_seq [OF ra, of 0 ilen dadd] i'(2) by simp
  then have "mpn_mul_dig_add_dig i ilen dmul dadd m = (if snd ?r \<noteq> 0 then ilen + 1 else ilen,
      m(i := if snd ?r \<noteq> 0 then (fst ?r @ drop ilen (m i))[ilen := snd ?r] else fst ?r @ drop ilen (m i)))"
    unfolding mpn_mul_dig_add_dig_def body_def [symmetric] by simp
  then show thesis
    by (rule that) (rule carry_stored [where m = m and i = i, OF seq(3) [OF dadd] length_dig_seq c i' val big])
qed

text \<open>Differences, with a signed borrow.\<close>

fun ival :: "int list \<Rightarrow> int" where
  "ival [] = 0"
| "ival (x # xs) = x + int DIG_BASE * ival xs"

lemma ival_map_diff: "ival (map (\<lambda>q. int (s q) - int (t q)) qs) = int (dval (map s qs)) - int (dval (map t qs))"
  by (induction qs) (simp_all add: right_diff_distrib)

lemma borrow_seq:
  assumes "\<forall>q \<in> {p..<p + n}. \<forall>b. f q b = (nat ((b + t q) mod int DIG_BASE), (b + t q) div int DIG_BASE)"
  shows "int (dval (fst (dig_seq f p n b))) + int DIG_BASE ^ n * snd (dig_seq f p n b) = b + ival (map t [p..<p + n])
    \<and> digits (fst (dig_seq f p n b))"
  using assms
proof (induction n arbitrary: p b)
  case (Suc n)
  have f: "f p b = (nat ((b + t p) mod int DIG_BASE), (b + t p) div int DIG_BASE)"
    using Suc.prems by auto
  let ?b = "(b + t p) div int DIG_BASE" and ?r = "dig_seq f (Suc p) n ((b + t p) div int DIG_BASE)"
  have IH: "int (dval (fst ?r)) + int DIG_BASE ^ n * snd ?r = ?b + ival (map t [Suc p..<Suc p + n])" "digits (fst ?r)"
    using Suc.IH [of "Suc p" ?b] Suc.prems by auto
  have "(b + t p) mod int DIG_BASE + int DIG_BASE * int (dval (fst ?r)) + int DIG_BASE ^ Suc n * snd ?r =
      (b + t p) mod int DIG_BASE + int DIG_BASE * (int (dval (fst ?r)) + int DIG_BASE ^ n * snd ?r)"
    by (simp add: algebra_simps)
  also have "\<dots> = (b + t p) + int DIG_BASE * ival (map t [Suc p..<Suc p + n])"
    unfolding IH(1) by (simp add: algebra_simps)
  moreover have "nat ((b + t p) mod int DIG_BASE) < DIG_BASE" by (simp add: nat_less_iff)
  ultimately show ?case using IH(2) f by (simp add: dig_seq_Suc upt_rec [of p] del: upt_Suc)
qed simp

lemma mpn_sub_stored:
  assumes j: "normal (m j) jlen" and k: "normal (m k) klen" and le: "dval (take klen (m k)) \<le> dval (take jlen (m j))"
    and i: "digits (m i)" "jlen \<le> length (m i)"
  obtains n m' where "mpn_sub i j jlen k klen m = (n, m')" and "n \<le> jlen"
    and "stored i (dval (take jlen (m j)) - dval (take klen (m k))) n m m'"
proof -
  define body1 where "body1 m p b = (let b = b + (int (m j ! p) - int (m k ! p))
      in (nat (b mod int DIG_BASE), b div int DIG_BASE))" for m :: "'a bufs" and p b
  define body2 where "body2 m p b = (let b = b + int (m j ! p)
      in (nat (b mod int DIG_BASE), b div int DIG_BASE))" for m :: "'a bufs" and p b
  let ?t = "\<lambda>p. int (m j ! p) - int (zext (m k) klen p)" and ?v = "dval (take jlen (m j)) - dval (take klen (m k))"
  let ?r = "dig_seq (\<lambda>p. if p < klen then body1 m p else body2 m p) 0 jlen 0"
  have ra: "reads_ahead body1 i m" "reads_ahead body2 i m"
    unfolding body1_def body2_def by (rule reads_ahead_nth)+
  have jk: "digits (m j)" "digits (m k)" "jlen \<le> length (m j)" "klen \<le> length (m k)"
    using j k by (auto simp: normal_def)
  have kj: "klen \<le> jlen" using normal_len_less [OF j k] le by (meson leD leI)
  have "\<forall>q \<in> {0..<0 + jlen}. \<forall>b. (if q < klen then body1 m q else body2 m q) b =
      (nat ((b + ?t q) mod int DIG_BASE), (b + ?t q) div int DIG_BASE)"
    by (auto simp: zext_def body1_def body2_def Let_def)
  note seq = borrow_seq [OF this, of 0]
  have "int (dval (fst ?r)) + int DIG_BASE ^ jlen * snd ?r = int (dval (take jlen (m j))) - int (dval (take klen (m k)))"
    using seq dval_zext [OF kj jk(4)] dval_map_nth [OF jk(3)] by (simp add: ival_map_diff)
  then have sum: "int (dval (fst ?r)) + int DIG_BASE ^ jlen * snd ?r = int ?v" using le by simp
  have "dval (fst ?r) < DIG_BASE ^ jlen" using dval_less [OF seq [THEN conjunct2]] by simp
  then have "int (dval (fst ?r)) = int ?v mod int DIG_BASE ^ jlen"
    unfolding sum [symmetric] by (simp flip: of_nat_power)
  also have "\<dots> = int ?v" using normal_less [OF j] by (simp flip: of_nat_power)
  finally have val: "dval (fst ?r) = ?v" by simp
  obtain c1 m1 where "dig_loop body1 i 0 klen 0 m = (c1, m1)"
    "dig_loop body2 i klen (jlen - klen) c1 m1 = (snd ?r, m(i := fst ?r @ drop jlen (m i)))"
    using dig_loop_twice [OF ra, of klen "jlen - klen" ?r 0] i(2) kj by auto
  then have eq: "mpn_sub i j jlen k klen m = (mpn_remove_trailing_zeros (fst ?r @ drop jlen (m i)) jlen,
      m(i := fst ?r @ drop jlen (m i)))"
    unfolding mpn_sub_def body1_def [symmetric] body2_def [symmetric] by simp
  let ?xs = "fst ?r @ drop jlen (m i)"
  have "digits ?xs" "length ?xs = length (m i)" using seq i by (simp_all add: digits_drop)
  then have "stored i ?v (mpn_remove_trailing_zeros ?xs jlen) m (m(i := ?xs))"
    using normal_remove_trailing_zeros [of ?xs jlen] mpn_remove_trailing_zeros_val [of jlen ?xs] i(2) val
    by (simp add: stored_def)
  then show thesis by (rule that [OF eq mpn_remove_trailing_zeros_le])
qed

lemma zeros_nth: "drop n xs = replicate (length xs - n) 0 \<Longrightarrow> n < length xs \<Longrightarrow> xs ! n = (0 :: nat)"
  by (metis Cons_nth_drop_Suc Suc_diff_Suc list.inject replicate_Suc)

lemma zeros_drop: "drop n xs = replicate (length xs - n) (0 :: nat) \<Longrightarrow> drop (n + k) xs = replicate (length xs - (n + k)) 0"
  by (metis add.commute diff_diff_left drop_drop drop_replicate)

lemma mpn_mul_row_effect:
  assumes ij: "i \<noteq> j" and dig: "digits (m i)" "digits (m j)" "d < DIG_BASE"
    and len: "q + jlen < length (m i)" "jlen \<le> length (m j)"
    and zero: "drop (q + jlen) (m i) = replicate (length (m i) - (q + jlen)) 0"
  obtains c ds where "mpn_mul_row i j jlen d q m = (if c \<noteq> 0 then q + jlen + 1 else q + jlen,
        m(i := take q (m i) @ ds @ c # replicate (length (m i) - (q + jlen + 1)) 0))"
    and "length ds = jlen" and "digits ds" and "c < DIG_BASE"
    and "dval ds + DIG_BASE ^ jlen * c = dval (dig_slice (m i) q jlen) + dval (take jlen (m j)) * d"
proof -
  define body where "body m p c = (let c = u64 (c + u64 (m i ! p + u64 (m j ! (p - q) * d)))
      in (c mod DIG_BASE, c div DIG_BASE))" for m :: "'a bufs" and p c
  let ?r = "dig_seq (body m) q jlen 0" and ?t = "\<lambda>p. m i ! p + m j ! (p - q) * d"
  have ra: "reads_ahead body i m" unfolding body_def reads_ahead_def using ij by auto
  have "\<forall>p \<in> {q..<q + jlen}. \<forall>c \<le> DIG_BASE - 1. body m p c =
      ((c + ?t p) mod DIG_BASE, (c + ?t p) div DIG_BASE) \<and> (c + ?t p) div DIG_BASE \<le> DIG_BASE - 1"
  proof (intro ballI allI impI)
    fix p c
    assume p: "p \<in> {q..<q + jlen}" and c: "c \<le> DIG_BASE - 1"
    have "m i ! p < DIG_BASE" "m j ! (p - q) < DIG_BASE" using p len dig digits_nth by auto
    moreover have "c < DIG_BASE" using c DIG_BASE_pos(1) by linarith
    ultimately show "body m p c = ((c + ?t p) mod DIG_BASE, (c + ?t p) div DIG_BASE) \<and>
        (c + ?t p) div DIG_BASE \<le> DIG_BASE - 1"
      using mul_carry(1,2) [OF _ dig(3), of "m j ! (p - q)" "m i ! p" c]
      by (simp add: body_def Let_def less_eq_Suc_le del: u64_sq u64_id)
  qed
  note seq = carry_seq [OF this le0]
  have "map (\<lambda>p. m j ! (p - q)) [q..<q + jlen] = take jlen (m j)"
    using len by (intro nth_equalityI) simp_all
  then have "dval (map ?t [q..<q + jlen]) = dval (dig_slice (m i) q jlen) + dval (take jlen (m j)) * d"
    using map_nth_slice [of q jlen "m i"] len dval_map_mult [of "\<lambda>p. m j ! (p - q)" d]
    by (simp add: dval_map_add)
  then have val: "dval (fst ?r) + DIG_BASE ^ jlen * snd ?r = dval (dig_slice (m i) q jlen) + dval (take jlen (m j)) * d"
    using seq(1) by simp
  have loop: "dig_loop body i q jlen 0 m = (snd ?r, m(i := take q (m i) @ fst ?r @ drop (q + jlen) (m i)))"
    using dig_loop_seq [OF ra, of q jlen 0] len by simp
  have z: "drop (q + jlen) (m i) = 0 # replicate (length (m i) - (q + jlen + 1)) 0"
    using zero len(1) by (metis Suc_diff_Suc Suc_eq_plus1 replicate_Suc)
  have upd: "(take q (m i) @ fst ?r @ 0 # zs)[q + jlen := c] = take q (m i) @ fst ?r @ c # zs" for c zs
    using len by (simp add: list_update_append)
  have "mpn_mul_row i j jlen d q m = (if snd ?r \<noteq> 0 then q + jlen + 1 else q + jlen,
      m(i := take q (m i) @ fst ?r @ snd ?r # replicate (length (m i) - (q + jlen + 1)) 0))"
    unfolding mpn_mul_row_def body_def [symmetric] loop z by (simp add: upd)
  moreover have "snd ?r < DIG_BASE" using seq(2) DIG_BASE_pos(1) by linarith
  ultimately show thesis using seq(3) val by (intro that [of "snd ?r" "fst ?r"]) simp_all
qed

lemma mpn_mul_rows_stored:
  assumes ij: "i \<noteq> j" "i \<noteq> k" and dig: "digits (m i)" "digits (m j)" "digits (m k)"
    and len: "q + n + jlen \<le> length (m i)" "jlen \<le> length (m j)" "q + n \<le> length (m k)"
    and zero: "drop (q + jlen) (m i) = replicate (length (m i) - (q + jlen)) 0"
    and val: "dval (m i) = dval (take jlen (m j)) * dval (take q (m k))"
    and n: "0 < n"
  shows "\<exists>ilen m'. mpn_mul_rows i j jlen k q n l m = (ilen, m') \<and>
    (\<forall>b. b \<noteq> i \<longrightarrow> m' b = m b) \<and> length (m' i) = length (m i) \<and> digits (m' i) \<and>
    dval (take ilen (m' i)) = dval (take jlen (m j)) * dval (take (q + n) (m k)) \<and>
    (ilen = q + n + jlen - 1 \<or> ilen = q + n + jlen \<and> DIG_BASE ^ (ilen - 1) \<le> dval (take ilen (m' i)))"
  using assms
proof (induction n arbitrary: q m l)
  case (Suc n)
  note prems = Suc.prems
  let ?J = "dval (take jlen (m j))" and ?L = "length (m i)"
  have "q + jlen < ?L" using prems by simp
  then obtain c ds where row: "mpn_mul_row i j jlen (m k ! q) q m = (if c \<noteq> 0 then q + jlen + 1 else q + jlen,
        m(i := take q (m i) @ ds @ c # replicate (?L - (q + jlen + 1)) 0))"
    and ds: "length ds = jlen" "digits ds" "c < DIG_BASE"
    and sum: "dval ds + DIG_BASE ^ jlen * c = dval (dig_slice (m i) q jlen) + ?J * (m k ! q)"
    using mpn_mul_row_effect [of i j m "m k ! q" q jlen] prems digits_nth [of "m k" q] by auto
  let ?xs = "take q (m i) @ ds @ c # replicate (?L - (q + jlen + 1)) 0"
  let ?m = "m(i := ?xs)" and ?l = "if c \<noteq> 0 then q + jlen + 1 else q + jlen"
  have old: "dval (m i) = dval (take q (m i)) + DIG_BASE ^ q * dval (dig_slice (m i) q jlen)"
  proof -
    have "dval (m i) = dval (take (q + jlen) (m i) @ drop (q + jlen) (m i))" by simp
    also have "\<dots> = dval (take (q + jlen) (m i))" unfolding prems(9) by (simp add: dval_append)
    finally show ?thesis using dval_take_slice [of q "q + jlen" "m i"] prems(6) by simp
  qed
  have new: "dval ?xs = dval (take q (m i)) + DIG_BASE ^ q * (dval ds + DIG_BASE ^ jlen * c)"
    using prems(6) ds(1) by (simp add: dval_append algebra_simps)
  have kq: "dval (take (Suc q) (m k)) = dval (take q (m k)) + DIG_BASE ^ q * (m k ! q)"
    using prems(8) by (simp add: take_snoc dval_snoc)
  have val': "dval ?xs = ?J * dval (take (Suc q) (m k))"
    unfolding new sum kq using prems(10) old by (simp add: algebra_simps)
  have dig: "digits ?xs" and len: "length ?xs = ?L"
    using prems(3,6) ds by (simp_all add: digits_take)
  show ?case
  proof (cases "n = 0")
    case True
    have take: "take ?l ?xs = (if c \<noteq> 0 then take q (m i) @ ds @ [c] else take q (m i) @ ds)"
      using ds(1) prems(6) by (simp add: take_Cons' min_def)
    then have v: "dval (take ?l ?xs) = dval ?xs"
      using ds(1) prems(6) by (auto simp: dval_append algebra_simps)
    have "DIG_BASE ^ (q + jlen) \<le> dval ?xs" if "c \<noteq> 0"
    proof -
      have "DIG_BASE ^ (q + jlen) \<le> DIG_BASE ^ (q + jlen) * c" using that by simp
      moreover have "dval ?xs = dval (take q (m i)) + DIG_BASE ^ q * dval ds + DIG_BASE ^ (q + jlen) * c"
        unfolding new by (simp add: algebra_simps power_add)
      ultimately show ?thesis by linarith
    qed
    then show ?thesis using row v val' dig len True by (intro exI [of _ ?l] exI [of _ ?m]) auto
  next
    case False
    define M where "M = ?m"
    have M: "M i = ?xs" "M j = m j" "M k = m k" "\<And>b. b \<noteq> i \<Longrightarrow> M b = m b" using prems(1,2) by (simp_all add: M_def)
    have zero: "drop (Suc q + jlen) (M i) = replicate (length (M i) - (Suc q + jlen)) 0"
      using ds(1) prems(6) unfolding M(1) by simp
    have IH: "\<exists>ilen m'. mpn_mul_rows i j jlen k (Suc q) n ?l M = (ilen, m') \<and>
        (\<forall>b. b \<noteq> i \<longrightarrow> m' b = M b) \<and> length (m' i) = length (M i) \<and> digits (m' i) \<and>
        dval (take ilen (m' i)) = ?J * dval (take (Suc q + n) (m k)) \<and>
        (ilen = Suc q + n + jlen - 1 \<or> ilen = Suc q + n + jlen \<and> DIG_BASE ^ (ilen - 1) \<le> dval (take ilen (m' i)))"
      using Suc.IH [of M "Suc q" ?l] prems(1-8) False zero dig len val' unfolding M by simp
    have "mpn_mul_rows i j jlen k q (Suc n) l m = mpn_mul_rows i j jlen k (Suc q) n ?l M"
      using row by (simp add: M_def)
    with IH show ?thesis using M(1,4) len by auto
  qed
qed simp

lemma mpn_mul_stored:
  assumes j: "normal (m j) jlen" and k: "normal (m k) klen" and "0 < jlen" and "0 < klen" and "i \<noteq> j" and "i \<noteq> k"
    and i: "m i = replicate (length (m i)) 0" "jlen + klen \<le> length (m i)"
  obtains n m' where "mpn_mul i j jlen k klen m = (n, m')"
    and "stored i (dval (take jlen (m j)) * dval (take klen (m k))) n m m'"
proof -
  have jk: "digits (m j)" "digits (m k)" "jlen \<le> length (m j)" "klen \<le> length (m k)"
    using j k by (auto simp: normal_def)
  have mi: "digits (m i)" "drop (0 + jlen) (m i) = replicate (length (m i) - (0 + jlen)) 0" "dval (m i) = 0"
    using i(1) digits_replicate dval_replicate drop_replicate by metis+
  obtain ilen m' where eq: "mpn_mul_rows i j jlen k 0 klen 0 m = (ilen, m')"
    and m': "\<forall>b. b \<noteq> i \<longrightarrow> m' b = m b" "length (m' i) = length (m i)" "digits (m' i)"
    and v: "dval (take ilen (m' i)) = dval (take jlen (m j)) * dval (take klen (m k))"
    and l: "ilen = klen + jlen - 1 \<or> ilen = klen + jlen \<and> DIG_BASE ^ (ilen - 1) \<le> dval (take ilen (m' i))"
    using mpn_mul_rows_stored [of i j k m 0 klen jlen 0] assms jk mi by (auto simp del: fun_upd_apply)
  have "DIG_BASE ^ (jlen - 1) * DIG_BASE ^ (klen - 1) \<le> dval (take ilen (m' i))"
    unfolding v using normal_ge [OF j] normal_ge [OF k] assms(3,4) by (intro mult_le_mono) auto
  then have "DIG_BASE ^ (klen + jlen - 1 - 1) \<le> dval (take ilen (m' i))"
    using assms(3,4) by (simp flip: power_add add: add.commute)
  then have "normal (m' i) ilen" using l m' i(2) by (intro normalI) auto
  then show thesis using that [of ilen m'] eq m' v by (simp add: mpn_mul_def stored_def)
qed

end
