(* ===== verification/MpnBits.thy ===== *)
theory MpnBits
  imports Mpn
begin

text \<open>
  The shifts and the bitwise routines on digit arrays compute the shifts and bitwise operations on
  the numbers the arrays stand for.
\<close>

section \<open>Digits and bits\<close>

lemma digit_bit: "d < DIG_BASE \<Longrightarrow> DIG_SIZE \<le> k \<Longrightarrow> \<not> bit d k"
  by (metis DIG_BASE_def bit_take_bit_iff not_le take_bit_nat_eq_self)

lemma bit_split: "d < DIG_BASE \<Longrightarrow> bit (d + DIG_BASE * v) k \<longleftrightarrow> (if k < DIG_SIZE then bit d k else bit v (k - DIG_SIZE))"
proof -
  assume d: "d < DIG_BASE"
  have v: "DIG_BASE * v = push_bit DIG_SIZE v" by (simp add: DIG_BASE_def push_bit_eq_mult)
  have "bit (d + push_bit DIG_SIZE v) k \<longleftrightarrow> bit d k \<or> bit (push_bit DIG_SIZE v) k"
    using digit_bit [OF d] by (intro bit_disjunctive_add_iff) (auto simp: bit_push_bit_iff)
  then show ?thesis using digit_bit [OF d, of k] unfolding v by (auto simp: bit_push_bit_iff)
qed

lemma or_push_digit: "d < DIG_BASE \<Longrightarrow> d OR push_bit DIG_SIZE v = d + DIG_BASE * v"
  by (rule bit_eqI) (auto simp: bit_split bit_or_iff bit_push_bit_iff digit_bit)

lemma bitwise_split:
  assumes "d < DIG_BASE" and "e < DIG_BASE"
  shows "(d + DIG_BASE * v) AND (e + DIG_BASE * w) = (d AND e) + DIG_BASE * (v AND w)"
    and "(d + DIG_BASE * v) OR (e + DIG_BASE * w) = (d OR e) + DIG_BASE * (v OR w)"
    and "(d + DIG_BASE * v) XOR (e + DIG_BASE * w) = (d XOR e) + DIG_BASE * (v XOR w)"
    and "d AND e < DIG_BASE" and "d OR e < DIG_BASE" and "d XOR e < DIG_BASE"
proof -
  have "take_bit 32 d = d" "take_bit 32 e = e" using assms by (simp_all add: DIG_BASE_def take_bit_nat_eq_self)
  then have "take_bit 32 (d AND e) = d AND e" "take_bit 32 (d OR e) = d OR e" "take_bit 32 (d XOR e) = d XOR e"
    by (metis take_bit_and, metis take_bit_or, metis take_bit_xor)
  then show l: "d AND e < DIG_BASE" "d OR e < DIG_BASE" "d XOR e < DIG_BASE"
    unfolding DIG_BASE_def by (metis take_bit_nat_less_exp)+
  show "(d + DIG_BASE * v) AND (e + DIG_BASE * w) = (d AND e) + DIG_BASE * (v AND w)"
    using assms l by (intro bit_eqI) (simp add: bit_split bit_and_iff)
  show "(d + DIG_BASE * v) OR (e + DIG_BASE * w) = (d OR e) + DIG_BASE * (v OR w)"
    using assms l by (intro bit_eqI) (simp add: bit_split bit_or_iff)
  show "(d + DIG_BASE * v) XOR (e + DIG_BASE * w) = (d XOR e) + DIG_BASE * (v XOR w)"
    using assms l by (intro bit_eqI) (simp add: bit_split bit_xor_iff)
qed

section \<open>Left shift\<close>

definition shl_digit :: "nat \<Rightarrow> nat \<Rightarrow> nat \<Rightarrow> nat" where
  "shl_digit s prev x = (x + DIG_BASE * prev) div 2 ^ (DIG_SIZE - s) mod DIG_BASE"

primrec shl_digits :: "nat \<Rightarrow> nat list \<Rightarrow> nat \<Rightarrow> nat \<Rightarrow> nat list" where
  "shl_digits s js 0 prev = [shl_digit s prev 0]"
| "shl_digits s js (Suc r) prev = shl_digits s js r (js ! r) @ [shl_digit s prev (js ! r)]"

lemma length_shl_digits [simp]: "length (shl_digits s js r prev) = Suc r"
  by (induction r arbitrary: prev) simp_all

lemma digits_shl_digits: "digits (shl_digits s js r prev)"
  by (induction r arbitrary: prev) (simp_all add: shl_digit_def)

lemma DIG_BASE_split: "s \<le> DIG_SIZE \<Longrightarrow> DIG_BASE = 2 ^ s * 2 ^ (DIG_SIZE - s)"
  by (simp add: DIG_BASE_def flip: power_add)

lemma shl_digit_eq:
  assumes "s \<le> DIG_SIZE" and "x < DIG_BASE"
  shows "shl_digit s prev x + DIG_BASE * (prev div 2 ^ (DIG_SIZE - s)) = prev * 2 ^ s + x div 2 ^ (DIG_SIZE - s)"
proof -
  let ?t = "2 ^ (DIG_SIZE - s) :: nat"
  have B: "DIG_BASE = 2 ^ s * ?t" by (rule DIG_BASE_split [OF assms(1)])
  have x: "x div ?t < 2 ^ s" using assms(2) unfolding B by (intro less_mult_imp_div_less)
  have "(x + DIG_BASE * prev) div ?t = prev * 2 ^ s + x div ?t"
  proof -
    have eq: "DIG_BASE * prev = prev * 2 ^ s * ?t" unfolding B by (simp only: ac_simps)
    show ?thesis unfolding eq by simp
  qed
  moreover have "(prev * 2 ^ s + x div ?t) div DIG_BASE = prev div ?t"
  proof -
    have "(prev * 2 ^ s + x div ?t) div DIG_BASE = (prev * 2 ^ s + x div ?t) div 2 ^ s div ?t"
      unfolding B by (simp add: div_mult2_eq)
    then show ?thesis using x by simp
  qed
  ultimately show ?thesis unfolding shl_digit_def by (metis mod_mult_div_eq)
qed

lemma dval_shl_digits:
  assumes "s \<le> DIG_SIZE" and "digits js" and "r \<le> length js"
  shows "dval (shl_digits s js r prev) + DIG_BASE ^ Suc r * (prev div 2 ^ (DIG_SIZE - s)) =
    (dval (take r js) + DIG_BASE ^ r * prev) * 2 ^ s"
  using assms(3)
proof (induction r arbitrary: prev)
  case 0
  then show ?case using shl_digit_eq [OF assms(1), of 0 prev] by simp
next
  case (Suc r)
  let ?t = "2 ^ (DIG_SIZE - s) :: nat" and ?x = "js ! r"
  have x: "?x < DIG_BASE" using Suc.prems assms(2) digits_nth by simp
  have "dval (shl_digits s js (Suc r) prev) + DIG_BASE ^ Suc (Suc r) * (prev div ?t) =
      dval (shl_digits s js r ?x) + DIG_BASE ^ Suc r * (shl_digit s prev ?x + DIG_BASE * (prev div ?t))"
    by (simp add: dval_snoc algebra_simps)
  also have "\<dots> = (dval (shl_digits s js r ?x) + DIG_BASE ^ Suc r * (?x div ?t)) + DIG_BASE ^ Suc r * (prev * 2 ^ s)"
    unfolding shl_digit_eq [OF assms(1) x] by (simp add: algebra_simps)
  also have "\<dots> = (dval (take r js) + DIG_BASE ^ r * ?x) * 2 ^ s + DIG_BASE ^ Suc r * (prev * 2 ^ s)"
    using Suc.IH [of ?x] Suc.prems by simp
  also have "\<dots> = (dval (take (Suc r) js) + DIG_BASE ^ Suc r * prev) * 2 ^ s"
    using Suc.prems by (simp add: take_snoc dval_snoc algebra_simps)
  finally show ?case .
qed

lemma mpn_shl_loop_effect:
  assumes "0 < w" and "digits js" and "prev < DIG_BASE"
    and "r + w \<le> length (m i)" and "r \<le> length js" and "\<forall>q < r. m j ! q = js ! q"
  shows "mpn_shl_loop i j w s r (DIG_BASE * prev) m =
    (DIG_BASE * (if r = 0 then prev else js ! 0),
     m(i := take w (m i) @ tl (shl_digits s js r prev) @ drop (r + w) (m i)))"
  using assms(3-)
proof (induction r arbitrary: prev m)
  case (Suc r)
  let ?x = "js ! r" and ?d = "js ! r + DIG_BASE * prev"
  have x: "?x < DIG_BASE" "m j ! r = ?x" using Suc.prems assms(2) digits_nth by simp_all
  have d: "DIG_BASE * prev OR m j ! r = ?d"
    using or_push_digit [OF x(1), of prev] x(2) by (simp add: or.commute DIG_BASE_def push_bit_eq_mult mult.commute)
  have "u64 (push_bit DIG_SIZE ?d) = DIG_BASE * ?x"
  proof -
    have "push_bit DIG_SIZE ?d = DIG_BASE * ?x + DIG_BASE * DIG_BASE * prev"
      by (simp add: push_bit_eq_mult DIG_BASE_def)
    moreover have "DIG_BASE * ?x < DIG_BASE * DIG_BASE" using x(1) by simp
    moreover have "2 ^ 64 = DIG_BASE * DIG_BASE" by (simp add: DIG_BASE_square)
    ultimately show ?thesis unfolding u64_def by (simp only: mod_mult_self2 mod_less)
  qed
  moreover define M where "M = m(i := (m i)[r + w := shl_digit s prev ?x])"
  ultimately have step: "mpn_shl_loop i j w s (Suc r) (DIG_BASE * prev) m = mpn_shl_loop i j w s r (DIG_BASE * ?x) M"
    by (simp add: d shl_digit_def drop_bit_eq_div Let_def)
  have M: "M i = (m i)[r + w := shl_digit s prev ?x]" "r + w \<le> length (M i)" "\<forall>q < r. M j ! q = js ! q"
    using Suc.prems assms(1) by (auto simp: M_def)
  have upd: "take w (M i) = take w (m i)" "drop (r + w) (M i) = shl_digit s prev ?x # drop (Suc r + w) (m i)"
    unfolding M(1) using Suc.prems(2) by (simp_all add: Cons_nth_drop_Suc [symmetric] drop_update_swap)
  have tl: "tl (shl_digits s js r ?x @ ys) = tl (shl_digits s js r ?x) @ ys" for ys
    by (cases "shl_digits s js r ?x") (simp_all flip: length_0_conv)
  have "mpn_shl_loop i j w s r (DIG_BASE * ?x) M = (DIG_BASE * (if r = 0 then ?x else js ! 0),
      M(i := take w (m i) @ tl (shl_digits s js r ?x) @ shl_digit s prev ?x # drop (Suc r + w) (m i)))"
    using Suc.IH [OF x(1) M(2) _ M(3)] Suc.prems(3) upd by (auto simp: fun_eq_iff)
  moreover have "M(i := ds) = m(i := ds)" for ds by (simp add: M_def)
  ultimately show ?case unfolding step by (auto simp: tl fun_eq_iff)
qed simp

lemma two_power_digits: "n = w * DIG_SIZE + s \<Longrightarrow> (2 :: nat) ^ n = DIG_BASE ^ w * 2 ^ s"
  unfolding DIG_BASE_def by (simp only: power_add power_mult [symmetric] mult.commute [of w])

lemma n_whole_part:
  assumes "0 < n"
  shows "n = ((n + DIG_SIZE - 1) div DIG_SIZE - 1) * DIG_SIZE + (if n mod DIG_SIZE = 0 then DIG_SIZE else n mod DIG_SIZE)"
    and "0 < (n + DIG_SIZE - 1) div DIG_SIZE"
proof -
  obtain q r where n: "n = q * DIG_SIZE + r" "r < DIG_SIZE"
    using div_mult_mod_eq [of n DIG_SIZE] mod_less_divisor [of DIG_SIZE n] by (metis zero_less_numeral)
  have w: "(n + DIG_SIZE - 1) div DIG_SIZE = (if r = 0 then q else q + 1)" and r: "n mod DIG_SIZE = r"
    using n by auto
  show "n = ((n + DIG_SIZE - 1) div DIG_SIZE - 1) * DIG_SIZE + (if n mod DIG_SIZE = 0 then DIG_SIZE else n mod DIG_SIZE)"
    unfolding w r using assms n by (cases q) auto
  show "0 < (n + DIG_SIZE - 1) div DIG_SIZE" unfolding w using assms n by auto
qed

lemma mpn_shl_stored:
  assumes j: "normal (m j) jlen" and len: "0 < jlen" "0 < n"
    and i: "digits (m i)" "jlen + (n + DIG_SIZE - 1) div DIG_SIZE \<le> length (m i)"
  obtains l m' where "mpn_shl i j jlen n m = (l, m')" and "stored i (dval (take jlen (m j)) * 2 ^ n) l m m'"
proof -
  define w where "w = (n + DIG_SIZE - 1) div DIG_SIZE"
  define s where "s = (if n mod DIG_SIZE = 0 then DIG_SIZE else n mod DIG_SIZE)"
  have n: "n = (w - 1) * DIG_SIZE + s" "0 < w" "s \<le> DIG_SIZE"
    using n_whole_part [OF len(2)] by (simp_all add: w_def s_def less_imp_le)
  have j': "digits (m j)" "jlen \<le> length (m j)" and lw: "jlen + w \<le> length (m i)"
    using j i(2) by (auto simp: normal_def w_def)
  let ?ds = "shl_digits s (m j) jlen 0"
  have "mpn_shl_loop i j w s jlen (DIG_BASE * 0) m =
    (DIG_BASE * (if jlen = 0 then 0 else m j ! 0), m(i := take w (m i) @ tl ?ds @ drop (jlen + w) (m i)))"
    using n(2) j' lw by (intro mpn_shl_loop_effect) simp_all
  then have loop: "mpn_shl_loop i j w s jlen 0 m = (DIG_BASE * (m j ! 0), m(i := take w (m i) @ tl ?ds @ drop (jlen + w) (m i)))"
    using len by simp
  have hd: "?ds = shl_digit s (m j ! 0) 0 # tl ?ds"
  proof -
    have "hd (shl_digits s (m j) r p) = shl_digit s (if r = 0 then p else m j ! 0) 0" for r p
      by (induction r arbitrary: p) (auto simp: hd_append simp flip: length_0_conv)
    from this [of jlen 0] show ?thesis using len by (cases ?ds) (simp_all flip: length_0_conv)
  qed
  let ?xs = "replicate (w - 1) 0 @ ?ds @ drop (jlen + w) (m i)"
  have "(take w (m i) @ ys)[w - 1 := d] = take (w - 1) (m i) @ d # ys" for d ys
    using lw n(2) by (cases w) (simp_all add: take_Suc_conv_app_nth list_update_append)
  then have mem: "replicate (w - 1) 0 @ drop (w - 1) ((take w (m i) @ tl ?ds @ drop (jlen + w) (m i))[w - 1 := shl_digit s (m j ! 0) 0]) = ?xs"
    using lw n(2) by (subst hd) simp
  have eq: "mpn_shl i j jlen n m = (mpn_remove_trailing_zeros ?xs (jlen + w), m(i := ?xs))"
    unfolding mpn_shl_def w_def [symmetric] s_def [symmetric] Let_def loop
    using mem by (simp add: shl_digit_def drop_bit_eq_div)
  have "dval (take (jlen + w) ?xs) = DIG_BASE ^ (w - 1) * dval ?ds"
    using n(2) by (simp add: dval_append)
  also have "\<dots> = DIG_BASE ^ (w - 1) * (dval (take jlen (m j)) * 2 ^ s)"
    using dval_shl_digits [OF n(3) j', of 0] by simp
  also have "\<dots> = dval (take jlen (m j)) * 2 ^ n"
    using two_power_digits [OF n(1)] by simp
  finally have "dval (take (jlen + w) ?xs) = dval (take jlen (m j)) * 2 ^ n" .
  moreover have "digits ?xs" "length ?xs = length (m i)"
    using i(1) lw n(2) by (simp_all add: digits_shl_digits digits_drop)
  ultimately have "stored i (dval (take jlen (m j)) * 2 ^ n) (mpn_remove_trailing_zeros ?xs (jlen + w)) m (m(i := ?xs))"
    using normal_remove_trailing_zeros [of ?xs "jlen + w"] mpn_remove_trailing_zeros_val [of "jlen + w" ?xs] lw
    by (simp add: stored_def)
  then show thesis by (rule that [OF eq])
qed

section \<open>Right shift\<close>

lemma dval_take_top: "0 < n \<Longrightarrow> n \<le> length ds \<Longrightarrow>
    dval (take n ds) = dval (take (n - 1) ds) + DIG_BASE ^ (n - 1) * ds ! (n - 1)"
  by (cases n) (simp_all add: take_snoc dval_snoc)

lemma shr_seq:
  assumes "\<forall>q < L. f q () = ((js ! (w + q) + DIG_BASE * (if L - q > 1 then js ! (w + q + 1) else 0)) div 2 ^ s mod DIG_BASE, ())"
    and "s < DIG_SIZE" and "digits js" and "p + n = L" and "w + L \<le> length js"
  shows "dval (fst (dig_seq f p n ())) = dval (dig_slice js (w + p) n) div 2 ^ s \<and> digits (fst (dig_seq f p n ()))"
  using assms(4)
proof (induction n arbitrary: p)
  case (Suc n)
  let ?x = "js ! (w + p)" and ?V = "dval (dig_slice js (w + Suc p) n)" and ?t = "2 ^ s :: nat"
  have slice: "dig_slice js (w + p) (Suc n) = ?x # dig_slice js (w + Suc p) n"
    using Suc.prems assms(5) by (simp add: slice_Suc)
  obtain y W where V: "?V = y + DIG_BASE * W" and y: "y = (if L - p > 1 then js ! (w + p + 1) else 0)"
  proof (cases n)
    case 0
    with Suc.prems have "\<not> L - p > 1" by simp
    with 0 show ?thesis by (intro that [of 0 0]) simp_all
  next
    case (Suc k)
    with Suc.prems have "L - p > 1" by simp
    with Suc Suc.prems assms(5) show ?thesis
      by (intro that [of "js ! (w + p + 1)" "dval (dig_slice js (w + Suc (Suc p)) k)"]) (simp_all add: slice_Suc)
  qed
  have x: "?x < DIG_BASE" using Suc.prems assms(3,5) digits_nth by simp
  have B: "DIG_BASE = ?t * 2 ^ (DIG_SIZE - s)" by (rule DIG_BASE_split) (use assms(2) in simp)
  have "(?x + DIG_BASE * ?V) div ?t mod DIG_BASE = (?x + DIG_BASE * y) div ?t mod DIG_BASE"
  proof -
    have eq: "?x + DIG_BASE * ?V = (?x + DIG_BASE * y) + (2 ^ (DIG_SIZE - s) * W * DIG_BASE) * ?t"
      unfolding V using B by (simp add: algebra_simps)
    have "(?x + DIG_BASE * ?V) div ?t = 2 ^ (DIG_SIZE - s) * W * DIG_BASE + (?x + DIG_BASE * y) div ?t"
      unfolding eq by (rule div_mult_self1) simp
    then show ?thesis by simp
  qed
  moreover have "(?x + DIG_BASE * ?V) div ?t div DIG_BASE = ?V div ?t"
    using x by (simp add: div_mult2_eq [symmetric] mult.commute [of ?t]) (simp add: div_mult2_eq)
  ultimately have "(?x + DIG_BASE * ?V) div ?t = (?x + DIG_BASE * y) div ?t mod DIG_BASE + DIG_BASE * (?V div ?t)"
    by (metis mod_mult_div_eq)
  moreover have "f p () = ((?x + DIG_BASE * y) div ?t mod DIG_BASE, ())" using assms(1) Suc.prems y by simp
  ultimately show ?case using Suc.IH [of "Suc p"] Suc.prems unfolding slice by (simp add: dig_seq_Suc)
qed simp

lemma mpn_shr_stored:
  assumes j: "normal (m j) jlen" and i: "digits (m i)" "jlen \<le> length (m i)"
  obtains l m' where "mpn_shr i j jlen n m = (l, m')" and "l \<le> jlen"
    and "stored i (dval (take jlen (m j)) div 2 ^ n) l m m'"
proof -
  define w where "w = n div DIG_SIZE"
  define s where "s = n mod DIG_SIZE"
  have n: "n = w * DIG_SIZE + s" "s < DIG_SIZE" by (simp_all add: w_def s_def)
  have j': "digits (m j)" "jlen \<le> length (m j)" using j by (auto simp: normal_def)
  have div: "dval (take jlen (m j)) div 2 ^ n = dval (take jlen (m j)) div DIG_BASE ^ w div 2 ^ s"
    by (simp only: two_power_digits [OF n(1)] div_mult2_eq)
  show thesis
  proof (cases "w \<ge> jlen")
    case True
    have "dval (take jlen (m j)) < DIG_BASE ^ w"
      using normal_less [OF j] power_increasing [OF True, of DIG_BASE] by (simp add: less_le_trans)
    then have "dval (take jlen (m j)) div 2 ^ n = 0" unfolding div by simp
    then have "stored i (dval (take jlen (m j)) div 2 ^ n) 0 m m" using i by (simp add: stored_def normal_def)
    moreover have "mpn_shr i j jlen n m = (0, m)" using True by (simp add: mpn_shr_def w_def)
    ultimately show thesis using that by blast
  next
    case False
    define L where "L = jlen - w"
    have L: "0 < L" "w + L = jlen" using False by (simp_all add: L_def)
    define body where "body m p u = (let d = m j ! (w + p);
        d = (if L - p > 1 then d OR push_bit DIG_SIZE (m j ! (w + p + 1)) else d)
      in (drop_bit s d mod DIG_BASE, ()))" for m :: "'a bufs" and p and u :: unit
    have ra: "reads_ahead body i m"
      unfolding reads_ahead_def body_def by (auto simp: Let_def) (metis le_add2 le_SucI)+
    let ?ds = "fst (dig_seq (body m) 0 L ())"
    have "\<forall>q < L. body m q () = ((m j ! (w + q) + DIG_BASE * (if L - q > 1 then m j ! (w + q + 1) else 0)) div 2 ^ s mod DIG_BASE, ())"
      using j' L or_push_digit digits_nth by (auto simp: body_def drop_bit_eq_div)
    note seq = shr_seq [where f = "body m" and js = "m j" and w = w, OF this n(2) j'(1), of 0 L]
    have V: "dval (take jlen (m j)) = dval (take w (m j)) + DIG_BASE ^ w * dval (dig_slice (m j) w L)"
      using dval_take_slice [of w jlen "m j"] L(2) j' unfolding L_def by simp
    have "dval (take w (m j)) < DIG_BASE ^ w"
      using dval_less [of "take w (m j)"] j' L by (simp add: digits_take min_absorb2)
    then have high: "dval (take jlen (m j)) div DIG_BASE ^ w = dval (dig_slice (m j) w L)" unfolding V by simp
    have val: "dval ?ds = dval (take jlen (m j)) div 2 ^ n" and dig: "digits ?ds"
      unfolding div high using seq L j' by simp_all
    let ?xs = "?ds @ drop L (m i)" and ?v = "dval (take jlen (m j)) div 2 ^ n"
    let ?l = "if ?xs ! (L - 1) = 0 then L - 1 else L"
    have loop: "dig_loop body i 0 L () m = ((), m(i := ?xs))"
      using dig_loop_seq [OF ra, of 0 L "()"] L i by simp
    have eq: "mpn_shr i j jlen n m = (?l, m(i := ?xs))"
      unfolding mpn_shr_def w_def [symmetric] s_def [symmetric] Let_def L_def [symmetric] body_def [abs_def]
      using False loop [unfolded body_def [abs_def] Let_def] by simp
    have xs: "digits ?xs" "length ?xs = length (m i)" using dig i L by (simp_all add: digits_drop)
    have top: "dval (take L ?xs) = dval (take (L - 1) ?xs) + DIG_BASE ^ (L - 1) * ?xs ! (L - 1)"
      using L xs(2) i by (intro dval_take_top) linarith+
    then have "dval (take ?l ?xs) = dval (take L ?xs)" by (simp del: take_append)
    then have take: "dval (take ?l ?xs) = ?v" using val by simp
    have "DIG_BASE ^ (?l - 1) \<le> ?v" if "0 < ?l"
    proof (cases "?xs ! (L - 1) = 0")
      case False
      then have "DIG_BASE ^ (L - 1) \<le> DIG_BASE ^ (L - 1) * ?xs ! (L - 1)" by simp
      also have "\<dots> \<le> dval (take L ?xs)" unfolding top by simp
      finally show ?thesis using False val by simp
    next
      case True
      have "DIG_BASE ^ (L - 1) * DIG_BASE ^ w \<le> dval (take jlen (m j))"
        using normal_ge [OF j] L by (simp flip: power_add add: add.commute)
      then have "DIG_BASE ^ (L - 1) \<le> dval (take jlen (m j)) div DIG_BASE ^ w"
        by (simp add: less_eq_div_iff_mult_less_eq)
      then have "DIG_BASE ^ (L - 1) div 2 ^ s \<le> ?v" unfolding div by (rule div_le_mono)
      moreover have "DIG_BASE ^ (L - 1 - 1) \<le> DIG_BASE ^ (L - 1) div 2 ^ s"
      proof -
        have "2 ^ s \<le> DIG_BASE" unfolding DIG_BASE_def using n(2) by (intro power_increasing) simp_all
        then have "DIG_BASE ^ (L - 1 - 1) * 2 ^ s \<le> DIG_BASE ^ (L - 1 - 1) * DIG_BASE" by (rule mult_le_mono2)
        also have "\<dots> = DIG_BASE ^ (L - 1)" using that True by (cases "L - 1") simp_all
        finally show ?thesis by (simp add: less_eq_div_iff_mult_less_eq)
      qed
      ultimately show ?thesis using True by simp
    qed
    then have "normal ?xs ?l" using xs i L take by (intro normalI) auto
    then have "stored i ?v ?l m (m(i := ?xs))" using take xs(2) by (simp add: stored_def)
    moreover have "?l \<le> jlen" using L by auto
    ultimately show thesis using that eq by blast
  qed
qed

section \<open>Bitwise operations\<close>

lemma k_has_digit_iff:
  assumes "p < jlen" and "klen \<le> jlen" and "jlen < 2 ^ 64"
  shows "k_has_digit jlen klen p \<longleftrightarrow> p < klen"
proof (cases "p < klen")
  case True
  then have "(int klen - int p - 1) mod 2 ^ 64 = int klen - int p - 1" using assms by (intro mod_pos_pos_trivial) auto
  then show ?thesis using True assms by (simp add: k_has_digit_def to_u64_def)
next
  case False
  have "(int klen - int p - 1) mod 2 ^ 64 = (int klen - int p - 1 + 2 ^ 64) mod 2 ^ 64" by (rule mod_add_self2 [symmetric])
  also have "\<dots> = int klen - int p - 1 + 2 ^ 64" using False assms by (intro mod_pos_pos_trivial) auto
  finally show ?thesis using False assms by (simp add: k_has_digit_def to_u64_def nat_le_iff)
qed

lemma DIG_MASK_mask: "DIG_MASK = mask DIG_SIZE"
  by (simp add: DIG_MASK_def DIG_BASE_def mask_eq_exp_minus_1)

lemma and_DIG_MASK: "n AND DIG_MASK = n mod DIG_BASE"
  unfolding DIG_MASK_mask DIG_BASE_def take_bit_eq_mask [symmetric] take_bit_eq_mod ..

lemma xor_DIG_MASK: "d < DIG_BASE \<Longrightarrow> d XOR DIG_MASK = DIG_MASK - d"
proof -
  assume d: "d < DIG_BASE"
  have low: "bit d k \<Longrightarrow> k < DIG_SIZE" for k using digit_bit [OF d, of k] by (meson not_less)
  have "(d XOR DIG_MASK) + d = DIG_MASK"
  proof -
    have "(d XOR DIG_MASK) AND d = 0"
      using low by (intro bit_eqI) (auto simp: bit_simps DIG_MASK_mask)
    then have "(d XOR DIG_MASK) + d = (d XOR DIG_MASK) OR d" by (rule disjunctive_add_eq_or)
    also have "\<dots> = DIG_MASK"
      using low by (intro bit_eqI) (auto simp: bit_simps DIG_MASK_mask)
    finally show ?thesis .
  qed
  then show ?thesis by simp
qed

text \<open>A loop with a carry for the result and one for each operand.\<close>

lemma neg_seq:
  assumes f: "\<forall>q \<in> {p..<p + n}. \<forall>ci cj ck. f q (ci, cj, ck) =
      (let cj = cj + s q; ck = ck + t q; ci = ci + g (cj mod DIG_BASE) (ck mod DIG_BASE)
       in (ci mod DIG_BASE, (ci div DIG_BASE, cj div DIG_BASE, ck div DIG_BASE)))"
    and g: "\<And>d e. d < DIG_BASE \<Longrightarrow> e < DIG_BASE \<Longrightarrow> g d e < DIG_BASE" and ci: "ci \<le> 1"
  shows "\<exists>xs ys cj' ck' ci'. snd (dig_seq f p n (ci, cj, ck)) = (ci', cj', ck') \<and> length xs = n \<and> length ys = n \<and>
      digits xs \<and> digits ys \<and> digits (fst (dig_seq f p n (ci, cj, ck))) \<and> ci' \<le> 1 \<and>
      dval xs + DIG_BASE ^ n * cj' = cj + dval (map s [p..<p + n]) \<and>
      dval ys + DIG_BASE ^ n * ck' = ck + dval (map t [p..<p + n]) \<and>
      dval (fst (dig_seq f p n (ci, cj, ck))) + DIG_BASE ^ n * ci' = ci + dval (map2 g xs ys)"
  using f ci
proof (induction n arbitrary: p ci cj ck)
  case (Suc n)
  define dj where "dj = cj + s p"
  define dk where "dk = ck + t p"
  define di where "di = ci + g (dj mod DIG_BASE) (dk mod DIG_BASE)"
  have step: "f p (ci, cj, ck) = (di mod DIG_BASE, (di div DIG_BASE, dj div DIG_BASE, dk div DIG_BASE))"
    using Suc.prems(1) by (simp add: dj_def dk_def di_def Let_def)
  have "di < 2 * DIG_BASE" using Suc.prems(2) g [of "dj mod DIG_BASE" "dk mod DIG_BASE"] by (simp add: di_def)
  then have "di div DIG_BASE \<le> 1" using less_mult_imp_div_less [of di 2 DIG_BASE] by simp
  with Suc.IH [of "Suc p" "di div DIG_BASE" "dj div DIG_BASE" "dk div DIG_BASE"] Suc.prems(1)
  obtain xs ys cj' ck' ci' where IH: "snd (dig_seq f (Suc p) n (di div DIG_BASE, dj div DIG_BASE, dk div DIG_BASE)) = (ci', cj', ck')"
    "length xs = n" "length ys = n" "digits xs" "digits ys" "ci' \<le> 1"
    "digits (fst (dig_seq f (Suc p) n (di div DIG_BASE, dj div DIG_BASE, dk div DIG_BASE)))"
    and sums: "dval xs + DIG_BASE ^ n * cj' = dj div DIG_BASE + dval (map s [Suc p..<Suc p + n])"
    "dval ys + DIG_BASE ^ n * ck' = dk div DIG_BASE + dval (map t [Suc p..<Suc p + n])"
    "dval (fst (dig_seq f (Suc p) n (di div DIG_BASE, dj div DIG_BASE, dk div DIG_BASE))) + DIG_BASE ^ n * ci' =
      di div DIG_BASE + dval (map2 g xs ys)"
    by auto
  have up: "a mod DIG_BASE + DIG_BASE * v + DIG_BASE ^ Suc n * c = b + (w + DIG_BASE * u)"
    if "v + DIG_BASE ^ n * c = a div DIG_BASE + u" "a = b + w" for a b c u v w
  proof -
    have "a mod DIG_BASE + DIG_BASE * v + DIG_BASE ^ Suc n * c = a mod DIG_BASE + DIG_BASE * (v + DIG_BASE ^ n * c)"
      by (simp add: algebra_simps)
    then show ?thesis unfolding that(1) using that(2) by (simp add: algebra_simps)
  qed
  show ?case
    using IH up [OF sums(1) dj_def] up [OF sums(2) dk_def] up [OF sums(3) di_def]
    by (rule_tac exI [of _ "dj mod DIG_BASE # xs"], rule_tac exI [of _ "dk mod DIG_BASE # ys"], rule_tac exI [of _ cj'],
        rule_tac exI [of _ ck'], rule_tac exI [of _ ci']) (simp add: dig_seq_Suc step upt_conv_Cons del: upt_Suc)
qed simp

lemma dval_map2_bitwise:
  assumes "length xs = length ys" and "digits xs" and "digits ys"
  shows "dval (map2 (AND) xs ys) = dval xs AND dval ys" and "dval (map2 (OR) xs ys) = dval xs OR dval ys"
    and "dval (map2 (XOR) xs ys) = dval xs XOR dval ys"
  using assms by (induction xs ys rule: list_induct2) (simp_all add: bitwise_split)

lemma dval_complement:
  assumes "\<And>d e. d < DIG_BASE \<Longrightarrow> e < DIG_BASE \<Longrightarrow> g d e < DIG_BASE" and "length xs = length ys" and "digits xs" and "digits ys"
  shows "dval (map2 (\<lambda>d e. g d e XOR DIG_MASK) xs ys) + dval (map2 g xs ys) + 1 = DIG_BASE ^ length xs"
  using assms(2-)
proof (induction xs ys rule: list_induct2)
  case (Cons d xs e ys)
  have g: "g d e < DIG_BASE" using Cons.prems assms(1) by simp
  let ?a = "dval (map2 (\<lambda>d e. g d e XOR DIG_MASK) xs ys)" and ?b = "dval (map2 g xs ys)"
  have one: "(g d e XOR DIG_MASK) + g d e + 1 = DIG_BASE"
    unfolding xor_DIG_MASK [OF g] using g by (simp add: DIG_MASK_def)
  have "((g d e XOR DIG_MASK) + DIG_BASE * ?a) + (g d e + DIG_BASE * ?b) + 1 =
      ((g d e XOR DIG_MASK) + g d e + 1) + DIG_BASE * (?a + ?b)" by (simp add: algebra_simps)
  also have "\<dots> = DIG_BASE * (?a + ?b + 1)" unfolding one by (simp add: algebra_simps)
  also have "\<dots> = DIG_BASE * DIG_BASE ^ length xs" using Cons by simp
  finally show ?case by simp
qed simp

text \<open>The signed number with a sign flag and a magnitude.\<close>

definition tc :: "bool \<Rightarrow> nat \<Rightarrow> int" where
  "tc neg v = (if neg then - int v else int v)"

lemma DIG_BASE_power: "int DIG_BASE ^ n = 2 ^ (DIG_SIZE * n)"
  by (simp add: DIG_BASE_def power_mult)

lemma digits_complement:
  assumes "\<forall>q < n. D q < DIG_BASE"
  shows "dval (map (\<lambda>q. D q XOR DIG_MASK) [0..<n]) + dval (map D [0..<n]) + 1 = DIG_BASE ^ n"
    and "dval (map (\<lambda>q. D q + DIG_MASK) [0..<n]) + 1 = dval (map D [0..<n]) + DIG_BASE ^ n"
proof -
  have dig: "digits (map D [0..<n])" using assms by (simp add: digits_def)
  have "map2 (\<lambda>d e. d XOR DIG_MASK) (map D [0..<n]) (map D [0..<n]) = map (\<lambda>q. D q XOR DIG_MASK) [0..<n]"
    and "map2 (\<lambda>d e. d) (map D [0..<n]) (map D [0..<n]) = map D [0..<n]"
    by (intro nth_equalityI; simp)+
  with dval_complement [of "\<lambda>d e. d" "map D [0..<n]" "map D [0..<n]"] dig
  show "dval (map (\<lambda>q. D q XOR DIG_MASK) [0..<n]) + dval (map D [0..<n]) + 1 = DIG_BASE ^ n"
    by (simp del: map_map)
  have "dval (map (\<lambda>q. DIG_MASK) [0..<n]) + 1 = DIG_BASE ^ n"
  proof -
    have "dval (map (\<lambda>q. DIG_MASK) qs) + 1 = DIG_BASE ^ length qs" for qs :: "nat list"
    proof (induction qs)
      case (Cons q qs)
      have "dval (map (\<lambda>q. DIG_MASK) (q # qs)) + 1 = (DIG_MASK + 1) + DIG_BASE * dval (map (\<lambda>q. DIG_MASK) qs)" by simp
      also have "\<dots> = DIG_BASE * (dval (map (\<lambda>q. DIG_MASK) qs) + 1)" by (simp add: DIG_MASK_def)
      finally show ?case unfolding Cons.IH by simp
    qed simp
    from this [of "[0..<n]"] show ?thesis by simp
  qed
  then show "dval (map (\<lambda>q. D q + DIG_MASK) [0..<n]) + 1 = dval (map D [0..<n]) + DIG_BASE ^ n"
    by (simp add: dval_map_add)
qed

lemma operand_twos:
  assumes "digits xs" and "length xs = n" and "\<forall>q < n. D q < DIG_BASE"
    and "dval xs + DIG_BASE ^ n * c = of_bool neg + dval (map (\<lambda>q. D q XOR carry_mask (of_bool neg)) [0..<n])"
  shows "int (dval xs) = take_bit (DIG_SIZE * n) (tc neg (dval (map D [0..<n])))"
proof -
  let ?V = "dval (map D [0..<n])"
  have lt: "int (dval xs) < int DIG_BASE ^ n" using dval_less [OF assms(1)] assms(2) by (simp flip: of_nat_power)
  have "dval xs + DIG_BASE ^ n * c + (if neg then ?V else 0) = (if neg then DIG_BASE ^ n else ?V)"
    using assms(4) digits_complement(1) [OF assms(3)] by (auto simp: carry_mask_def)
  then have "int (dval xs) + int DIG_BASE ^ n * int c + (if neg then int ?V else 0) = (if neg then int DIG_BASE ^ n else int ?V)"
    by (simp flip: of_nat_power of_nat_mult of_nat_add split: if_splits)
  then have "tc neg ?V = int (dval xs) + int DIG_BASE ^ n * (int c - of_bool neg)"
    by (auto simp: tc_def algebra_simps)
  then have "tc neg ?V mod int DIG_BASE ^ n = int (dval xs)" using lt by simp
  then show ?thesis unfolding take_bit_eq_mod DIG_BASE_power [symmetric] by simp
qed

lemma operand_pred:
  assumes "digits xs" and "length xs = n" and "\<forall>q < n. D q < DIG_BASE"
    and "dval xs + DIG_BASE ^ n * c = of_bool (\<not> neg) + dval (map (\<lambda>q. D q + DIG_MASK) [0..<n])"
  shows "int (dval xs) = take_bit (DIG_SIZE * n) (int (dval (map D [0..<n])) - of_bool neg)"
proof -
  let ?V = "dval (map D [0..<n])"
  have lt: "int (dval xs) < int DIG_BASE ^ n" using dval_less [OF assms(1)] assms(2) by (simp flip: of_nat_power)
  have "dval xs + DIG_BASE ^ n * c + of_bool neg = ?V + DIG_BASE ^ n"
    using assms(4) digits_complement(2) [OF assms(3)] by auto
  from arg_cong [OF this, of int]
  have "int (dval xs) + int DIG_BASE ^ n * int c + of_bool neg = int ?V + int DIG_BASE ^ n" by simp
  then have "int ?V - of_bool neg = int (dval xs) + int DIG_BASE ^ n * (int c - 1)"
    by (simp add: algebra_simps)
  then have "(int ?V - of_bool neg) mod int DIG_BASE ^ n = int (dval xs)" using lt by simp
  then show ?thesis unfolding take_bit_eq_mod DIG_BASE_power [symmetric] by simp
qed

text \<open>The loop of the general routines, on buffers.\<close>

lemma neg_loop:
  assumes body: "\<And>m p ci cj ck. p < jlen \<Longrightarrow> body m p (ci, cj, ck) =
      (let cj = cj + sj (m j ! p); ck = ck + (if p < klen then sk (m k ! p) else sk 0);
           ci = ci + g (cj mod DIG_BASE) (ck mod DIG_BASE)
       in (ci mod DIG_BASE, (ci div DIG_BASE, cj div DIG_BASE, ck div DIG_BASE)))"
    and ra: "reads_ahead body i m" and len: "jlen \<le> length (m i)"
    and g: "\<And>d e. d < DIG_BASE \<Longrightarrow> e < DIG_BASE \<Longrightarrow> g d e < DIG_BASE" and ci: "ci \<le> 1"
  obtains out xs ys ci' cj' ck' where
    "dig_loop body i 0 jlen (ci, cj, ck) m = ((ci', cj', ck'), m(i := out @ drop jlen (m i)))"
    and "length out = jlen" and "length xs = jlen" and "length ys = jlen" and "digits out" and "digits xs" and "digits ys"
    and "ci' \<le> 1" and "dval xs + DIG_BASE ^ jlen * cj' = cj + dval (map (\<lambda>q. sj (m j ! q)) [0..<jlen])"
    and "dval ys + DIG_BASE ^ jlen * ck' = ck + dval (map (\<lambda>q. sk (zext (m k) klen q)) [0..<jlen])"
    and "dval out + DIG_BASE ^ jlen * ci' = ci + dval (map2 g xs ys)"
proof -
  let ?r = "dig_seq (body m) 0 jlen (ci, cj, ck)"
  have "\<forall>q \<in> {0..<0 + jlen}. \<forall>ci cj ck. body m q (ci, cj, ck) =
      (let cj = cj + sj (m j ! q); ck = ck + sk (zext (m k) klen q); ci = ci + g (cj mod DIG_BASE) (ck mod DIG_BASE)
       in (ci mod DIG_BASE, (ci div DIG_BASE, cj div DIG_BASE, ck div DIG_BASE)))"
    by (auto simp: body zext_def)
  from neg_seq [OF this g ci, of cj ck] obtain xs ys cj' ck' ci' where
    "snd ?r = (ci', cj', ck') \<and> length xs = jlen \<and> length ys = jlen \<and> digits xs \<and> digits ys \<and> digits (fst ?r) \<and> ci' \<le> 1 \<and>
     dval xs + DIG_BASE ^ jlen * cj' = cj + dval (map (\<lambda>q. sj (m j ! q)) [0..<jlen]) \<and>
     dval ys + DIG_BASE ^ jlen * ck' = ck + dval (map (\<lambda>q. sk (zext (m k) klen q)) [0..<jlen]) \<and>
     dval (fst ?r) + DIG_BASE ^ jlen * ci' = ci + dval (map2 g xs ys)" by auto
  moreover have "dig_loop body i 0 jlen (ci, cj, ck) m = (snd ?r, m(i := fst ?r @ drop jlen (m i)))"
    using dig_loop_seq [OF ra, of 0 jlen] len by simp
  ultimately show thesis by (intro that [of ci' cj' ck' "fst ?r" xs ys]) simp_all
qed

lemma carry_stripped:
  assumes ds: "digits ds" "length ds = n" and c: "c < DIG_BASE" "n < length (m i) \<or> c = 0"
    and m: "digits (m i)" "n \<le> length (m i)" and val: "dval ds + DIG_BASE ^ n * c = v"
    and xs: "xs = (if c \<noteq> 0 then (ds @ drop n (m i))[n := c] else ds @ drop n (m i))"
  shows "stored i v (mpn_remove_trailing_zeros xs (if c \<noteq> 0 then n + 1 else n)) m (m(i := xs))"
proof -
  let ?n = "if c \<noteq> 0 then n + 1 else n"
  have "take ?n xs = (if c \<noteq> 0 then ds @ [c] else ds)"
    using carry_store [OF ds(2) c(2)] ds(2) xs by (auto split: if_splits)
  then have v: "dval (take ?n xs) = v" using val ds(2) by (auto simp: dval_snoc)
  have "digits xs" using ds(1) m(1) c(1) xs by (simp add: digits_update digits_drop)
  moreover have len: "length xs = length (m i)" using ds(2) m(2) xs by simp
  moreover have le: "?n \<le> length xs" using c(2) m(2) len by (auto split: if_splits)
  ultimately show ?thesis
    using v normal_remove_trailing_zeros [of xs ?n] mpn_remove_trailing_zeros_val [OF le] by (simp add: stored_def)
qed

lemma int_not_bounds:
  fixes x :: int
  assumes "- (2 ^ N) \<le> x" and "x < 0"
  shows "0 \<le> NOT x" and "NOT x < 2 ^ N"
  using assms by (simp_all add: not_int_def)

lemma int_and_neg_bounds:
  fixes x y :: int
  assumes "- (2 ^ N) \<le> x" "x < 0" and "- (2 ^ N) \<le> y" "y < 0"
  shows "- (2 ^ N) \<le> x AND y" and "x AND y < 0"
proof -
  have "0 \<le> NOT x OR NOT y" "NOT x OR NOT y < 2 ^ N"
    using int_not_bounds [OF assms(1,2)] int_not_bounds [OF assms(3,4)] OR_upper [of "NOT x" N "NOT y"] by simp_all
  then have "0 \<le> NOT (x AND y)" "NOT (x AND y) < 2 ^ N" by simp_all
  then show "- (2 ^ N) \<le> x AND y" and "x AND y < 0" by (simp_all add: not_int_def)
qed

lemma tc_bounds:
  assumes "v < DIG_BASE ^ n" and "neg \<longrightarrow> 0 < v"
  shows "- (2 ^ (DIG_SIZE * n)) < tc neg v" and "tc neg v < 2 ^ (DIG_SIZE * n)" and "tc neg v < 0 \<longleftrightarrow> neg"
proof -
  have "int v < int (DIG_BASE ^ n)" using assms(1) by (simp only: of_nat_less_iff)
  then have "int v < 2 ^ (DIG_SIZE * n)" by (simp only: of_nat_power DIG_BASE_power)
  moreover have "0 \<le> int v" "(0 :: int) < 2 ^ (DIG_SIZE * n)" "neg \<Longrightarrow> 0 < int v" using assms(2) by simp_all
  moreover have "neg \<Longrightarrow> tc neg v = - int v" "\<not> neg \<Longrightarrow> tc neg v = int v" by (simp_all add: tc_def)
  ultimately have "- (2 ^ (DIG_SIZE * n)) < tc neg v \<and> tc neg v < 2 ^ (DIG_SIZE * n) \<and> (tc neg v < 0 \<longleftrightarrow> neg)"
    by (cases neg) linarith+
  then show "- (2 ^ (DIG_SIZE * n)) < tc neg v" and "tc neg v < 2 ^ (DIG_SIZE * n)" and "tc neg v < 0 \<longleftrightarrow> neg" by blast+
qed

text \<open>The magnitude the result loop leaves, from the two's complement bits \<open>u\<close> of the result \<open>R\<close>.\<close>

lemma result_magnitude:
  assumes "int u = take_bit N R" and "neg \<longleftrightarrow> R < 0" and "- (2 ^ N) \<le> R" and "R < 2 ^ N"
  shows "(if neg then 2 ^ N - int u else int u) = \<bar>R\<bar>" and "tc neg (nat \<bar>R\<bar>) = R"
proof -
  have "take_bit N R = (if neg then R + 2 ^ N else R)"
  proof (cases neg)
    case True
    have "R mod 2 ^ N = (R + 2 ^ N) mod 2 ^ N" by simp
    also have "\<dots> = R + 2 ^ N" using True assms(2,3) by (intro mod_pos_pos_trivial) auto
    finally show ?thesis using True by (simp add: take_bit_eq_mod)
  next
    case False
    then show ?thesis using assms(2,4) by (simp add: take_bit_eq_mod)
  qed
  then show "(if neg then 2 ^ N - int u else int u) = \<bar>R\<bar>" using assms(1,2) by auto
  show "tc neg (nat \<bar>R\<bar>) = R" using assms(2) by (auto simp: tc_def)
qed

lemma masked_op:
  assumes "im \<in> {0, DIG_MASK}"
  shows "((a AND b) XOR im) AND DIG_MASK = ((a mod DIG_BASE) AND (b mod DIG_BASE)) XOR im"
    and "((a OR b) XOR im) AND DIG_MASK = ((a mod DIG_BASE) OR (b mod DIG_BASE)) XOR im"
    and "(a XOR b) AND DIG_MASK = (a mod DIG_BASE) XOR (b mod DIG_BASE)"
proof -
  have "x mod DIG_BASE = take_bit 32 x" for x by (simp add: DIG_BASE_def take_bit_eq_mod)
  moreover have "take_bit 32 im = im" using assms by (auto simp: DIG_MASK_mask)
  ultimately show "((a AND b) XOR im) AND DIG_MASK = ((a mod DIG_BASE) AND (b mod DIG_BASE)) XOR im"
    "((a OR b) XOR im) AND DIG_MASK = ((a mod DIG_BASE) OR (b mod DIG_BASE)) XOR im"
    "(a XOR b) AND DIG_MASK = (a mod DIG_BASE) XOR (b mod DIG_BASE)"
    unfolding and_DIG_MASK by (simp_all add: take_bit_and take_bit_or take_bit_xor)
qed

lemma carry_mask_cases: "carry_mask c \<in> {0, DIG_MASK}" "carry_mask c < DIG_BASE"
  by (auto simp: carry_mask_def DIG_MASK_def)

lemma zext_less: "digits ds \<Longrightarrow> n \<le> length ds \<Longrightarrow> zext ds n q < DIG_BASE"
  by (simp add: zext_def digits_nth)

lemma reads_ahead_at: "reads_ahead (\<lambda>m p c. h p (m j ! p) (m k ! p) c) i m"
proof -
  have "m' j ! p = m j ! p \<and> m' k ! p = m k ! p"
    if "\<forall>b. b \<noteq> i \<longrightarrow> m' b = m b" "\<forall>q \<ge> p. m' i ! q = m i ! q" for m' p
    using that by (cases "j = i"; cases "k = i") auto
  then show ?thesis unfolding reads_ahead_def by metis
qed

lemma twos_loop:
  assumes j: "normal (m j) jlen" and k: "normal (m k) klen" and le: "klen \<le> jlen" "jlen < 2 ^ 64" "jlen \<le> length (m i)"
    and body: "body = (\<lambda>m p (ci, cj, ck).
        let cj = cj + (m j ! p XOR carry_mask (of_bool jneg));
            ck = ck + (if k_has_digit jlen klen p then m k ! p XOR carry_mask (of_bool kneg) else carry_mask (of_bool kneg));
            ci = ci + ((ope cj ck XOR carry_mask (of_bool neg)) AND DIG_MASK)
        in (ci mod DIG_BASE, (ci div DIG_BASE, cj div DIG_BASE, ck div DIG_BASE)))"
    and op: "\<And>a b im. im \<in> {0, DIG_MASK} \<Longrightarrow> (ope a b XOR im) AND DIG_MASK = ope (a mod DIG_BASE) (b mod DIG_BASE) XOR im"
      "\<And>d e. d < DIG_BASE \<Longrightarrow> e < DIG_BASE \<Longrightarrow> ope d e < DIG_BASE"
      "\<And>xs ys. length xs = length ys \<Longrightarrow> digits xs \<Longrightarrow> digits ys \<Longrightarrow> dval (map2 ope xs ys) = ope (dval xs) (dval ys)"
    and R: "\<And>a b. int a = take_bit (DIG_SIZE * jlen) (tc jneg (dval (take jlen (m j)))) \<Longrightarrow>
        int b = take_bit (DIG_SIZE * jlen) (tc kneg (dval (take klen (m k)))) \<Longrightarrow> int (ope a b) = take_bit (DIG_SIZE * jlen) R"
      "neg \<longleftrightarrow> R < 0" "- (2 ^ (DIG_SIZE * jlen)) \<le> R" "R < 2 ^ (DIG_SIZE * jlen)"
  obtains out ci' cj' ck' where "dig_loop body i 0 jlen (of_bool neg, of_bool jneg, of_bool kneg) m =
      ((ci', cj', ck'), m(i := out @ drop jlen (m i)))"
    and "length out = jlen" and "digits out" and "ci' \<le> 1" and "dval out + DIG_BASE ^ jlen * ci' = nat \<bar>R\<bar>"
proof -
  let ?jm = "carry_mask (of_bool jneg)" and ?km = "carry_mask (of_bool kneg)" and ?im = "carry_mask (of_bool neg)"
  have jk: "digits (m j)" "digits (m k)" "jlen \<le> length (m j)" "klen \<le> length (m k)"
    using j k by (auto simp: normal_def)
  have ra: "reads_ahead body i m" unfolding body by (rule reads_ahead_at)
  have step: "body m p (ci, cj, ck) = (let cj = cj + (m j ! p XOR ?jm); ck = ck + (if p < klen then m k ! p XOR ?km else 0 XOR ?km);
        ci = ci + (ope (cj mod DIG_BASE) (ck mod DIG_BASE) XOR ?im)
      in (ci mod DIG_BASE, (ci div DIG_BASE, cj div DIG_BASE, ck div DIG_BASE)))" if "p < jlen" for m p ci cj ck
    unfolding body using k_has_digit_iff [OF that le(1,2)] op(1) [OF carry_mask_cases(1)] by (simp add: Let_def)
  have g: "ope d e XOR ?im < DIG_BASE" if "d < DIG_BASE" "e < DIG_BASE" for d e
    using op(2) [OF that] carry_mask_cases(2) bitwise_split(6) by blast
  have one: "of_bool neg \<le> (1 :: nat)" by simp
  obtain out xs ys ci' cj' ck' where loop: "dig_loop body i 0 jlen (of_bool neg, of_bool jneg, of_bool kneg) m =
        ((ci', cj', ck'), m(i := out @ drop jlen (m i)))"
    and lens: "length out = jlen" "length xs = jlen" "length ys = jlen" and digs: "digits out" "digits xs" "digits ys"
    and ci: "ci' \<le> 1"
    and sums: "dval xs + DIG_BASE ^ jlen * cj' = of_bool jneg + dval (map (\<lambda>q. m j ! q XOR ?jm) [0..<jlen])"
      "dval ys + DIG_BASE ^ jlen * ck' = of_bool kneg + dval (map (\<lambda>q. zext (m k) klen q XOR ?km) [0..<jlen])"
      "dval out + DIG_BASE ^ jlen * ci' = of_bool neg + dval (map2 (\<lambda>d e. ope d e XOR ?im) xs ys)"
    by (rule neg_loop [where body = body and j = j and k = k and klen = klen and cj = "of_bool jneg" and ck = "of_bool kneg",
          OF step ra le(3) g one])
  have "int (dval xs) = take_bit (DIG_SIZE * jlen) (tc jneg (dval (take jlen (m j))))"
    using operand_twos [OF digs(2) lens(2) _ sums(1)] jk dval_map_nth [OF jk(3)] by (simp add: digits_nth)
  moreover have "int (dval ys) = take_bit (DIG_SIZE * jlen) (tc kneg (dval (take klen (m k))))"
    using operand_twos [OF digs(3) lens(3) _ sums(2)] zext_less [OF jk(2,4)] dval_zext [OF le(1) jk(4)] by simp
  ultimately have "int (dval (map2 ope xs ys)) = take_bit (DIG_SIZE * jlen) R"
    using R(1) op(3) digs lens by simp
  note mag = result_magnitude(1) [OF this R(2-)]
  have "dval (map2 (\<lambda>d e. ope d e XOR ?im) xs ys) + (if neg then dval (map2 ope xs ys) + 1 else 0) =
      (if neg then DIG_BASE ^ jlen else dval (map2 ope xs ys))"
    using dval_complement [where g = ope and xs = xs and ys = ys] op(2) lens digs by (simp add: carry_mask_def)
  then have "dval out + DIG_BASE ^ jlen * ci' + (if neg then dval (map2 ope xs ys) else 0) =
      (if neg then DIG_BASE ^ jlen else dval (map2 ope xs ys))"
    using sums(3) by (auto split: if_splits)
  from arg_cong [OF this, of int] have "int (dval out + DIG_BASE ^ jlen * ci') = \<bar>R\<bar>"
    unfolding mag [symmetric] by (auto simp: DIG_BASE_power split: if_splits)
  from arg_cong [OF this, of nat] show thesis by (intro that [OF loop lens(1) digs(1) ci]) (simp only: nat_int)
qed

end
