(* ===== verification/MpnBitwise.thy ===== *)
theory MpnBitwise
  imports MpnBits
begin

text \<open>
  The bitwise routines of \<^verbatim>\<open>py/mpz.c\<close> on signed numbers compute the bitwise operations on
  integers in two's complement.  They need a magnitude other than zero under a minus sign.
\<close>

lemma normal_less_longer: "normal ds n \<Longrightarrow> n \<le> k \<Longrightarrow> dval (take n ds) < DIG_BASE ^ k"
  using normal_less [of ds n] power_increasing [of n k DIG_BASE] by (simp add: less_le_trans)

lemma tc_take_bounds:
  assumes "normal ds n" and "n \<le> k" and "neg \<longrightarrow> 0 < n"
  shows "- (2 ^ (DIG_SIZE * k)) < tc neg (dval (take n ds))" and "tc neg (dval (take n ds)) < 2 ^ (DIG_SIZE * k)"
    and "tc neg (dval (take n ds)) < 0 \<longleftrightarrow> neg"
  using tc_bounds [OF normal_less_longer [OF assms(1,2)], of neg] normal_zero [OF assms(1)] assms(3) by auto

lemma mpn_and_neg_stored:
  assumes j: "normal (m j) jlen" and k: "normal (m k) klen" and le: "klen \<le> jlen" "jlen < 2 ^ 64"
    and i: "digits (m i)" "jlen \<le> length (m i)" "jneg \<and> kneg \<longrightarrow> jlen < length (m i)"
    and nz: "jneg \<longrightarrow> 0 < jlen" "kneg \<longrightarrow> 0 < klen"
    and R: "R = tc jneg (dval (take jlen (m j))) AND tc kneg (dval (take klen (m k)))"
  obtains n m' where "mpn_and_neg i j jlen k klen (of_bool (jneg \<and> kneg)) (of_bool jneg) (of_bool kneg) m = (n, m')"
    and "stored i (nat \<bar>R\<bar>) n m m'" and "tc (jneg \<and> kneg) (nat \<bar>R\<bar>) = R"
proof -
  let ?J = "tc jneg (dval (take jlen (m j)))" and ?K = "tc kneg (dval (take klen (m k)))" and ?N = "DIG_SIZE * jlen"
  let ?body = "\<lambda>m p (ci, cj, ck).
        let cj = cj + (m j ! p XOR carry_mask (of_bool jneg));
            ck = ck + (if k_has_digit jlen klen p then m k ! p XOR carry_mask (of_bool kneg) else carry_mask (of_bool kneg));
            ci = ci + (((cj AND ck) XOR carry_mask (of_bool (jneg \<and> kneg))) AND DIG_MASK)
        in (ci mod DIG_BASE, (ci div DIG_BASE, cj div DIG_BASE, ck div DIG_BASE))"
  note bj = tc_take_bounds [OF j le_refl nz(1)] and bk = tc_take_bounds [OF k le(1) nz(2)]
  have neg: "jneg \<and> kneg \<longleftrightarrow> R < 0" unfolding R using bj(3) bk(3) by simp
  have bnd: "- (2 ^ ?N) \<le> R \<and> R < 2 ^ ?N"
  proof (cases "R < 0")
    case True
    then have "- (2 ^ ?N) \<le> R" unfolding R using neg bj bk by (intro int_and_neg_bounds(1)) auto
    with True show ?thesis by (auto intro: less_trans [of R 0])
  next
    case False
    have "R \<le> ?J \<or> R \<le> ?K" unfolding R using False neg bj(3) bk(3) AND_upper1 [of ?J ?K] AND_upper2 [of ?K ?J] by auto
    moreover have "- (2 ^ ?N) \<le> R" using False by (rule_tac order_trans [of _ 0 R]) simp_all
    ultimately show ?thesis using bj(2) bk(2) by auto
  qed
  obtain out ci' cj' ck' where loop: "dig_loop ?body i 0 jlen (of_bool (jneg \<and> kneg), of_bool jneg, of_bool kneg) m =
      ((ci', cj', ck'), m(i := out @ drop jlen (m i)))"
    and out: "length out = jlen" "digits out" "ci' \<le> 1" "dval out + DIG_BASE ^ jlen * ci' = nat \<bar>R\<bar>"
    by (rule twos_loop [where ope = "(AND)" and i = i and R = R, OF j k le i(2) refl masked_op(1) bitwise_split(4) dval_map2_bitwise(1) _ neg])
      (use bnd R in \<open>auto simp: of_nat_and_eq take_bit_and\<close>)
  let ?xs = "if ci' \<noteq> 0 then (out @ drop jlen (m i))[jlen := ci'] else out @ drop jlen (m i)"
  have ci: "ci' < DIG_BASE" "jlen < length (m i) \<or> ci' = 0"
  proof -
    show "ci' < DIG_BASE" using out(3) DIG_BASE_pos(2) by linarith
    show "jlen < length (m i) \<or> ci' = 0"
    proof (cases "jneg \<and> kneg")
      case False
      then have "nat \<bar>R\<bar> < DIG_BASE ^ jlen" using neg bnd by (simp add: nat_less_iff DIG_BASE_power)
      then show ?thesis using carry_zero [OF out(4)] by simp
    qed (use i in simp)
  qed
  have "mpn_and_neg i j jlen k klen (of_bool (jneg \<and> kneg)) (of_bool jneg) (of_bool kneg) m =
      (mpn_remove_trailing_zeros ?xs (if ci' \<noteq> 0 then jlen + 1 else jlen), m(i := ?xs))"
    unfolding mpn_and_neg_def Let_def using loop [unfolded Let_def] by simp
  then show thesis
    by (rule that) (use carry_stripped [where m = m and i = i, OF out(2,1) ci i(1,2) out(4) refl] neg in \<open>auto simp: tc_def\<close>)
qed

lemma mpn_or_neg_stored:
  assumes j: "normal (m j) jlen" and k: "normal (m k) klen" and le: "klen \<le> jlen" "jlen < 2 ^ 64"
    and i: "digits (m i)" "jlen \<le> length (m i)"
    and nz: "jneg \<longrightarrow> 0 < jlen" "kneg \<longrightarrow> 0 < klen"
    and R: "R = tc jneg (dval (take jlen (m j))) OR tc kneg (dval (take klen (m k)))"
  obtains n m' where "mpn_or_neg i j jlen k klen (of_bool (jneg \<or> kneg)) (of_bool jneg) (of_bool kneg) m = (n, m')"
    and "stored i (nat \<bar>R\<bar>) n m m'" and "tc (jneg \<or> kneg) (nat \<bar>R\<bar>) = R"
proof -
  let ?J = "tc jneg (dval (take jlen (m j)))" and ?K = "tc kneg (dval (take klen (m k)))" and ?N = "DIG_SIZE * jlen"
  let ?body = "\<lambda>m p (ci, cj, ck).
        let cj = cj + (m j ! p XOR carry_mask (of_bool jneg));
            ck = ck + (if k_has_digit jlen klen p then m k ! p XOR carry_mask (of_bool kneg) else carry_mask (of_bool kneg));
            ci = ci + (((cj OR ck) XOR carry_mask (of_bool (jneg \<or> kneg))) AND DIG_MASK)
        in (ci mod DIG_BASE, (ci div DIG_BASE, cj div DIG_BASE, ck div DIG_BASE))"
  note bj = tc_take_bounds [OF j le_refl nz(1)] and bk = tc_take_bounds [OF k le(1) nz(2)]
  have neg: "jneg \<or> kneg \<longleftrightarrow> R < 0" unfolding R using bj(3) bk(3) by simp
  have bnd: "- (2 ^ ?N) < R \<and> R < 2 ^ ?N"
  proof (cases "R < 0")
    case True
    have "NOT R = NOT ?J AND NOT ?K" unfolding R by simp
    moreover have "NOT ?J AND NOT ?K \<le> NOT ?J" if "?J < 0" using that by (intro AND_upper1) (simp add: not_int_def)
    moreover have "NOT ?J AND NOT ?K \<le> NOT ?K" if "?K < 0" using that by (intro AND_upper2) (simp add: not_int_def)
    ultimately have "?J \<le> R \<or> ?K \<le> R" using True neg bj(3) bk(3) by (auto simp: not_int_def)
    with True bj(1) bk(1) show ?thesis by (auto intro: less_trans [of R 0])
  next
    case False
    then have "R < 2 ^ ?N" unfolding R using neg bj bk by (intro OR_upper) auto
    moreover have "- (2 ^ ?N) < (0 :: int)" by simp
    ultimately show ?thesis using False by linarith
  qed
  obtain out ci' cj' ck' where loop: "dig_loop ?body i 0 jlen (of_bool (jneg \<or> kneg), of_bool jneg, of_bool kneg) m =
      ((ci', cj', ck'), m(i := out @ drop jlen (m i)))"
    and out: "length out = jlen" "digits out" "ci' \<le> 1" "dval out + DIG_BASE ^ jlen * ci' = nat \<bar>R\<bar>"
    by (rule twos_loop [where ope = "(OR)" and i = i and R = R, OF j k le i(2) refl masked_op(2) bitwise_split(5) dval_map2_bitwise(2) _ neg])
      (use bnd R in \<open>auto simp: of_nat_or_eq take_bit_or\<close>)
  have "nat \<bar>R\<bar> < DIG_BASE ^ jlen" using bnd by (simp add: nat_less_iff DIG_BASE_power abs_less_iff)
  then have ci: "ci' = 0" using carry_zero [OF out(4)] by simp
  have "mpn_or_neg i j jlen k klen (of_bool (jneg \<or> kneg)) (of_bool jneg) (of_bool kneg) m =
      (mpn_remove_trailing_zeros (out @ drop jlen (m i)) jlen, m(i := out @ drop jlen (m i)))"
    unfolding mpn_or_neg_def Let_def using loop [unfolded Let_def] by simp
  moreover have "stored i (nat \<bar>R\<bar>) (mpn_remove_trailing_zeros (out @ drop jlen (m i)) jlen) m (m(i := out @ drop jlen (m i)))"
    using carry_stripped [where m = m and i = i and c = 0, OF out(2,1) _ _ i _ refl] out(4) ci by simp
  moreover have "tc (jneg \<or> kneg) (nat \<bar>R\<bar>) = R" using neg by (auto simp: tc_def)
  ultimately show thesis by (rule that)
qed

lemma mpn_or_neg_opt_eq: "mpn_or_neg_opt i j jlen k klen cj ck m = mpn_or_neg i j jlen k klen 1 cj ck m"
  by (simp add: mpn_or_neg_opt_def mpn_or_neg_def carry_mask_def)

lemma mpn_xor_neg_stored:
  assumes j: "normal (m j) jlen" and k: "normal (m k) klen" and le: "klen \<le> jlen" "jlen < 2 ^ 64"
    and i: "digits (m i)" "jlen \<le> length (m i)" "jneg \<noteq> kneg \<longrightarrow> jlen < length (m i)"
    and nz: "jneg \<longrightarrow> 0 < jlen" "kneg \<longrightarrow> 0 < klen"
    and R: "R = tc jneg (dval (take jlen (m j))) XOR tc kneg (dval (take klen (m k)))"
  obtains n m' where "mpn_xor_neg i j jlen k klen (of_bool (jneg \<noteq> kneg)) (of_bool (\<not> jneg)) (of_bool (\<not> kneg)) m = (n, m')"
    and "stored i (nat \<bar>R\<bar>) n m m'" and "tc (jneg \<noteq> kneg) (nat \<bar>R\<bar>) = R"
proof -
  let ?Vj = "dval (take jlen (m j))" and ?Vk = "dval (take klen (m k))" and ?N = "DIG_SIZE * jlen"
  define body where "body m p = (\<lambda>(carryi, carryj, carryk).
      let carryj = carryj + (m j ! p + DIG_MASK);
          carryk = carryk + (if k_has_digit jlen klen p then m k ! p + DIG_MASK else DIG_MASK);
          carryi = carryi + ((carryj XOR carryk) AND DIG_MASK)
      in (carryi mod DIG_BASE, (carryi div DIG_BASE, carryj div DIG_BASE, carryk div DIG_BASE)))" for m :: "'a bufs" and p
  have jk: "digits (m j)" "digits (m k)" "jlen \<le> length (m j)" "klen \<le> length (m k)"
    using j k by (auto simp: normal_def)
  have ra: "reads_ahead body i m" unfolding body_def [abs_def] by (rule reads_ahead_at)
  have step: "body m p (ci, cj, ck) = (let cj = cj + (m j ! p + DIG_MASK); ck = ck + (if p < klen then m k ! p + DIG_MASK else 0 + DIG_MASK);
        ci = ci + ((cj mod DIG_BASE) XOR (ck mod DIG_BASE))
      in (ci mod DIG_BASE, (ci div DIG_BASE, cj div DIG_BASE, ck div DIG_BASE)))" if "p < jlen" for m p ci cj ck
    unfolding body_def using k_has_digit_iff [OF that le] masked_op(3) [of 0] by (simp add: Let_def)
  have one: "of_bool (jneg \<noteq> kneg) \<le> (1 :: nat)" by simp
  obtain out xs ys ci' cj' ck' where loop: "dig_loop body i 0 jlen (of_bool (jneg \<noteq> kneg), of_bool (\<not> jneg), of_bool (\<not> kneg)) m =
        ((ci', cj', ck'), m(i := out @ drop jlen (m i)))"
    and lens: "length out = jlen" "length xs = jlen" "length ys = jlen" and digs: "digits out" "digits xs" "digits ys"
    and ci: "ci' \<le> 1"
    and sums: "dval xs + DIG_BASE ^ jlen * cj' = of_bool (\<not> jneg) + dval (map (\<lambda>q. m j ! q + DIG_MASK) [0..<jlen])"
      "dval ys + DIG_BASE ^ jlen * ck' = of_bool (\<not> kneg) + dval (map (\<lambda>q. zext (m k) klen q + DIG_MASK) [0..<jlen])"
      "dval out + DIG_BASE ^ jlen * ci' = of_bool (jneg \<noteq> kneg) + dval (map2 (XOR) xs ys)"
    by (rule neg_loop [where body = body and j = j and k = k and klen = klen and cj = "of_bool (\<not> jneg)" and ck = "of_bool (\<not> kneg)",
          OF step ra i(2) bitwise_split(6) one])
  have pos: "jneg \<longrightarrow> 0 < ?Vj" "kneg \<longrightarrow> 0 < ?Vk"
    using nz normal_zero [OF j] normal_zero [OF k] by auto
  have small: "take_bit ?N (int v - of_bool b) = int v - of_bool b" if "v < DIG_BASE ^ jlen" "b \<longrightarrow> 0 < v" for v b
  proof -
    have "int v < 2 ^ ?N" using that(1) tc_bounds(2) [of v jlen False] by (simp add: tc_def)
    then have "int v - of_bool b < 2 ^ ?N" by (cases b; simp only: of_bool_eq)
    then show ?thesis using that(2) by (intro take_bit_int_eq_self) (auto simp: of_bool_def)
  qed
  have X: "int (dval xs) = int ?Vj - of_bool jneg"
    using operand_pred [OF digs(2) lens(2) _ sums(1)] jk dval_map_nth [OF jk(3)] small [OF normal_less [OF j] pos(1)]
    by (simp add: digits_nth)
  have Y: "int (dval ys) = int ?Vk - of_bool kneg"
    using operand_pred [OF digs(3) lens(3) _ sums(2)] zext_less [OF jk(2,4)] dval_zext [OF le(1) jk(4)]
      small [OF normal_less_longer [OF k le(1)] pos(2)] by simp
  have "int (dval xs) = (if jneg then NOT (tc jneg ?Vj) else tc jneg ?Vj)" "int (dval ys) = (if kneg then NOT (tc kneg ?Vk) else tc kneg ?Vk)"
    unfolding X Y by (simp_all add: tc_def not_int_def)
  then have "int (dval xs XOR dval ys) = (if jneg = kneg then R else NOT R)"
    unfolding R of_nat_xor_eq by (auto simp: bit_eq_iff bit_simps)
  moreover have neg: "jneg \<noteq> kneg \<longleftrightarrow> R < 0"
    unfolding R using tc_take_bounds(3) [OF j le_refl nz(1)] tc_take_bounds(3) [OF k le(1) nz(2)] by simp
  ultimately have abs: "int (of_bool (jneg \<noteq> kneg) + (dval xs XOR dval ys)) = \<bar>R\<bar>" by (auto simp: not_int_def)
  have "dval out + DIG_BASE ^ jlen * ci' = of_bool (jneg \<noteq> kneg) + (dval xs XOR dval ys)"
    using sums(3) dval_map2_bitwise(3) [of xs ys] lens digs by simp
  with arg_cong [OF abs, of nat] have v: "dval out + DIG_BASE ^ jlen * ci' = nat \<bar>R\<bar>" by (simp only: nat_int)
  let ?xs = "if ci' \<noteq> 0 then (out @ drop jlen (m i))[jlen := ci'] else out @ drop jlen (m i)"
  have c: "ci' < DIG_BASE" "jlen < length (m i) \<or> ci' = 0"
  proof -
    show "ci' < DIG_BASE" using ci DIG_BASE_pos(2) by linarith
    show "jlen < length (m i) \<or> ci' = 0"
    proof (cases "jneg = kneg")
      case True
      have "int (dval xs XOR dval ys) < 2 ^ ?N" unfolding of_nat_xor_eq
        using dval_less [OF digs(2)] dval_less [OF digs(3)] lens
        by (intro XOR_upper) (simp_all flip: DIG_BASE_power of_nat_power)
      then have "nat \<bar>R\<bar> < DIG_BASE ^ jlen" using True abs by (simp flip: DIG_BASE_power of_nat_power add: nat_less_iff)
      then show ?thesis using carry_zero [OF v] by simp
    qed (use i in simp)
  qed
  have "mpn_xor_neg i j jlen k klen (of_bool (jneg \<noteq> kneg)) (of_bool (\<not> jneg)) (of_bool (\<not> kneg)) m =
      (mpn_remove_trailing_zeros ?xs (if ci' \<noteq> 0 then jlen + 1 else jlen), m(i := ?xs))"
    unfolding mpn_xor_neg_def Let_def using loop [unfolded body_def [abs_def] Let_def] by simp
  moreover have "tc (jneg \<noteq> kneg) (nat \<bar>R\<bar>) = R" using neg by (auto simp: tc_def)
  ultimately show thesis
    by (intro that) (use carry_stripped [where m = m and i = i, OF digs(1) lens(1) c i(1,2) v refl] in simp_all)
qed

text \<open>The routines on magnitudes.\<close>

lemma dig_seq_map: "dig_seq (\<lambda>p. Pair (h p)) p n () = (map h [p..<p + n], ())"
  by (induction n arbitrary: p) (simp_all add: dig_seq_Suc upt_conv_Cons del: upt_Suc)

lemma reads_ahead_unit:
  "reads_ahead (\<lambda>m p _. (g (m j ! p), ())) i m" "reads_ahead (\<lambda>m p _. (h (m j ! p) (m k ! p), ())) i m"
  by (rule reads_ahead_at [where j = j and k = j and h = "\<lambda>_ a _ _. (g a, ())"])
    (rule reads_ahead_at [where h = "\<lambda>_ a b _. (h a b, ())"])

lemma dval_map2_and_any: "digits xs \<Longrightarrow> digits ys \<Longrightarrow> dval (map2 (AND) xs ys) = dval xs AND dval ys"
proof (induction xs arbitrary: ys)
  case (Cons x xs)
  then show ?case by (cases ys) (simp_all add: bitwise_split)
qed simp

lemma mpn_and_stored:
  assumes j: "normal (m j) jlen" and k: "normal (m k) klen" and le: "klen \<le> jlen"
    and i: "digits (m i)" "jlen \<le> length (m i)"
  obtains n m' where "mpn_and i j k klen m = (n, m')"
    and "stored i (dval (take jlen (m j)) AND dval (take klen (m k))) n m m'"
proof -
  have jk: "digits (m j)" "digits (m k)" "jlen \<le> length (m j)" "klen \<le> length (m k)"
    using j k by (auto simp: normal_def)
  let ?out = "map (\<lambda>p. m j ! p AND m k ! p) [0..<klen]"
  have out: "?out = map2 (AND) (take jlen (m j)) (take klen (m k))"
    using jk le by (intro nth_equalityI) simp_all
  have dig: "digits ?out" using jk le bitwise_split(4) by (auto simp: digits_def)
  have "dig_loop (\<lambda>m p _. (m j ! p AND m k ! p, ())) i 0 klen () m = ((), m(i := ?out @ drop klen (m i)))"
    using dig_loop_seq [OF reads_ahead_unit(2) [of "(AND)" j k i m], of 0 klen "()"] i le by (simp add: dig_seq_map)
  then have eq: "mpn_and i j k klen m = (mpn_remove_trailing_zeros (?out @ drop klen (m i)) klen, m(i := ?out @ drop klen (m i)))"
    unfolding mpn_and_def by simp
  have "dval ?out = dval (take jlen (m j)) AND dval (take klen (m k))"
    unfolding out by (rule dval_map2_and_any) (simp_all add: digits_take jk)
  then show thesis
    using that [OF eq] carry_stripped [where m = m and i = i and c = 0 and ds = ?out and n = klen] dig i le by simp
qed

lemma magnitudes_loop:
  assumes k: "normal (m k) klen" and j: "normal (m j) jlen" and le: "klen \<le> jlen" "jlen \<le> length (m i)"
    and h: "\<And>d. h d 0 = d" "\<And>d e. d < DIG_BASE \<Longrightarrow> e < DIG_BASE \<Longrightarrow> h d e < DIG_BASE"
      "\<And>xs ys. length xs = length ys \<Longrightarrow> digits xs \<Longrightarrow> digits ys \<Longrightarrow> dval (map2 h xs ys) = h (dval xs) (dval ys)"
  obtains out m1 where "dig_loop (\<lambda>m p _. (h (m j ! p) (m k ! p), ())) i 0 klen () m = ((), m1)"
    and "dig_loop (\<lambda>m p _. (m j ! p, ())) i klen (jlen - klen) () m1 = ((), m(i := out @ drop jlen (m i)))"
    and "length out = jlen" and "digits out" and "dval out = h (dval (take jlen (m j))) (dval (take klen (m k)))"
proof -
  have jk: "digits (m j)" "digits (m k)" "jlen \<le> length (m j)" "klen \<le> length (m k)"
    using j k by (auto simp: normal_def)
  let ?out = "map (\<lambda>p. h (m j ! p) (zext (m k) klen p)) [0..<jlen]"
  have seq: "dig_seq (\<lambda>p. if p < klen then (\<lambda>_. (h (m j ! p) (m k ! p), ())) else (\<lambda>_. (m j ! p, ()))) 0 (klen + (jlen - klen)) () = (?out, ())"
    using le dig_seq_map [of "\<lambda>p. h (m j ! p) (zext (m k) klen p)" 0 jlen]
      dig_seq_cong [of 0 jlen "\<lambda>p. if p < klen then (\<lambda>_. (h (m j ! p) (m k ! p), ())) else (\<lambda>_. (m j ! p, ()))"
        "\<lambda>p _. (h (m j ! p) (zext (m k) klen p), ())" "()"]
    by (simp add: zext_def h(1))
  obtain c1 m1 where "dig_loop (\<lambda>m p _. (h (m j ! p) (m k ! p), ())) i 0 klen () m = (c1, m1)"
    "dig_loop (\<lambda>m p _. (m j ! p, ())) i klen (jlen - klen) c1 m1 = ((), m(i := ?out @ drop jlen (m i)))"
    using dig_loop_twice [OF reads_ahead_unit(2) [of h j k i m] reads_ahead_unit(1) [of "\<lambda>d. d" j i m] _ seq [symmetric]] le by auto
  moreover have "digits ?out" using jk zext_less [OF jk(2,4)] h(2) by (auto simp: digits_def)
  moreover have "?out = map2 h (take jlen (m j)) (map (zext (m k) klen) [0..<jlen])"
    using jk by (intro nth_equalityI) simp_all
  moreover have "digits (map (zext (m k) klen) [0..<jlen])" using zext_less [OF jk(2,4)] by (auto simp: digits_def)
  ultimately show thesis
    using that [of m1 ?out] h(3) [of "take jlen (m j)" "map (zext (m k) klen) [0..<jlen]"] dval_zext [OF le(1) jk(4)] jk
    by (simp add: digits_take)
qed

lemma mpn_or_stored:
  assumes j: "normal (m j) jlen" and k: "normal (m k) klen" and le: "klen \<le> jlen"
    and i: "digits (m i)" "jlen \<le> length (m i)"
  obtains n m' where "mpn_or i j jlen k klen m = (n, m')"
    and "stored i (dval (take jlen (m j)) OR dval (take klen (m k))) n m m'"
proof -
  obtain out m1 where out: "dig_loop (\<lambda>m p _. (m j ! p OR m k ! p, ())) i 0 klen () m = ((), m1)"
    "dig_loop (\<lambda>m p _. (m j ! p, ())) i klen (jlen - klen) () m1 = ((), m(i := out @ drop jlen (m i)))"
    "length out = jlen" "digits out" "dval out = dval (take jlen (m j)) OR dval (take klen (m k))"
    by (rule magnitudes_loop [where h = "(OR)" and m = m and i = i, OF k j le i(2) _ bitwise_split(5) dval_map2_bitwise(2)]) auto
  have eq: "mpn_or i j jlen k klen m = (jlen, m(i := out @ drop jlen (m i)))"
    unfolding mpn_or_def using out(1,2) by simp
  have "dval (take jlen (m j)) \<le> dval (take jlen (m j)) OR dval (take klen (m k))"
    using plus_and_or [of "int (dval (take jlen (m j)))" "int (dval (take klen (m k)))"]
      AND_upper2 [of "int (dval (take klen (m k)))" "int (dval (take jlen (m j)))"]
    by (simp flip: of_nat_and_eq of_nat_or_eq)
  then have "0 < jlen \<Longrightarrow> DIG_BASE ^ (jlen - 1) \<le> dval (take jlen (m j)) OR dval (take klen (m k))"
    using normal_ge [OF j] by (meson order_trans)
  from carry_stored [where m = m and i = i and c = 0, OF out(4,3) _ _ i _ this] out(5)
  show thesis by (intro that [OF eq]) simp
qed

lemma mpn_xor_stored:
  assumes j: "normal (m j) jlen" and k: "normal (m k) klen" and le: "klen \<le> jlen"
    and i: "digits (m i)" "jlen \<le> length (m i)"
  obtains n m' where "mpn_xor i j jlen k klen m = (n, m')"
    and "stored i (dval (take jlen (m j)) XOR dval (take klen (m k))) n m m'"
proof -
  obtain out m1 where out: "dig_loop (\<lambda>m p _. (m j ! p XOR m k ! p, ())) i 0 klen () m = ((), m1)"
    "dig_loop (\<lambda>m p _. (m j ! p, ())) i klen (jlen - klen) () m1 = ((), m(i := out @ drop jlen (m i)))"
    "length out = jlen" "digits out" "dval out = dval (take jlen (m j)) XOR dval (take klen (m k))"
    by (rule magnitudes_loop [where h = "(XOR)" and m = m and i = i, OF k j le i(2) _ bitwise_split(6) dval_map2_bitwise(3)]) auto
  have eq: "mpn_xor i j jlen k klen m = (mpn_remove_trailing_zeros (out @ drop jlen (m i)) jlen, m(i := out @ drop jlen (m i)))"
    unfolding mpn_xor_def using out(1,2) by simp
  from carry_stripped [where m = m and i = i and c = 0, OF out(4,3) _ _ i _ refl] out(5)
  show thesis by (intro that [OF eq]) simp
qed

end
