(* ===== verification/MpnDiv.thy ===== *)
theory MpnDiv
  imports MpnBits
begin

text \<open>
  \<^verbatim>\<open>mpn_div\<close>: long division of digit arrays, in the configuration where a digit has exactly half
  the bits of \<^verbatim>\<open>mpz_dbl_dig_t\<close>.  Each quotient digit is estimated from the two leading digits of the
  numerator and the leading digit of the normalised denominator; \<open>div_sub_body\<close> subtracts the
  multiple of the denominator, and \<open>mpn_div_addback\<close> corrects the estimate.  The loop that corrects
  has no bound of its own: it is a partial function, and that it returns is part of what is proved.

  The borrow of the subtraction is an unsigned 64-bit number.  It cannot overflow when the
  denominator has one digit, or when no digit of the normalised denominator is \<open>2 ^ 32 - 1\<close>; under
  that condition the routine computes quotient and remainder, and without it it may not.
\<close>

section \<open>The routine\<close>

text \<open>
  The loop that counts the leading zeros of the top digit, which is not zero: it ends within
  \<^verbatim>\<open>DIG_SIZE\<close> rounds.
\<close>

primrec div_norm_shift :: "nat \<Rightarrow> nat \<Rightarrow> nat \<Rightarrow> nat" where
  "div_norm_shift 0 d s = s"
| "div_norm_shift (Suc f) d s = (if d AND DIG_MSB = 0 then div_norm_shift f (u32 (push_bit 1 d)) (s + 1) else s)"

definition div_shift_body :: "'r \<Rightarrow> nat \<Rightarrow> 'r bufs \<Rightarrow> nat \<Rightarrow> nat \<Rightarrow> nat \<times> nat" where
  "div_shift_body num s m p carry =
     (let n = m num ! p in ((u32 (push_bit s n) OR carry) mod DIG_BASE, drop_bit (DIG_SIZE - s) n))"

text \<open>\<open>u\<close> is the position of the lowest digit of the window of the numerator that is divided.\<close>

definition div_sub_body :: "'r \<Rightarrow> 'r \<Rightarrow> nat \<Rightarrow> nat \<Rightarrow> nat \<Rightarrow> 'r bufs \<Rightarrow> nat \<Rightarrow> nat \<times> nat \<Rightarrow> nat \<times> nat \<times> nat" where
  "div_sub_body num den s u quo m p = (\<lambda>(d_norm, borrow).
     let d_norm = push_bit s (m den ! (p - u)) OR d_norm div DIG_BASE;
         x = u64 (quo * (d_norm mod DIG_BASE));
         n = m num ! p
     in if x \<ge> n \<or> n - x \<le> borrow
        then let borrow = to_u64 (int borrow + (int x - int n))
             in (to_u64 (- int borrow) mod DIG_BASE,
                 (d_norm, borrow div DIG_BASE + (if borrow mod DIG_BASE = 0 then 0 else 1)))
        else ((n - x - borrow) mod DIG_BASE, (d_norm, 0)))"

definition div_add_body :: "'r \<Rightarrow> 'r \<Rightarrow> nat \<Rightarrow> nat \<Rightarrow> 'r bufs \<Rightarrow> nat \<Rightarrow> nat \<times> nat \<Rightarrow> nat \<times> nat \<times> nat" where
  "div_add_body num den s u m p = (\<lambda>(d_norm, carry).
     let d_norm = push_bit s (m den ! (p - u)) OR d_norm div DIG_BASE;
         carry = u64 (carry + (m num ! p + d_norm mod DIG_BASE))
     in (carry mod DIG_BASE, (d_norm, carry div DIG_BASE)))"

partial_function (option) mpn_div_addback ::
  "'r \<Rightarrow> 'r \<Rightarrow> nat \<Rightarrow> nat \<Rightarrow> nat \<Rightarrow> nat \<Rightarrow> nat \<Rightarrow> 'r bufs \<Rightarrow> (nat \<times> 'r bufs) option" where
  "mpn_div_addback num den den_len s u borrow quo m =
     (if borrow = 0 then Some (quo, m)
      else
        let ((_, carry), m) = dig_loop (div_add_body num den s u) num u den_len (0, 0) m
        in mpn_div_addback num den den_len s u (to_u64 (int borrow - int carry)) (to_u64 (int quo - 1)) m)"

declare mpn_div_addback.simps [code]

text \<open>One digit of the quotient, at position \<open>u\<close>.\<close>

definition mpn_div_digit :: "'r \<Rightarrow> 'r \<Rightarrow> nat \<Rightarrow> nat \<Rightarrow> nat \<Rightarrow> nat \<Rightarrow> 'r bufs \<Rightarrow> (nat \<times> 'r bufs) option" where
  "mpn_div_digit num den den_len s lead u m =
     (let t = u + den_len;
          quo = (push_bit DIG_SIZE (m num ! t) OR m num ! (t - 1)) div lead;
          ((_, borrow), m) = dig_loop (div_sub_body num den s u quo) num u den_len (0, 0) m
      in mpn_div_addback num den den_len s u (to_u64 (int borrow - int (m num ! t))) quo m)"

primrec mpn_div_loop :: "'r \<Rightarrow> 'r \<Rightarrow> nat \<Rightarrow> 'r \<Rightarrow> nat \<Rightarrow> nat \<Rightarrow> nat \<Rightarrow> 'r bufs \<Rightarrow> 'r bufs option" where
  "mpn_div_loop num den den_len quo s lead 0 m = Some m"
| "mpn_div_loop num den den_len quo s lead (Suc u) m =
     (case mpn_div_digit num den den_len s lead u m of
        None \<Rightarrow> None
      | Some (q, m) \<Rightarrow> mpn_div_loop num den den_len quo s lead u (m(quo := (m quo)[u := q mod DIG_BASE])))"

primrec div_unnormalise :: "'r \<Rightarrow> nat \<Rightarrow> nat \<Rightarrow> nat \<Rightarrow> 'r bufs \<Rightarrow> 'r bufs" where
  "div_unnormalise num s 0 carry m = m"
| "div_unnormalise num s (Suc r) carry m =
     (let n = m num ! r
      in div_unnormalise num s r (u32 (push_bit (DIG_SIZE - s) n))
           (m(num := (m num)[r := (drop_bit s n OR carry) mod DIG_BASE])))"

text \<open>The result is the new \<^verbatim>\<open>*num_len\<close> and \<^verbatim>\<open>*quo_len\<close> and the memory.\<close>

definition mpn_div :: "'r \<Rightarrow> nat \<Rightarrow> 'r \<Rightarrow> nat \<Rightarrow> 'r \<Rightarrow> 'r bufs \<Rightarrow> (nat \<times> nat \<times> 'r bufs) option" where
  "mpn_div num num_len den den_len quo m =
     (let cmp = mpn_cmp (m num) num_len (m den) den_len
      in if cmp = 0 then Some (0, 1, m(quo := (m quo)[0 := 1]))
         else if cmp < 0 then Some (num_len, 0, m)
         else
           let s = div_norm_shift DIG_SIZE (m den ! (den_len - 1)) 0;
               m = m(num := (m num)[num_len := 0]);
               num_len = num_len + 1;
               (_, m) = dig_loop (div_shift_body num s) num 0 num_len 0 m;
               lead = push_bit s (m den ! (den_len - 1));
               lead = (if den_len \<ge> 2 then lead OR drop_bit (DIG_SIZE - s) (m den ! (den_len - 2)) else lead);
               quo_len = num_len - den_len
           in case mpn_div_loop num den den_len quo s lead quo_len m of
                None \<Rightarrow> None
              | Some m \<Rightarrow>
                  let m = div_unnormalise num s den_len 0 m
                  in Some (mpn_remove_trailing_zeros (m num) den_len, mpn_remove_trailing_zeros (m quo) quo_len, m))"

section \<open>Normalised digits\<close>

text \<open>The bits that digit \<open>q - 1\<close> hands up to digit \<open>q\<close>, and digit \<open>q\<close> of \<open>ds\<close> shifted left by \<open>s\<close>.\<close>

definition cdig :: "nat list \<Rightarrow> nat \<Rightarrow> nat \<Rightarrow> nat" where
  "cdig ds s q = (if q = 0 then 0 else ds ! (q - 1) div 2 ^ (DIG_SIZE - s))"

definition ndig :: "nat list \<Rightarrow> nat \<Rightarrow> nat \<Rightarrow> nat" where
  "ndig ds s q = (ds ! q * 2 ^ s + cdig ds s q) mod DIG_BASE"

lemma cdig_less:
  assumes "digits ds" and "s < DIG_SIZE" and "q \<le> length ds"
  shows "cdig ds s q < 2 ^ s"
proof (cases q)
  case (Suc k)
  then have "ds ! k < 2 ^ s * 2 ^ (DIG_SIZE - s)" using assms DIG_BASE_split [of s] digits_nth [of ds k] by simp
  then show ?thesis using Suc by (simp add: cdig_def less_mult_imp_div_less)
qed (simp add: cdig_def)

lemma cdig_Suc:
  assumes "digits ds" and "s < DIG_SIZE" and "q < length ds"
  shows "(ds ! q * 2 ^ s + cdig ds s q) div DIG_BASE = cdig ds s (Suc q)"
proof -
  have "(ds ! q * 2 ^ s + cdig ds s q) div DIG_BASE = (ds ! q * 2 ^ s + cdig ds s q) div 2 ^ s div 2 ^ (DIG_SIZE - s)"
    using assms(2) by (subst DIG_BASE_split [of s]) (simp_all add: div_mult2_eq)
  also have "(ds ! q * 2 ^ s + cdig ds s q) div 2 ^ s = ds ! q"
    using cdig_less [OF assms(1,2), of q] assms(3) by simp
  finally show ?thesis by (simp add: cdig_def)
qed

lemma ndig_sum:
  assumes "digits ds" and "s < DIG_SIZE" and "n \<le> length ds"
  shows "dval (map (ndig ds s) [0..<n]) + DIG_BASE ^ n * cdig ds s n = dval (take n ds) * 2 ^ s"
  using assms(3)
proof (induction n)
  case (Suc n)
  let ?y = "ds ! n * 2 ^ s + cdig ds s n"
  have "dval (map (ndig ds s) [0..<Suc n]) + DIG_BASE ^ Suc n * cdig ds s (Suc n) =
      dval (map (ndig ds s) [0..<n]) + DIG_BASE ^ n * (?y mod DIG_BASE + DIG_BASE * (?y div DIG_BASE))"
    using cdig_Suc [OF assms(1,2), of n] Suc.prems by (simp add: dval_snoc ndig_def algebra_simps)
  also have "\<dots> = dval (map (ndig ds s) [0..<n]) + DIG_BASE ^ n * ?y" by simp
  also have "\<dots> = dval (take n ds) * 2 ^ s + DIG_BASE ^ n * (ds ! n * 2 ^ s)"
    using Suc by (simp add: algebra_simps)
  also have "\<dots> = dval (take (Suc n) ds) * 2 ^ s"
    using Suc.prems by (simp add: take_snoc dval_snoc algebra_simps)
  finally show ?case .
qed (simp add: cdig_def)

lemma shift_or:
  assumes "s < DIG_SIZE" and "c < 2 ^ s"
  shows "push_bit s d OR c = d * 2 ^ s + (c :: nat)"
proof -
  have "bit c k \<Longrightarrow> k < s" for k using assms(2) by (metis bit_take_bit_iff take_bit_nat_eq_self)
  then have "push_bit s d + c = push_bit s d OR c" by (intro disjunctive_add) (force simp: bit_push_bit_iff)
  then show ?thesis by (simp add: push_bit_eq_mult)
qed

section \<open>Subtracting a multiple of the denominator\<close>

lemma to_u64_mod_DIG_BASE: "to_u64 i mod DIG_BASE = nat (i mod int DIG_BASE)"
proof -
  have "int (to_u64 i mod DIG_BASE) = i mod 2 ^ 64 mod int DIG_BASE" by (simp add: to_u64_def zmod_int)
  also have "\<dots> = i mod int DIG_BASE" by (rule mod_mod_cancel) (simp add: DIG_BASE_def)
  finally show ?thesis by (metis nat_int)
qed

lemma sub_digit:
  assumes "n < DIG_BASE" and "b \<le> DIG_BASE" and "x + DIG_BASE < DIG_BASE * DIG_BASE"
  defines "y \<equiv> int n - int x - int b"
  shows "(if x \<ge> n \<or> n - x \<le> b
      then let b' = to_u64 (int b + (int x - int n))
           in (to_u64 (- int b') mod DIG_BASE, (d, b' div DIG_BASE + (if b' mod DIG_BASE = 0 then 0 else 1)))
      else ((n - x - b) mod DIG_BASE, (d, 0))) =
      (nat (y mod int DIG_BASE), (d, nat (- (y div int DIG_BASE))))" (is "?L = _")
    and "0 \<le> - (y div int DIG_BASE)" and "- (y div int DIG_BASE) \<le> int DIG_BASE"
proof -
  have B2: "int (DIG_BASE * DIG_BASE) = 18446744073709551616" by (simp add: DIG_BASE_square)
  have "int x + int DIG_BASE < int (DIG_BASE * DIG_BASE)" using assms(3) by linarith
  then have yb: "- int (DIG_BASE * DIG_BASE) < y" "y < int DIG_BASE"
    unfolding y_def using assms(1,2) by linarith+
  have "- (y div int DIG_BASE) \<le> int DIG_BASE"
  proof -
    have "- int (DIG_BASE) * int DIG_BASE \<le> y" using yb by simp
    then have "- int DIG_BASE \<le> y div int DIG_BASE" 
      using zdiv_mono1 [of "- int DIG_BASE * int DIG_BASE" y "int DIG_BASE"]
        nonzero_mult_div_cancel_right [of "int DIG_BASE" "- int DIG_BASE"] by (simp del: mult_minus_left)
    then show ?thesis by simp
  qed
  then show "- (y div int DIG_BASE) \<le> int DIG_BASE" .
  have "y div int DIG_BASE \<le> 0"
    using zdiv_mono1 [of y "int DIG_BASE - 1" "int DIG_BASE"] yb by simp
  then show "0 \<le> - (y div int DIG_BASE)" by simp
  show "?L = (nat (y mod int DIG_BASE), (d, nat (- (y div int DIG_BASE))))"
  proof (cases "0 < y")
    case True
    then have "\<not> (x \<ge> n \<or> n - x \<le> b)" "int (n - x - b) = y" by (auto simp: y_def)
    moreover have "y mod int DIG_BASE = y" "y div int DIG_BASE = 0" using True yb by simp_all
    ultimately show ?thesis using assms(1) by (simp add: nat_mod_distrib)
  next
    case False
    then have c: "x \<ge> n \<or> n - x \<le> b" by (auto simp: y_def)
    obtain z where z: "y = - int z" using False by (metis nonneg_int_cases neg_0_le_iff_le minus_minus not_less)
    have b': "to_u64 (int b + (int x - int n)) = z"
      using yb z B2 by (simp add: y_def to_u64_def)
    have "nat (- (y div int DIG_BASE)) = z div DIG_BASE + (if z mod DIG_BASE = 0 then 0 else 1)"
    proof -
      have "y div int DIG_BASE = - int (z div DIG_BASE) - (if z mod DIG_BASE = 0 then 0 else 1)"
        unfolding z by (subst zdiv_zminus1_eq_if) (simp_all flip: zdiv_int zmod_int)
      then show ?thesis by (simp add: nat_add_distrib)
    qed
    then show ?thesis using c by (simp add: b' to_u64_mod_DIG_BASE flip: z)
  qed
qed

text \<open>Two digit loops whose states stay in relation produce the same digits.\<close>

lemma dig_seq_sim:
  assumes "R p c c'"
    and "\<And>q c c'. p \<le> q \<Longrightarrow> q < p + n \<Longrightarrow> R q c c' \<Longrightarrow> fst (f q c) = fst (g q c') \<and> R (Suc q) (snd (f q c)) (snd (g q c'))"
  shows "fst (dig_seq f p n c) = fst (dig_seq g p n c') \<and> R (p + n) (snd (dig_seq f p n c)) (snd (dig_seq g p n c'))"
  using assms
proof (induction n arbitrary: p c c')
  case (Suc n)
  have "fst (f p c) = fst (g p c')" and R: "R (Suc p) (snd (f p c)) (snd (g p c'))"
    using Suc.prems by auto
  moreover have "fst (dig_seq f (Suc p) n (snd (f p c))) = fst (dig_seq g (Suc p) n (snd (g p c'))) \<and>
      R (Suc p + n) (snd (dig_seq f (Suc p) n (snd (f p c)))) (snd (dig_seq g (Suc p) n (snd (g p c'))))"
    using R by (rule Suc.IH) (use Suc.prems(2) in auto)
  ultimately show ?case by (simp add: dig_seq_Suc)
qed simp

lemma dval_map_mult_left: "dval (map (\<lambda>q. d * s q) qs) = d * dval (map s qs)"
  by (induction qs) (simp_all add: algebra_simps)

lemma map_shift: "map (\<lambda>q. f (q - u)) [u..<u + n] = map f [0..<n]"
  by (rule nth_equalityI) simp_all

lemma div_sub_body_eq:
  assumes "digits (m den)" and "digits (m num)" and "s < DIG_SIZE" and "q < length (m den)" and "u + q < length (m num)"
    and "quo * ndig (m den) s q + DIG_BASE < DIG_BASE * DIG_BASE" and "b \<le> DIG_BASE" and "d div DIG_BASE = cdig (m den) s q"
  defines "y \<equiv> int (m num ! (u + q)) - int (quo * ndig (m den) s q) - int b"
  obtains d' b' where "div_sub_body num den s u quo m (u + q) (d, b) = (nat (y mod int DIG_BASE), (d', b'))"
    and "d' div DIG_BASE = cdig (m den) s (Suc q)" and "int b' = - (y div int DIG_BASE)" and "b' \<le> DIG_BASE"
proof -
  let ?d = "m den ! q * 2 ^ s + cdig (m den) s q"
  note bounds = sub_digit [OF digits_nth [OF assms(2,5)] assms(7,6)]
  have d: "push_bit s (m den ! q) OR d div DIG_BASE = ?d"
    unfolding assms(8) using cdig_less [OF assms(1,3), of q] assms(3,4) by (simp add: shift_or)
  have x: "u64 (quo * ndig (m den) s q) = quo * ndig (m den) s q" "?d mod DIG_BASE = ndig (m den) s q"
    using assms(6) by (simp_all add: ndig_def)
  have "div_sub_body num den s u quo m (u + q) (d, b) = (nat (y mod int DIG_BASE), (?d, nat (- (y div int DIG_BASE))))"
    by (simp only: div_sub_body_def y_def prod.case Let_def add_diff_cancel_left' d x bounds(1) [unfolded Let_def])
  moreover have "?d div DIG_BASE = cdig (m den) s (Suc q)" by (rule cdig_Suc) (use assms in auto)
  ultimately show ?thesis using bounds(2,3) by (intro that) (auto simp: y_def)
qed

lemma reads_ahead_div:
  assumes "num \<noteq> den"
  shows "reads_ahead (div_sub_body num den s u quo) num m" and "reads_ahead (div_add_body num den s u) num m"
  using assms unfolding reads_ahead_def div_sub_body_def div_add_body_def by auto

lemma sub_loop:
  assumes "digits (m den)" and "digits (m num)" and "s < DIG_SIZE" and "dl \<le> length (m den)" and "u + dl \<le> length (m num)"
    and "num \<noteq> den" and bnd: "\<forall>q < dl. quo * ndig (m den) s q + DIG_BASE < DIG_BASE * DIG_BASE"
  obtains d b ds where "dig_loop (div_sub_body num den s u quo) num u dl (0, 0) m =
      ((d, b), m(num := take u (m num) @ ds @ drop (u + dl) (m num)))"
    and "digits ds" and "length ds = dl" and "b \<le> DIG_BASE"
    and "int (dval ds) - int DIG_BASE ^ dl * int b =
      int (dval (dig_slice (m num) u dl)) - int quo * int (dval (map (ndig (m den) s) [0..<dl]))"
proof -
  let ?t = "\<lambda>q. int (m num ! q) - int (quo * ndig (m den) s (q - u))"
  let ?g = "\<lambda>q b. (nat ((b + ?t q) mod int DIG_BASE), (b + ?t q) div int DIG_BASE)"
  let ?R = "\<lambda>q (d, b) b'. d div DIG_BASE = cdig (m den) s (q - u) \<and> b \<le> DIG_BASE \<and> b' = - int b"
  let ?f = "div_sub_body num den s u quo m"
  have sim: "fst (dig_seq ?f u dl (0, 0)) = fst (dig_seq ?g u dl 0) \<and>
      ?R (u + dl) (snd (dig_seq ?f u dl (0, 0))) (snd (dig_seq ?g u dl 0))"
  proof (rule dig_seq_sim)
    fix q c c'
    assume q: "u \<le> q" "q < u + dl" and R: "?R q c c'"
    obtain k where k: "q = u + k" using q by (metis le_iff_add)
    obtain d b where c: "c = (d, b)" by (cases c)
    have kl: "k < length (m den)" "u + k < length (m num)" "k < dl" using q k assms(4,5) by auto
    have hyps: "quo * ndig (m den) s k + DIG_BASE < DIG_BASE * DIG_BASE" "b \<le> DIG_BASE" "d div DIG_BASE = cdig (m den) s k"
      using kl(3) R k c bnd by auto
    obtain d' b' where "?f (u + k) (d, b) =
        (nat ((int (m num ! (u + k)) - int (quo * ndig (m den) s k) - int b) mod int DIG_BASE), (d', b'))"
      and "d' div DIG_BASE = cdig (m den) s (Suc k)"
      and "int b' = - ((int (m num ! (u + k)) - int (quo * ndig (m den) s k) - int b) div int DIG_BASE)" and "b' \<le> DIG_BASE"
      by (rule div_sub_body_eq [where m = m and den = den and num = num, OF assms(1-3) kl(1,2) hyps])
    moreover have "c' = - int b" using R c by simp
    ultimately show "fst (?f q c) = fst (?g q c') \<and> ?R (Suc q) (snd (?f q c)) (snd (?g q c'))"
      by (simp add: c k Suc_diff_le algebra_simps)
  qed (simp add: cdig_def)
  have val: "int (dval (fst (dig_seq ?g u dl 0))) + int DIG_BASE ^ dl * snd (dig_seq ?g u dl 0) = 0 + ival (map ?t [u..<u + dl])
      \<and> digits (fst (dig_seq ?g u dl 0))"
    by (rule borrow_seq) simp
  have "ival (map ?t [u..<u + dl]) = int (dval (dig_slice (m num) u dl)) - int quo * int (dval (map (ndig (m den) s) [0..<dl]))"
    unfolding ival_map_diff
    using assms(5) by (simp add: map_nth_slice map_shift [of "\<lambda>q. quo * ndig (m den) s q"] dval_map_mult_left)
  then show ?thesis
    using sim val dig_loop_seq [where m = m and i = num and c = "(0, 0)", OF reads_ahead_div(1) [OF assms(6)] assms(5)]
    by (intro that [of "fst (snd (dig_seq ?f u dl (0, 0)))" "snd (snd (dig_seq ?f u dl (0, 0)))"]) (auto split: prod.splits)
qed

section \<open>Correcting the estimate\<close>

lemma div_add_body_eq:
  assumes "digits (m den)" and "digits (m num)" and "s < DIG_SIZE" and "q < length (m den)" and "u + q < length (m num)"
    and "c \<le> 1" and "d div DIG_BASE = cdig (m den) s q"
  defines "y \<equiv> c + (m num ! (u + q) + ndig (m den) s q)"
  obtains d' where "div_add_body num den s u m (u + q) (d, c) = (y mod DIG_BASE, (d', y div DIG_BASE))"
    and "d' div DIG_BASE = cdig (m den) s (Suc q)" and "y div DIG_BASE \<le> 1"
proof -
  let ?d = "m den ! q * 2 ^ s + cdig (m den) s q"
  have d: "push_bit s (m den ! q) OR d div DIG_BASE = ?d"
    unfolding assms(7) using cdig_less [OF assms(1,3), of q] assms(3,4) by (simp add: shift_or)
  have x: "?d mod DIG_BASE = ndig (m den) s q" by (simp add: ndig_def)
  have "ndig (m den) s q < DIG_BASE" by (simp add: ndig_def)
  then have y: "y < DIG_BASE * 2" using digits_nth [OF assms(2,5)] assms(6) by (simp add: y_def)
  also have "\<dots> \<le> DIG_BASE * DIG_BASE" by (simp add: DIG_BASE_def)
  finally have u: "u64 y = y" by simp
  have "div_add_body num den s u m (u + q) (d, c) = (y mod DIG_BASE, (?d, y div DIG_BASE))"
    by (simp only: div_add_body_def y_def prod.case Let_def add_diff_cancel_left' d x u [unfolded y_def])
  moreover have "?d div DIG_BASE = cdig (m den) s (Suc q)" by (rule cdig_Suc) (use assms in auto)
  moreover have "y div DIG_BASE \<le> 1" using y by (intro div_DIG_BASE_le) simp
  ultimately show ?thesis by (rule that)
qed

lemma add_loop:
  assumes "digits (m den)" and "digits (m num)" and "s < DIG_SIZE" and "dl \<le> length (m den)" and "u + dl \<le> length (m num)"
    and "num \<noteq> den"
  obtains d c ds where "dig_loop (div_add_body num den s u) num u dl (0, 0) m =
      ((d, c), m(num := take u (m num) @ ds @ drop (u + dl) (m num)))"
    and "digits ds" and "length ds = dl" and "c \<le> 1"
    and "dval ds + DIG_BASE ^ dl * c = dval (dig_slice (m num) u dl) + dval (map (ndig (m den) s) [0..<dl])"
proof -
  let ?t = "\<lambda>q. m num ! q + ndig (m den) s (q - u)"
  let ?g = "\<lambda>q c. ((c + ?t q) mod DIG_BASE, (c + ?t q) div DIG_BASE)"
  let ?R = "\<lambda>q (d, c) c'. d div DIG_BASE = cdig (m den) s (q - u) \<and> c \<le> (1 :: nat) \<and> c' = c"
  let ?f = "div_add_body num den s u m"
  have sim: "fst (dig_seq ?f u dl (0, 0)) = fst (dig_seq ?g u dl 0) \<and>
      ?R (u + dl) (snd (dig_seq ?f u dl (0, 0))) (snd (dig_seq ?g u dl 0))"
  proof (rule dig_seq_sim)
    fix q c c'
    assume q: "u \<le> q" "q < u + dl" and R: "?R q c c'"
    obtain k where k: "q = u + k" using q by (metis le_iff_add)
    obtain d b where c: "c = (d, b)" by (cases c)
    have kl: "k < length (m den)" "u + k < length (m num)" using q k assms(4,5) by auto
    have hyps: "b \<le> 1" "d div DIG_BASE = cdig (m den) s k" using R k c by auto
    obtain d' where "?f (u + k) (d, b) =
        ((b + (m num ! (u + k) + ndig (m den) s k)) mod DIG_BASE, (d', (b + (m num ! (u + k) + ndig (m den) s k)) div DIG_BASE))"
      and "d' div DIG_BASE = cdig (m den) s (Suc k)" and "(b + (m num ! (u + k) + ndig (m den) s k)) div DIG_BASE \<le> 1"
      by (rule div_add_body_eq [where m = m and den = den and num = num, OF assms(1-3) kl(1,2) hyps])
    moreover have "c' = b" using R c by simp
    ultimately show "fst (?f q c) = fst (?g q c') \<and> ?R (Suc q) (snd (?f q c)) (snd (?g q c'))"
      by (simp add: c k Suc_diff_le)
  qed (simp add: cdig_def)
  have C: "\<forall>q \<in> {u..<u + dl}. \<forall>c \<le> 1. ?g q c = ((c + ?t q) mod DIG_BASE, (c + ?t q) div DIG_BASE) \<and> (c + ?t q) div DIG_BASE \<le> 1"
  proof (intro ballI allI impI conjI refl)
    fix q c :: nat
    assume "q \<in> {u..<u + dl}" and "c \<le> 1"
    moreover have "ndig (m den) s (q - u) < DIG_BASE" by (simp add: ndig_def)
    ultimately show "(c + ?t q) div DIG_BASE \<le> 1"
      using digits_nth [OF assms(2), of q] assms(5) by (intro div_DIG_BASE_le) simp
  qed
  note val = carry_seq [OF C, of 0]
  have "dval (map ?t [u..<u + dl]) = dval (dig_slice (m num) u dl) + dval (map (ndig (m den) s) [0..<dl])"
    unfolding dval_map_add using assms(5) by (simp add: map_nth_slice map_shift)
  then show ?thesis
    using sim val dig_loop_seq [where m = m and i = num and c = "(0, 0)", OF reads_ahead_div(2) [OF assms(6)] assms(5)]
    by (intro that [of "fst (snd (dig_seq ?f u dl (0, 0)))" "snd (snd (dig_seq ?f u dl (0, 0)))"]) (auto split: prod.splits)
qed

lemma mpn_div_addback_correct:
  assumes "digits (m den)" and "s < DIG_SIZE" and "dl \<le> length (m den)" and "num \<noteq> den"
    and "digits (m num)" and "u + dl \<le> length (m num)"
    and "int (dval (dig_slice (m num) u dl)) - int DIG_BASE ^ dl * int borrow =
      int r - int k * int (dval (map (ndig (m den) s) [0..<dl]))"
    and "r < dval (map (ndig (m den) s) [0..<dl])" and "borrow < 2 ^ 64" and "k \<le> quo" and "quo < 2 ^ 64"
  shows "\<exists>ds. mpn_div_addback num den dl s u borrow quo m =
      Some (quo - k, m(num := take u (m num) @ ds @ drop (u + dl) (m num))) \<and> digits ds \<and> length ds = dl \<and> dval ds = r"
  using assms
proof (induction k arbitrary: m borrow quo)
  case 0
  let ?ds = "dig_slice (m num) u dl"
  have ds: "length ?ds = dl" "digits ?ds" using 0 by (auto simp: length_slice dig_slice_def intro: digits_take digits_drop)
  have "int (dval ?ds) < int DIG_BASE ^ dl" using dval_less [OF ds(2)] ds(1) by (metis of_nat_less_iff of_nat_power)
  moreover have "int (dval ?ds) - int DIG_BASE ^ dl * int borrow = int r" using 0 by simp
  moreover have "0 < borrow \<Longrightarrow> int DIG_BASE ^ dl \<le> int DIG_BASE ^ dl * int borrow" by simp
  ultimately have "borrow = 0" by linarith
  moreover have "m(num := take u (m num) @ ?ds @ drop (u + dl) (m num)) = m"
    by (simp add: dig_slice_def fun_eq_iff) (metis append_take_drop_id drop_drop add.commute)
  moreover have "dval ?ds = r" using 0 \<open>borrow = 0\<close> by simp
  ultimately show ?case using ds by (intro exI [of _ ?ds]) (simp add: mpn_div_addback.simps)
next
  case (Suc k)
  obtain d c ds where loop: "dig_loop (div_add_body num den s u) num u dl (0, 0) m =
      ((d, c), m(num := take u (m num) @ ds @ drop (u + dl) (m num)))"
    and ds: "digits ds" "length ds = dl" and c: "c \<le> 1"
    and val: "dval ds + DIG_BASE ^ dl * c = dval (dig_slice (m num) u dl) + dval (map (ndig (m den) s) [0..<dl])"
    by (rule add_loop [where m = m and den = den and num = num and s = s and u = u and dl = dl]) (use Suc.prems in auto)
  define M where "M = m(num := take u (m num) @ ds @ drop (u + dl) (m num))"
  let ?D = "dval (map (ndig (m den) s) [0..<dl])"
  have M: "M den = m den" "length (M num) = length (m num)" "dig_slice (M num) u dl = ds" "digits (M num)"
    "take u (M num) = take u (m num)" "drop (u + dl) (M num) = drop (u + dl) (m num)"
    using Suc.prems(4-6) ds by (auto simp: M_def dig_slice_def intro: digits_take digits_drop)
  have eq: "int (dval (dig_slice (m num) u dl)) - int DIG_BASE ^ dl * int borrow = int r - int k * int ?D - int ?D"
    using Suc.prems(7) by (simp add: algebra_simps)
  have "0 \<le> int k * int ?D" "borrow = 0 \<Longrightarrow> int DIG_BASE ^ dl * int borrow = 0" by simp_all
  then have "borrow \<noteq> 0" using eq Suc.prems(8) by (intro notI) linarith
  then have b: "to_u64 (int borrow - int c) = borrow - c" using c Suc.prems(9) by (simp add: to_u64_def nat_diff_distrib)
  have q: "to_u64 (int quo - 1) = quo - 1" using Suc.prems(10,11) by (simp add: to_u64_def nat_diff_distrib)
  have val': "int (dval ds) + int DIG_BASE ^ dl * int c = int (dval (dig_slice (m num) u dl)) + int ?D"
    using arg_cong [OF val, of int] by simp
  have "int DIG_BASE ^ dl * int (borrow - c) = int DIG_BASE ^ dl * int borrow - int DIG_BASE ^ dl * int c"
    using c \<open>borrow \<noteq> 0\<close> by (simp add: of_nat_diff algebra_simps)
  then have "int (dval ds) - int DIG_BASE ^ dl * int (borrow - c) = int r - int k * int ?D" using eq val' by linarith
  then have "\<exists>es. mpn_div_addback num den dl s u (borrow - c) (quo - 1) M =
      Some (quo - 1 - k, M(num := take u (M num) @ es @ drop (u + dl) (M num))) \<and> digits es \<and> length es = dl \<and> dval es = r"
    using Suc.prems M by (intro Suc.IH) simp_all
  then show ?case
    using \<open>borrow \<noteq> 0\<close> by (subst mpn_div_addback.simps) (simp add: loop b q M flip: M_def, simp add: M_def)
qed

section \<open>One digit of the quotient\<close>

lemma nat_mult_less_imp: "k * a < k * b \<Longrightarrow> a < (b :: nat)"
  by (metis mult_le_mono2 not_less)

lemma quo_estimate:
  fixes P :: nat
  assumes "low < P" and "0 < lead"
  shows "(low + P * w) div (dlow + P * lead) \<le> w div lead"
proof -
  let ?q = "(low + P * w) div (dlow + P * lead)"
  have "P * (?q * lead) \<le> ?q * (dlow + P * lead)" by (simp add: algebra_simps)
  also have "\<dots> \<le> low + P * w" by (rule div_times_less_eq_dividend)
  also have "\<dots> < P * (w + 1)" using assms(1) by simp
  finally have "?q * lead < w + 1" by (rule nat_mult_less_imp)
  then have "?q * lead div lead \<le> w div lead" by (intro div_le_mono) simp
  then show ?thesis using assms(2) by simp
qed

lemma quo_bounds:
  assumes "n < DIG_BASE" and "DIG_BASE \<le> 2 * lead"
  shows "t \<le> lead \<Longrightarrow> (n + DIG_BASE * t) div lead \<le> DIG_BASE + 1"
    and "t < lead \<Longrightarrow> (n + DIG_BASE * t) div lead \<le> DIG_BASE - 1"
proof -
  assume "t \<le> lead"
  then have "DIG_BASE * t \<le> DIG_BASE * lead" by simp
  then have "n + DIG_BASE * t < 2 * lead + DIG_BASE * lead" using assms by linarith
  then have "n + DIG_BASE * t < (DIG_BASE + 2) * lead" by (simp add: algebra_simps)
  then have "(n + DIG_BASE * t) div lead < DIG_BASE + 2" by (simp add: less_mult_imp_div_less)
  then show "(n + DIG_BASE * t) div lead \<le> DIG_BASE + 1" by simp
next
  assume "t < lead"
  then have "DIG_BASE * (t + 1) \<le> DIG_BASE * lead" by (intro mult_le_mono) simp_all
  then have "n + DIG_BASE * t < DIG_BASE * lead" using assms by simp
  then have "(n + DIG_BASE * t) div lead < DIG_BASE" by (simp add: less_mult_imp_div_less)
  then show "(n + DIG_BASE * t) div lead \<le> DIG_BASE - 1" by simp
qed

text \<open>The borrow of the subtraction cannot overflow.\<close>

lemma borrow_safe:
  assumes "quo \<le> DIG_BASE - 1 \<and> d < DIG_BASE \<or> quo \<le> DIG_BASE + 1 \<and> d < DIG_BASE - 1"
  shows "quo * d + DIG_BASE < DIG_BASE * DIG_BASE"
proof -
  have "quo \<le> DIG_BASE - 1 \<and> d \<le> DIG_BASE - 1 \<or> quo \<le> DIG_BASE + 1 \<and> d \<le> DIG_BASE - 2" using assms by linarith
  then have "quo * d \<le> (DIG_BASE - 1) * (DIG_BASE - 1) \<or> quo * d \<le> (DIG_BASE + 1) * (DIG_BASE - 2)"
    using mult_le_mono by blast
  then show ?thesis by (auto simp: DIG_BASE_def)
qed

text \<open>The condition under which the division is exact.\<close>

definition div_safe :: "nat list \<Rightarrow> nat \<Rightarrow> nat \<Rightarrow> bool" where
  "div_safe ds dl s \<longleftrightarrow> dl = 1 \<or> (\<forall>q < dl. ndig ds s q < DIG_BASE - 1)"

lemma dval_ndig_top:
  assumes "0 < dl"
  obtains e where "dval (map (ndig ds s) [0..<dl]) = e + DIG_BASE ^ (dl - 1) * ndig ds s (dl - 1)" and "e < DIG_BASE ^ (dl - 1)"
proof -
  obtain k where k: "dl = Suc k" using assms by (cases dl) auto
  have "digits (map (ndig ds s) [0..<k])" by (auto simp: digits_def ndig_def)
  then show ?thesis
    using that dval_less [of "map (ndig ds s) [0..<k]"] by (simp add: k dval_snoc)
qed

lemma dval_slice_top:
  assumes "0 < n" and "digits ds" and "u + n \<le> length ds"
  shows "dval (dig_slice ds u n) = dval (dig_slice ds u (n - 1)) + DIG_BASE ^ (n - 1) * ds ! (u + n - 1)"
    and "dval (dig_slice ds u (n - 1)) < DIG_BASE ^ (n - 1)"
proof -
  obtain k where k: "n = Suc k" using assms(1) by (cases n) auto
  have "dig_slice ds u n = dig_slice ds u k @ [ds ! (u + k)]"
    using assms(3) by (simp add: dig_slice_def k take_snoc)
  then show "dval (dig_slice ds u n) = dval (dig_slice ds u (n - 1)) + DIG_BASE ^ (n - 1) * ds ! (u + n - 1)"
    using assms(3) by (simp add: k dval_snoc length_slice)
  show "dval (dig_slice ds u (n - 1)) < DIG_BASE ^ (n - 1)"
    using dval_less [of "dig_slice ds u k"] assms by (simp add: k length_slice) (simp add: dig_slice_def digits_take digits_drop)
qed

lemma div_quo:
  assumes "digits ds" and "u + dl < length ds" and "0 < dl" and "DIG_BASE \<le> 2 * ndig es s (dl - 1)"
    and top: "dval (dig_slice ds (Suc u) dl) < dval (map (ndig es s) [0..<dl])" and "div_safe es dl s"
  defines "quo \<equiv> (push_bit DIG_SIZE (ds ! (u + dl)) OR ds ! (u + dl - 1)) div ndig es s (dl - 1)"
  shows "dval (dig_slice ds u (Suc dl)) div dval (map (ndig es s) [0..<dl]) \<le> quo"
    and "\<forall>q < dl. quo * ndig es s q + DIG_BASE < DIG_BASE * DIG_BASE" and "quo < 2 ^ 64"
proof -
  let ?l = "ndig es s (dl - 1)" and ?n = "ds ! (u + dl - 1)" and ?t = "ds ! (u + dl)" and ?P = "DIG_BASE ^ (dl - 1)"
  have n: "?n < DIG_BASE" using assms(1-3) by (simp add: digits_nth)
  have quo: "quo = (?n + DIG_BASE * ?t) div ?l" unfolding quo_def using or_push_digit [OF n, of ?t] by (simp add: or.commute)
  obtain e where e: "dval (map (ndig es s) [0..<dl]) = e + ?P * ?l" "e < ?P" by (rule dval_ndig_top [OF assms(3)])
  have w: "dval (dig_slice ds u (Suc dl)) = dval (dig_slice ds u (dl - 1)) + ?P * (?n + DIG_BASE * ?t)"
    using dval_slice_top(1) [of "Suc dl" ds u] dval_slice_top(1) [of dl ds u] assms(1-3)
    by (cases dl) (simp_all add: algebra_simps)
  have lead: "0 < ?l" using assms(4) by (cases ?l) simp_all
  show "dval (dig_slice ds u (Suc dl)) div dval (map (ndig es s) [0..<dl]) \<le> quo"
    unfolding w e(1) quo using dval_slice_top(2) [of dl ds u] assms(1-3) lead by (intro quo_estimate) simp_all
  have "?P * ?t \<le> dval (dig_slice ds (Suc u) dl)" using dval_slice_top(1) [of dl ds "Suc u"] assms(1-3) by simp
  also have "\<dots> < ?P * (?l + 1)" using top e by simp
  finally have "?t < ?l + 1" by (rule nat_mult_less_imp)
  then have t: "?t \<le> ?l" by simp
  have "quo \<le> DIG_BASE - 1 \<and> ndig es s q < DIG_BASE \<or> quo \<le> DIG_BASE + 1 \<and> ndig es s q < DIG_BASE - 1" if "q < dl" for q
  proof (cases "dl = 1")
    case True
    then have "?t < ?l" using top e assms(2) by (simp add: slice_Suc)
    then show ?thesis using quo_bounds(2) [OF n assms(4)] by (simp add: quo ndig_def)
  next
    case False
    then show ?thesis using quo_bounds(1) [OF n assms(4) t] \<open>q < dl\<close> assms(6) by (simp add: quo div_safe_def)
  qed
  then show "\<forall>q < dl. quo * ndig es s q + DIG_BASE < DIG_BASE * DIG_BASE" using borrow_safe by blast
  show "quo < 2 ^ 64" using quo_bounds(1) [OF n assms(4) t] by (simp add: quo DIG_BASE_def)
qed

lemma digits_ndig: "digits (map (ndig ds s) qs)" by (auto simp: digits_def ndig_def)

lemma mpn_div_digit_correct:
  assumes "digits (m den)" and "digits (m num)" and "s < DIG_SIZE" and "0 < dl" and "dl \<le> length (m den)"
    and "u + dl < length (m num)" and "num \<noteq> den" and "DIG_BASE \<le> 2 * ndig (m den) s (dl - 1)"
    and "dval (dig_slice (m num) (Suc u) dl) < dval (map (ndig (m den) s) [0..<dl])" and "div_safe (m den) dl s"
  defines "win \<equiv> dval (dig_slice (m num) u (Suc dl))" and "D \<equiv> dval (map (ndig (m den) s) [0..<dl])"
  shows "\<exists>ds. mpn_div_digit num den dl s (ndig (m den) s (dl - 1)) u m =
      Some (win div D, m(num := take u (m num) @ ds @ drop (u + dl) (m num))) \<and>
      digits ds \<and> length ds = dl \<and> dval ds = win mod D"
proof -
  define quo where "quo = (push_bit DIG_SIZE (m num ! (u + dl)) OR m num ! (u + dl - 1)) div ndig (m den) s (dl - 1)"
  note q = div_quo [where ds = "m num" and es = "m den", OF assms(2,6,4,8,9,10), folded quo_def win_def D_def]
  have "u + dl \<le> length (m num)" using assms(6) by simp
  then obtain d b ds where loop: "dig_loop (div_sub_body num den s u quo) num u dl (0, 0) m =
      ((d, b), m(num := take u (m num) @ ds @ drop (u + dl) (m num)))"
    and ds: "digits ds" "length ds = dl" and b: "b \<le> DIG_BASE"
    and val: "int (dval ds) - int DIG_BASE ^ dl * int b = int (dval (dig_slice (m num) u dl)) - int quo * int D"
    unfolding D_def by (rule sub_loop [where m = m and den = den and num = num, OF assms(1-3,5) _ assms(7) q(2)])
  define M where "M = m(num := take u (m num) @ ds @ drop (u + dl) (m num))"
  have M: "M den = m den" "length (M num) = length (m num)" "dig_slice (M num) u dl = ds" "digits (M num)"
    "take u (M num) = take u (m num)" "drop (u + dl) (M num) = drop (u + dl) (m num)" "M num ! (u + dl) = m num ! (u + dl)"
    using assms(2,6,7) ds by (auto simp: M_def dig_slice_def nth_append intro: digits_take digits_drop)
  let ?t = "m num ! (u + dl)" and ?k = "quo - win div D"
  have D: "0 < D" "D < DIG_BASE ^ dl"
    using assms(9) dval_less [OF digits_ndig, of "m den" s "[0..<dl]"] by (simp_all add: D_def)
  have "win = dval (dig_slice (m num) u dl) + DIG_BASE ^ dl * ?t"
    using dval_slice_top(1) [of "Suc dl" "m num" u] assms(2,6) by (simp add: win_def)
  then have w: "int win = int (dval (dig_slice (m num) u dl)) + int DIG_BASE ^ dl * int ?t" by simp
  have "int win = int (win mod D) + int (win div D) * int D"
    by (metis mod_div_mult_eq of_nat_add of_nat_mult)
  then have k: "int win - int quo * int D = int (win mod D) - int ?k * int D" using q(1) by (simp add: of_nat_diff algebra_simps)
  have "?t \<le> b"
  proof (rule ccontr)
    assume "\<not> ?t \<le> b"
    then have "int DIG_BASE ^ dl * (int b + 1) \<le> int DIG_BASE ^ dl * int ?t" by (intro mult_left_mono) simp_all
    then have "int DIG_BASE ^ dl \<le> int (win mod D) - int ?k * int D" using val w k by (simp add: algebra_simps)
    moreover have "int (win mod D) < int DIG_BASE ^ dl"
      using D mod_less_divisor [OF D(1), of win] by (metis of_nat_less_iff of_nat_power order.strict_trans)
    moreover have "0 \<le> int ?k * int D" by simp
    ultimately show False by linarith
  qed
  then have borrow: "to_u64 (int b - int ?t) = b - ?t" using b by (simp add: to_u64_def DIG_BASE_def nat_diff_distrib)
  have "int (dval ds) - int DIG_BASE ^ dl * int (b - ?t) = int (win mod D) - int ?k * int D"
    using \<open>?t \<le> b\<close> val w k by (simp add: of_nat_diff algebra_simps)
  then have "\<exists>es. mpn_div_addback num den dl s u (b - ?t) quo M =
      Some (quo - ?k, M(num := take u (M num) @ es @ drop (u + dl) (M num))) \<and> digits es \<and> length es = dl \<and> dval es = win mod D"
    using assms(1,3,5-7) M D b q(3) by (intro mpn_div_addback_correct) (simp_all add: D_def DIG_BASE_def)
  moreover have "mpn_div_digit num den dl s (ndig (m den) s (dl - 1)) u m = mpn_div_addback num den dl s u (b - ?t) quo M"
    by (simp only: mpn_div_digit_def Let_def quo_def [symmetric] loop prod.case M_def [symmetric] M(7) borrow)
  moreover have "M(num := es) = m(num := es)" for es by (simp add: M_def)
  ultimately show ?thesis using q(1) M(5,6) by simp
qed

section \<open>The whole division\<close>

lemma window_less:
  assumes "digits ds" and "u + dl < length ds" and "dval (dig_slice ds (Suc u) dl) < D"
  shows "dval (dig_slice ds u (Suc dl)) div D < DIG_BASE"
proof -
  have "dval (dig_slice ds u (Suc dl)) = ds ! u + DIG_BASE * dval (dig_slice ds (Suc u) dl)"
    using assms(2) by (simp add: slice_Suc)
  also have "\<dots> < DIG_BASE * (dval (dig_slice ds (Suc u) dl) + 1)" using digits_nth [OF assms(1), of u] assms(2) by simp
  also have "\<dots> \<le> DIG_BASE * D" using assms(3) by (intro mult_le_mono) simp_all
  finally show ?thesis by (simp add: less_mult_imp_div_less)
qed

lemma mpn_div_loop_correct:
  assumes "digits (m den)" and "s < DIG_SIZE" and "0 < dl" and "dl \<le> length (m den)"
    and "num \<noteq> den" and "quo \<noteq> num" and "quo \<noteq> den" and "DIG_BASE \<le> 2 * ndig (m den) s (dl - 1)" and "div_safe (m den) dl s"
    and "digits (m num)" and "digits (m quo)" and "dl + r \<le> length (m num)" and "r \<le> length (m quo)"
    and "dval (dig_slice (m num) r dl) < dval (map (ndig (m den) s) [0..<dl])"
  shows "\<exists>m'. mpn_div_loop num den dl quo s (ndig (m den) s (dl - 1)) r m = Some m' \<and>
      (\<forall>b. b \<noteq> num \<and> b \<noteq> quo \<longrightarrow> m' b = m b) \<and> length (m' num) = length (m num) \<and> length (m' quo) = length (m quo) \<and>
      digits (m' num) \<and> digits (m' quo) \<and> drop r (m' quo) = drop r (m quo) \<and>
      dval (take dl (m' num)) < dval (map (ndig (m den) s) [0..<dl]) \<and>
      dval (take dl (m' num)) + dval (map (ndig (m den) s) [0..<dl]) * dval (take r (m' quo)) = dval (take (dl + r) (m num))"
  using assms
proof (induction r arbitrary: m)
  case 0
  then show ?case by simp
next
  case (Suc u)
  let ?l = "ndig (m den) s (dl - 1)"
  define D where "D = dval (map (ndig (m den) s) [0..<dl])"
  define win where "win = dval (dig_slice (m num) u (Suc dl))"
  have ul: "u + dl < length (m num)" using Suc.prems by simp
  obtain ds where digit: "mpn_div_digit num den dl s ?l u m =
      Some (win div D, m(num := take u (m num) @ ds @ drop (u + dl) (m num)))"
    and ds: "digits ds" "length ds = dl" "dval ds = win mod D"
    using mpn_div_digit_correct [where m = m and den = den and num = num,
        OF Suc.prems(1,10,2,3,4) ul Suc.prems(5,8) _ Suc.prems(9)] Suc.prems(14) unfolding D_def win_def by blast
  define M where "M = m(num := take u (m num) @ ds @ drop (u + dl) (m num), quo := (m quo)[u := win div D])"
  have q: "win div D < DIG_BASE" unfolding win_def D_def by (rule window_less) (use Suc.prems ul in auto)
  have M: "M den = m den" "length (M num) = length (m num)" "digits (M num)" "digits (M quo)" "length (M quo) = length (m quo)"
    "dig_slice (M num) u dl = ds" "take (dl + u) (M num) = take u (m num) @ ds" "M quo = (m quo)[u := win div D]"
    "\<forall>b. b \<noteq> num \<and> b \<noteq> quo \<longrightarrow> M b = m b"
    using Suc.prems ds ul q by (auto simp: M_def dig_slice_def intro: digits_take digits_drop digits_update)
  have D: "0 < D" using Suc.prems(14) by (simp add: D_def)
  have "\<exists>m'. mpn_div_loop num den dl quo s (ndig (M den) s (dl - 1)) u M = Some m' \<and>
      (\<forall>b. b \<noteq> num \<and> b \<noteq> quo \<longrightarrow> m' b = M b) \<and> length (m' num) = length (M num) \<and> length (m' quo) = length (M quo) \<and>
      digits (m' num) \<and> digits (m' quo) \<and> drop u (m' quo) = drop u (M quo) \<and>
      dval (take dl (m' num)) < dval (map (ndig (M den) s) [0..<dl]) \<and>
      dval (take dl (m' num)) + dval (map (ndig (M den) s) [0..<dl]) * dval (take u (m' quo)) = dval (take (dl + u) (M num))"
    by (rule Suc.IH) (use Suc.prems M ds D in \<open>simp_all flip: D_def\<close>)
  then obtain m' where loop: "mpn_div_loop num den dl quo s ?l u M = Some m'"
    and frame: "\<forall>b. b \<noteq> num \<and> b \<noteq> quo \<longrightarrow> m' b = m b" "length (m' num) = length (m num)" "length (m' quo) = length (m quo)"
      "digits (m' num)" "digits (m' quo)" and top: "drop u (m' quo) = drop u (M quo)"
    and val: "dval (take dl (m' num)) < D"
      "dval (take dl (m' num)) + D * dval (take u (m' quo)) = dval (take (dl + u) (M num))"
    using M by (auto simp flip: D_def)
  have uq: "u < length (m' quo)" using frame(3) Suc.prems(13) by simp
  have qd: "m' quo ! u = win div D" "drop (Suc u) (m' quo) = drop (Suc u) (m quo)"
    using arg_cong [OF top, of hd] arg_cong [OF top, of tl] uq frame(3) M(8)
    by (simp_all add: hd_drop_conv_nth tl_drop drop_Suc) (metis drop_Suc drop_update_cancel lessI tl_drop)
  have "dval (take dl (m' num)) + D * dval (take (Suc u) (m' quo)) =
      dval (take (dl + u) (M num)) + DIG_BASE ^ u * (win div D * D)"
    using val(2) uq qd(1) by (simp add: take_snoc dval_snoc algebra_simps)
  also have "\<dots> = dval (take u (m num)) + DIG_BASE ^ u * (win mod D + win div D * D)"
    unfolding M(7) dval_append ds(3) distrib_left using ul by simp
  also have "\<dots> = dval (take (dl + Suc u) (m num))"
    using dval_take_slice [of u "dl + Suc u" "m num"] Suc.prems(12) by (simp add: win_def)
  finally have "dval (take dl (m' num)) + D * dval (take (Suc u) (m' quo)) = dval (take (dl + Suc u) (m num))" .
  moreover have "mpn_div_loop num den dl quo s ?l (Suc u) m = Some m'"
    using loop digit q Suc.prems(6) by (simp add: M_def)
  ultimately show ?case using frame qd(2) val(1) by (auto simp flip: D_def)
qed

lemma norm_shift_loop:
  assumes "0 < d" and "d < DIG_BASE" and "d * 2 ^ f \<ge> DIG_BASE"
  shows "\<exists>k. div_norm_shift f d s = s + k \<and> k < f \<and> d * 2 ^ k < DIG_BASE \<and> DIG_BASE \<le> 2 * (d * 2 ^ k)"
  using assms
proof (induction f arbitrary: d s)
  case (Suc f)
  have msb: "d AND DIG_MSB = 0 \<longleftrightarrow> 2 * d < DIG_BASE"
  proof -
    have "d AND DIG_MSB = 0 \<longleftrightarrow> even (d div 2 ^ 31)"
      using and_exp_eq_0_iff_not_bit [of d 31] by (simp add: DIG_MSB_def bit_iff_odd)
    moreover have "d div 2 ^ 31 < 2" using Suc.prems(2) by (simp add: DIG_BASE_def less_mult_imp_div_less)
    ultimately have "d AND DIG_MSB = 0 \<longleftrightarrow> d div 2 ^ 31 = 0" by (auto simp: less_2_cases_iff)
    then show ?thesis by (simp add: DIG_BASE_def div_eq_0_iff)
  qed
  show ?case
  proof (cases "2 * d < DIG_BASE")
    case True
    then have "\<exists>k. div_norm_shift f (2 * d) (s + 1) = s + 1 + k \<and> k < f \<and> 2 * d * 2 ^ k < DIG_BASE \<and> DIG_BASE \<le> 2 * (2 * d * 2 ^ k)"
      using Suc.prems by (intro Suc.IH) (simp_all add: algebra_simps)
    then obtain k where "div_norm_shift f (2 * d) (s + 1) = s + Suc k" "Suc k < Suc f" "d * 2 ^ Suc k < DIG_BASE" "DIG_BASE \<le> 2 * (d * 2 ^ Suc k)"
      by (auto simp: algebra_simps)
    moreover have "u32 (push_bit 1 d) = 2 * d" using True by (simp add: u32_def DIG_BASE_def push_bit_eq_mult)
    ultimately show ?thesis using msb True by (intro exI [of _ "Suc k"]) simp
  next
    case False
    then show ?thesis using msb Suc.prems by (intro exI [of _ 0]) simp
  qed
qed simp

lemma unnormalise_digit:
  assumes "n < DIG_BASE" and "s < DIG_SIZE"
  shows "(drop_bit s n OR u32 (push_bit (DIG_SIZE - s) h)) mod DIG_BASE = (n + DIG_BASE * h) div 2 ^ s mod DIG_BASE"
proof -
  have B: "DIG_BASE = 2 ^ s * 2 ^ (DIG_SIZE - s)" using assms(2) by (intro DIG_BASE_split) simp
  have n: "n div 2 ^ s < 2 ^ (DIG_SIZE - s)" using assms(1) B by (simp add: less_mult_imp_div_less mult.commute)
  have h: "u32 (push_bit (DIG_SIZE - s) h) = push_bit (DIG_SIZE - s) (h mod 2 ^ s)"
  proof -
    have "u32 (push_bit (DIG_SIZE - s) h) = h * 2 ^ (DIG_SIZE - s) mod DIG_BASE" by (simp add: u32_def DIG_BASE_def push_bit_eq_mult)
    then show ?thesis unfolding B by (simp add: push_bit_eq_mult)
  qed
  have "drop_bit s n OR u32 (push_bit (DIG_SIZE - s) h) = n div 2 ^ s + 2 ^ (DIG_SIZE - s) * (h mod 2 ^ s)"
  proof (cases "s = 0")
    case False
    then show ?thesis
      unfolding h using shift_or [of "DIG_SIZE - s" "n div 2 ^ s" "h mod 2 ^ s"] n by (simp add: drop_bit_eq_div or.commute)
  qed (use h in simp)
  also have "\<dots> mod DIG_BASE = (n div 2 ^ s + 2 ^ (DIG_SIZE - s) * h) mod DIG_BASE"
    unfolding B by (metis mod_add_right_eq mod_mult_mult1 mod_mod_trivial mult.commute)
  also have "n div 2 ^ s + 2 ^ (DIG_SIZE - s) * h = (n + DIG_BASE * h) div 2 ^ s"
    unfolding B by (simp add: mult.assoc)
  finally show ?thesis .
qed

lemma div_mod_digits:
  fixes v h :: nat
  assumes "s < DIG_SIZE" and "v < DIG_BASE ^ r"
  shows "(v + DIG_BASE ^ r * (n + DIG_BASE * h)) div 2 ^ s mod DIG_BASE ^ Suc r =
    (v + DIG_BASE ^ r * n) div 2 ^ s mod DIG_BASE ^ r + DIG_BASE ^ r * ((n + DIG_BASE * h) div 2 ^ s mod DIG_BASE)"
proof -
  let ?V = "v + DIG_BASE ^ r * (n + DIG_BASE * h)"
  have B: "DIG_BASE = 2 ^ s * 2 ^ (DIG_SIZE - s)" using assms(1) by (intro DIG_BASE_split) simp
  have "?V div 2 ^ s mod DIG_BASE ^ Suc r = ?V div 2 ^ s mod DIG_BASE ^ r + DIG_BASE ^ r * (?V div 2 ^ s div DIG_BASE ^ r mod DIG_BASE)"
    by (simp add: mod_mult2_eq mult.commute [of DIG_BASE "DIG_BASE ^ r"])
  also have "?V div 2 ^ s div DIG_BASE ^ r = (n + DIG_BASE * h) div 2 ^ s"
  proof -
    have "?V div 2 ^ s div DIG_BASE ^ r = ?V div DIG_BASE ^ r div 2 ^ s"
      unfolding div_mult2_eq [symmetric] by (simp only: mult.commute)
    also have "?V div DIG_BASE ^ r = n + DIG_BASE * h" using assms(2) by simp
    finally show ?thesis .
  qed
  also have "?V div 2 ^ s mod DIG_BASE ^ r = (v + DIG_BASE ^ r * n) div 2 ^ s mod DIG_BASE ^ r"
  proof -
    have "?V = (v + DIG_BASE ^ r * n) + 2 ^ s * (DIG_BASE ^ r * (2 ^ (DIG_SIZE - s) * h))"
      by (subst (2) B) (simp add: algebra_simps)
    then have "?V div 2 ^ s = (v + DIG_BASE ^ r * n) div 2 ^ s + DIG_BASE ^ r * (2 ^ (DIG_SIZE - s) * h)"
      by (simp only: div_mult_self2 power_not_zero zero_neq_numeral not_False_eq_True)
    then show ?thesis by simp
  qed
  finally show ?thesis .
qed

lemma div_unnormalise_correct:
  assumes "digits (m num)" and "r \<le> length (m num)" and "s < DIG_SIZE"
  shows "\<exists>ds. div_unnormalise num s r (u32 (push_bit (DIG_SIZE - s) h)) m = m(num := ds @ drop r (m num)) \<and> length ds = r \<and>
    digits ds \<and> dval ds = (dval (take r (m num)) + DIG_BASE ^ r * h) div 2 ^ s mod DIG_BASE ^ r"
  using assms(1,2)
proof (induction r arbitrary: h m)
  case 0
  then show ?case by (auto simp: fun_eq_iff)
next
  case (Suc r)
  let ?n = "m num ! r" and ?d = "(m num ! r + DIG_BASE * h) div 2 ^ s mod DIG_BASE"
  define M where "M = m(num := (m num)[r := ?d])"
  have n: "?n < DIG_BASE" using Suc.prems by (simp add: digits_nth)
  have step: "div_unnormalise num s (Suc r) (u32 (push_bit (DIG_SIZE - s) h)) m =
      div_unnormalise num s r (u32 (push_bit (DIG_SIZE - s) ?n)) M"
    using unnormalise_digit [OF n assms(3), of h] by (simp add: M_def Let_def)
  have "digits (M num)" "r \<le> length (M num)" using Suc.prems by (simp_all add: M_def digits_update)
  from Suc.IH [where m = M and h = ?n, OF this]
  obtain ds where ds: "div_unnormalise num s r (u32 (push_bit (DIG_SIZE - s) ?n)) M = M(num := ds @ drop r (M num))"
    "length ds = r" "digits ds" "dval ds = (dval (take r (M num)) + DIG_BASE ^ r * ?n) div 2 ^ s mod DIG_BASE ^ r"
    by blast
  have t: "take r (M num) = take r (m num)" "drop r (M num) = ?d # drop (Suc r) (m num)"
    using Suc.prems by (simp_all add: M_def drop_update_swap) (simp add: Cons_nth_drop_Suc [symmetric])
  have "dval (ds @ [?d]) = (dval (take r (m num)) + DIG_BASE ^ r * (?n + DIG_BASE * h)) div 2 ^ s mod DIG_BASE ^ Suc r"
    using div_mod_digits [OF assms(3), of "dval (take r (m num))" r ?n h] dval_less [OF digits_take [OF Suc.prems(1), of r]] Suc.prems(2) ds
    by (simp add: dval_snoc t)
  also have "dval (take r (m num)) + DIG_BASE ^ r * (?n + DIG_BASE * h) = dval (take (Suc r) (m num)) + DIG_BASE ^ Suc r * h"
    using Suc.prems(2) by (simp add: take_snoc dval_snoc algebra_simps)
  finally have v: "dval (ds @ [?d]) = (dval (take (Suc r) (m num)) + DIG_BASE ^ Suc r * h) div 2 ^ s mod DIG_BASE ^ Suc r" .
  have "M(num := ds @ drop r (M num)) = m(num := (ds @ [?d]) @ drop (Suc r) (m num))"
    unfolding t(2) by (simp add: M_def)
  then show ?case using step ds v by (intro exI [of _ "ds @ [?d]"]) simp
qed

lemma shift_digit:
  assumes "n < DIG_BASE" and "s < DIG_SIZE" and "c < 2 ^ s"
  shows "((u32 (push_bit s n) OR c) mod DIG_BASE, drop_bit (DIG_SIZE - s) n) =
    ((c + n * 2 ^ s) mod DIG_BASE, (c + n * 2 ^ s) div DIG_BASE)"
    and "(c + n * 2 ^ s) div DIG_BASE < 2 ^ s"
proof -
  have B: "DIG_BASE = 2 ^ s * 2 ^ (DIG_SIZE - s)" using assms(2) by (intro DIG_BASE_split) simp
  have "u32 (push_bit s n) = push_bit s (n mod 2 ^ (DIG_SIZE - s))"
  proof -
    have "u32 (push_bit s n) = 2 ^ s * n mod DIG_BASE" by (simp add: u32_def DIG_BASE_def push_bit_eq_mult mult.commute)
    then show ?thesis unfolding B by (simp add: push_bit_eq_mult mult.commute)
  qed
  then have "(u32 (push_bit s n) OR c) mod DIG_BASE = (n mod 2 ^ (DIG_SIZE - s) * 2 ^ s + c) mod DIG_BASE"
    using shift_or [OF assms(2,3)] by simp
  also have "\<dots> = (c + n * 2 ^ s) mod DIG_BASE"
  proof -
    have "n * 2 ^ s mod DIG_BASE = n mod 2 ^ (DIG_SIZE - s) * 2 ^ s"
      unfolding B by (simp add: mult.commute [of "2 ^ s"])
    then show ?thesis by (metis add.commute mod_add_left_eq mod_mod_trivial)
  qed
  finally have d: "(u32 (push_bit s n) OR c) mod DIG_BASE = (c + n * 2 ^ s) mod DIG_BASE" .
  have q: "(c + n * 2 ^ s) div DIG_BASE = n div 2 ^ (DIG_SIZE - s)"
    unfolding B div_mult2_eq using assms(3) by simp
  show "((u32 (push_bit s n) OR c) mod DIG_BASE, drop_bit (DIG_SIZE - s) n) =
    ((c + n * 2 ^ s) mod DIG_BASE, (c + n * 2 ^ s) div DIG_BASE)" using d q by (simp add: drop_bit_eq_div)
  show "(c + n * 2 ^ s) div DIG_BASE < 2 ^ s"
    unfolding q using assms(1) B by (simp add: less_mult_imp_div_less)
qed

lemma shift_numerator:
  assumes "digits (m num)" and "n < length (m num)" and "s < DIG_SIZE" and "m num ! n = 0"
  shows "\<exists>c ds. dig_loop (div_shift_body num s) num 0 (Suc n) 0 m = (c, m(num := ds @ drop (Suc n) (m num))) \<and>
    digits ds \<and> length ds = Suc n \<and> dval ds = dval (take n (m num)) * 2 ^ s"
proof -
  let ?f = "div_shift_body num s m"
  have ahead: "reads_ahead (div_shift_body num s) num m" by (auto simp: reads_ahead_def div_shift_body_def)
  have C: "\<forall>q \<in> {0..<0 + Suc n}. \<forall>c \<le> 2 ^ s - 1. ?f q c = ((c + m num ! q * 2 ^ s) mod DIG_BASE, (c + m num ! q * 2 ^ s) div DIG_BASE) \<and>
      (c + m num ! q * 2 ^ s) div DIG_BASE \<le> 2 ^ s - 1"
  proof (intro ballI allI impI)
    fix q c :: nat
    assume "q \<in> {0..<0 + Suc n}" and c: "c \<le> 2 ^ s - 1"
    then have "m num ! q < DIG_BASE" using assms(1,2) by (simp add: digits_nth)
    moreover have "c < 2 ^ s" using c by (simp add: Suc_le_eq [symmetric]) (metis Suc_leI Suc_pred le_imp_less_Suc zero_less_numeral zero_less_power)
    ultimately have "?f q c = ((c + m num ! q * 2 ^ s) mod DIG_BASE, (c + m num ! q * 2 ^ s) div DIG_BASE)"
      "(c + m num ! q * 2 ^ s) div DIG_BASE < 2 ^ s"
      using shift_digit [of "m num ! q" s c] assms(3) by (simp_all add: div_shift_body_def Let_def)
    then show "?f q c = ((c + m num ! q * 2 ^ s) mod DIG_BASE, (c + m num ! q * 2 ^ s) div DIG_BASE) \<and>
        (c + m num ! q * 2 ^ s) div DIG_BASE \<le> 2 ^ s - 1" by linarith
  qed
  let ?r = "dig_seq ?f 0 (Suc n) 0"
  have seq: "dval (fst ?r) + DIG_BASE ^ Suc n * snd ?r = dval (map (\<lambda>q. m num ! q * 2 ^ s) [0..<Suc n])" "digits (fst ?r)"
    using carry_seq [OF C, of 0] by auto
  have "dval (map (\<lambda>q. m num ! q * 2 ^ s) [0..<Suc n]) = dval (take (Suc n) (m num)) * 2 ^ s"
    using dval_map_nth [of "Suc n" "m num"] assms(2) dval_map_mult [of "(!) (m num)" "2 ^ s" "[0..<Suc n]"] by simp
  also have "\<dots> = dval (take n (m num)) * 2 ^ s" using assms(2,4) by (simp add: take_snoc dval_snoc)
  finally have v: "dval (fst ?r) + DIG_BASE ^ Suc n * snd ?r = dval (take n (m num)) * 2 ^ s" using seq(1) by simp
  have "snd ?r = 0"
  proof (rule ccontr)
    assume "snd ?r \<noteq> 0"
    then have "DIG_BASE ^ n * DIG_BASE \<le> DIG_BASE ^ Suc n * snd ?r" by simp
    also have "\<dots> \<le> dval (take n (m num)) * 2 ^ s" using v by linarith
    also have "\<dots> < DIG_BASE ^ n * 2 ^ s"
      using dval_less [OF digits_take [OF assms(1), of n]] assms(2) by simp
    also have "\<dots> \<le> DIG_BASE ^ n * DIG_BASE"
      unfolding DIG_BASE_def using assms(3) by (intro mult_le_mono power_increasing) simp_all
    finally show False by simp
  qed
  moreover have "dig_loop (div_shift_body num s) num 0 (Suc n) 0 m =
      (snd ?r, m(num := take 0 (m num) @ fst ?r @ drop (0 + Suc n) (m num)))"
    by (rule dig_loop_seq [OF ahead]) (use assms(2) in simp)
  ultimately show ?thesis
    using v seq(2) by (intro exI [of _ "snd ?r"] exI [of _ "fst ?r"]) simp
qed

lemma lead_digit:
  assumes "normal ds dl" and "0 < dl" and "s < DIG_SIZE" and "ds ! (dl - 1) * 2 ^ s < DIG_BASE"
  shows "(if dl \<ge> 2 then push_bit s (ds ! (dl - 1)) OR drop_bit (DIG_SIZE - s) (ds ! (dl - 2)) else push_bit s (ds ! (dl - 1))) =
      ndig ds s (dl - 1)"
    and "ndig ds s (dl - 1) \<ge> ds ! (dl - 1) * 2 ^ s"
    and "dval (map (ndig ds s) [0..<dl]) = dval (take dl ds) * 2 ^ s"
proof -
  let ?c = "cdig ds s (dl - 1)"
  have ds: "digits ds" "dl \<le> length ds" using assms(1) by (simp_all add: normal_def)
  have c: "?c < 2 ^ s" using cdig_less [OF ds(1) assms(3), of "dl - 1"] ds(2) by simp
  have B: "DIG_BASE = 2 ^ s * 2 ^ (DIG_SIZE - s)" using assms(3) by (intro DIG_BASE_split) simp
  have "ds ! (dl - 1) < 2 ^ (DIG_SIZE - s)" using assms(4) unfolding B by (simp add: mult.commute)
  then have "ds ! (dl - 1) * 2 ^ s + 2 ^ s \<le> DIG_BASE"
    unfolding B using mult_le_mono [of "ds ! (dl - 1) + 1" "2 ^ (DIG_SIZE - s)" "2 ^ s" "2 ^ s"] by (simp add: algebra_simps)
  then have n: "ndig ds s (dl - 1) = ds ! (dl - 1) * 2 ^ s + ?c" using c by (simp add: ndig_def)
  then show "ndig ds s (dl - 1) \<ge> ds ! (dl - 1) * 2 ^ s" by simp
  have "dl \<ge> 2 \<Longrightarrow> ?c = drop_bit (DIG_SIZE - s) (ds ! (dl - 2))"
    by (simp add: cdig_def drop_bit_eq_div numeral_2_eq_2)
  moreover have "\<not> dl \<ge> 2 \<Longrightarrow> ?c = 0" by (simp add: cdig_def)
  ultimately show "(if dl \<ge> 2 then push_bit s (ds ! (dl - 1)) OR drop_bit (DIG_SIZE - s) (ds ! (dl - 2)) else push_bit s (ds ! (dl - 1))) =
      ndig ds s (dl - 1)"
    unfolding n using shift_or [OF assms(3) c] by (auto simp: push_bit_eq_mult)
  have "(ds ! (dl - 1) * 2 ^ s + ?c) div DIG_BASE = cdig ds s (Suc (dl - 1))"
    by (rule cdig_Suc) (use ds assms in auto)
  moreover have "ds ! (dl - 1) * 2 ^ s + ?c < DIG_BASE"
    using c \<open>ds ! (dl - 1) * 2 ^ s + 2 ^ s \<le> DIG_BASE\<close> by linarith
  ultimately have "cdig ds s dl = 0" using assms(2) by simp
  then show "dval (map (ndig ds s) [0..<dl]) = dval (take dl ds) * 2 ^ s"
    using ndig_sum [OF ds(1) assms(3) ds(2)] by simp
qed

lemma scaled_divmod:
  fixes N :: nat
  assumes "R + D * p * Q = N * p" and "R < D * p" and "0 < p"
  shows "R = (N mod D) * p" and "Q = N div D"
proof -
  have "N * p div (D * p) = Q" "N * p mod (D * p) = R"
    using assms by (metis add.commute div_mult_self2 div_less add.left_neutral less_nat_zero_code gr_implies_not0, metis mod_mult_self2 mod_less)
  then show "R = (N mod D) * p" "Q = N div D" using assms(3) by (simp_all add: mult.commute)
qed

definition div_exact :: "nat list \<Rightarrow> nat \<Rightarrow> bool" where
  "div_exact ds dl \<longleftrightarrow> div_safe ds dl (div_norm_shift DIG_SIZE (ds ! (dl - 1)) 0)"

text \<open>What a division leaves in memory: the remainder in \<open>num\<close>, the quotient in \<open>quo\<close>.\<close>

definition divided :: "'r \<Rightarrow> 'r \<Rightarrow> nat \<Rightarrow> nat \<Rightarrow> nat \<Rightarrow> nat \<Rightarrow> 'r bufs \<Rightarrow> 'r bufs \<Rightarrow> bool" where
  "divided num quo r n q l m m' \<longleftrightarrow> (\<forall>b. b \<noteq> num \<and> b \<noteq> quo \<longrightarrow> m' b = m b) \<and>
     length (m' num) = length (m num) \<and> length (m' quo) = length (m quo) \<and>
     normal (m' num) n \<and> dval (take n (m' num)) = r \<and> normal (m' quo) l \<and> dval (take l (m' quo)) = q"

lemma mpn_div_long:
  assumes num: "normal (m num) nl" "nl < length (m num)" and den: "normal (m den) dl" "0 < dl"
    and quo: "digits (m quo)" "nl + 1 - dl \<le> length (m quo)"
    and distinct: "num \<noteq> den" "quo \<noteq> num" "quo \<noteq> den" and less: "dval (take dl (m den)) < dval (take nl (m num))"
    and safe: "div_exact (m den) dl"
  shows "\<exists>n l m'. mpn_div num nl den dl quo m = Some (n, l, m') \<and>
    divided num quo (dval (take nl (m num)) mod dval (take dl (m den))) n (dval (take nl (m num)) div dval (take dl (m den))) l m m'"
proof -
  let ?d = "m den ! (dl - 1)" and ?N = "dval (take nl (m num))" and ?D = "dval (take dl (m den))"
  define s where "s = div_norm_shift DIG_SIZE ?d 0"
  have dn: "digits (m num)" "digits (m den)" "dl \<le> length (m den)" "?d < DIG_BASE" "0 < ?d"
    using num den by (auto simp: normal_def digits_nth)
  have "DIG_BASE \<le> ?d * 2 ^ DIG_SIZE" using dn(5) by (simp add: DIG_BASE_def)
  from norm_shift_loop [OF dn(5,4) this, of 0]
  have s: "s < DIG_SIZE" "?d * 2 ^ s < DIG_BASE" "DIG_BASE \<le> 2 * (?d * 2 ^ s)" by (auto simp: s_def)
  note lead = lead_digit [OF den s(1,2)]
  have safe': "div_safe (m den) dl s" using safe by (simp add: div_exact_def s_def)
  have lead': "DIG_BASE \<le> 2 * ndig (m den) s (dl - 1)" using s(3) lead(2) by linarith
  have nd: "dl \<le> nl" using normal_len_less [OF num(1) den(1)] less by linarith
  define m0 where "m0 = m(num := (m num)[nl := 0])"
  have m0: "digits (m0 num)" "nl < length (m0 num)" "m0 num ! nl = 0" "take nl (m0 num) = take nl (m num)"
    "m0 den = m den" "m0 quo = m quo"
    using dn num(2) distinct by (simp_all add: m0_def digits_update)
  obtain c ds where shift: "dig_loop (div_shift_body num s) num 0 (Suc nl) 0 m0 = (c, m0(num := ds @ drop (Suc nl) (m0 num)))"
    and ds: "digits ds" "length ds = Suc nl" "dval ds = ?N * 2 ^ s"
    using shift_numerator [where m = m0 and num = num, OF m0(1,2) s(1) m0(3)] m0(4) by auto
  define m1 where "m1 = m0(num := ds @ drop (Suc nl) (m0 num))"
  have m1: "m1 den = m den" "m1 quo = m quo" "digits (m1 num)" "length (m1 num) = length (m num)" "take (Suc nl) (m1 num) = ds"
    "\<forall>b. b \<noteq> num \<longrightarrow> m1 b = m b"
    using m0 ds distinct num(2) dn(1) by (auto simp: m1_def m0_def intro: digits_drop digits_update)
  let ?r = "Suc nl - dl"
  have "dval (dig_slice (m1 num) ?r dl) < ?D * 2 ^ s"
  proof -
    have "DIG_BASE ^ ?r * dval (dig_slice (m1 num) ?r dl) \<le> ?N * 2 ^ s"
      using dval_take_slice [of ?r "Suc nl" "m1 num"] nd m1(4,5) num(2) ds(3) by simp
    also have "\<dots> < DIG_BASE ^ nl * 2 ^ s" using normal_less [OF num(1)] by simp
    also have "\<dots> = DIG_BASE ^ ?r * (DIG_BASE ^ (dl - 1) * 2 ^ s)"
      using nd den(2) by (simp add: mult.assoc [symmetric] power_add [symmetric])
    finally have "dval (dig_slice (m1 num) ?r dl) < DIG_BASE ^ (dl - 1) * 2 ^ s" by (rule nat_mult_less_imp)
    also have "\<dots> \<le> ?D * 2 ^ s" using normal_ge [OF den] by simp
    finally show ?thesis .
  qed
  then have "\<exists>m'. mpn_div_loop num den dl quo s (ndig (m1 den) s (dl - 1)) ?r m1 = Some m' \<and>
      (\<forall>b. b \<noteq> num \<and> b \<noteq> quo \<longrightarrow> m' b = m1 b) \<and> length (m' num) = length (m1 num) \<and> length (m' quo) = length (m1 quo) \<and>
      digits (m' num) \<and> digits (m' quo) \<and> drop ?r (m' quo) = drop ?r (m1 quo) \<and>
      dval (take dl (m' num)) < dval (map (ndig (m1 den) s) [0..<dl]) \<and>
      dval (take dl (m' num)) + dval (map (ndig (m1 den) s) [0..<dl]) * dval (take ?r (m' quo)) = dval (take (dl + ?r) (m1 num))"
    using dn(2,3) den(2) distinct s(1) safe' lead' quo nd num(2)
    by (intro mpn_div_loop_correct) (simp_all add: m1(1-4) lead(3))
  then obtain m2 where loop: "mpn_div_loop num den dl quo s (ndig (m den) s (dl - 1)) ?r m1 = Some m2"
    and m2: "\<forall>b. b \<noteq> num \<and> b \<noteq> quo \<longrightarrow> m2 b = m b" "length (m2 num) = length (m num)" "length (m2 quo) = length (m quo)"
      "digits (m2 num)" "digits (m2 quo)"
    and val: "dval (take dl (m2 num)) < ?D * 2 ^ s" "dval (take dl (m2 num)) + ?D * 2 ^ s * dval (take ?r (m2 quo)) = ?N * 2 ^ s"
    using m1 ds(3) nd by (auto simp: lead(3))
  note dm = scaled_divmod [OF val(2,1)]
  have "dl \<le> length (m2 num)" using m2(2) nd num(2) by simp
  from div_unnormalise_correct [where m = m2 and num = num and h = 0, OF m2(4) this s(1)]
  obtain es where un: "div_unnormalise num s dl 0 m2 = m2(num := es @ drop dl (m2 num))" and es: "length es = dl" "digits es"
    "dval es = dval (take dl (m2 num)) div 2 ^ s mod DIG_BASE ^ dl" by (auto simp: u32_def)
  define m3 where "m3 = m2(num := es @ drop dl (m2 num))"
  have "?N mod ?D < DIG_BASE ^ dl"
    using normal_less [OF den(1)] mod_less_divisor [of ?D ?N] normal_zero [OF den(1)] den(2) by linarith
  then have "dval es = ?N mod ?D" using es(3) dm(1) by simp
  moreover have "mpn_div num nl den dl quo m = Some (mpn_remove_trailing_zeros (m3 num) dl, mpn_remove_trailing_zeros (m3 quo) ?r, m3)"
  proof -
    have "mpn_cmp (m num) nl (m den) dl = 1" using less mpn_cmp_sgn [OF num(1) den(1)] by simp
    then show ?thesis
      by (simp add: mpn_div_def Let_def del: dig_loop.simps)
        (simp only: s_def [symmetric] m0_def [symmetric] shift [folded m1_def] prod.case m1(1) lead(1)
          One_nat_def [symmetric] loop option.case un m3_def [symmetric] Let_def)
  qed
  moreover have "divided num quo (dval es) (mpn_remove_trailing_zeros (m3 num) dl) (?N div ?D) (mpn_remove_trailing_zeros (m3 quo) ?r) m m3"
  proof -
    have "m3 quo = m2 quo" "take dl (m3 num) = es" "length (m3 num) = length (m num)" "digits (m3 num)"
      using distinct es m2 \<open>dl \<le> length (m2 num)\<close> by (simp_all add: m3_def digits_drop)
    moreover have "?r \<le> length (m2 quo)" using quo(2) m2(3) by simp
    ultimately show ?thesis
      using m2 es(1,2) dm(2) nd num(2) mpn_remove_trailing_zeros_val [of dl "m3 num"] mpn_remove_trailing_zeros_val [of ?r "m2 quo"]
      by (auto simp: divided_def m3_def intro: normal_remove_trailing_zeros)
  qed
  ultimately show ?thesis by auto
qed

lemma mpn_div_divided:
  assumes "normal (m num) nl" and "nl < length (m num)" and "normal (m den) dl" and "0 < dl"
    and "digits (m quo)" and "nl \<le> length (m quo)" and "m quo \<noteq> []"
    and "num \<noteq> den" and "quo \<noteq> num" and "quo \<noteq> den" and "div_exact (m den) dl"
  shows "\<exists>n l m'. mpn_div num nl den dl quo m = Some (n, l, m') \<and>
    divided num quo (dval (take nl (m num)) mod dval (take dl (m den))) n (dval (take nl (m num)) div dval (take dl (m den))) l m m'"
proof (cases "dval (take nl (m num))" "dval (take dl (m den))" rule: linorder_cases)
  case less
  then show ?thesis using mpn_cmp_sgn [OF assms(1,3)] assms by (auto simp: mpn_div_def divided_def normal_def)
next
  case equal
  then have "mpn_cmp (m num) nl (m den) dl = 0" using mpn_cmp_sgn [OF assms(1,3)] by simp
  moreover have "normal ((m quo)[0 := 1]) 1" "dval (take 1 ((m quo)[0 := 1])) = 1"
    using assms(5,7) by (cases "m quo"; simp add: normal_def)+
  moreover have "0 < dval (take dl (m den))" using normal_zero [OF assms(3)] assms(4) by simp
  ultimately show ?thesis using assms equal by (simp add: mpn_div_def divided_def normal_def)
next
  case greater
  then show ?thesis using assms by (intro mpn_div_long) auto
qed

end
