(* ===== verification/Mpz.thy ===== *)
theory Mpz
  imports MpnBitwise MpnDiv
begin

text \<open>
  The multi-precision integers of \<^verbatim>\<open>py/mpz.c\<close>: sign, length and a growing digit buffer.  An operation
  works on a store of integers and is given the names of the objects its pointers point to, so that
  the destination may be one of the operands, as the comments in the source allow.  The objects that
  an operation allocates for its own use, and its local digit arrays, have names of their own.

  The model covers the runs in which every allocation succeeds: a failing \<^verbatim>\<open>m_renew\<close> raises MemoryError
  and the operation does not return.  New digits of a grown buffer are zero, as the heap clears the
  memory it hands out.  Assertions are compiled out.  The conversions to and from floating point are
  not modelled.
\<close>

section \<open>Integers and their store\<close>

record mpz =
  mpz_neg :: bool
  mpz_fixed :: bool
  mpz_alloc :: nat
  mpz_len :: nat
  mpz_dig :: "nat list"

text \<open>
  The names of the objects: those of the callers, the clone \<open>Ztemp\<close> of a multiplication, the base \<open>Zx\<close>,
  the exponent \<open>Zn\<close> and the quotient \<open>Zquo\<close> of a power, the minus one \<open>Zone\<close> of a division, and \<open>Zk\<close>,
  the one-digit array of a complement and of a rounding shift.
\<close>

datatype zref = Z nat | Ztemp | Zx | Zn | Zquo | Zone | Zk

type_synonym zstore = "zref \<Rightarrow> mpz"

definition digs :: "zstore \<Rightarrow> zref bufs" where
  "digs st = (\<lambda>z. mpz_dig (st z))"

text \<open>The object \<open>d\<close> after a digit routine stored its result of length \<open>n\<close> in the buffer of \<open>d\<close>.\<close>

definition put_result :: "zref \<Rightarrow> nat \<times> zref bufs \<Rightarrow> bool \<Rightarrow> zstore \<Rightarrow> zstore" where
  "put_result d r neg st = st(d := (st d)\<lparr>mpz_len := fst r, mpz_dig := snd r d, mpz_neg := neg\<rparr>)"

definition mpz_init_zero :: mpz where
  "mpz_init_zero = \<lparr>mpz_neg = False, mpz_fixed = False, mpz_alloc = 0, mpz_len = 0, mpz_dig = []\<rparr>"

definition MIN_ALLOC :: nat where "MIN_ALLOC = 2"

text \<open>\<^verbatim>\<open>m_renew\<close> keeps the digits and adds zeros.\<close>

definition mpz_need_dig :: "nat \<Rightarrow> mpz \<Rightarrow> mpz" where
  "mpz_need_dig need z =
     (let need = (if need < MIN_ALLOC then MIN_ALLOC else need)
      in if mpz_dig z = [] \<or> mpz_alloc z < need
         then z\<lparr>mpz_dig := mpz_dig z @ replicate (need - length (mpz_dig z)) 0, mpz_alloc := need\<rparr>
         else z)"

definition mpz_clone :: "mpz \<Rightarrow> mpz" where
  "mpz_clone src = \<lparr>mpz_neg = mpz_neg src, mpz_fixed = False, mpz_alloc = mpz_alloc src, mpz_len = mpz_len src,
     mpz_dig = mpz_dig src\<rparr>"

definition mpz_set :: "zref \<Rightarrow> zref \<Rightarrow> zstore \<Rightarrow> zstore" where
  "mpz_set dest src st =
     (let st = st(dest := mpz_need_dig (mpz_len (st src)) (st dest));
          s = st src
      in st(dest := (st dest)\<lparr>mpz_neg := mpz_neg s, mpz_len := mpz_len s,
           mpz_dig := take (mpz_len s) (mpz_dig s) @ drop (mpz_len s) (mpz_dig (st dest))\<rparr>))"

text \<open>The loop that stores the digits of an unsigned 64-bit number.\<close>

function put_digits :: "nat \<Rightarrow> nat \<Rightarrow> nat list \<Rightarrow> nat \<times> nat list" where
  "put_digits uval l ds =
     (if uval > 0 then put_digits (uval div DIG_BASE) (l + 1) (ds[l := uval mod DIG_BASE]) else (l, ds))"
  by pat_completeness auto
termination by (relation "measure (\<lambda>(v, _, _). v)") auto

declare put_digits.simps [simp del]

definition mpz_set_from_uval :: "bool \<Rightarrow> nat \<Rightarrow> mpz \<Rightarrow> mpz" where
  "mpz_set_from_uval neg uval z =
     (let (l, ds) = put_digits uval 0 (mpz_dig z) in z\<lparr>mpz_neg := neg, mpz_len := l, mpz_dig := ds\<rparr>)"

definition MPZ_NUM_DIG_FOR_INT :: nat where "MPZ_NUM_DIG_FOR_INT = (64 + DIG_SIZE - 1) div DIG_SIZE"

definition mpz_set_from_int :: "int \<Rightarrow> mpz \<Rightarrow> mpz" where
  "mpz_set_from_int val z =
     (if val = 0 then z\<lparr>mpz_len := 0\<rparr>
      else
        let z = mpz_need_dig MPZ_NUM_DIG_FOR_INT z
        in if val < 0 then mpz_set_from_uval True (to_u64 (- val)) z else mpz_set_from_uval False (to_u64 val) z)"

definition mpz_set_from_ll :: "int \<Rightarrow> bool \<Rightarrow> mpz \<Rightarrow> mpz" where
  "mpz_set_from_ll val is_signed z =
     (let z = mpz_need_dig MPZ_NUM_DIG_FOR_INT z
      in if is_signed \<and> val < 0 then mpz_set_from_uval True (to_u64 (- val)) z else mpz_set_from_uval False (to_u64 val) z)"

definition mpz_init_from_int :: "int \<Rightarrow> mpz" where
  "mpz_init_from_int val = mpz_set_from_int val mpz_init_zero"

definition mpz_init_fixed_from_int :: "nat list \<Rightarrow> nat \<Rightarrow> int \<Rightarrow> mpz" where
  "mpz_init_fixed_from_int dig alloc val =
     mpz_set_from_int val \<lparr>mpz_neg = False, mpz_fixed = True, mpz_alloc = alloc, mpz_len = 0, mpz_dig = dig\<rparr>"

definition mpz_is_zero :: "mpz \<Rightarrow> bool" where
  "mpz_is_zero z \<longleftrightarrow> mpz_len z = 0"

definition mpz_is_neg :: "mpz \<Rightarrow> bool" where
  "mpz_is_neg z \<longleftrightarrow> mpz_len z \<noteq> 0 \<and> mpz_neg z"

definition mpz_cmp :: "mpz \<Rightarrow> mpz \<Rightarrow> int" where
  "mpz_cmp z1 z2 =
     (if mpz_len z1 = 0 \<and> mpz_len z2 = 0 then 0
      else
        let cmp = of_bool (mpz_neg z2) - of_bool (mpz_neg z1)
        in if cmp \<noteq> 0 then cmp
           else
             let cmp = mpn_cmp (mpz_dig z1) (mpz_len z1) (mpz_dig z2) (mpz_len z2)
             in if mpz_neg z1 then - cmp else cmp)"

section \<open>Arithmetic in place\<close>

definition mpz_abs_inpl :: "zref \<Rightarrow> zref \<Rightarrow> zstore \<Rightarrow> zstore" where
  "mpz_abs_inpl dest z st =
     (let st = (if dest \<noteq> z then mpz_set dest z st else st) in st(dest := (st dest)\<lparr>mpz_neg := False\<rparr>))"

definition mpz_neg_inpl :: "zref \<Rightarrow> zref \<Rightarrow> zstore \<Rightarrow> zstore" where
  "mpz_neg_inpl dest z st =
     (let st = (if dest \<noteq> z then mpz_set dest z st else st)
      in st(dest := (st dest)\<lparr>mpz_neg := \<not> mpz_neg (st dest)\<rparr>))"

definition mpz_not_inpl :: "zref \<Rightarrow> zref \<Rightarrow> zstore \<Rightarrow> zstore" where
  "mpz_not_inpl dest z st =
     (let st = (if dest \<noteq> z then mpz_set dest z st else st);
          l = mpz_len (st dest)
      in if l = 0
         then let d = mpz_need_dig 1 (st dest)
              in st(dest := d\<lparr>mpz_dig := (mpz_dig d)[0 := 1], mpz_len := 1, mpz_neg := True\<rparr>)
         else if mpz_neg (st dest)
         then put_result dest (mpn_sub dest dest l Zk 1 ((digs st)(Zk := [1]))) False st
         else let st = st(dest := mpz_need_dig (l + 1) (st dest))
              in put_result dest (mpn_add dest dest l Zk 1 ((digs st)(Zk := [1]))) True st)"

definition mpz_shl_inpl :: "zref \<Rightarrow> zref \<Rightarrow> nat \<Rightarrow> zstore \<Rightarrow> zstore" where
  "mpz_shl_inpl dest lhs rhs st =
     (if mpz_len (st lhs) = 0 \<or> rhs = 0 then mpz_set dest lhs st
      else
        let st = st(dest := mpz_need_dig (mpz_len (st lhs) + (rhs + DIG_SIZE - 1) div DIG_SIZE) (st dest))
        in put_result dest (mpn_shl dest lhs (mpz_len (st lhs)) rhs (digs st)) (mpz_neg (st lhs)) st)"

text \<open>
  After the shift \<open>lhs\<close> is read again, for the bits that were shifted out: when it is also the
  destination, those digits have been overwritten, and its length is that of the result.
\<close>

definition shr_round_up :: "mpz \<Rightarrow> nat \<Rightarrow> bool" where
  "shr_round_up z rhs =
     (let n_whole = rhs div DIG_SIZE;
          n_part = rhs mod DIG_SIZE
      in (\<exists>i \<in> set [0..<min (mpz_len z) n_whole]. mpz_dig z ! i \<noteq> 0) \<or>
         n_whole < mpz_len z \<and> mpz_dig z ! n_whole AND (2 ^ n_part - 1) \<noteq> 0)"

definition mpz_shr_inpl :: "zref \<Rightarrow> zref \<Rightarrow> nat \<Rightarrow> zstore \<Rightarrow> zstore" where
  "mpz_shr_inpl dest lhs rhs st =
     (if mpz_len (st lhs) = 0 \<or> rhs = 0 then mpz_set dest lhs st
      else
        let st = st(dest := mpz_need_dig (mpz_len (st lhs)) (st dest));
            st = put_result dest (mpn_shr dest lhs (mpz_len (st lhs)) rhs (digs st)) (mpz_neg (st lhs)) st
        in if mpz_neg (st dest) \<and> shr_round_up (st lhs) rhs
           then if mpz_len (st dest) = 0
                then st(dest := (st dest)\<lparr>mpz_dig := (mpz_dig (st dest))[0 := 1], mpz_len := 1\<rparr>)
                else put_result dest (mpn_add dest dest (mpz_len (st dest)) Zk 1 ((digs st)(Zk := [1]))) True st
           else st)"

text \<open>The operand of larger magnitude first.\<close>

definition mpz_add_inpl :: "zref \<Rightarrow> zref \<Rightarrow> zref \<Rightarrow> zstore \<Rightarrow> zstore" where
  "mpz_add_inpl dest lhs rhs st =
     (let (lhs, rhs) = (if mpn_cmp (mpz_dig (st lhs)) (mpz_len (st lhs)) (mpz_dig (st rhs)) (mpz_len (st rhs)) < 0
                        then (rhs, lhs) else (lhs, rhs))
      in if mpz_neg (st lhs) = mpz_neg (st rhs)
         then let st = st(dest := mpz_need_dig (mpz_len (st lhs) + 1) (st dest))
              in put_result dest (mpn_add dest lhs (mpz_len (st lhs)) rhs (mpz_len (st rhs)) (digs st)) (mpz_neg (st lhs)) st
         else let st = st(dest := mpz_need_dig (mpz_len (st lhs)) (st dest))
              in put_result dest (mpn_sub dest lhs (mpz_len (st lhs)) rhs (mpz_len (st rhs)) (digs st)) (mpz_neg (st lhs)) st)"

definition mpz_sub_inpl :: "zref \<Rightarrow> zref \<Rightarrow> zref \<Rightarrow> zstore \<Rightarrow> zstore" where
  "mpz_sub_inpl dest lhs rhs st =
     (let swap = mpn_cmp (mpz_dig (st lhs)) (mpz_len (st lhs)) (mpz_dig (st rhs)) (mpz_len (st rhs)) < 0;
          (lhs, rhs) = (if swap then (rhs, lhs) else (lhs, rhs));
          neg = (if swap then \<not> mpz_neg (st lhs) else mpz_neg (st lhs))
      in if mpz_neg (st lhs) \<noteq> mpz_neg (st rhs)
         then let st = st(dest := mpz_need_dig (mpz_len (st lhs) + 1) (st dest))
              in put_result dest (mpn_add dest lhs (mpz_len (st lhs)) rhs (mpz_len (st rhs)) (digs st)) neg st
         else let st = st(dest := mpz_need_dig (mpz_len (st lhs)) (st dest))
              in put_result dest (mpn_sub dest lhs (mpz_len (st lhs)) rhs (mpz_len (st rhs)) (digs st)) neg st)"

section \<open>Bitwise operations\<close>

text \<open>In the default configuration all signs go through the routines for two's complement.\<close>

definition mpz_and_inpl :: "zref \<Rightarrow> zref \<Rightarrow> zref \<Rightarrow> zstore \<Rightarrow> zstore" where
  "mpz_and_inpl dest lhs rhs st =
     (let (lhs, rhs) = (if mpz_len (st lhs) < mpz_len (st rhs) then (rhs, lhs) else (lhs, rhs));
          ln = mpz_neg (st lhs);
          rn = mpz_neg (st rhs);
          st = st(dest := mpz_need_dig (mpz_len (st lhs) + of_bool (ln \<or> rn)) (st dest))
      in put_result dest
           (mpn_and_neg dest lhs (mpz_len (st lhs)) rhs (mpz_len (st rhs))
              (if ln = rn then of_bool ln else 0) (of_bool ln) (of_bool rn) (digs st)) (ln \<and> rn) st)"

definition mpz_or_inpl :: "zref \<Rightarrow> zref \<Rightarrow> zref \<Rightarrow> zstore \<Rightarrow> zstore" where
  "mpz_or_inpl dest lhs rhs st =
     (let (lhs, rhs) = (if mpz_len (st lhs) < mpz_len (st rhs) then (rhs, lhs) else (lhs, rhs));
          ln = mpz_neg (st lhs);
          rn = mpz_neg (st rhs);
          st = st(dest := mpz_need_dig (mpz_len (st lhs) + of_bool (ln \<or> rn)) (st dest))
      in put_result dest
           (mpn_or_neg dest lhs (mpz_len (st lhs)) rhs (mpz_len (st rhs))
              (of_bool (ln \<or> rn)) (of_bool ln) (of_bool rn) (digs st)) (ln \<or> rn) st)"

definition mpz_xor_inpl :: "zref \<Rightarrow> zref \<Rightarrow> zref \<Rightarrow> zstore \<Rightarrow> zstore" where
  "mpz_xor_inpl dest lhs rhs st =
     (let (lhs, rhs) = (if mpz_len (st lhs) < mpz_len (st rhs) then (rhs, lhs) else (lhs, rhs));
          ln = mpz_neg (st lhs);
          rn = mpz_neg (st rhs);
          st = st(dest := mpz_need_dig (mpz_len (st lhs) + of_bool (ln \<or> rn)) (st dest))
      in put_result dest
           (mpn_xor_neg dest lhs (mpz_len (st lhs)) rhs (mpz_len (st rhs))
              (of_bool (ln \<noteq> rn)) (of_bool (\<not> ln)) (of_bool (\<not> rn)) (digs st)) (ln \<noteq> rn) st)"

text \<open>With \<^verbatim>\<open>MICROPY_OPT_MPZ_BITWISE\<close> there are shorter routines for non-negative operands.\<close>

definition mpz_and_inpl_opt :: "zref \<Rightarrow> zref \<Rightarrow> zref \<Rightarrow> zstore \<Rightarrow> zstore" where
  "mpz_and_inpl_opt dest lhs rhs st =
     (let (lhs, rhs) = (if mpz_len (st lhs) < mpz_len (st rhs) then (rhs, lhs) else (lhs, rhs));
          ln = mpz_neg (st lhs);
          rn = mpz_neg (st rhs)
      in if \<not> ln \<and> \<not> rn
         then let st = st(dest := mpz_need_dig (mpz_len (st lhs)) (st dest))
              in put_result dest (mpn_and dest lhs rhs (mpz_len (st rhs)) (digs st)) False st
         else let st = st(dest := mpz_need_dig (mpz_len (st lhs) + 1) (st dest))
              in put_result dest
                   (mpn_and_neg dest lhs (mpz_len (st lhs)) rhs (mpz_len (st rhs))
                      (of_bool (ln = rn)) (of_bool ln) (of_bool rn) (digs st)) (ln \<and> rn) st)"

definition mpz_or_inpl_opt :: "zref \<Rightarrow> zref \<Rightarrow> zref \<Rightarrow> zstore \<Rightarrow> zstore" where
  "mpz_or_inpl_opt dest lhs rhs st =
     (let (lhs, rhs) = (if mpz_len (st lhs) < mpz_len (st rhs) then (rhs, lhs) else (lhs, rhs));
          ln = mpz_neg (st lhs);
          rn = mpz_neg (st rhs)
      in if \<not> ln \<and> \<not> rn
         then let st = st(dest := mpz_need_dig (mpz_len (st lhs)) (st dest))
              in put_result dest (mpn_or dest lhs (mpz_len (st lhs)) rhs (mpz_len (st rhs)) (digs st)) False st
         else let st = st(dest := mpz_need_dig (mpz_len (st lhs) + 1) (st dest))
              in put_result dest
                   (mpn_or_neg_opt dest lhs (mpz_len (st lhs)) rhs (mpz_len (st rhs)) (of_bool ln) (of_bool rn) (digs st)) True st)"

definition mpz_xor_inpl_opt :: "zref \<Rightarrow> zref \<Rightarrow> zref \<Rightarrow> zstore \<Rightarrow> zstore" where
  "mpz_xor_inpl_opt dest lhs rhs st =
     (let (lhs, rhs) = (if mpz_len (st lhs) < mpz_len (st rhs) then (rhs, lhs) else (lhs, rhs));
          ln = mpz_neg (st lhs);
          rn = mpz_neg (st rhs)
      in if ln = rn
         then let st = st(dest := mpz_need_dig (mpz_len (st lhs)) (st dest))
              in put_result dest
                   (if \<not> ln then mpn_xor dest lhs (mpz_len (st lhs)) rhs (mpz_len (st rhs)) (digs st)
                    else mpn_xor_neg dest lhs (mpz_len (st lhs)) rhs (mpz_len (st rhs)) 0 0 0 (digs st)) False st
         else let st = st(dest := mpz_need_dig (mpz_len (st lhs) + 1) (st dest))
              in put_result dest
                   (mpn_xor_neg dest lhs (mpz_len (st lhs)) rhs (mpz_len (st rhs)) 1 (of_bool (\<not> ln)) (of_bool (\<not> rn)) (digs st))
                   True st)"

section \<open>Products, quotients and powers\<close>

text \<open>\<^verbatim>\<open>mpz_free\<close> gives the clone back; what it held is no longer of interest.\<close>

definition mpz_mul_inpl :: "zref \<Rightarrow> zref \<Rightarrow> zref \<Rightarrow> zstore \<Rightarrow> zstore" where
  "mpz_mul_inpl dest lhs rhs st =
     (if mpz_len (st lhs) = 0 \<or> mpz_len (st rhs) = 0 then st(dest := mpz_set_from_int 0 (st dest))
      else
        let (lhs, rhs, st) =
              (if lhs = dest then (Ztemp, if rhs = dest then Ztemp else rhs, st(Ztemp := mpz_clone (st lhs)))
               else if rhs = dest then (lhs, Ztemp, st(Ztemp := mpz_clone (st rhs)))
               else (lhs, rhs, st));
            st = st(dest := mpz_need_dig (mpz_len (st lhs) + mpz_len (st rhs)) (st dest));
            st = st(dest := (st dest)\<lparr>mpz_dig := replicate (mpz_alloc (st dest)) 0\<rparr>);
            st = put_result dest (mpn_mul dest lhs (mpz_len (st lhs)) rhs (mpz_len (st rhs)) (digs st))
                   (mpz_neg (st lhs) \<noteq> mpz_neg (st rhs)) st
        in st(Ztemp := mpz_init_zero))"

definition mpz_divmod_inpl :: "zref \<Rightarrow> zref \<Rightarrow> zref \<Rightarrow> zref \<Rightarrow> zstore \<Rightarrow> zstore option" where
  "mpz_divmod_inpl dest_quo dest_rem lhs rhs st =
     (let l = mpz_len (st lhs) + 1;
          st = st(dest_quo := mpz_need_dig l (st dest_quo));
          st = st(dest_quo := (st dest_quo)\<lparr>mpz_dig := replicate l 0 @ drop l (mpz_dig (st dest_quo)), mpz_len := 0\<rparr>);
          st = st(dest_rem := mpz_need_dig (mpz_len (st lhs) + 1) (st dest_rem));
          st = mpz_set dest_rem lhs st
      in case mpn_div dest_rem (mpz_len (st dest_rem)) rhs (mpz_len (st rhs)) dest_quo (digs st) of
           None \<Rightarrow> None
         | Some (n, q, m) \<Rightarrow>
             let st = st(dest_rem := (st dest_rem)\<lparr>mpz_len := n, mpz_dig := m dest_rem\<rparr>);
                 st = st(dest_quo := (st dest_quo)\<lparr>mpz_len := q, mpz_dig := m dest_quo\<rparr>)
             in if mpz_neg (st lhs) \<noteq> mpz_neg (st rhs)
                then let st = st(dest_quo := (st dest_quo)\<lparr>mpz_neg := True\<rparr>)
                     in if \<not> mpz_is_zero (st dest_rem)
                        then let st = st(Zone := mpz_init_from_int (-1));
                                 st = mpz_add_inpl dest_quo dest_quo Zone st
                             in Some (mpz_add_inpl dest_rem dest_rem rhs st)
                        else Some st
                else Some st)"

text \<open>The exponent is halved in every round; the loop of \<^verbatim>\<open>mpz_pow_inpl\<close> is given as many rounds as it has bits.\<close>

fun pow_loop :: "nat \<Rightarrow> zref \<Rightarrow> zstore \<Rightarrow> zstore" where
  "pow_loop 0 dest st = st"
| "pow_loop (Suc f) dest st =
     (if mpz_len (st Zn) > 0
      then let st = (if mpz_dig (st Zn) ! 0 AND 1 \<noteq> 0 then mpz_mul_inpl dest dest Zx st else st);
               st = put_result Zn (mpn_shr Zn Zn (mpz_len (st Zn)) 1 (digs st)) (mpz_neg (st Zn)) st
           in if mpz_len (st Zn) = 0 then st else pow_loop f dest (mpz_mul_inpl Zx Zx Zx st)
      else st)"

definition mpz_pow_inpl :: "zref \<Rightarrow> zref \<Rightarrow> zref \<Rightarrow> zstore \<Rightarrow> zstore" where
  "mpz_pow_inpl dest lhs rhs st =
     (if mpz_len (st lhs) = 0 \<or> mpz_neg (st rhs) then st(dest := mpz_set_from_int 0 (st dest))
      else if mpz_len (st rhs) = 0 then st(dest := mpz_set_from_int 1 (st dest))
      else
        let st = st(Zx := mpz_clone (st lhs), Zn := mpz_clone (st rhs));
            st = st(dest := mpz_set_from_int 1 (st dest));
            st = pow_loop (DIG_SIZE * mpz_len (st Zn)) dest st
        in st(Zx := mpz_init_zero, Zn := mpz_init_zero))"

fun pow3_loop :: "nat \<Rightarrow> zref \<Rightarrow> zref \<Rightarrow> zstore \<Rightarrow> zstore option" where
  "pow3_loop 0 dest md st = Some st"
| "pow3_loop (Suc f) dest md st =
     (if mpz_len (st Zn) > 0
      then case (if mpz_dig (st Zn) ! 0 AND 1 \<noteq> 0
                 then mpz_divmod_inpl Zquo dest dest md (mpz_mul_inpl dest dest Zx st) else Some st) of
             None \<Rightarrow> None
           | Some st \<Rightarrow>
               let st = put_result Zn (mpn_shr Zn Zn (mpz_len (st Zn)) 1 (digs st)) (mpz_neg (st Zn)) st
               in if mpz_len (st Zn) = 0 then Some st
                  else case mpz_divmod_inpl Zquo Zx Zx md (mpz_mul_inpl Zx Zx Zx st) of
                         None \<Rightarrow> None
                       | Some st \<Rightarrow> pow3_loop f dest md st
      else Some st)"

definition mpz_pow3_inpl :: "zref \<Rightarrow> zref \<Rightarrow> zref \<Rightarrow> zref \<Rightarrow> zstore \<Rightarrow> zstore option" where
  "mpz_pow3_inpl dest lhs rhs md st =
     (if mpz_len (st lhs) = 0 \<or> mpz_neg (st rhs) \<or> mpz_len (st md) = 1 \<and> mpz_dig (st md) ! 0 = 1
      then Some (st(dest := mpz_set_from_int 0 (st dest)))
      else
        let st = st(dest := mpz_set_from_int 1 (st dest))
        in if mpz_len (st rhs) = 0 then Some st
           else
             let st = st(Zx := mpz_clone (st lhs), Zn := mpz_clone (st rhs), Zquo := mpz_init_zero)
             in map_option (\<lambda>st. st(Zx := mpz_init_zero, Zn := mpz_init_zero, Zquo := mpz_init_zero))
                  (pow3_loop (DIG_SIZE * mpz_len (st Zn)) dest md st))"

end
