(* ===== verification/MpzArith.thy ===== *)
theory MpzArith
  imports Mpz
begin

text \<open>
  What the in-place operations of \<^verbatim>\<open>py/mpz.c\<close> compute: with any of their objects shared, sums,
  differences, products, shifts, bitwise operations and complements have the value that Python gives
  them, and no other object changes.
\<close>

section \<open>The value of an integer\<close>

definition mpz_ok :: "mpz \<Rightarrow> bool" where
  "mpz_ok z \<longleftrightarrow> mpz_alloc z = length (mpz_dig z) \<and> normal (mpz_dig z) (mpz_len z)"

definition mpz_mag :: "mpz \<Rightarrow> nat" where
  "mpz_mag z = dval (take (mpz_len z) (mpz_dig z))"

definition mpz_val :: "mpz \<Rightarrow> int" where
  "mpz_val z = tc (mpz_neg z) (mpz_mag z)"

text \<open>Zero has no sign: the bitwise operations rely on it.\<close>

definition mpz_plain :: "mpz \<Rightarrow> bool" where
  "mpz_plain z \<longleftrightarrow> (mpz_neg z \<longrightarrow> 0 < mpz_len z)"

text \<open>The object \<open>d\<close> holds \<open>v\<close>; of the others only those in \<open>T\<close> may have changed.\<close>

definition assigned :: "zref \<Rightarrow> zref set \<Rightarrow> int \<Rightarrow> zstore \<Rightarrow> zstore \<Rightarrow> bool" where
  "assigned d T v st st' \<longleftrightarrow> (\<forall>z. z \<noteq> d \<and> z \<notin> T \<longrightarrow> st' z = st z) \<and> mpz_ok (st' d) \<and> mpz_val (st' d) = v"

lemma mpz_mag_zero: "mpz_ok z \<Longrightarrow> mpz_mag z = 0 \<longleftrightarrow> mpz_len z = 0"
  by (simp add: mpz_ok_def mpz_mag_def normal_zero)

lemma tc_zero [simp]: "tc neg 0 = 0" by (simp add: tc_def)

lemma mpz_val_zero: "mpz_ok z \<Longrightarrow> mpz_val z = 0 \<longleftrightarrow> mpz_len z = 0"
  using mpz_mag_zero by (simp add: mpz_val_def tc_def)

lemma mpz_init_zero_ok [simp]: "mpz_ok mpz_init_zero" "mpz_val mpz_init_zero = 0"
  by (simp_all add: mpz_ok_def mpz_init_zero_def normal_def mpz_val_def mpz_mag_def)

lemma mpz_clone_ok [simp]: "mpz_ok (mpz_clone z) \<longleftrightarrow> mpz_ok z" "mpz_mag (mpz_clone z) = mpz_mag z"
  "mpz_neg (mpz_clone z) = mpz_neg z" "mpz_len (mpz_clone z) = mpz_len z" "mpz_val (mpz_clone z) = mpz_val z"
  by (simp_all add: mpz_clone_def mpz_ok_def mpz_mag_def mpz_val_def)

lemma need_dig:
  fixes n :: nat
  assumes "mpz_ok z"
  defines "z' \<equiv> mpz_need_dig n z"
  shows "mpz_ok z'" and "mpz_mag z' = mpz_mag z" and "mpz_neg z' = mpz_neg z" and "mpz_len z' = mpz_len z"
    and "n \<le> length (mpz_dig z')" and "2 \<le> length (mpz_dig z')" and "mpz_val z' = mpz_val z"
proof -
  have ok: "mpz_alloc z = length (mpz_dig z)" "mpz_len z \<le> length (mpz_dig z)" "digits (mpz_dig z)"
    "0 < mpz_len z \<Longrightarrow> mpz_dig z ! (mpz_len z - 1) \<noteq> 0"
    using assms(1) by (auto simp: mpz_ok_def normal_def)
  show mag: "mpz_mag z' = mpz_mag z" using ok(2) by (simp add: z'_def mpz_need_dig_def mpz_mag_def Let_def)
  show "mpz_neg z' = mpz_neg z" "mpz_len z' = mpz_len z" by (simp_all add: z'_def mpz_need_dig_def Let_def)
  then show "mpz_val z' = mpz_val z" using mag by (simp add: mpz_val_def)
  show "n \<le> length (mpz_dig z')" "2 \<le> length (mpz_dig z')"
    using ok(1) by (auto simp: z'_def mpz_need_dig_def Let_def MIN_ALLOC_def)
  show "mpz_ok z'"
    using ok by (auto simp: z'_def mpz_need_dig_def Let_def mpz_ok_def normal_def nth_append)
qed

lemma grow:
  assumes "mpz_ok (st d)" and "st' = st(d := mpz_need_dig n (st d))"
  shows "mpz_mag (st' z) = mpz_mag (st z)" and "mpz_neg (st' z) = mpz_neg (st z)" and "mpz_len (st' z) = mpz_len (st z)"
    and "mpz_ok (st z) \<Longrightarrow> mpz_ok (st' z)" and "n \<le> length (mpz_dig (st' d))" and "mpz_val (st' z) = mpz_val (st z)"
    and "2 \<le> length (mpz_dig (st' d))" and "z \<noteq> d \<Longrightarrow> st' z = st z" and "mpz_ok (st' d)"
  using need_dig [OF assms(1), of n] by (simp_all add: assms(2))

lemma operand:
  assumes "mpz_ok (st z)"
  shows "normal (digs st z) (mpz_len (st z))" and "dval (take (mpz_len (st z)) (digs st z)) = mpz_mag (st z)" and "digits (digs st z)"
  using assms by (auto simp: digs_def mpz_ok_def mpz_mag_def normal_def)

lemma put_result_assigned:
  assumes "stored d v n m m'" and "m d = digs st d" and "mpz_ok (st d)"
  shows "assigned d {} (tc neg v) st (put_result d (n, m') neg st)"
  using assms by (auto simp: assigned_def put_result_def stored_def mpz_ok_def mpz_val_def mpz_mag_def digs_def)

lemma assigned_trans:
  assumes "assigned d T v st1 st2" and "\<forall>z. z \<noteq> d \<and> z \<notin> T \<longrightarrow> st1 z = st z"
  shows "assigned d T v st st2"
  using assms by (simp add: assigned_def)

section \<open>Copies, signs and comparison\<close>

lemma mpz_set_assigned:
  assumes "mpz_ok (st dest)" and "mpz_ok (st src)"
  shows "assigned dest {} (mpz_val (st src)) st (mpz_set dest src st)" and "mpz_neg (mpz_set dest src st dest) = mpz_neg (st src)"
    and "mpz_len (mpz_set dest src st dest) = mpz_len (st src)" and "mpz_mag (mpz_set dest src st dest) = mpz_mag (st src)"
    and "length (mpz_dig (mpz_set dest src st dest)) = length (mpz_dig (mpz_need_dig (mpz_len (st src)) (st dest)))"
proof -
  define st' where "st' = st(dest := mpz_need_dig (mpz_len (st src)) (st dest))"
  note g = grow [OF assms(1) st'_def]
  let ?l = "mpz_len (st src)" and ?ds = "take (mpz_len (st src)) (mpz_dig (st' src)) @ drop (mpz_len (st src)) (mpz_dig (st' dest))"
  have set_eq: "mpz_set dest src st = st'(dest := (st' dest)\<lparr>mpz_neg := mpz_neg (st src), mpz_len := ?l, mpz_dig := ?ds\<rparr>)"
    by (simp only: mpz_set_def Let_def st'_def [symmetric] g(2,3))
  have ok: "mpz_ok (st' src)" "mpz_ok (st' dest)" using g(4) assms by auto
  have len: "?l \<le> length (mpz_dig (st' src))" using ok(1) g(3) [of src] by (simp add: mpz_ok_def normal_def)
  have t: "take ?l ?ds = take ?l (mpz_dig (st' src))" using len by simp
  have mag: "mpz_mag (mpz_set dest src st dest) = mpz_mag (st src)"
    using g(1,3) [of src] len by (simp add: set_eq mpz_mag_def t)
  have "mpz_ok (mpz_set dest src st dest)"
    using ok len g(3) [of src] g(5) by (auto simp: set_eq mpz_ok_def normal_def nth_append intro: digits_take digits_drop)
  then show "assigned dest {} (mpz_val (st src)) st (mpz_set dest src st)"
    using mag by (simp add: assigned_def mpz_val_def set_eq st'_def)
  show "mpz_neg (mpz_set dest src st dest) = mpz_neg (st src)" "mpz_len (mpz_set dest src st dest) = ?l" by (simp_all add: set_eq)
  show "mpz_mag (mpz_set dest src st dest) = mpz_mag (st src)" by (rule mag)
  show "length (mpz_dig (mpz_set dest src st dest)) = length (mpz_dig (mpz_need_dig ?l (st dest)))"
    using len g(5) by (simp add: set_eq) (simp add: st'_def)
qed

lemma mpz_cmp_val:
  assumes "mpz_ok z1" and "mpz_ok z2"
  shows "sgn (mpz_cmp z1 z2) = sgn (mpz_val z1 - mpz_val z2)"
proof -
  have "mpn_cmp (mpz_dig z1) (mpz_len z1) (mpz_dig z2) (mpz_len z2) = sgn (int (mpz_mag z1) - int (mpz_mag z2))"
    using assms unfolding mpz_mag_def by (intro mpn_cmp_sgn) (simp_all add: mpz_ok_def)
  moreover have "mpz_mag z1 = 0 \<longleftrightarrow> mpz_len z1 = 0" "mpz_mag z2 = 0 \<longleftrightarrow> mpz_len z2 = 0" using assms mpz_mag_zero by auto
  ultimately show ?thesis by (auto simp: mpz_cmp_def mpz_val_def tc_def sgn_if)
qed

lemma mpz_abs_neg_assigned:
  assumes "mpz_ok (st dest)" and "mpz_ok (st z)"
  shows "assigned dest {} \<bar>mpz_val (st z)\<bar> st (mpz_abs_inpl dest z st)" and "assigned dest {} (- mpz_val (st z)) st (mpz_neg_inpl dest z st)"
proof -
  define st' where "st' = (if dest \<noteq> z then mpz_set dest z st else st)"
  have "assigned dest {} (mpz_val (st z)) st st'"
    using mpz_set_assigned(1) [OF assms] assms by (auto simp: st'_def assigned_def)
  moreover have "mpz_ok (z\<lparr>mpz_neg := b\<rparr>) \<longleftrightarrow> mpz_ok z" for z b by (simp add: mpz_ok_def)
  ultimately show "assigned dest {} \<bar>mpz_val (st z)\<bar> st (mpz_abs_inpl dest z st)" "assigned dest {} (- mpz_val (st z)) st (mpz_neg_inpl dest z st)"
    unfolding mpz_abs_inpl_def mpz_neg_inpl_def st'_def [symmetric]
    by (auto simp: assigned_def mpz_val_def mpz_mag_def tc_def split: if_splits)
qed

section \<open>Sums and differences\<close>

lemma magnitudes_ordered:
  assumes "mpz_ok z1" and "mpz_ok z2"
  shows "mpn_cmp (mpz_dig z1) (mpz_len z1) (mpz_dig z2) (mpz_len z2) < 0 \<longleftrightarrow> mpz_mag z1 < mpz_mag z2"
    and "mpz_mag z1 \<le> mpz_mag z2 \<Longrightarrow> mpz_len z1 \<le> mpz_len z2"
proof -
  have n: "normal (mpz_dig z1) (mpz_len z1)" "normal (mpz_dig z2) (mpz_len z2)" using assms by (simp_all add: mpz_ok_def)
  show "mpn_cmp (mpz_dig z1) (mpz_len z1) (mpz_dig z2) (mpz_len z2) < 0 \<longleftrightarrow> mpz_mag z1 < mpz_mag z2"
    using mpn_cmp_sgn [OF n] by (simp add: mpz_mag_def sgn_if)
  show "mpz_mag z1 \<le> mpz_mag z2 \<Longrightarrow> mpz_len z1 \<le> mpz_len z2"
    using normal_len_less [OF n(2,1)] by (metis mpz_mag_def not_le)
qed

text \<open>The two ways to combine magnitudes, the second not larger than the first.\<close>

lemma combine_add:
  assumes "mpz_ok (st d)" and "mpz_ok (st l)" and "mpz_ok (st r)" and "mpz_mag (st r) \<le> mpz_mag (st l)"
    and "st' = st(d := mpz_need_dig (mpz_len (st l) + 1) (st d))"
  shows "assigned d {} (tc neg (mpz_mag (st l) + mpz_mag (st r))) st
    (put_result d (mpn_add d l (mpz_len (st' l)) r (mpz_len (st' r)) (digs st')) neg st')"
proof -
  note g = grow [OF assms(1,5)]
  have ok: "mpz_ok (st' l)" "mpz_ok (st' r)" using assms(2,3) g(4) by auto
  have le: "mpz_len (st' r) \<le> mpz_len (st' l)" using magnitudes_ordered(2) [OF assms(3,2,4)] g(3) by simp
  have room: "mpz_len (st' l) < length (digs st' d)" using g(3,5) by (simp add: digs_def)
  obtain n m' where "mpn_add d l (mpz_len (st' l)) r (mpz_len (st' r)) (digs st') = (n, m')"
    and s: "stored d (dval (take (mpz_len (st' l)) (digs st' l)) + dval (take (mpz_len (st' r)) (digs st' r))) n (digs st') m'"
    by (rule mpn_add_stored [where m = "digs st'" and i = d and j = l and k = r,
          OF operand(1) [of st' l, OF ok(1)] operand(1) [of st' r, OF ok(2)] le operand(3) [of st' d, OF g(9)] less_imp_le [OF room] disjI1 [OF room]])
  moreover have "assigned d {} (tc neg (mpz_mag (st l) + mpz_mag (st r))) st' (put_result d (n, m') neg st')"
    using put_result_assigned [OF s refl g(9)] operand(2) [of st' l, OF ok(1)] operand(2) [of st' r, OF ok(2)] g(1) by simp
  ultimately show ?thesis using assigned_trans g(8) by simp
qed

lemma combine_sub:
  assumes "mpz_ok (st d)" and "mpz_ok (st l)" and "mpz_ok (st r)" and "mpz_mag (st r) \<le> mpz_mag (st l)"
    and "st' = st(d := mpz_need_dig (mpz_len (st l)) (st d))"
  shows "assigned d {} (tc neg (mpz_mag (st l) - mpz_mag (st r))) st
    (put_result d (mpn_sub d l (mpz_len (st' l)) r (mpz_len (st' r)) (digs st')) neg st')"
proof -
  note g = grow [OF assms(1,5)]
  have ok: "mpz_ok (st' l)" "mpz_ok (st' r)" using assms(2,3) g(4) by auto
  have v: "dval (take (mpz_len (st' r)) (digs st' r)) \<le> dval (take (mpz_len (st' l)) (digs st' l))"
    using operand(2) [of st' l, OF ok(1)] operand(2) [of st' r, OF ok(2)] assms(4) g(1) by simp
  have room: "mpz_len (st' l) \<le> length (digs st' d)" using g(3,5) by (simp add: digs_def)
  obtain n m' where "mpn_sub d l (mpz_len (st' l)) r (mpz_len (st' r)) (digs st') = (n, m')"
    and s: "stored d (dval (take (mpz_len (st' l)) (digs st' l)) - dval (take (mpz_len (st' r)) (digs st' r))) n (digs st') m'"
    by (rule mpn_sub_stored [where m = "digs st'" and i = d and j = l and k = r, OF operand(1) [of st' l, OF ok(1)] operand(1) [of st' r, OF ok(2)] v operand(3) [of st' d, OF g(9)] room])
  moreover have "assigned d {} (tc neg (mpz_mag (st l) - mpz_mag (st r))) st' (put_result d (n, m') neg st')"
    using put_result_assigned [OF s refl g(9)] operand(2) [of st' l, OF ok(1)] operand(2) [of st' r, OF ok(2)] g(1) by simp
  ultimately show ?thesis using assigned_trans g(8) by simp
qed

lemma tc_sum:
  "b \<le> a \<Longrightarrow> tc n a + tc k b = (if n = k then tc n (a + b) else tc n (a - b))"
  "b \<le> a \<Longrightarrow> tc n a - tc k b = (if n \<noteq> k then tc n (a + b) else tc n (a - b))"
  "b \<le> a \<Longrightarrow> tc k b - tc n a = (if n \<noteq> k then tc (\<not> n) (a + b) else tc (\<not> n) (a - b))"
  by (auto simp: tc_def of_nat_diff)

lemma mpz_add_assigned:
  assumes "mpz_ok (st dest)" and "mpz_ok (st lhs)" and "mpz_ok (st rhs)"
  shows "assigned dest {} (mpz_val (st lhs) + mpz_val (st rhs)) st (mpz_add_inpl dest lhs rhs st)"
proof -
  have *: "assigned dest {} (mpz_val (st l) + mpz_val (st r)) st
      (if mpz_neg (st l) = mpz_neg (st r)
       then let st = st(dest := mpz_need_dig (mpz_len (st l) + 1) (st dest))
            in put_result dest (mpn_add dest l (mpz_len (st l)) r (mpz_len (st r)) (digs st)) (mpz_neg (st l)) st
       else let st = st(dest := mpz_need_dig (mpz_len (st l)) (st dest))
            in put_result dest (mpn_sub dest l (mpz_len (st l)) r (mpz_len (st r)) (digs st)) (mpz_neg (st l)) st)"
    if "mpz_ok (st l)" "mpz_ok (st r)" "mpz_mag (st r) \<le> mpz_mag (st l)" for l r
    using combine_add [where neg = "mpz_neg (st l)", OF assms(1) that refl] combine_sub [where neg = "mpz_neg (st l)", OF assms(1) that refl]
    by (simp only: Let_def mpz_val_def tc_sum(1) [OF that(3)] grow(2) [where st = st and d = dest and z = l, OF assms(1) refl]
        split: if_split) blast
  show ?thesis
    using *[of lhs rhs] *[of rhs lhs] assms magnitudes_ordered(1) [OF assms(2,3)]
    by (auto simp: mpz_add_inpl_def add.commute)
qed

lemma mpz_sub_assigned:
  assumes "mpz_ok (st dest)" and "mpz_ok (st lhs)" and "mpz_ok (st rhs)"
  shows "assigned dest {} (mpz_val (st lhs) - mpz_val (st rhs)) st (mpz_sub_inpl dest lhs rhs st)"
proof -
  have *: "assigned dest {} (if mpz_neg (st l) \<noteq> mpz_neg (st r) then tc neg (mpz_mag (st l) + mpz_mag (st r)) else tc neg (mpz_mag (st l) - mpz_mag (st r))) st
      (if mpz_neg (st l) \<noteq> mpz_neg (st r)
       then let st = st(dest := mpz_need_dig (mpz_len (st l) + 1) (st dest))
            in put_result dest (mpn_add dest l (mpz_len (st l)) r (mpz_len (st r)) (digs st)) neg st
       else let st = st(dest := mpz_need_dig (mpz_len (st l)) (st dest))
            in put_result dest (mpn_sub dest l (mpz_len (st l)) r (mpz_len (st r)) (digs st)) neg st)"
    if "mpz_ok (st l)" "mpz_ok (st r)" "mpz_mag (st r) \<le> mpz_mag (st l)" for l r neg
    using combine_add [OF assms(1) that refl] combine_sub [OF assms(1) that refl] by (simp only: Let_def split: if_split) blast
  show ?thesis
  proof (cases "mpz_mag (st lhs) < mpz_mag (st rhs)")
    case True
    then have cmp: "mpn_cmp (mpz_dig (st lhs)) (mpz_len (st lhs)) (mpz_dig (st rhs)) (mpz_len (st rhs)) < 0"
      using magnitudes_ordered(1) [OF assms(2,3)] by simp
    show ?thesis
      using *[OF assms(3,2) less_imp_le [OF True], of "\<not> mpz_neg (st rhs)"]
      by (simp only: mpz_sub_inpl_def mpz_val_def Let_def cmp if_True prod.case tc_sum(3) [OF less_imp_le [OF True]])
  next
    case False
    then have cmp: "\<not> mpn_cmp (mpz_dig (st lhs)) (mpz_len (st lhs)) (mpz_dig (st rhs)) (mpz_len (st rhs)) < 0"
      and le: "mpz_mag (st rhs) \<le> mpz_mag (st lhs)"
      using magnitudes_ordered(1) [OF assms(2,3)] by simp_all
    show ?thesis
      using *[OF assms(2,3) le, of "mpz_neg (st lhs)"]
      by (simp only: mpz_sub_inpl_def mpz_val_def Let_def cmp if_False prod.case tc_sum(2) [OF le])
  qed
qed

section \<open>Complement and shifts\<close>

text \<open>One added to, or taken from, a magnitude in place.\<close>

lemma step_up:
  assumes "mpz_ok (st d)" and "0 < mpz_len (st d)" and "d \<noteq> Zk"
    and "mpz_len (st d) < length (mpz_dig (st d)) \<or> mpz_mag (st d) + 1 < DIG_BASE ^ mpz_len (st d)"
  shows "assigned d {} (tc neg (mpz_mag (st d) + 1)) st
    (put_result d (mpn_add d d (mpz_len (st d)) Zk 1 ((digs st)(Zk := [1]))) neg st)"
proof -
  let ?m = "(digs st)(Zk := [1])"
  have k: "normal (?m Zk) 1" by (simp add: normal_def)
  have d: "?m d = digs st d" using assms(3) by simp
  have le: "1 \<le> mpz_len (st d)" using assms(2) by simp
  note op = operand [of st d, OF assms(1)]
  have room: "mpz_len (st d) \<le> length (?m d)" "mpz_len (st d) < length (?m d) \<or>
      dval (take (mpz_len (st d)) (?m d)) + dval (take 1 (?m Zk)) < DIG_BASE ^ mpz_len (st d)"
    using assms(1,3,4) op(2) by (auto simp: d digs_def mpz_ok_def normal_def)
  obtain n m' where "mpn_add d d (mpz_len (st d)) Zk 1 ?m = (n, m')"
    and s: "stored d (dval (take (mpz_len (st d)) (?m d)) + dval (take 1 (?m Zk))) n ?m m'"
    by (rule mpn_add_stored [where m = ?m and i = d and j = d and k = Zk,
          OF op(1) [folded d] k le op(3) [folded d] room])
  then show ?thesis using put_result_assigned [OF s d assms(1)] op(2) assms(3) by (simp add: d)
qed

lemma step_down:
  assumes "mpz_ok (st d)" and "0 < mpz_len (st d)" and "d \<noteq> Zk"
  shows "assigned d {} (tc neg (mpz_mag (st d) - 1)) st
    (put_result d (mpn_sub d d (mpz_len (st d)) Zk 1 ((digs st)(Zk := [1]))) neg st)"
proof -
  let ?m = "(digs st)(Zk := [1])"
  have k: "normal (?m Zk) 1" by (simp add: normal_def)
  have d: "?m d = digs st d" using assms(3) by simp
  note op = operand [of st d, OF assms(1)]
  have le: "dval (take 1 (?m Zk)) \<le> dval (take (mpz_len (st d)) (?m d))" and room: "mpz_len (st d) \<le> length (?m d)"
    using assms op(2) mpz_mag_zero [OF assms(1)] by (auto simp: d digs_def mpz_ok_def normal_def)
  obtain n m' where "mpn_sub d d (mpz_len (st d)) Zk 1 ?m = (n, m')"
    and s: "stored d (dval (take (mpz_len (st d)) (?m d)) - dval (take 1 (?m Zk))) n ?m m'"
    by (rule mpn_sub_stored [where m = ?m and i = d and j = d and k = Zk, OF op(1) [folded d] k le op(3) [folded d] room])
  then show ?thesis using put_result_assigned [OF s d assms(1)] op(2) assms(3) by (simp add: d)
qed

lemma mpz_not_assigned:
  assumes "mpz_ok (st dest)" and "mpz_ok (st z)" and "dest \<noteq> Zk"
  shows "assigned dest {} (- mpz_val (st z) - 1) st (mpz_not_inpl dest z st)"
proof -
  define st1 where "st1 = (if dest \<noteq> z then mpz_set dest z st else st)"
  have st1: "assigned dest {} (mpz_val (st z)) st st1"
    using mpz_set_assigned(1) [OF assms(1,2)] assms by (auto simp: st1_def assigned_def)
  then have ok: "mpz_ok (st1 dest)" and val: "mpz_val (st1 dest) = mpz_val (st z)" by (simp_all add: assigned_def)
  note zero = mpz_mag_zero [OF ok]
  have "assigned dest {} (- mpz_val (st1 dest) - 1) st1 (mpz_not_inpl dest z st)"
  proof (cases "mpz_len (st1 dest) = 0")
    case True
    let ?d = "mpz_need_dig 1 (st1 dest)"
    obtain x y ds where "mpz_dig ?d = x # y # ds"
      using need_dig(6) [OF ok, of 1] by (metis Suc_le_length_iff numeral_2_eq_2)
    moreover have "mpz_alloc ?d = length (mpz_dig ?d)" "digits (mpz_dig ?d)"
      using need_dig(1) [OF ok, of 1] by (auto simp: mpz_ok_def normal_def)
    ultimately show ?thesis
      using True zero by (simp add: mpz_not_inpl_def assigned_def mpz_ok_def normal_def mpz_val_def mpz_mag_def tc_def flip: st1_def)
  next
    case False
    then have pos: "0 < mpz_mag (st1 dest)" using zero by simp
    show ?thesis
    proof (cases "mpz_neg (st1 dest)")
      case True
      have "tc False (mpz_mag (st1 dest) - 1) = - mpz_val (st1 dest) - 1" using True pos by (simp add: mpz_val_def tc_def of_nat_diff)
      then show ?thesis
        using step_down [where st = st1 and d = dest and neg = False, OF ok _ assms(3)] False True by (simp add: mpz_not_inpl_def flip: st1_def)
    next
      case neg: False
      define st2 where "st2 = st1(dest := mpz_need_dig (mpz_len (st1 dest) + 1) (st1 dest))"
      note g = grow [OF ok st2_def]
      have "tc True (mpz_mag (st2 dest) + 1) = - mpz_val (st1 dest) - 1" using neg g(1) by (simp add: mpz_val_def tc_def)
      moreover have "assigned dest {} (tc True (mpz_mag (st2 dest) + 1)) st2
          (put_result dest (mpn_add dest dest (mpz_len (st2 dest)) Zk 1 ((digs st2)(Zk := [1]))) True st2)"
        using g(3,5,9) False assms(3) by (intro step_up) simp_all
      ultimately show ?thesis
        using False neg g(3) by (simp add: mpz_not_inpl_def assigned_def Let_def flip: st1_def st2_def) (simp add: st2_def)
    qed
  qed
  then show ?thesis using val st1 by (simp add: assigned_def)
qed

lemma mpz_shl_assigned:
  assumes "mpz_ok (st dest)" and "mpz_ok (st lhs)"
  shows "assigned dest {} (mpz_val (st lhs) * 2 ^ rhs) st (mpz_shl_inpl dest lhs rhs st)"
proof (cases "mpz_len (st lhs) = 0 \<or> rhs = 0")
  case True
  then have "mpz_val (st lhs) * 2 ^ rhs = mpz_val (st lhs)"
    using mpz_mag_zero [OF assms(2)] by (auto simp: mpz_val_def)
  then show ?thesis using True mpz_set_assigned(1) [OF assms] by (auto simp: mpz_shl_inpl_def)
next
  case False
  define st1 where "st1 = st(dest := mpz_need_dig (mpz_len (st lhs) + (rhs + DIG_SIZE - 1) div DIG_SIZE) (st dest))"
  note g = grow [OF assms(1) st1_def]
  note op = operand [of st1 lhs, OF g(4) [OF assms(2)]]
  have pos: "0 < mpz_len (st1 lhs)" "0 < rhs" and room: "mpz_len (st1 lhs) + (rhs + DIG_SIZE - 1) div DIG_SIZE \<le> length (digs st1 dest)"
    using False g(3,5) by (simp_all add: digs_def)
  obtain n m' where shl: "mpn_shl dest lhs (mpz_len (st1 lhs)) rhs (digs st1) = (n, m')"
    and s: "stored dest (dval (take (mpz_len (st1 lhs)) (digs st1 lhs)) * 2 ^ rhs) n (digs st1) m'"
    by (rule mpn_shl_stored [where m = "digs st1" and i = dest and j = lhs, OF op(1) pos operand(3) [of st1 dest, OF g(9)] room])
  have "mpz_shl_inpl dest lhs rhs st = put_result dest (n, m') (mpz_neg (st lhs)) st1"
    by (simp only: mpz_shl_inpl_def Let_def if_not_P [OF False] st1_def [symmetric] g(2) shl)
  moreover have "tc (mpz_neg (st lhs)) (mpz_mag (st lhs) * 2 ^ rhs) = mpz_val (st lhs) * 2 ^ rhs" by (simp add: mpz_val_def tc_def)
  ultimately show ?thesis
    using put_result_assigned [where neg = "mpz_neg (st lhs)", OF s refl g(9)] op(2) g(1) assigned_trans g(8) by simp
qed

lemma dval_zero_iff: "dval ds = 0 \<longleftrightarrow> (\<forall>d \<in> set ds. d = 0)"
  by (induction ds) auto

lemma low_digits:
  assumes "k \<le> length ds"
  shows "(\<exists>i \<in> set [0..<k]. ds ! i \<noteq> 0) \<longleftrightarrow> dval (take k ds) \<noteq> 0"
  unfolding dval_zero_iff nth_image [OF assms, symmetric] by simp

lemma shr_round_up_iff:
  assumes "mpz_ok z"
  shows "shr_round_up z n \<longleftrightarrow> mpz_mag z mod 2 ^ n \<noteq> 0"
proof -
  let ?w = "n div DIG_SIZE" and ?p = "n mod DIG_SIZE" and ?l = "mpz_len z" and ?ds = "mpz_dig z"
  have l: "?l \<le> length ?ds" "digits ?ds" using assms by (auto simp: mpz_ok_def normal_def)
  have pow: "(2 :: nat) ^ n = DIG_BASE ^ ?w * 2 ^ ?p" by (rule two_power_digits) simp
  have low: "(\<exists>i \<in> set [0..<min ?l ?w]. ?ds ! i \<noteq> 0) \<longleftrightarrow> dval (take (min ?l ?w) ?ds) \<noteq> 0"
    using l(1) by (intro low_digits) simp
  have mask: "d AND (2 ^ ?p - 1) = d mod 2 ^ ?p" for d :: nat
    by (metis take_bit_eq_mask take_bit_eq_mod mask_eq_exp_minus_1)
  show ?thesis
  proof (cases "?w < ?l")
    case True
    have "mpz_mag z = dval (take ?w ?ds) + DIG_BASE ^ ?w * dval (dig_slice ?ds ?w (?l - ?w))"
      using dval_take_slice [of ?w ?l ?ds] True l(1) by (simp add: mpz_mag_def)
    also have "dval (dig_slice ?ds ?w (?l - ?w)) = ?ds ! ?w + DIG_BASE * dval (dig_slice ?ds (Suc ?w) (?l - Suc ?w))"
      using True l(1) slice_Suc [of ?w ?ds "?l - Suc ?w"] by (simp add: Suc_diff_Suc)
    finally have mag: "mpz_mag z = dval (take ?w ?ds) + DIG_BASE ^ ?w * (?ds ! ?w + DIG_BASE * dval (dig_slice ?ds (Suc ?w) (?l - Suc ?w)))" .
    have B: "DIG_BASE = 2 ^ ?p * 2 ^ (DIG_SIZE - ?p)" by (rule DIG_BASE_split) simp
    have "(d + DIG_BASE * v) mod 2 ^ ?p = d mod 2 ^ ?p" for d v :: nat
      by (subst B) (simp only: mult.assoc mod_mult_self2)
    then have "(?ds ! ?w + DIG_BASE * dval (dig_slice ?ds (Suc ?w) (?l - Suc ?w))) mod 2 ^ ?p = ?ds ! ?w mod 2 ^ ?p" .
    moreover have "dval (take ?w ?ds) < DIG_BASE ^ ?w" using dval_less [of "take ?w ?ds"] l True by (simp add: digits_take)
    ultimately have "mpz_mag z mod 2 ^ n = dval (take ?w ?ds) + DIG_BASE ^ ?w * (?ds ! ?w mod 2 ^ ?p)"
      unfolding pow mag by (simp add: mod_mult2_eq)
    then show ?thesis using True low by (simp add: shr_round_up_def Let_def mask [unfolded One_nat_def] min_absorb2)
  next
    case False
    have "mpz_mag z < DIG_BASE ^ ?l" using normal_less assms by (simp add: mpz_mag_def mpz_ok_def)
    also have "\<dots> \<le> DIG_BASE ^ ?w * 2 ^ ?p" using False
      by (metis DIG_BASE_pos(5) mult.right_neutral mult_le_mono not_less one_le_numeral one_le_power power_increasing One_nat_def)
    finally have "mpz_mag z mod 2 ^ n = mpz_mag z" unfolding pow by simp
    then show ?thesis using False low by (simp add: shr_round_up_def Let_def min_absorb1 mpz_mag_def)
  qed
qed

lemma floor_shift: "tc True v div 2 ^ n = tc True (v div 2 ^ n + of_bool (v mod 2 ^ n \<noteq> 0))"
proof -
  have "tc True v div 2 ^ n = (- int v) div int (2 ^ n)" by (simp add: tc_def)
  also have "\<dots> = (if int v mod int (2 ^ n) = 0 then - (int v div int (2 ^ n)) else - (int v div int (2 ^ n)) - 1)"
    by (rule zdiv_zminus1_eq_if) simp
  also have "\<dots> = tc True (v div 2 ^ n + of_bool (v mod 2 ^ n \<noteq> 0))"
    unfolding zdiv_int [symmetric] zmod_int [symmetric] by (simp add: tc_def)
  finally show ?thesis .
qed

lemma halved_room:
  assumes "v < DIG_BASE ^ l" and "0 < l" and "0 < n"
  shows "v div 2 ^ n + 1 < DIG_BASE ^ l"
proof -
  have "v div 2 ^ n \<le> v div 2" using assms(3) by (intro div_le_mono2) (simp_all add: self_le_power)
  moreover have "4 \<le> DIG_BASE ^ l"
    using self_le_power [of DIG_BASE l] assms(2) by (simp add: DIG_BASE_def)
  ultimately show ?thesis using assms(1) by linarith
qed

text \<open>The shifted magnitude, before it is rounded.\<close>

lemma shr_magnitude:
  assumes "mpz_ok (st dest)" and "mpz_ok (st lhs)" and "st1 = st(dest := mpz_need_dig (mpz_len (st lhs)) (st dest))"
    and "st2 = put_result dest (mpn_shr dest lhs (mpz_len (st1 lhs)) rhs (digs st1)) (mpz_neg (st1 lhs)) st1"
  shows "assigned dest {} (tc (mpz_neg (st lhs)) (mpz_mag (st lhs) div 2 ^ rhs)) st st2" and "mpz_neg (st2 dest) = mpz_neg (st lhs)"
    and "mpz_mag (st2 dest) = mpz_mag (st lhs) div 2 ^ rhs" and "mpz_len (st2 dest) \<le> mpz_len (st lhs)"
    and "mpz_len (st lhs) \<le> length (mpz_dig (st2 dest))" and "2 \<le> length (mpz_dig (st2 dest))"
proof -
  note g = grow [OF assms(1,3)]
  note op = operand [of st1 lhs, OF g(4) [OF assms(2)]]
  have room: "mpz_len (st1 lhs) \<le> length (digs st1 dest)" using g(3,5) by (simp add: digs_def)
  obtain n m' where shr: "mpn_shr dest lhs (mpz_len (st1 lhs)) rhs (digs st1) = (n, m')" and n: "n \<le> mpz_len (st1 lhs)"
    and s: "stored dest (dval (take (mpz_len (st1 lhs)) (digs st1 lhs)) div 2 ^ rhs) n (digs st1) m'"
    by (rule mpn_shr_stored [where m = "digs st1" and i = dest and j = lhs, OF op(1) operand(3) [of st1 dest, OF g(9)] room])
  have st2: "st2 = put_result dest (n, m') (mpz_neg (st lhs)) st1" by (simp only: assms(4) shr g(2))
  show "assigned dest {} (tc (mpz_neg (st lhs)) (mpz_mag (st lhs) div 2 ^ rhs)) st st2"
    using put_result_assigned [where neg = "mpz_neg (st lhs)", OF s refl g(9)] op(2) g(1) assigned_trans g(8) by (simp add: st2)
  show "mpz_neg (st2 dest) = mpz_neg (st lhs)" "mpz_len (st2 dest) \<le> mpz_len (st lhs)"
    using n g(3) by (simp_all add: st2 put_result_def)
  show "mpz_mag (st2 dest) = mpz_mag (st lhs) div 2 ^ rhs"
    using s op(2) g(1) by (simp add: st2 put_result_def mpz_mag_def stored_def)
  show "mpz_len (st lhs) \<le> length (mpz_dig (st2 dest))" "2 \<le> length (mpz_dig (st2 dest))"
    using s g(5,7) by (simp_all add: st2 put_result_def stored_def digs_def)
qed

lemma mpz_shr_assigned:
  assumes "mpz_ok (st dest)" and "mpz_ok (st lhs)" and "mpz_neg (st lhs) \<longrightarrow> dest \<noteq> lhs" and "dest \<noteq> Zk"
  shows "assigned dest {} (mpz_val (st lhs) div 2 ^ rhs) st (mpz_shr_inpl dest lhs rhs st)"
proof (cases "mpz_len (st lhs) = 0 \<or> rhs = 0")
  case True
  then have "mpz_val (st lhs) div 2 ^ rhs = mpz_val (st lhs)"
    using mpz_mag_zero [OF assms(2)] by (auto simp: mpz_val_def)
  then show ?thesis using True mpz_set_assigned(1) [OF assms(1,2)] by (auto simp: mpz_shr_inpl_def)
next
  case False
  define st1 where "st1 = st(dest := mpz_need_dig (mpz_len (st lhs)) (st dest))"
  define st2 where "st2 = put_result dest (mpn_shr dest lhs (mpz_len (st1 lhs)) rhs (digs st1)) (mpz_neg (st1 lhs)) st1"
  note sh = shr_magnitude [OF assms(1,2) st1_def st2_def]
  have ok2: "mpz_ok (st2 dest)" and frame: "\<forall>z. z \<noteq> dest \<and> z \<notin> {} \<longrightarrow> st2 z = st z" using sh(1) by (simp_all add: assigned_def)
  have eq: "mpz_shr_inpl dest lhs rhs st =
      (if mpz_neg (st2 dest) \<and> shr_round_up (st2 lhs) rhs
       then if mpz_len (st2 dest) = 0
            then st2(dest := (st2 dest)\<lparr>mpz_dig := (mpz_dig (st2 dest))[0 := 1], mpz_len := 1\<rparr>)
            else put_result dest (mpn_add dest dest (mpz_len (st2 dest)) Zk 1 ((digs st2)(Zk := [1]))) True st2
       else st2)"
    by (simp only: mpz_shr_inpl_def Let_def if_not_P [OF False] st1_def [symmetric] st2_def [symmetric])
  show ?thesis
  proof (cases "mpz_neg (st lhs)")
    case pos: False
    then have "tc False (mpz_mag (st lhs) div 2 ^ rhs) = mpz_val (st lhs) div 2 ^ rhs"
      by (simp add: mpz_val_def tc_def zdiv_int)
    then show ?thesis using sh(1,2) pos by (simp add: eq)
  next
    case neg: True
    then have "st2 lhs = st lhs" using frame assms(3) by auto
    then have round: "shr_round_up (st2 lhs) rhs \<longleftrightarrow> mpz_mag (st lhs) mod 2 ^ rhs \<noteq> 0" using shr_round_up_iff [OF assms(2)] by simp
    have val: "mpz_val (st lhs) div 2 ^ rhs = tc True (mpz_mag (st2 dest) + of_bool (mpz_mag (st lhs) mod 2 ^ rhs \<noteq> 0))"
      using neg sh(3) by (simp add: mpz_val_def floor_shift)
    show ?thesis
    proof (cases "mpz_mag (st lhs) mod 2 ^ rhs = 0")
      case True
      then show ?thesis using sh(1,3) val round neg by (simp add: eq)
    next
      case up: False
      show ?thesis
      proof (cases "mpz_len (st2 dest) = 0")
        case True
        obtain x y ds where "mpz_dig (st2 dest) = x # y # ds" using sh(6) by (metis Suc_le_length_iff numeral_2_eq_2)
        then show ?thesis
          using True up round neg sh(2) val frame ok2 mpz_mag_zero [OF ok2]
          by (simp add: eq assigned_def mpz_ok_def normal_def mpz_val_def mpz_mag_def)
      next
        case len: False
        have "0 < mpz_len (st lhs)" "0 < rhs" using False by simp_all
        then have room: "mpz_mag (st2 dest) + 1 < DIG_BASE ^ mpz_len (st lhs)"
          unfolding sh(3) using assms(2) by (intro halved_room) (auto simp: mpz_mag_def mpz_ok_def normal_less)
        have "mpz_len (st2 dest) < length (mpz_dig (st2 dest)) \<or> mpz_len (st2 dest) = mpz_len (st lhs)" using sh(4,5) by linarith
        then have "assigned dest {} (tc True (mpz_mag (st2 dest) + 1)) st2
            (put_result dest (mpn_add dest dest (mpz_len (st2 dest)) Zk 1 ((digs st2)(Zk := [1]))) True st2)"
          using len room by (intro step_up ok2 assms(4)) auto
        then show ?thesis using len up round neg sh(2) val assigned_trans [OF _ frame] by (simp add: eq)
      qed
    qed
  qed
qed

section \<open>Bitwise operations\<close>

text \<open>
  The operations put the operand with more digits first; the routines they call are correct for
  operands in that order, and the operations on integers commute.
\<close>

lemma bitwise_assigned:
  assumes "mpz_ok (st dest)" and "mpz_ok (st l)" and "mpz_ok (st r)" and "mpz_len (st r) \<le> mpz_len (st l)"
    and "n \<ge> mpz_len (st l)" and "st1 = st(dest := mpz_need_dig n (st dest))"
    and routine: "\<And>m. normal (m l) (mpz_len (st l)) \<Longrightarrow> normal (m r) (mpz_len (st r)) \<Longrightarrow> digits (m dest) \<Longrightarrow> n \<le> length (m dest) \<Longrightarrow>
      dval (take (mpz_len (st l)) (m l)) = mpz_mag (st l) \<Longrightarrow> dval (take (mpz_len (st r)) (m r)) = mpz_mag (st r) \<Longrightarrow>
      \<exists>k m'. f m = (k, m') \<and> stored dest (nat \<bar>v\<bar>) k m m' \<and> tc neg (nat \<bar>v\<bar>) = v"
  shows "assigned dest {} v st (put_result dest (f (digs st1)) neg st1)"
proof -
  note g = grow [OF assms(1,6)]
  note ol = operand [of st1 l, OF g(4) [OF assms(2)], unfolded g(1,3)]
  note or = operand [of st1 r, OF g(4) [OF assms(3)], unfolded g(1,3)]
  note od = operand(3) [of st1 dest, OF g(9)]
  have "n \<le> length (digs st1 dest)" using g(5) by (simp add: digs_def)
  from routine [of "digs st1", OF ol(1) or(1) od this ol(2) or(2)]
  obtain k m' where f: "f (digs st1) = (k, m')" and s: "stored dest (nat \<bar>v\<bar>) k (digs st1) m'" and v: "tc neg (nat \<bar>v\<bar>) = v" by blast
  from put_result_assigned [where neg = neg, OF s refl g(9)] have "assigned dest {} v st1 (put_result dest (f (digs st1)) neg st1)"
    by (simp add: f v)
  then show ?thesis by (rule assigned_trans) (simp add: g(8))
qed

lemma mpz_and_ordered:
  assumes "mpz_ok (st dest)" and "mpz_ok (st l)" and "mpz_ok (st r)" and "mpz_len (st r) \<le> mpz_len (st l)" and "mpz_len (st l) < 2 ^ 64"
    and "mpz_plain (st l)" and "mpz_plain (st r)" and "n \<ge> mpz_len (st l) + of_bool (mpz_neg (st l) \<or> mpz_neg (st r))"
    and "st1 = st(dest := mpz_need_dig n (st dest))"
  shows "assigned dest {} (mpz_val (st l) AND mpz_val (st r)) st
    (put_result dest
      (mpn_and_neg dest l (mpz_len (st l)) r (mpz_len (st r)) (of_bool (mpz_neg (st l) \<and> mpz_neg (st r)))
        (of_bool (mpz_neg (st l))) (of_bool (mpz_neg (st r))) (digs st1)) (mpz_neg (st l) \<and> mpz_neg (st r)) st1)"
proof (rule bitwise_assigned [where f = "mpn_and_neg dest l (mpz_len (st l)) r (mpz_len (st r)) (of_bool (mpz_neg (st l) \<and> mpz_neg (st r)))
        (of_bool (mpz_neg (st l))) (of_bool (mpz_neg (st r)))", OF assms(1-4) _ assms(9)])
  fix m :: "zref bufs"
  assume a: "normal (m l) (mpz_len (st l))" "normal (m r) (mpz_len (st r))" "digits (m dest)" "n \<le> length (m dest)"
    "dval (take (mpz_len (st l)) (m l)) = mpz_mag (st l)" "dval (take (mpz_len (st r)) (m r)) = mpz_mag (st r)"
  have b: "mpz_len (st l) \<le> length (m dest)" "mpz_neg (st l) \<and> mpz_neg (st r) \<longrightarrow> mpz_len (st l) < length (m dest)"
    "mpz_neg (st l) \<longrightarrow> 0 < mpz_len (st l)" "mpz_neg (st r) \<longrightarrow> 0 < mpz_len (st r)"
    using a(4) assms(6-8) by (auto simp: mpz_plain_def)
  show "\<exists>k m'. mpn_and_neg dest l (mpz_len (st l)) r (mpz_len (st r)) (of_bool (mpz_neg (st l) \<and> mpz_neg (st r)))
        (of_bool (mpz_neg (st l))) (of_bool (mpz_neg (st r))) m = (k, m') \<and>
      stored dest (nat \<bar>mpz_val (st l) AND mpz_val (st r)\<bar>) k m m' \<and>
      tc (mpz_neg (st l) \<and> mpz_neg (st r)) (nat \<bar>mpz_val (st l) AND mpz_val (st r)\<bar>) = mpz_val (st l) AND mpz_val (st r)"
    by (rule mpn_and_neg_stored [where m = m and i = dest and j = l and k = r and jneg = "mpz_neg (st l)" and kneg = "mpz_neg (st r)",
          OF a(1,2) assms(4,5) a(3) b refl]) (auto simp: mpz_val_def a(5,6))
qed (use assms(8) in auto)

lemma mpz_and_assigned:
  assumes "mpz_ok (st dest)" and "mpz_ok (st lhs)" and "mpz_ok (st rhs)" and "mpz_plain (st lhs)" and "mpz_plain (st rhs)"
    and "mpz_len (st lhs) < 2 ^ 64" and "mpz_len (st rhs) < 2 ^ 64"
  shows "assigned dest {} (mpz_val (st lhs) AND mpz_val (st rhs)) st (mpz_and_inpl dest lhs rhs st)"
proof -
  note g = grow [where st = st and d = dest, OF assms(1) refl]
  have bit: "(if ln = rn then of_bool ln else 0) = (of_bool (ln \<and> rn) :: nat)" for ln rn by simp
  show ?thesis
  proof (cases "mpz_len (st lhs) < mpz_len (st rhs)")
    case True
    show ?thesis
      using mpz_and_ordered [OF assms(1,3,2) less_imp_le [OF True] assms(7,5,4) order_refl refl]
      by (simp only: mpz_and_inpl_def Let_def if_P [OF True] prod.case bit g(3) and.commute)
  next
    case False
    then have "mpz_len (st rhs) \<le> mpz_len (st lhs)" by simp
    from mpz_and_ordered [OF assms(1-3) this assms(6,4,5) order_refl refl]
    show ?thesis by (simp only: mpz_and_inpl_def Let_def if_not_P [OF False] prod.case bit g(3))
  qed
qed

lemma mpz_or_ordered:
  assumes "mpz_ok (st dest)" and "mpz_ok (st l)" and "mpz_ok (st r)" and "mpz_len (st r) \<le> mpz_len (st l)" and "mpz_len (st l) < 2 ^ 64"
    and "mpz_plain (st l)" and "mpz_plain (st r)" and "n \<ge> mpz_len (st l) + of_bool (mpz_neg (st l) \<or> mpz_neg (st r))"
    and "st1 = st(dest := mpz_need_dig n (st dest))"
  shows "assigned dest {} (mpz_val (st l) OR mpz_val (st r)) st
    (put_result dest
      (mpn_or_neg dest l (mpz_len (st l)) r (mpz_len (st r)) (of_bool (mpz_neg (st l) \<or> mpz_neg (st r)))
        (of_bool (mpz_neg (st l))) (of_bool (mpz_neg (st r))) (digs st1)) (mpz_neg (st l) \<or> mpz_neg (st r)) st1)"
proof (rule bitwise_assigned [where f = "mpn_or_neg dest l (mpz_len (st l)) r (mpz_len (st r)) (of_bool (mpz_neg (st l) \<or> mpz_neg (st r)))
        (of_bool (mpz_neg (st l))) (of_bool (mpz_neg (st r)))", OF assms(1-4) _ assms(9)])
  fix m :: "zref bufs"
  assume a: "normal (m l) (mpz_len (st l))" "normal (m r) (mpz_len (st r))" "digits (m dest)" "n \<le> length (m dest)"
    "dval (take (mpz_len (st l)) (m l)) = mpz_mag (st l)" "dval (take (mpz_len (st r)) (m r)) = mpz_mag (st r)"
  have b: "mpz_len (st l) \<le> length (m dest)"
    "mpz_neg (st l) \<longrightarrow> 0 < mpz_len (st l)" "mpz_neg (st r) \<longrightarrow> 0 < mpz_len (st r)"
    using a(4) assms(6-8) by (auto simp: mpz_plain_def)
  show "\<exists>k m'. mpn_or_neg dest l (mpz_len (st l)) r (mpz_len (st r)) (of_bool (mpz_neg (st l) \<or> mpz_neg (st r)))
        (of_bool (mpz_neg (st l))) (of_bool (mpz_neg (st r))) m = (k, m') \<and>
      stored dest (nat \<bar>mpz_val (st l) OR mpz_val (st r)\<bar>) k m m' \<and>
      tc (mpz_neg (st l) \<or> mpz_neg (st r)) (nat \<bar>mpz_val (st l) OR mpz_val (st r)\<bar>) = mpz_val (st l) OR mpz_val (st r)"
    by (rule mpn_or_neg_stored [where m = m and i = dest and j = l and k = r and jneg = "mpz_neg (st l)" and kneg = "mpz_neg (st r)",
          OF a(1,2) assms(4,5) a(3) b refl]) (auto simp: mpz_val_def a(5,6))
qed (use assms(8) in auto)

lemma mpz_or_assigned:
  assumes "mpz_ok (st dest)" and "mpz_ok (st lhs)" and "mpz_ok (st rhs)" and "mpz_plain (st lhs)" and "mpz_plain (st rhs)"
    and "mpz_len (st lhs) < 2 ^ 64" and "mpz_len (st rhs) < 2 ^ 64"
  shows "assigned dest {} (mpz_val (st lhs) OR mpz_val (st rhs)) st (mpz_or_inpl dest lhs rhs st)"
proof -
  note g = grow [where st = st and d = dest, OF assms(1) refl]
  show ?thesis
  proof (cases "mpz_len (st lhs) < mpz_len (st rhs)")
    case True
    show ?thesis
      using mpz_or_ordered [OF assms(1,3,2) less_imp_le [OF True] assms(7,5,4) order_refl refl]
      by (simp only: mpz_or_inpl_def Let_def if_P [OF True] prod.case g(3) or.commute)
  next
    case False
    then have "mpz_len (st rhs) \<le> mpz_len (st lhs)" by simp
    from mpz_or_ordered [OF assms(1-3) this assms(6,4,5) order_refl refl]
    show ?thesis by (simp only: mpz_or_inpl_def Let_def if_not_P [OF False] prod.case g(3))
  qed
qed

lemma mpz_xor_ordered:
  assumes "mpz_ok (st dest)" and "mpz_ok (st l)" and "mpz_ok (st r)" and "mpz_len (st r) \<le> mpz_len (st l)" and "mpz_len (st l) < 2 ^ 64"
    and "mpz_plain (st l)" and "mpz_plain (st r)" and "n \<ge> mpz_len (st l) + of_bool (mpz_neg (st l) \<noteq> mpz_neg (st r))"
    and "st1 = st(dest := mpz_need_dig n (st dest))"
  shows "assigned dest {} (mpz_val (st l) XOR mpz_val (st r)) st
    (put_result dest
      (mpn_xor_neg dest l (mpz_len (st l)) r (mpz_len (st r)) (of_bool (mpz_neg (st l) \<noteq> mpz_neg (st r)))
        (of_bool (\<not> mpz_neg (st l))) (of_bool (\<not> mpz_neg (st r))) (digs st1)) (mpz_neg (st l) \<noteq> mpz_neg (st r)) st1)"
proof (rule bitwise_assigned [where f = "mpn_xor_neg dest l (mpz_len (st l)) r (mpz_len (st r)) (of_bool (mpz_neg (st l) \<noteq> mpz_neg (st r)))
        (of_bool (\<not> mpz_neg (st l))) (of_bool (\<not> mpz_neg (st r)))", OF assms(1-4) _ assms(9)])
  fix m :: "zref bufs"
  assume a: "normal (m l) (mpz_len (st l))" "normal (m r) (mpz_len (st r))" "digits (m dest)" "n \<le> length (m dest)"
    "dval (take (mpz_len (st l)) (m l)) = mpz_mag (st l)" "dval (take (mpz_len (st r)) (m r)) = mpz_mag (st r)"
  have b: "mpz_len (st l) \<le> length (m dest)" "mpz_neg (st l) \<noteq> mpz_neg (st r) \<longrightarrow> mpz_len (st l) < length (m dest)"
    "mpz_neg (st l) \<longrightarrow> 0 < mpz_len (st l)" "mpz_neg (st r) \<longrightarrow> 0 < mpz_len (st r)"
    using a(4) assms(6-8) by (auto simp: mpz_plain_def)
  show "\<exists>k m'. mpn_xor_neg dest l (mpz_len (st l)) r (mpz_len (st r)) (of_bool (mpz_neg (st l) \<noteq> mpz_neg (st r)))
        (of_bool (\<not> mpz_neg (st l))) (of_bool (\<not> mpz_neg (st r))) m = (k, m') \<and>
      stored dest (nat \<bar>mpz_val (st l) XOR mpz_val (st r)\<bar>) k m m' \<and>
      tc (mpz_neg (st l) \<noteq> mpz_neg (st r)) (nat \<bar>mpz_val (st l) XOR mpz_val (st r)\<bar>) = mpz_val (st l) XOR mpz_val (st r)"
    by (rule mpn_xor_neg_stored [where m = m and i = dest and j = l and k = r and jneg = "mpz_neg (st l)" and kneg = "mpz_neg (st r)",
          OF a(1,2) assms(4,5) a(3) b refl]) (auto simp: mpz_val_def a(5,6))
qed (use assms(8) in auto)

lemma mpz_xor_assigned:
  assumes "mpz_ok (st dest)" and "mpz_ok (st lhs)" and "mpz_ok (st rhs)" and "mpz_plain (st lhs)" and "mpz_plain (st rhs)"
    and "mpz_len (st lhs) < 2 ^ 64" and "mpz_len (st rhs) < 2 ^ 64"
  shows "assigned dest {} (mpz_val (st lhs) XOR mpz_val (st rhs)) st (mpz_xor_inpl dest lhs rhs st)"
proof -
  note g = grow [where st = st and d = dest, OF assms(1) refl]
  have room: "a + of_bool (ln \<noteq> rn) \<le> a + of_bool (ln \<or> rn)" for a :: nat and ln rn by simp
  show ?thesis
  proof (cases "mpz_len (st lhs) < mpz_len (st rhs)")
    case True
    show ?thesis
      using mpz_xor_ordered [OF assms(1,3,2) less_imp_le [OF True] assms(7,5,4) room refl]
      by (simp only: mpz_xor_inpl_def Let_def if_P [OF True] prod.case g(3) xor.commute)
  next
    case False
    then have "mpz_len (st rhs) \<le> mpz_len (st lhs)" by simp
    from mpz_xor_ordered [OF assms(1-3) this assms(6,4,5) room refl]
    show ?thesis by (simp only: mpz_xor_inpl_def Let_def if_not_P [OF False] prod.case g(3))
  qed
qed

section \<open>The optimised bitwise operations\<close>

text \<open>Non-negative operands take the short routines.\<close>

lemma mpz_bitwise_positive:
  assumes "mpz_ok (st dest)" and "mpz_ok (st l)" and "mpz_ok (st r)" and "mpz_len (st r) \<le> mpz_len (st l)"
    and "\<not> mpz_neg (st l)" and "\<not> mpz_neg (st r)" and st1: "st1 = st(dest := mpz_need_dig (mpz_len (st l)) (st dest))"
  shows "assigned dest {} (mpz_val (st l) AND mpz_val (st r)) st (put_result dest (mpn_and dest l r (mpz_len (st r)) (digs st1)) False st1)"
    and "assigned dest {} (mpz_val (st l) OR mpz_val (st r)) st
      (put_result dest (mpn_or dest l (mpz_len (st l)) r (mpz_len (st r)) (digs st1)) False st1)"
    and "assigned dest {} (mpz_val (st l) XOR mpz_val (st r)) st
      (put_result dest (mpn_xor dest l (mpz_len (st l)) r (mpz_len (st r)) (digs st1)) False st1)"
proof -
  let ?l = "mpz_len (st l)" and ?r = "mpz_len (st r)"
  have v: "mpz_val (st l) = int (mpz_mag (st l))" "mpz_val (st r) = int (mpz_mag (st r))"
    using assms(5,6) by (simp_all add: mpz_val_def tc_def)
  note b = bitwise_assigned [where st = st and dest = dest and l = l and r = r and n = ?l and neg = False, OF assms(1-4) order_refl st1]
  have tc: "nat \<bar>int k\<bar> = k" "tc False k = int k" for k by (simp_all add: tc_def)
  show "assigned dest {} (mpz_val (st l) AND mpz_val (st r)) st (put_result dest (mpn_and dest l r ?r (digs st1)) False st1)"
    by (rule b [where f = "mpn_and dest l r ?r"], rule mpn_and_stored [where i = dest and j = l and k = r, OF _ _ assms(4)])
      (assumption+, fastforce simp: v tc simp flip: of_nat_and_eq)
  show "assigned dest {} (mpz_val (st l) OR mpz_val (st r)) st (put_result dest (mpn_or dest l ?l r ?r (digs st1)) False st1)"
    by (rule b [where f = "mpn_or dest l ?l r ?r"], rule mpn_or_stored [where i = dest and j = l and k = r, OF _ _ assms(4)])
      (assumption+, fastforce simp: v tc simp flip: of_nat_or_eq)
  show "assigned dest {} (mpz_val (st l) XOR mpz_val (st r)) st (put_result dest (mpn_xor dest l ?l r ?r (digs st1)) False st1)"
    by (rule b [where f = "mpn_xor dest l ?l r ?r"], rule mpn_xor_stored [where i = dest and j = l and k = r, OF _ _ assms(4)])
      (assumption+, fastforce simp: v tc simp flip: of_nat_xor_eq)
qed

lemma mpz_and_opt_assigned:
  assumes "mpz_ok (st dest)" and "mpz_ok (st lhs)" and "mpz_ok (st rhs)" and "mpz_plain (st lhs)" and "mpz_plain (st rhs)"
    and "mpz_len (st lhs) < 2 ^ 64" and "mpz_len (st rhs) < 2 ^ 64"
  shows "assigned dest {} (mpz_val (st lhs) AND mpz_val (st rhs)) st (mpz_and_inpl_opt dest lhs rhs st)"
proof -
  note g = grow [where st = st and d = dest, OF assms(1) refl]
  have *: "assigned dest {} (mpz_val (st l) AND mpz_val (st r)) st
      (if \<not> mpz_neg (st l) \<and> \<not> mpz_neg (st r)
       then let st = st(dest := mpz_need_dig (mpz_len (st l)) (st dest))
            in put_result dest (mpn_and dest l r (mpz_len (st r)) (digs st)) False st
       else let st' = st(dest := mpz_need_dig (mpz_len (st l) + 1) (st dest))
            in put_result dest
                 (mpn_and_neg dest l (mpz_len (st' l)) r (mpz_len (st' r)) (of_bool (mpz_neg (st l) = mpz_neg (st r)))
                    (of_bool (mpz_neg (st l))) (of_bool (mpz_neg (st r))) (digs st')) (mpz_neg (st l) \<and> mpz_neg (st r)) st')"
    if a: "mpz_ok (st l)" "mpz_ok (st r)" "mpz_len (st r) \<le> mpz_len (st l)" "mpz_len (st l) < 2 ^ 64" "mpz_plain (st l)" "mpz_plain (st r)"
    for l r
  proof (cases "\<not> mpz_neg (st l) \<and> \<not> mpz_neg (st r)")
    case True
    show ?thesis unfolding Let_def if_P [OF True] g(3)
      by (rule mpz_bitwise_positive(1) [OF assms(1) a(1-3) _ _ refl]) (use True in auto)
  next
    case False
    then have bit: "(mpz_neg (st l) = mpz_neg (st r)) = (mpz_neg (st l) \<and> mpz_neg (st r))" by auto
    have "mpz_len (st l) + of_bool (mpz_neg (st l) \<or> mpz_neg (st r)) \<le> mpz_len (st l) + 1" by simp
    from mpz_and_ordered [OF assms(1) a this refl] show ?thesis
      by (simp only: Let_def if_not_P [OF False] g(3) bit)
  qed
  show ?thesis
  proof (cases "mpz_len (st lhs) < mpz_len (st rhs)")
    case True
    show ?thesis
      using *[OF assms(3,2) less_imp_le [OF True] assms(7,5,4)]
      by (simp only: mpz_and_inpl_opt_def Let_def if_P [OF True] prod.case and.commute)
  next
    case False
    then have "mpz_len (st rhs) \<le> mpz_len (st lhs)" by simp
    from *[OF assms(2,3) this assms(6,4,5)] show ?thesis
      by (simp only: mpz_and_inpl_opt_def Let_def if_not_P [OF False] prod.case)
  qed
qed

lemma mpz_or_opt_assigned:
  assumes "mpz_ok (st dest)" and "mpz_ok (st lhs)" and "mpz_ok (st rhs)" and "mpz_plain (st lhs)" and "mpz_plain (st rhs)"
    and "mpz_len (st lhs) < 2 ^ 64" and "mpz_len (st rhs) < 2 ^ 64"
  shows "assigned dest {} (mpz_val (st lhs) OR mpz_val (st rhs)) st (mpz_or_inpl_opt dest lhs rhs st)"
proof -
  note g = grow [where st = st and d = dest, OF assms(1) refl]
  have *: "assigned dest {} (mpz_val (st l) OR mpz_val (st r)) st
      (if \<not> mpz_neg (st l) \<and> \<not> mpz_neg (st r)
       then let st = st(dest := mpz_need_dig (mpz_len (st l)) (st dest))
            in put_result dest (mpn_or dest l (mpz_len (st l)) r (mpz_len (st r)) (digs st)) False st
       else let st' = st(dest := mpz_need_dig (mpz_len (st l) + 1) (st dest))
            in put_result dest
                 (mpn_or_neg_opt dest l (mpz_len (st' l)) r (mpz_len (st' r))
                    (of_bool (mpz_neg (st l))) (of_bool (mpz_neg (st r))) (digs st')) (True) st')"
    if a: "mpz_ok (st l)" "mpz_ok (st r)" "mpz_len (st r) \<le> mpz_len (st l)" "mpz_len (st l) < 2 ^ 64" "mpz_plain (st l)" "mpz_plain (st r)"
    for l r
  proof (cases "\<not> mpz_neg (st l) \<and> \<not> mpz_neg (st r)")
    case True
    show ?thesis unfolding Let_def if_P [OF True] g(3)
      by (rule mpz_bitwise_positive(2) [OF assms(1) a(1-3) _ _ refl]) (use True in auto)
  next
    case False
    then have bit: "(mpz_neg (st l) \<or> mpz_neg (st r)) = True" by auto
    have "mpz_len (st l) + of_bool (mpz_neg (st l) \<or> mpz_neg (st r)) \<le> mpz_len (st l) + 1" by simp
    from mpz_or_ordered [OF assms(1) a this refl] show ?thesis
      by (simp only: Let_def if_not_P [OF False] g(3) bit of_bool_eq(2) mpn_or_neg_opt_eq)
  qed
  show ?thesis
  proof (cases "mpz_len (st lhs) < mpz_len (st rhs)")
    case True
    show ?thesis
      using *[OF assms(3,2) less_imp_le [OF True] assms(7,5,4)]
      by (simp only: mpz_or_inpl_opt_def Let_def if_P [OF True] prod.case or.commute)
  next
    case False
    then have "mpz_len (st rhs) \<le> mpz_len (st lhs)" by simp
    from *[OF assms(2,3) this assms(6,4,5)] show ?thesis
      by (simp only: mpz_or_inpl_opt_def Let_def if_not_P [OF False] prod.case)
  qed
qed

lemma mpz_xor_opt_assigned:
  assumes "mpz_ok (st dest)" and "mpz_ok (st lhs)" and "mpz_ok (st rhs)" and "mpz_plain (st lhs)" and "mpz_plain (st rhs)"
    and "mpz_len (st lhs) < 2 ^ 64" and "mpz_len (st rhs) < 2 ^ 64"
  shows "assigned dest {} (mpz_val (st lhs) XOR mpz_val (st rhs)) st (mpz_xor_inpl_opt dest lhs rhs st)"
proof -
  note g = grow [where st = st and d = dest, OF assms(1) refl]
  have *: "assigned dest {} (mpz_val (st l) XOR mpz_val (st r)) st
      (if mpz_neg (st l) = mpz_neg (st r)
       then let st' = st(dest := mpz_need_dig (mpz_len (st l)) (st dest))
            in put_result dest
                 (if \<not> mpz_neg (st l) then mpn_xor dest l (mpz_len (st' l)) r (mpz_len (st' r)) (digs st')
                  else mpn_xor_neg dest l (mpz_len (st' l)) r (mpz_len (st' r)) 0 0 0 (digs st')) False st'
       else let st' = st(dest := mpz_need_dig (mpz_len (st l) + 1) (st dest))
            in put_result dest
                 (mpn_xor_neg dest l (mpz_len (st' l)) r (mpz_len (st' r)) 1
                    (of_bool (\<not> mpz_neg (st l))) (of_bool (\<not> mpz_neg (st r))) (digs st')) True st')"
    if a: "mpz_ok (st l)" "mpz_ok (st r)" "mpz_len (st r) \<le> mpz_len (st l)" "mpz_len (st l) < 2 ^ 64" "mpz_plain (st l)" "mpz_plain (st r)"
    for l r
  proof (cases "\<not> mpz_neg (st l) \<and> \<not> mpz_neg (st r)")
    case True
    then have eq: "mpz_neg (st l) = mpz_neg (st r)" and "\<not> mpz_neg (st l)" by auto
    then show ?thesis unfolding Let_def if_P [OF eq] if_P [OF \<open>\<not> mpz_neg (st l)\<close>] g(3)
      by (intro mpz_bitwise_positive(3) [OF assms(1) a(1-3) _ _ refl]) simp_all
  next
    case False
    show ?thesis
    proof (cases "mpz_neg (st l) = mpz_neg (st r)")
      case True
      then have n: "mpz_neg (st l) = True" "mpz_neg (st r) = True" using False by auto
      have "mpz_len (st l) + of_bool (mpz_neg (st l) \<noteq> mpz_neg (st r)) \<le> mpz_len (st l)" using True by simp
      from mpz_xor_ordered [OF assms(1) a this refl] show ?thesis by (simp add: Let_def g(3) n del: fun_upd_apply)
    next
      case neq: False
      then have bit: "(mpz_neg (st l) \<noteq> mpz_neg (st r)) = True" by simp
      have "mpz_len (st l) + of_bool (mpz_neg (st l) \<noteq> mpz_neg (st r)) \<le> mpz_len (st l) + 1" by simp
      from mpz_xor_ordered [OF assms(1) a this refl] show ?thesis
        by (simp only: Let_def if_not_P [OF neq] g(3) bit of_bool_eq(2))
    qed
  qed
  show ?thesis
  proof (cases "mpz_len (st lhs) < mpz_len (st rhs)")
    case True
    show ?thesis
      using *[OF assms(3,2) less_imp_le [OF True] assms(7,5,4)]
      by (simp only: mpz_xor_inpl_opt_def Let_def if_P [OF True] prod.case xor.commute)
  next
    case False
    then have "mpz_len (st rhs) \<le> mpz_len (st lhs)" by simp
    from *[OF assms(2,3) this assms(6,4,5)] show ?thesis
      by (simp only: mpz_xor_inpl_opt_def Let_def if_not_P [OF False] prod.case)
  qed
qed

end
