(* ===== verification/MpzMul.thy ===== *)
theory MpzMul
  imports MpzArith
begin

text \<open>
  Machine integers as multi-precision ones, products, floor division and powers.
\<close>

section \<open>Setting from a machine integer\<close>

lemma put_digits_stored:
  assumes "digits ds" and "l \<le> length ds" and "v < DIG_BASE ^ (length ds - l)" and "put_digits v l ds = (n, es)"
  shows "length es = length ds \<and> digits es \<and> n \<le> length ds \<and> l \<le> n \<and> take l es = take l ds \<and> (l < n \<longrightarrow> es ! (n - 1) \<noteq> 0) \<and>
    dval (take n es) = dval (take l ds) + DIG_BASE ^ l * v"
  using assms
proof (induction v l ds rule: put_digits.induct)
  case (1 v l ds)
  show ?case
  proof (cases "v = 0")
    case True
    then show ?thesis using "1.prems" by (simp add: put_digits.simps)
  next
    case False
    let ?ds = "ds[l := v mod DIG_BASE]"
    have l: "l < length ds" using False "1.prems"(2,3) by (cases "l = length ds") auto
    have "v div DIG_BASE < DIG_BASE ^ (length ds - Suc l)"
      using "1.prems"(3) l by (intro less_mult_imp_div_less) (simp add: Suc_diff_Suc flip: power_Suc2)
    moreover have "put_digits (v div DIG_BASE) (l + 1) ?ds = (n, es)" using False "1.prems"(4) by (subst (asm) put_digits.simps) simp
    ultimately have IH: "length es = length ds" "digits es" "n \<le> length ds" "Suc l \<le> n" "take (Suc l) es = take (Suc l) ?ds"
      "Suc l < n \<longrightarrow> es ! (n - 1) \<noteq> 0" "dval (take n es) = dval (take (Suc l) ?ds) + DIG_BASE ^ Suc l * (v div DIG_BASE)"
      using "1.IH" False "1.prems"(1) l by (auto simp: digits_update)
    have t: "take (Suc l) ?ds = take l ds @ [v mod DIG_BASE]" using l by (simp add: take_snoc)
    have "dval (take n es) = dval (take l ds) + DIG_BASE ^ l * (v mod DIG_BASE + DIG_BASE * (v div DIG_BASE))"
      unfolding IH(7) t dval_snoc distrib_left power_Suc2 mult.assoc using l by simp
    moreover have "take l es = take l ds" using arg_cong [OF IH(5), of "take l"] l by (simp add: t)
    moreover have "n = Suc l \<Longrightarrow> es ! (n - 1) \<noteq> 0"
    proof -
      assume n: "n = Suc l"
      have "dval (take n es) = dval (take l ds) + DIG_BASE ^ l * (es ! l)"
        using l IH(1) \<open>take l es = take l ds\<close> by (simp add: n take_snoc dval_snoc)
      then show ?thesis using \<open>dval (take n es) = dval (take l ds) + DIG_BASE ^ l * (v mod DIG_BASE + DIG_BASE * (v div DIG_BASE))\<close> False
        by (simp add: n)
    qed
    ultimately show ?thesis using IH by auto
  qed
qed

lemma set_from_uval:
  assumes "mpz_ok z" and "2 \<le> length (mpz_dig z)" and "v < 2 ^ 64"
  shows "mpz_ok (mpz_set_from_uval neg v z)" and "mpz_val (mpz_set_from_uval neg v z) = tc neg v"
    and "mpz_neg (mpz_set_from_uval neg v z) = neg"
proof -
  obtain n es where put: "put_digits v 0 (mpz_dig z) = (n, es)" by fastforce
  have "v < DIG_BASE ^ 2" using assms(3) by (simp add: DIG_BASE_def)
  also have "\<dots> \<le> DIG_BASE ^ length (mpz_dig z)" using assms(2) by (intro power_increasing) simp_all
  finally have "v < DIG_BASE ^ (length (mpz_dig z) - 0)" by simp
  from put_digits_stored [OF _ _ this put] assms(1)
  show "mpz_ok (mpz_set_from_uval neg v z)" "mpz_val (mpz_set_from_uval neg v z) = tc neg v" "mpz_neg (mpz_set_from_uval neg v z) = neg"
    by (auto simp: mpz_set_from_uval_def put mpz_ok_def normal_def mpz_val_def mpz_mag_def)
qed

lemma mpz_set_from_int_ok:
  assumes "mpz_ok z" and "- (2 ^ 63) \<le> v" and "v < 2 ^ 63"
  shows "mpz_ok (mpz_set_from_int v z)" and "mpz_val (mpz_set_from_int v z) = v"
proof -
  let ?z = "mpz_need_dig MPZ_NUM_DIG_FOR_INT z"
  note n = need_dig [OF assms(1), of MPZ_NUM_DIG_FOR_INT]
  have u: "to_u64 v < 2 ^ 64" "to_u64 (- v) < 2 ^ 64" "v < 0 \<Longrightarrow> int (to_u64 (- v)) = - v" "0 \<le> v \<Longrightarrow> int (to_u64 v) = v"
    using assms(2,3) by (auto simp: to_u64_def)
  note s = set_from_uval [OF n(1,6) u(1), of False] set_from_uval [OF n(1,6) u(2), of True]
  show "mpz_ok (mpz_set_from_int v z)" "mpz_val (mpz_set_from_int v z) = v"
    using s u(3,4) assms(1)
    by (auto simp: mpz_set_from_int_def Let_def tc_def mpz_ok_def normal_def mpz_val_def mpz_mag_def)
qed

lemma mpz_set_from_ll_ok:
  assumes "mpz_ok z" and "if is_signed then - (2 ^ 63) \<le> v \<and> v < 2 ^ 63 else 0 \<le> v \<and> v < 2 ^ 64"
  shows "mpz_ok (mpz_set_from_ll v is_signed z)" and "mpz_val (mpz_set_from_ll v is_signed z) = v"
proof -
  note n = need_dig [OF assms(1), of MPZ_NUM_DIG_FOR_INT]
  have u: "to_u64 v < 2 ^ 64" "to_u64 (- v) < 2 ^ 64" "is_signed \<Longrightarrow> v < 0 \<Longrightarrow> int (to_u64 (- v)) = - v" "0 \<le> v \<Longrightarrow> int (to_u64 v) = v"
    "\<not> is_signed \<Longrightarrow> 0 \<le> v"
    using assms(2) by (auto simp: to_u64_def split: if_splits)
  note s = set_from_uval [OF n(1,6) u(1), of False] set_from_uval [OF n(1,6) u(2), of True]
  show "mpz_ok (mpz_set_from_ll v is_signed z)" "mpz_val (mpz_set_from_ll v is_signed z) = v"
    using s u(3-5) by (auto simp: mpz_set_from_ll_def Let_def tc_def)
qed

section \<open>Products\<close>

lemma mpz_mul_distinct:
  assumes "mpz_ok (st dest)" and "mpz_ok (st l)" and "mpz_ok (st r)" and "dest \<noteq> l" and "dest \<noteq> r"
    and "0 < mpz_len (st l)" and "0 < mpz_len (st r)"
    and st1: "st1 = st(dest := mpz_need_dig (mpz_len (st l) + mpz_len (st r)) (st dest))"
    and st2: "st2 = st1(dest := (st1 dest)\<lparr>mpz_dig := replicate (mpz_alloc (st1 dest)) 0\<rparr>)"
  shows "assigned dest {} (mpz_val (st l) * mpz_val (st r)) st
    (put_result dest (mpn_mul dest l (mpz_len (st2 l)) r (mpz_len (st2 r)) (digs st2)) (mpz_neg (st2 l) \<noteq> mpz_neg (st2 r)) st2)"
proof -
  note g = grow [OF assms(1) st1]
  have alloc: "mpz_alloc (st1 dest) = length (mpz_dig (st1 dest))" using g(9) by (simp add: mpz_ok_def)
  have same: "st2 l = st l" "st2 r = st r" and frame: "\<forall>z. z \<noteq> dest \<and> z \<notin> {} \<longrightarrow> st2 z = st z"
    using assms(4,5) g(8) by (auto simp: st2)
  have buf: "digs st2 dest = replicate (length (digs st2 dest)) 0" "mpz_len (st2 l) + mpz_len (st2 r) \<le> length (digs st2 dest)"
    using g(5) alloc by (simp_all add: same, simp_all add: st2 digs_def)
  have ok: "mpz_ok (st2 l)" "mpz_ok (st2 r)" using assms(2,3) same by auto
  have pos: "0 < mpz_len (st2 l)" "0 < mpz_len (st2 r)" using assms(6,7) same by auto
  note ol = operand [of st2 l, OF ok(1)] and or = operand [of st2 r, OF ok(2)]
  obtain n m' where mul: "mpn_mul dest l (mpz_len (st2 l)) r (mpz_len (st2 r)) (digs st2) = (n, m')"
    and s: "stored dest (dval (take (mpz_len (st2 l)) (digs st2 l)) * dval (take (mpz_len (st2 r)) (digs st2 r))) n (digs st2) m'"
    by (rule mpn_mul_stored [where m = "digs st2" and i = dest and j = l and k = r, OF ol(1) or(1) pos assms(4,5) buf])
  define neg where "neg = (mpz_neg (st2 l) \<noteq> mpz_neg (st2 r))"
  have "tc neg (mpz_mag (st l) * mpz_mag (st r)) = mpz_val (st l) * mpz_val (st r)"
    by (simp add: neg_def same mpz_val_def tc_def)
  moreover have "assigned dest {} (tc neg (mpz_mag (st l) * mpz_mag (st r))) st2 (put_result dest (n, m') neg st2)"
    using s ol(2) or(2) alloc unfolding same
    by (auto simp: assigned_def put_result_def stored_def mpz_ok_def mpz_val_def mpz_mag_def digs_def st2)
  ultimately show ?thesis unfolding neg_def [symmetric] mul using assigned_trans [OF _ frame] by simp
qed

lemma mpz_mul_assigned:
  assumes "mpz_ok (st dest)" and "mpz_ok (st lhs)" and "mpz_ok (st rhs)" and "Ztemp \<notin> {dest, lhs, rhs}"
  shows "assigned dest {Ztemp} (mpz_val (st lhs) * mpz_val (st rhs)) st (mpz_mul_inpl dest lhs rhs st)"
proof (cases "mpz_len (st lhs) = 0 \<or> mpz_len (st rhs) = 0")
  case True
  then have "mpz_val (st lhs) * mpz_val (st rhs) = 0" using mpz_val_zero [OF assms(2)] mpz_val_zero [OF assms(3)] by auto
  then show ?thesis using True mpz_set_from_int_ok [OF assms(1), of 0] by (auto simp: mpz_mul_inpl_def assigned_def)
next
  case False
  define l where "l = (if lhs = dest then Ztemp else lhs)"
  define r where "r = (if rhs = dest then Ztemp else rhs)"
  define st0 where "st0 = (if lhs = dest then st(Ztemp := mpz_clone (st lhs)) else if rhs = dest then st(Ztemp := mpz_clone (st rhs)) else st)"
  have val: "mpz_val (st0 l) = mpz_val (st lhs)" "mpz_val (st0 r) = mpz_val (st rhs)" "mpz_len (st0 l) = mpz_len (st lhs)"
    "mpz_len (st0 r) = mpz_len (st rhs)" "mpz_ok (st0 l)" "mpz_ok (st0 r)" "st0 dest = st dest" "dest \<noteq> l" "dest \<noteq> r"
    using assms by (auto simp: l_def r_def st0_def)
  define st1 where "st1 = st0(dest := mpz_need_dig (mpz_len (st0 l) + mpz_len (st0 r)) (st0 dest))"
  define st2 where "st2 = st1(dest := (st1 dest)\<lparr>mpz_dig := replicate (mpz_alloc (st1 dest)) 0\<rparr>)"
  define st3 where "st3 = put_result dest (mpn_mul dest l (mpz_len (st2 l)) r (mpz_len (st2 r)) (digs st2)) (mpz_neg (st2 l) \<noteq> mpz_neg (st2 r)) st2"
  have "mpz_ok (st0 dest)" "0 < mpz_len (st0 l)" "0 < mpz_len (st0 r)" using val(3,4,7) assms(1) False by auto
  from mpz_mul_distinct [OF this(1) val(5,6,8,9) this(2,3) st1_def st2_def]
  have "assigned dest {} (mpz_val (st lhs) * mpz_val (st rhs)) st0 st3" by (simp only: st3_def val(1,2))
  moreover have "(if lhs = dest then (Ztemp, if rhs = dest then Ztemp else rhs, st(Ztemp := mpz_clone (st lhs)))
      else if rhs = dest then (lhs, Ztemp, st(Ztemp := mpz_clone (st rhs))) else (lhs, rhs, st)) = (l, r, st0)"
    by (simp add: l_def r_def st0_def)
  then have "mpz_mul_inpl dest lhs rhs st = st3(Ztemp := mpz_init_zero)"
    by (simp only: mpz_mul_inpl_def if_not_P [OF False] Let_def prod.case st1_def [symmetric] st2_def [symmetric] st3_def [symmetric])
  ultimately show ?thesis using assms(4) by (auto simp: assigned_def st0_def)
qed

section \<open>Floor division\<close>

lemma floor_divmod:
  fixes a b :: nat
  assumes "0 < b"
  shows "ln = rn \<Longrightarrow> tc ln a div tc rn b = int (a div b)" and "ln = rn \<Longrightarrow> tc ln a mod tc rn b = tc ln (a mod b)"
    and "ln \<noteq> rn \<Longrightarrow> a mod b = 0 \<Longrightarrow> tc ln a div tc rn b = tc True (a div b)" and "ln \<noteq> rn \<Longrightarrow> a mod b = 0 \<Longrightarrow> tc ln a mod tc rn b = 0"
    and "ln \<noteq> rn \<Longrightarrow> a mod b \<noteq> 0 \<Longrightarrow> tc ln a div tc rn b = tc True (a div b) - 1"
    and "ln \<noteq> rn \<Longrightarrow> a mod b \<noteq> 0 \<Longrightarrow> tc ln a mod tc rn b = tc ln (a mod b) + tc rn b"
proof -
  have i: "int a div int b = int (a div b)" "int a mod int b = int (a mod b)" by (simp_all add: zdiv_int zmod_int)
  have b: "int b \<noteq> 0" using assms by simp
  note d = zdiv_zminus1_eq_if [OF b, of "int a", unfolded i] zdiv_zminus2_eq_if [OF b, of "int a", unfolded i]
    zmod_zminus1_eq_if [of "int a" "int b", unfolded i] zmod_zminus2_eq_if [of "int a" "int b", unfolded i]
  show "ln = rn \<Longrightarrow> tc ln a div tc rn b = int (a div b)" "ln = rn \<Longrightarrow> tc ln a mod tc rn b = tc ln (a mod b)"
    using i by (simp_all add: tc_def)
  show "ln \<noteq> rn \<Longrightarrow> a mod b = 0 \<Longrightarrow> tc ln a div tc rn b = tc True (a div b)" "ln \<noteq> rn \<Longrightarrow> a mod b = 0 \<Longrightarrow> tc ln a mod tc rn b = 0"
    "ln \<noteq> rn \<Longrightarrow> a mod b \<noteq> 0 \<Longrightarrow> tc ln a div tc rn b = tc True (a div b) - 1"
    "ln \<noteq> rn \<Longrightarrow> a mod b \<noteq> 0 \<Longrightarrow> tc ln a mod tc rn b = tc ln (a mod b) + tc rn b"
    using d by (cases ln; cases rn; simp add: tc_def)+
qed

text \<open>The store before and after the digit division.\<close>

lemma divmod_setup:
  assumes ok: "mpz_ok (st q)" "mpz_ok (st r)" "mpz_ok (st lhs)" "mpz_ok (st rhs)"
    and distinct: "q \<notin> {r, lhs, rhs}" "r \<noteq> rhs"
    and st1: "st1 = st(q := mpz_need_dig (mpz_len (st lhs) + 1) (st q))"
    and st2: "st2 = st1(q := (st1 q)\<lparr>mpz_dig := replicate (mpz_len (st lhs) + 1) 0 @ drop (mpz_len (st lhs) + 1) (mpz_dig (st1 q)), mpz_len := 0\<rparr>)"
    and st3: "st3 = st2(r := mpz_need_dig (mpz_len (st2 lhs) + 1) (st2 r))" and st4: "st4 = mpz_set r lhs st3"
  shows "st4 rhs = st rhs" and "mpz_ok (st4 r)" and "mpz_ok (st4 q)" and "mpz_mag (st4 r) = mpz_mag (st lhs)"
    and "mpz_neg (st4 r) = mpz_neg (st lhs)" and "mpz_len (st4 r) < length (mpz_dig (st4 r))"
    and "mpz_len (st4 r) < length (mpz_dig (st4 q))" and "mpz_neg (st4 q) = mpz_neg (st q)"
    and "\<forall>z. z \<noteq> q \<and> z \<noteq> r \<longrightarrow> st4 z = st z" and "mpz_len (st4 r) = mpz_len (st lhs)"
proof -
  let ?l = "mpz_len (st lhs) + 1"
  note g1 = grow [OF ok(1) st1]
  have ok2q: "mpz_ok (st2 q)"
    using g1(9,5) by (auto simp: st2 mpz_ok_def normal_def intro: digits_drop)
  have st2_other: "z \<noteq> q \<Longrightarrow> st2 z = st z" for z by (simp add: st2 st1)
  have st2_q: "mpz_neg (st2 q) = mpz_neg (st q)" "?l \<le> length (mpz_dig (st2 q))" using g1(2,5) by (simp_all add: st2)
  have rl: "st2 r = st r" "st2 lhs = st lhs" "st2 rhs = st rhs" using distinct st2_other by auto
  have ok2: "mpz_ok (st2 r)" "mpz_ok (st2 lhs)" using ok rl by auto
  note g3 = grow [where st = st2 and d = r, OF ok2(1) st3]
  have ok3: "mpz_ok (st3 r)" "mpz_ok (st3 lhs)" using g3(4,9) ok2 by auto
  note s = mpz_set_assigned [where st = st3 and dest = r and src = lhs, OF ok3]
  have frame: "z \<noteq> r \<Longrightarrow> st4 z = st3 z" "z \<noteq> r \<Longrightarrow> st3 z = st2 z" for z using s(1) g3(8) by (auto simp: assigned_def st4)
  show "st4 rhs = st rhs" "\<forall>z. z \<noteq> q \<and> z \<noteq> r \<longrightarrow> st4 z = st z" using frame distinct st2_other by auto
  have q4: "st4 q = st2 q" using frame distinct by auto
  then show "mpz_ok (st4 q)" "mpz_neg (st4 q) = mpz_neg (st q)" using ok2q st2_q by simp_all
  show "mpz_ok (st4 r)" using s(1) by (simp add: assigned_def st4)
  show "mpz_mag (st4 r) = mpz_mag (st lhs)" "mpz_neg (st4 r) = mpz_neg (st lhs)" using s(2,4) g3(1,2) rl by (simp_all add: st4)
  show len: "mpz_len (st4 r) = mpz_len (st lhs)" using s(3) g3(3) rl by (simp add: st4)
  show "mpz_len (st4 r) < length (mpz_dig (st4 q))" using st2_q(2) len q4 by simp
  have "?l \<le> length (mpz_dig (st3 r))" using g3(5) rl by simp
  moreover have "length (mpz_dig (st3 r)) \<le> length (mpz_dig (mpz_need_dig n (st3 r)))" for n
    using ok3(1) by (simp add: mpz_need_dig_def Let_def)
  ultimately have "?l \<le> length (mpz_dig (st4 r))" using s(5) unfolding st4 by (metis le_trans)
  then show "mpz_len (st4 r) < length (mpz_dig (st4 r))" using len by simp
qed

lemma mpz_divmod_assigned:
  assumes ok: "mpz_ok (st q)" "mpz_ok (st r)" "mpz_ok (st lhs)" "mpz_ok (st rhs)"
    and distinct: "q \<notin> {r, lhs, rhs}" "r \<noteq> rhs" "Zone \<notin> {q, r, lhs, rhs}"
    and rhs: "0 < mpz_len (st rhs)" "div_exact (mpz_dig (st rhs)) (mpz_len (st rhs))"
  shows "\<exists>st'. mpz_divmod_inpl q r lhs rhs st = Some st' \<and> (\<forall>z. z \<notin> {q, r, Zone} \<longrightarrow> st' z = st z) \<and>
    mpz_ok (st' q) \<and> mpz_ok (st' r) \<and> (mpz_neg (st lhs) \<noteq> mpz_neg (st rhs) \<or> \<not> mpz_neg (st q) \<longrightarrow> mpz_val (st' q) = mpz_val (st lhs) div mpz_val (st rhs)) \<and>
    mpz_val (st' r) = mpz_val (st lhs) mod mpz_val (st rhs)"
proof -
  let ?a = "mpz_mag (st lhs)" and ?b = "mpz_mag (st rhs)" and ?ln = "mpz_neg (st lhs)" and ?rn = "mpz_neg (st rhs)"
  define st1 where "st1 = st(q := mpz_need_dig (mpz_len (st lhs) + 1) (st q))"
  define st2 where "st2 = st1(q := (st1 q)\<lparr>mpz_dig := replicate (mpz_len (st lhs) + 1) 0 @ drop (mpz_len (st lhs) + 1) (mpz_dig (st1 q)), mpz_len := 0\<rparr>)"
  define st3 where "st3 = st2(r := mpz_need_dig (mpz_len (st2 lhs) + 1) (st2 r))"
  define st4 where "st4 = mpz_set r lhs st3"
  note s = divmod_setup [OF ok distinct(1,2) st1_def st2_def st3_def st4_def]
  have b: "0 < ?b" using rhs(1) mpz_mag_zero [OF ok(4)] by simp
  have okr: "mpz_ok (st4 rhs)" using ok(4) s(1) by simp
  note o = operand [of st4 r, OF s(2)] operand [of st4 rhs, OF okr] operand [of st4 q, OF s(3)]
  have len: "mpz_len (st4 r) < length (digs st4 r)" "mpz_len (st4 r) \<le> length (digs st4 q)" "digs st4 q \<noteq> []"
    using s(6,7) by (auto simp: digs_def)
  have "\<exists>n l m'. mpn_div r (mpz_len (st4 r)) rhs (mpz_len (st4 rhs)) q (digs st4) = Some (n, l, m') \<and>
      divided r q (dval (take (mpz_len (st4 r)) (digs st4 r)) mod dval (take (mpz_len (st4 rhs)) (digs st4 rhs))) n
        (dval (take (mpz_len (st4 r)) (digs st4 r)) div dval (take (mpz_len (st4 rhs)) (digs st4 rhs))) l (digs st4) m'"
    using o len rhs distinct s(1) by (intro mpn_div_divided) (auto simp: digs_def)
  then obtain n l m' where div: "mpn_div r (mpz_len (st4 r)) rhs (mpz_len (st4 rhs)) q (digs st4) = Some (n, l, m')"
    and d: "divided r q (?a mod ?b) n (?a div ?b) l (digs st4) m'"
    using o(2,5) s(1,4) by auto
  define st5 where "st5 = st4(r := (st4 r)\<lparr>mpz_len := n, mpz_dig := m' r\<rparr>)"
  define st6 where "st6 = st5(q := (st5 q)\<lparr>mpz_len := l, mpz_dig := m' q\<rparr>)"
  have st6: "mpz_ok (st6 r)" "mpz_ok (st6 q)" "mpz_mag (st6 r) = ?a mod ?b" "mpz_mag (st6 q) = ?a div ?b"
    "mpz_neg (st6 r) = ?ln" "mpz_neg (st6 q) = mpz_neg (st q)" "st6 rhs = st rhs" "\<forall>z. z \<noteq> q \<and> z \<noteq> r \<longrightarrow> st6 z = st z"
    using d s distinct by (auto simp: st6_def st5_def mpz_ok_def mpz_mag_def divided_def digs_def)
  have lhs6: "mpz_neg (st6 lhs) = ?ln" using st6(5,8) distinct by (cases "lhs = r") auto
  define st7 where "st7 = st6(q := (st6 q)\<lparr>mpz_neg := True\<rparr>)"
  have eq: "mpz_divmod_inpl q r lhs rhs st =
      (if mpz_neg (st6 lhs) \<noteq> mpz_neg (st6 rhs)
       then if \<not> mpz_is_zero (st7 r)
            then Some (mpz_add_inpl r r rhs (mpz_add_inpl q q Zone (st7(Zone := mpz_init_from_int (-1))))) else Some st7
       else Some st6)"
    by (simp only: mpz_divmod_inpl_def Let_def st1_def [symmetric] st2_def [symmetric] st3_def [symmetric] st4_def [symmetric] div
        option.case prod.case st5_def [symmetric] st6_def [symmetric] st7_def [symmetric])
  show ?thesis
  proof (cases "?ln = ?rn")
    case True
    then have "mpz_divmod_inpl q r lhs rhs st = Some st6" using lhs6 st6(7) eq by simp
    then show ?thesis
      using st6 True floor_divmod(1,2) [OF b True, of ?a] by (auto simp: mpz_val_def) (auto simp: tc_def)
  next
    case neq: False
    have st7: "mpz_ok (st7 q)" "mpz_ok (st7 r)" "mpz_val (st7 q) = tc True (?a div ?b)" "mpz_val (st7 r) = tc ?ln (?a mod ?b)" "st7 rhs = st rhs"
      "\<forall>z. z \<noteq> q \<and> z \<noteq> r \<longrightarrow> st7 z = st z" "mpz_is_zero (st7 r) \<longleftrightarrow> ?a mod ?b = 0"
      using st6 distinct mpz_mag_zero [OF st6(1)] by (auto simp: st7_def mpz_ok_def mpz_val_def mpz_mag_def mpz_is_zero_def)
    note eq = eq [unfolded lhs6 st6(7) if_P [OF neq]]
    show ?thesis
    proof (cases "?a mod ?b = 0")
      case True
      then show ?thesis
        using eq st7 floor_divmod(3,4) [OF b neq, of ?a] by (auto simp: mpz_val_def)
    next
      case False
      define st8 where "st8 = st7(Zone := mpz_init_from_int (-1))"
      have one: "mpz_ok (st8 Zone)" "mpz_val (st8 Zone) = -1"
        using mpz_set_from_int_ok [of mpz_init_zero "-1"] by (simp_all add: st8_def mpz_init_from_int_def)
      have st8: "mpz_ok (st8 q)" "mpz_ok (st8 r)" "mpz_val (st8 q) = tc True (?a div ?b)" "mpz_val (st8 r) = tc ?ln (?a mod ?b)"
        "st8 rhs = st rhs" "\<forall>z. z \<notin> {q, r, Zone} \<longrightarrow> st8 z = st z"
        using st7 distinct by (auto simp: st8_def)
      define st9 where "st9 = mpz_add_inpl q q Zone st8"
      have "assigned q {} (tc True (?a div ?b) - 1) st8 st9"
        using mpz_add_assigned [of st8 q q Zone] st8 one by (simp add: st9_def)
      then have st9: "mpz_ok (st9 q)" "mpz_val (st9 q) = tc True (?a div ?b) - 1" "st9 r = st8 r" "st9 rhs = st rhs"
        "\<forall>z. z \<notin> {q, r, Zone} \<longrightarrow> st9 z = st z"
        using st8 distinct by (auto simp: assigned_def)
      have "assigned r {} (tc ?ln (?a mod ?b) + tc ?rn ?b) st9 (mpz_add_inpl r r rhs st9)"
        using mpz_add_assigned [of st9 r r rhs] st8 st9 ok(4) by (simp add: mpz_val_def)
      moreover have "mpz_divmod_inpl q r lhs rhs st = Some (mpz_add_inpl r r rhs st9)"
        using eq st7(7) False by (simp add: st9_def st8_def)
      ultimately show ?thesis
        using st9 distinct floor_divmod(5,6) [OF b neq False] by (auto simp: assigned_def mpz_val_def)
    qed
  qed
qed

section \<open>Powers\<close>

lemma halve:
  assumes "mpz_ok (st z)"
  defines "st' \<equiv> put_result z (mpn_shr z z (mpz_len (st z)) 1 (digs st)) (mpz_neg (st z)) st"
  shows "mpz_ok (st' z)" and "mpz_mag (st' z) = mpz_mag (st z) div 2" and "mpz_neg (st' z) = mpz_neg (st z)" and "y \<noteq> z \<Longrightarrow> st' y = st y"
proof -
  note o = operand [of st z, OF assms(1)]
  have "mpz_len (st z) \<le> length (digs st z)" using assms(1) by (simp add: digs_def mpz_ok_def normal_def)
  then obtain l m' where shr: "mpn_shr z z (mpz_len (st z)) 1 (digs st) = (l, m')"
    and s: "stored z (dval (take (mpz_len (st z)) (digs st z)) div 2 ^ 1) l (digs st) m'"
    by (rule mpn_shr_stored [where m = "digs st" and i = z and j = z, OF o(1,3)])
  have "assigned z {} (tc (mpz_neg (st z)) (mpz_mag (st z) div 2)) st st'"
    using put_result_assigned [where neg = "mpz_neg (st z)", OF s refl assms(1)] o(2) unfolding st'_def shr by simp
  then show "mpz_ok (st' z)" "y \<noteq> z \<Longrightarrow> st' y = st y" by (simp_all add: assigned_def)
  show "mpz_neg (st' z) = mpz_neg (st z)" "mpz_mag (st' z) = mpz_mag (st z) div 2"
    using s o(2) unfolding st'_def shr by (simp_all add: put_result_def mpz_mag_def stored_def)
qed

lemma low_bit:
  assumes "mpz_ok z" and "0 < mpz_len z"
  shows "mpz_dig z ! 0 AND 1 \<noteq> 0 \<longleftrightarrow> odd (mpz_mag z)"
proof -
  have "0 < length (mpz_dig z)" using assms by (auto simp: mpz_ok_def normal_def)
  then obtain d ds k where "mpz_dig z = d # ds" "mpz_len z = Suc k" using assms(2) by (cases "mpz_dig z"; cases "mpz_len z") auto
  then show ?thesis by (simp add: mpz_mag_def and_one_eq DIG_BASE_def odd_iff_mod_2_eq_one)
qed

lemma pow_loop_correct:
  assumes "mpz_ok (st dest)" and "mpz_ok (st Zx)" and "mpz_ok (st Zn)" and "dest \<notin> {Ztemp, Zx, Zn}" and "mpz_mag (st Zn) < 2 ^ f"
  shows "(\<forall>z. z \<notin> {dest, Ztemp, Zx, Zn} \<longrightarrow> pow_loop f dest st z = st z) \<and> mpz_ok (pow_loop f dest st dest) \<and>
    mpz_val (pow_loop f dest st dest) = mpz_val (st dest) * mpz_val (st Zx) ^ mpz_mag (st Zn)"
  using assms
proof (induction f arbitrary: st)
  case 0
  then show ?case by simp
next
  case (Suc f)
  show ?case
  proof (cases "mpz_len (st Zn) = 0")
    case True
    then show ?thesis using Suc.prems mpz_mag_zero [of "st Zn"] by simp
  next
    case False
    let ?e = "mpz_mag (st Zn)"
    define st1 where "st1 = (if mpz_dig (st Zn) ! 0 AND 1 \<noteq> 0 then mpz_mul_inpl dest dest Zx st else st)"
    have bit: "mpz_dig (st Zn) ! 0 AND 1 \<noteq> 0 \<longleftrightarrow> odd ?e" using low_bit [of "st Zn"] Suc.prems(3) False by simp
    have "assigned dest {Ztemp} (mpz_val (st dest) * mpz_val (st Zx)) st (mpz_mul_inpl dest dest Zx st)"
      using Suc.prems by (intro mpz_mul_assigned) auto
    then have st1: "mpz_ok (st1 dest)" "mpz_val (st1 dest) = mpz_val (st dest) * (if odd ?e then mpz_val (st Zx) else 1)"
      "st1 Zx = st Zx" "st1 Zn = st Zn" "\<forall>z. z \<notin> {dest, Ztemp} \<longrightarrow> st1 z = st z"
      using Suc.prems(1,4) bit by (auto simp: st1_def assigned_def)
    define st2 where "st2 = put_result Zn (mpn_shr Zn Zn (mpz_len (st1 Zn)) 1 (digs st1)) (mpz_neg (st1 Zn)) st1"
    have st2: "mpz_ok (st2 Zn)" "mpz_mag (st2 Zn) = ?e div 2" "\<forall>z. z \<noteq> Zn \<longrightarrow> st2 z = st1 z"
      using halve [of st1 Zn] Suc.prems(3) st1(4) by (simp_all add: st2_def)
    define st3 where "st3 = mpz_mul_inpl Zx Zx Zx st2"
    have "assigned Zx {Ztemp} (mpz_val (st2 Zx) * mpz_val (st2 Zx)) st2 st3"
      unfolding st3_def using Suc.prems st1 st2 by (intro mpz_mul_assigned) auto
    then have st3: "mpz_ok (st3 Zx)" "mpz_val (st3 Zx) = mpz_val (st Zx) * mpz_val (st Zx)" "st3 Zn = st2 Zn" "st3 dest = st1 dest"
      "\<forall>z. z \<notin> {dest, Ztemp, Zx, Zn} \<longrightarrow> st3 z = st z"
      using Suc.prems(4) st1 st2 by (auto simp: assigned_def)
    have e: "x ^ ?e = (if odd ?e then x else 1) * (x * x) ^ (?e div 2)" for x :: int
      by (cases "odd ?e") (auto elim!: oddE evenE simp: power_mult power2_eq_square)
    have eq: "pow_loop (Suc f) dest st = (if mpz_len (st2 Zn) = 0 then st2 else pow_loop f dest st3)"
    proof -
      have pos: "mpz_len (st Zn) > 0" using False by simp
      show ?thesis by (simp only: pow_loop.simps if_P [OF pos] Let_def st1_def [symmetric] st2_def [symmetric] st3_def [symmetric])
    qed
    show ?thesis
    proof (cases "mpz_len (st2 Zn) = 0")
      case True
      then have "?e div 2 = 0" using mpz_mag_zero [OF st2(1)] st2(2) by simp
      then have "mpz_val (st Zx) ^ ?e = (if odd ?e then mpz_val (st Zx) else 1)" by (subst e) simp
      then show ?thesis using eq True st1 st2(3) Suc.prems(4) by auto
    next
      case False
      have "(\<forall>z. z \<notin> {dest, Ztemp, Zx, Zn} \<longrightarrow> pow_loop f dest st3 z = st3 z) \<and> mpz_ok (pow_loop f dest st3 dest) \<and>
          mpz_val (pow_loop f dest st3 dest) = mpz_val (st3 dest) * mpz_val (st3 Zx) ^ mpz_mag (st3 Zn)"
        using Suc.prems(4,5) st1 st2 st3 by (intro Suc.IH) auto
      then show ?thesis using eq False st1(2) st2(2) st3 by (subst e) auto
    qed
  qed
qed

lemma mpz_pow_assigned:
  assumes "mpz_ok (st dest)" and "mpz_ok (st lhs)" and "mpz_ok (st rhs)" and "{dest, lhs, rhs} \<inter> {Ztemp, Zx, Zn} = {}"
    and "0 < mpz_len (st lhs)" and "\<not> mpz_neg (st rhs)"
  shows "assigned dest {Ztemp, Zx, Zn} (mpz_val (st lhs) ^ mpz_mag (st rhs)) st (mpz_pow_inpl dest lhs rhs st)"
proof (cases "mpz_len (st rhs) = 0")
  case True
  then show ?thesis
    using assms mpz_set_from_int_ok [OF assms(1), of 1] mpz_mag_zero [OF assms(3)] by (simp add: mpz_pow_inpl_def assigned_def)
next
  case False
  define st1 where "st1 = st(Zx := mpz_clone (st lhs), Zn := mpz_clone (st rhs))"
  define st2 where "st2 = st1(dest := mpz_set_from_int 1 (st1 dest))"
  have st2: "mpz_ok (st2 dest)" "mpz_val (st2 dest) = 1" "mpz_ok (st2 Zx)" "mpz_ok (st2 Zn)" "mpz_val (st2 Zx) = mpz_val (st lhs)"
    "mpz_mag (st2 Zn) = mpz_mag (st rhs)" "\<forall>z. z \<notin> {dest, Ztemp, Zx, Zn} \<longrightarrow> st2 z = st z"
    using assms mpz_set_from_int_ok [OF assms(1), of 1] by (auto simp: st2_def st1_def)
  have "mpz_mag (st2 Zn) < DIG_BASE ^ mpz_len (st2 Zn)" using normal_less st2(4) by (simp add: mpz_mag_def mpz_ok_def)
  then have "mpz_mag (st2 Zn) < 2 ^ (DIG_SIZE * mpz_len (st2 Zn))" by (simp add: DIG_BASE_def power_mult)
  then have "(\<forall>z. z \<notin> {dest, Ztemp, Zx, Zn} \<longrightarrow> pow_loop (DIG_SIZE * mpz_len (st2 Zn)) dest st2 z = st2 z) \<and>
      mpz_ok (pow_loop (DIG_SIZE * mpz_len (st2 Zn)) dest st2 dest) \<and>
      mpz_val (pow_loop (DIG_SIZE * mpz_len (st2 Zn)) dest st2 dest) = mpz_val (st2 dest) * mpz_val (st2 Zx) ^ mpz_mag (st2 Zn)"
    using assms(4) st2 by (intro pow_loop_correct) auto
  moreover have "mpz_pow_inpl dest lhs rhs st =
      (pow_loop (DIG_SIZE * mpz_len (st2 Zn)) dest st2)(Zx := mpz_init_zero, Zn := mpz_init_zero)"
  proof -
    have "\<not> (mpz_len (st lhs) = 0 \<or> mpz_neg (st rhs))" using assms(5,6) by simp
    then show ?thesis
      by (simp only: mpz_pow_inpl_def if_not_P if_not_P [OF False] Let_def st1_def [symmetric] st2_def [symmetric] simp_thms if_False)
  qed
  ultimately show ?thesis using st2 assms(4) by (auto simp: assigned_def)
qed

text \<open>A product reduced by the modulus.\<close>

lemma mul_mod:
  assumes "mpz_ok (st d)" and "mpz_ok (st x)" and "mpz_ok (st Zquo)" and "mpz_ok (st md)" and "0 < mpz_len (st md)"
    and "div_exact (mpz_dig (st md)) (mpz_len (st md))" and "d \<notin> {Ztemp, Zquo, Zone, md}" and "x \<noteq> Ztemp" and "md \<notin> {Ztemp, Zquo, Zone}"
  shows "\<exists>st'. mpz_divmod_inpl Zquo d d md (mpz_mul_inpl d d x st) = Some st' \<and> (\<forall>z. z \<notin> {d, Ztemp, Zquo, Zone} \<longrightarrow> st' z = st z) \<and>
    mpz_ok (st' d) \<and> mpz_ok (st' Zquo) \<and> mpz_val (st' d) = mpz_val (st d) * mpz_val (st x) mod mpz_val (st md)"
proof -
  define st1 where "st1 = mpz_mul_inpl d d x st"
  have "assigned d {Ztemp} (mpz_val (st d) * mpz_val (st x)) st st1"
    unfolding st1_def using assms by (intro mpz_mul_assigned) auto
  then have st1: "mpz_ok (st1 d)" "mpz_val (st1 d) = mpz_val (st d) * mpz_val (st x)" "st1 md = st md" "st1 Zquo = st Zquo"
    "\<forall>z. z \<notin> {d, Ztemp} \<longrightarrow> st1 z = st z"
    using assms(7,9) by (auto simp: assigned_def)
  have "\<exists>st'. mpz_divmod_inpl Zquo d d md st1 = Some st' \<and> (\<forall>z. z \<notin> {Zquo, d, Zone} \<longrightarrow> st' z = st1 z) \<and>
    mpz_ok (st' Zquo) \<and> mpz_ok (st' d) \<and> (mpz_neg (st1 d) \<noteq> mpz_neg (st1 md) \<or> \<not> mpz_neg (st1 Zquo) \<longrightarrow> mpz_val (st' Zquo) = mpz_val (st1 d) div mpz_val (st1 md)) \<and>
    mpz_val (st' d) = mpz_val (st1 d) mod mpz_val (st1 md)"
    using assms st1 by (intro mpz_divmod_assigned) auto
  then show ?thesis using st1 by (auto simp: st1_def)
qed

lemma pow3_loop_correct:
  assumes "mpz_ok (st dest)" and "mpz_ok (st Zx)" and "mpz_ok (st Zn)" and "mpz_ok (st Zquo)" and "mpz_ok (st md)" and "0 < mpz_len (st md)"
    and "div_exact (mpz_dig (st md)) (mpz_len (st md))" and "{dest, md} \<inter> {Ztemp, Zx, Zn, Zquo, Zone} = {}" and "dest \<noteq> md"
    and "0 < mpz_mag (st Zn)" and "mpz_mag (st Zn) < 2 ^ f"
  shows "\<exists>st'. pow3_loop f dest md st = Some st' \<and> (\<forall>z. z \<notin> {dest, Ztemp, Zx, Zn, Zquo, Zone} \<longrightarrow> st' z = st z) \<and> mpz_ok (st' dest) \<and>
    mpz_val (st' dest) = mpz_val (st dest) * mpz_val (st Zx) ^ mpz_mag (st Zn) mod mpz_val (st md)"
  using assms
proof (induction f arbitrary: st)
  case 0
  then show ?case by simp
next
  case (Suc f)
  let ?e = "mpz_mag (st Zn)" and ?M = "mpz_val (st md)" and ?x = "mpz_val (st Zx)"
  have pos: "mpz_len (st Zn) > 0" using Suc.prems(3,10) mpz_mag_zero by fastforce
  define step where "step = (if mpz_dig (st Zn) ! 0 AND 1 \<noteq> 0 then mpz_divmod_inpl Zquo dest dest md (mpz_mul_inpl dest dest Zx st) else Some st)"
  have bit: "mpz_dig (st Zn) ! 0 AND 1 \<noteq> 0 \<longleftrightarrow> odd ?e" using low_bit [of "st Zn"] Suc.prems(3) pos by simp
  have "\<exists>st'. mpz_divmod_inpl Zquo dest dest md (mpz_mul_inpl dest dest Zx st) = Some st' \<and> (\<forall>z. z \<notin> {dest, Ztemp, Zquo, Zone} \<longrightarrow> st' z = st z) \<and>
      mpz_ok (st' dest) \<and> mpz_ok (st' Zquo) \<and> mpz_val (st' dest) = mpz_val (st dest) * ?x mod ?M"
    using Suc.prems by (intro mul_mod) auto
  then obtain st1 where st1: "step = Some st1" "\<forall>z. z \<notin> {dest, Ztemp, Zquo, Zone} \<longrightarrow> st1 z = st z" "mpz_ok (st1 dest)" "mpz_ok (st1 Zquo)"
    "mpz_val (st1 dest) = (if odd ?e then mpz_val (st dest) * ?x mod ?M else mpz_val (st dest))"
    using bit Suc.prems(1,4) unfolding step_def by (cases "odd ?e") auto
  then have same: "st1 Zx = st Zx" "st1 Zn = st Zn" "st1 md = st md" using Suc.prems(8,9) by auto
  define st2 where "st2 = put_result Zn (mpn_shr Zn Zn (mpz_len (st1 Zn)) 1 (digs st1)) (mpz_neg (st1 Zn)) st1"
  have st2: "mpz_ok (st2 Zn)" "mpz_mag (st2 Zn) = ?e div 2" "\<forall>z. z \<noteq> Zn \<longrightarrow> st2 z = st1 z"
    using halve [of st1 Zn] Suc.prems(3) same by (simp_all add: st2_def)
  have eq: "pow3_loop (Suc f) dest md st = (if mpz_len (st2 Zn) = 0 then Some st2
      else case mpz_divmod_inpl Zquo Zx Zx md (mpz_mul_inpl Zx Zx Zx st2) of None \<Rightarrow> None | Some st \<Rightarrow> pow3_loop f dest md st)"
    by (simp only: pow3_loop.simps if_P [OF pos] step_def [symmetric] st1(1) option.case Let_def st2_def [symmetric])
  show ?case
  proof (cases "mpz_len (st2 Zn) = 0")
    case True
    then have "?e = 1" using mpz_mag_zero [OF st2(1)] st2(2) Suc.prems(10) by simp
    then show ?thesis using eq True st1 st2 Suc.prems(8) by auto
  next
    case False
    have "\<exists>st'. mpz_divmod_inpl Zquo Zx Zx md (mpz_mul_inpl Zx Zx Zx st2) = Some st' \<and> (\<forall>z. z \<notin> {Zx, Ztemp, Zquo, Zone} \<longrightarrow> st' z = st2 z) \<and>
      mpz_ok (st' Zx) \<and> mpz_ok (st' Zquo) \<and> mpz_val (st' Zx) = mpz_val (st2 Zx) * mpz_val (st2 Zx) mod mpz_val (st2 md)"
      using Suc.prems st1 st2 same by (intro mul_mod) auto
    then obtain st3 where st3: "mpz_divmod_inpl Zquo Zx Zx md (mpz_mul_inpl Zx Zx Zx st2) = Some st3" "mpz_ok (st3 Zx)" "mpz_ok (st3 Zquo)"
      "mpz_val (st3 Zx) = ?x * ?x mod ?M" "\<forall>z. z \<notin> {Zx, Ztemp, Zquo, Zone} \<longrightarrow> st3 z = st2 z"
      using st2(3) same Suc.prems(8) by auto
    have same3: "st3 dest = st1 dest" "st3 Zn = st2 Zn" "st3 md = st md" using st3(5) st2(3) same Suc.prems(8) by auto
    have e: "?e div 2 > 0" using False mpz_mag_zero [OF st2(1)] st2(2) by simp
    have "\<exists>st'. pow3_loop f dest md st3 = Some st' \<and> (\<forall>z. z \<notin> {dest, Ztemp, Zx, Zn, Zquo, Zone} \<longrightarrow> st' z = st3 z) \<and> mpz_ok (st' dest) \<and>
        mpz_val (st' dest) = mpz_val (st3 dest) * mpz_val (st3 Zx) ^ mpz_mag (st3 Zn) mod mpz_val (st3 md)"
      using Suc.prems st1 st2 st3 same3 e by (intro Suc.IH) auto
    then obtain st' where st': "pow3_loop f dest md st3 = Some st'" "\<forall>z. z \<notin> {dest, Ztemp, Zx, Zn, Zquo, Zone} \<longrightarrow> st' z = st z" "mpz_ok (st' dest)"
      "mpz_val (st' dest) = mpz_val (st1 dest) * (?x * ?x mod ?M) ^ (?e div 2) mod ?M"
      using same3 st3(4) st2 st1(2) st3(5) by auto
    have "mpz_val (st1 dest) * (?x * ?x mod ?M) ^ (?e div 2) mod ?M = mpz_val (st dest) * ?x ^ ?e mod ?M"
    proof (cases "odd ?e")
      case True
      then have "?x ^ ?e = ?x * (?x * ?x) ^ (?e div 2)" by (auto elim!: oddE simp: power_mult power2_eq_square)
      moreover have "mpz_val (st dest) * ?x mod ?M * (?x * ?x mod ?M) ^ (?e div 2) mod ?M = mpz_val (st dest) * ?x * (?x * ?x) ^ (?e div 2) mod ?M"
        by (metis mod_mult_eq mod_mult_left_eq power_mod mod_mult_right_eq)
      ultimately show ?thesis using True st1(5) by (simp add: mult.assoc)
    next
      case False
      then have "?x ^ ?e = (?x * ?x) ^ (?e div 2)" by (auto elim!: evenE simp: power_mult power2_eq_square)
      then show ?thesis using False st1(5) by (simp add: power_mod mod_mult_right_eq) (metis mod_mult_right_eq power_mod)
    qed
    then show ?thesis using eq False st3(1) st' by auto
  qed
qed

text \<open>The base is copied after the destination was set to 1: when they are the same object, it is 1.\<close>

lemma mpz_pow3_correct:
  assumes "mpz_ok (st dest)" and "mpz_ok (st lhs)" and "mpz_ok (st rhs)" and "mpz_ok (st md)"
    and "{dest, lhs, rhs, md} \<inter> {Ztemp, Zx, Zn, Zquo, Zone} = {}" and "dest \<notin> {rhs, md}"
    and "0 < mpz_len (st lhs)" and "0 < mpz_len (st rhs)" and "\<not> mpz_neg (st rhs)" and "1 < mpz_mag (st md)"
    and "div_exact (mpz_dig (st md)) (mpz_len (st md))"
  shows "\<exists>st'. mpz_pow3_inpl dest lhs rhs md st = Some st' \<and>
    assigned dest {Ztemp, Zx, Zn, Zquo, Zone} ((if lhs = dest then 1 else mpz_val (st lhs)) ^ mpz_mag (st rhs) mod mpz_val (st md)) st st'"
proof -
  define st1 where "st1 = st(dest := mpz_set_from_int 1 (st dest))"
  have st1: "mpz_ok (st1 dest)" "mpz_val (st1 dest) = 1" "mpz_ok (st1 lhs)" "mpz_val (st1 lhs) = (if lhs = dest then 1 else mpz_val (st lhs))" "st1 rhs = st rhs" "st1 md = st md"
    using assms(2,6) mpz_set_from_int_ok [OF assms(1), of 1] by (auto simp: st1_def)
  define st2 where "st2 = st1(Zx := mpz_clone (st1 lhs), Zn := mpz_clone (st1 rhs), Zquo := mpz_init_zero)"
  have st2: "mpz_ok (st2 dest)" "mpz_val (st2 dest) = 1" "mpz_ok (st2 Zx)" "mpz_ok (st2 Zn)" "mpz_ok (st2 Zquo)" "st2 md = st md"
    "mpz_val (st2 Zx) = (if lhs = dest then 1 else mpz_val (st lhs))" "mpz_mag (st2 Zn) = mpz_mag (st rhs)" "\<forall>z. z \<notin> {dest, Zx, Zn, Zquo} \<longrightarrow> st2 z = st z"
    using assms(2-6) st1 by (auto simp: st2_def st1_def)
  have "mpz_mag (st2 Zn) < DIG_BASE ^ mpz_len (st2 Zn)" using normal_less st2(4) by (simp add: mpz_mag_def mpz_ok_def)
  then have f: "mpz_mag (st2 Zn) < 2 ^ (DIG_SIZE * mpz_len (st2 Zn))" by (simp add: DIG_BASE_def power_mult)
  have pos: "0 < mpz_len (st md)" "0 < mpz_mag (st rhs)" using assms(8,10) mpz_mag_zero assms(3,4) by fastforce+
  have "\<exists>st'. pow3_loop (DIG_SIZE * mpz_len (st2 Zn)) dest md st2 = Some st' \<and>
      (\<forall>z. z \<notin> {dest, Ztemp, Zx, Zn, Zquo, Zone} \<longrightarrow> st' z = st2 z) \<and> mpz_ok (st' dest) \<and>
      mpz_val (st' dest) = mpz_val (st2 dest) * mpz_val (st2 Zx) ^ mpz_mag (st2 Zn) mod mpz_val (st2 md)"
    using assms(4-6,11) st2 f pos by (intro pow3_loop_correct) auto
  moreover have "\<not> (mpz_len (st lhs) = 0 \<or> mpz_neg (st rhs) \<or> mpz_len (st md) = 1 \<and> mpz_dig (st md) ! 0 = 1)" "mpz_len (st1 rhs) \<noteq> 0"
    using assms(7-10,4) st1(5) by (cases "mpz_dig (st md)"; auto simp: mpz_mag_def mpz_ok_def normal_def)+
  then have "mpz_pow3_inpl dest lhs rhs md st =
      map_option (\<lambda>st. st(Zx := mpz_init_zero, Zn := mpz_init_zero, Zquo := mpz_init_zero)) (pow3_loop (DIG_SIZE * mpz_len (st2 Zn)) dest md st2)"
    by (simp only: mpz_pow3_inpl_def Let_def st1_def [symmetric] st2_def [symmetric] if_False)
  ultimately show ?thesis using assms(5) st2 by (auto simp: assigned_def)
qed

end
