(* ===== verification/MpzConv.thy ===== *)
theory MpzConv
  imports MpzMul
begin

text \<open>
  Conversions of multi-precision integers: from and to text in any base, from and to bytes, and to
  machine integers with and without a check of the range.  Characters and bytes are natural numbers.
\<close>

section \<open>The conversions\<close>

text \<open>The value of a digit character, if it is one below the base.\<close>

definition digit_value :: "nat \<Rightarrow> nat \<Rightarrow> nat option" where
  "digit_value base v =
     (let v = (if 48 \<le> v \<and> v \<le> 57 then Some (v - 48)
               else if 65 \<le> v \<and> v \<le> 90 then Some (v - (65 - 10))
               else if 97 \<le> v \<and> v \<le> 122 then Some (v - (97 - 10)) else None)
      in case v of None \<Rightarrow> None | Some v \<Rightarrow> if v \<ge> base then None else Some v)"

fun from_str_loop :: "nat \<Rightarrow> nat list \<Rightarrow> nat \<Rightarrow> nat \<Rightarrow> unit bufs \<Rightarrow> nat \<times> nat \<times> unit bufs" where
  "from_str_loop base [] cur l m = (cur, l, m)"
| "from_str_loop base (c # cs) cur l m =
     (case digit_value base c of
        None \<Rightarrow> (cur, l, m)
      | Some v \<Rightarrow> let (l, m) = mpn_mul_dig_add_dig () l base v m in from_str_loop base cs (cur + 1) l m)"

text \<open>The number of characters read, and the integer.\<close>

definition mpz_set_from_str :: "mpz \<Rightarrow> nat list \<Rightarrow> bool \<Rightarrow> nat \<Rightarrow> nat \<times> mpz" where
  "mpz_set_from_str z str neg base =
     (let z = mpz_need_dig (length str * 8 div DIG_SIZE + 1) z;
          (cur, l, m) = from_str_loop base str 0 0 (\<lambda>_. mpz_dig z)
      in (cur, z\<lparr>mpz_neg := neg, mpz_len := l, mpz_dig := m ()\<rparr>))"

text \<open>A digit takes up to four bytes, low byte first.\<close>

function from_bytes_digit :: "nat \<Rightarrow> nat \<Rightarrow> nat list \<Rightarrow> nat \<times> nat list" where
  "from_bytes_digit d num_bits buf =
     (case buf of
        [] \<Rightarrow> (d, [])
      | b # bs \<Rightarrow> if num_bits < DIG_SIZE then from_bytes_digit (d OR u32 (push_bit num_bits b)) (num_bits + 8) bs else (d, buf))"
  by pat_completeness auto
termination by (relation "measure (\<lambda>(_, _, b). length b)") auto

declare from_bytes_digit.simps [simp del]

lemma from_bytes_digit_shorter: "length (snd (from_bytes_digit d n bs)) \<le> length bs"
  by (induction d n bs rule: from_bytes_digit.induct) (subst from_bytes_digit.simps, auto split: list.split)

function from_bytes_loop :: "nat list \<Rightarrow> nat \<Rightarrow> nat list \<Rightarrow> nat \<times> nat list" where
  "from_bytes_loop buf l ds =
     (if buf = [] then (l, ds)
      else let (d, buf) = from_bytes_digit 0 0 buf in from_bytes_loop buf (l + 1) (ds[l := d mod DIG_BASE]))"
  by pat_completeness auto
termination
  by (relation "measure (\<lambda>(b, _, _). length b)")
    (auto simp: from_bytes_digit.simps [of 0 0] neq_Nil_conv,
     metis from_bytes_digit_shorter snd_conv le_imp_less_Suc)

declare from_bytes_loop.simps [simp del]

definition mpz_set_from_bytes :: "mpz \<Rightarrow> bool \<Rightarrow> nat list \<Rightarrow> mpz" where
  "mpz_set_from_bytes z big_endian buf =
     (let z = mpz_need_dig ((length buf * 8 + DIG_SIZE - 1) div DIG_SIZE) z;
          (l, ds) = from_bytes_loop (if big_endian then rev buf else buf) 0 (mpz_dig z)
      in z\<lparr>mpz_neg := False, mpz_len := mpn_remove_trailing_zeros ds l, mpz_dig := ds\<rparr>)"

text \<open>The digits from the top down.\<close>

definition top_down :: "mpz \<Rightarrow> nat list" where
  "top_down z = rev (take (mpz_len z) (mpz_dig z))"

definition mpz_hash :: "mpz \<Rightarrow> int" where
  "mpz_hash z =
     (let val = foldl (\<lambda>val d. u64 (push_bit DIG_SIZE val) OR d) 0 (top_down z)
      in s64 (if mpz_neg z then int (to_u64 (- int val)) else int val))"

fun as_uint_loop :: "nat \<Rightarrow> nat \<Rightarrow> nat list \<Rightarrow> nat option" where
  "as_uint_loop lim val [] = Some val"
| "as_uint_loop lim val (d # ds) = (if val > lim then None else as_uint_loop lim (u64 (push_bit DIG_SIZE val) OR d) ds)"

definition mpz_as_int_checked :: "mpz \<Rightarrow> int option" where
  "mpz_as_int_checked z =
     map_option (\<lambda>val. s64 (if mpz_neg z then int (to_u64 (- int val)) else int val))
       (as_uint_loop (drop_bit DIG_SIZE (2 ^ 63 - 1)) 0 (top_down z))"

definition mpz_as_uint_checked :: "mpz \<Rightarrow> nat option" where
  "mpz_as_uint_checked z =
     (if mpz_neg z then None else as_uint_loop (drop_bit (DIG_SIZE - 1) (2 ^ 63 - 1)) 0 (top_down z))"

text \<open>
  The bytes of a digit.  The result tells whether the end of the buffer was reached; \<open>out\<close> holds the
  bytes written so far, low byte first.
\<close>

fun as_bytes_digit :: "bool \<Rightarrow> nat \<Rightarrow> nat \<Rightarrow> nat \<Rightarrow> nat \<Rightarrow> nat list \<Rightarrow> bool \<times> nat \<times> nat list" where
  "as_bytes_digit neg len 0 d carry out = (False, carry, out)"
| "as_bytes_digit neg len (Suc n) d carry out =
     (let val = u32 d;
          (val, carry) = (if neg then (let v = ((val XOR 4294967295) AND 255) + carry in (v, v div 256)) else (val, carry));
          out = out @ [u8 val]
      in if length out = len then (True, carry, out) else as_bytes_digit neg len n (d div 256) carry out)"

fun as_bytes_loop :: "bool \<Rightarrow> nat \<Rightarrow> nat list \<Rightarrow> nat \<Rightarrow> nat list \<Rightarrow> nat list" where
  "as_bytes_loop neg len [] carry out = out"
| "as_bytes_loop neg len (d # ds) carry out =
     (case as_bytes_digit neg len (DIG_SIZE div 8) d carry out of
        (done, carry, out) \<Rightarrow> if done then out else as_bytes_loop neg len ds carry out)"

text \<open>The bytes that are written, in the order in which they are: upwards from the start of the buffer for
  little-endian, downwards from its end for big-endian.\<close>

definition mpz_as_bytes_written :: "mpz \<Rightarrow> nat \<Rightarrow> nat list" where
  "mpz_as_bytes_written z len = as_bytes_loop (mpz_neg z) len (take (mpz_len z) (mpz_dig z)) 1 []"

definition mpz_as_bytes :: "mpz \<Rightarrow> bool \<Rightarrow> nat list \<Rightarrow> nat list" where
  "mpz_as_bytes z big_endian buf =
     (let w = mpz_as_bytes_written z (length buf)
      in if big_endian then take (length buf - length w) buf @ rev w else w @ drop (length w) buf)"

text \<open>One round of a conversion to text: the digits are divided by the base, from the top down.\<close>

primrec str_divide :: "nat \<Rightarrow> nat \<Rightarrow> nat \<Rightarrow> nat list \<Rightarrow> nat \<times> nat list" where
  "str_divide base 0 a ds = (a, ds)"
| "str_divide base (Suc n) a ds =
     (let a = push_bit DIG_SIZE a OR ds ! n in str_divide base n (a mod base) (ds[n := u32 (a div base)]))"

partial_function (option) as_str_loop :: "nat \<Rightarrow> nat \<Rightarrow> nat \<Rightarrow> nat list \<Rightarrow> nat list \<Rightarrow> nat \<Rightarrow> nat list option" where
  "as_str_loop base base_char comma ds s last_comma =
     (let (a, ds) = str_divide base (length ds) 0 ds;
          a = a + 48;
          a = (if a > 57 then a + (base_char - 57 - 1) else a);
          s = s @ [a];
          done = (\<forall>d \<in> set ds. d = 0);
          (s, last_comma) = (if comma \<noteq> 0 \<and> length s - last_comma = 3 then (s @ [comma], length s + 1) else (s, last_comma))
      in if done then Some s else as_str_loop base base_char comma ds s last_comma)"

declare as_str_loop.simps [code]

definition mpz_as_str_inpl :: "mpz \<Rightarrow> nat \<Rightarrow> nat list \<Rightarrow> nat \<Rightarrow> nat \<Rightarrow> nat list option" where
  "mpz_as_str_inpl z base prefix base_char comma =
     (if mpz_len z = 0 then Some (prefix @ [48])
      else map_option (\<lambda>s. rev (s @ rev prefix @ (if mpz_neg z then [45] else [])))
             (as_str_loop base base_char comma (take (mpz_len z) (mpz_dig z)) [] 0))"

section \<open>Machine integers\<close>

definition top_val :: "nat \<Rightarrow> nat list \<Rightarrow> nat" where
  "top_val v ds = foldl (\<lambda>v d. v * DIG_BASE + d) v ds"

lemma top_val_rev: "top_val v (rev ds) = v * DIG_BASE ^ length ds + dval ds"
  by (induction ds) (simp_all add: top_val_def algebra_simps)

lemma top_val_mono: "v * DIG_BASE ^ length ds \<le> top_val v ds"
  using top_val_rev [of v "rev ds"] by simp

lemma shift_in_digit: "d < DIG_BASE \<Longrightarrow> u64 (push_bit DIG_SIZE v) OR d = (v * DIG_BASE + d) mod 2 ^ 64"
proof -
  assume d: "d < DIG_BASE"
  have sq: "(2 :: nat) ^ 64 = DIG_BASE * DIG_BASE" by (simp add: DIG_BASE_square)
  have "u64 (push_bit DIG_SIZE v) = push_bit DIG_SIZE (v mod DIG_BASE)"
  proof -
    have p: "push_bit DIG_SIZE v = v * DIG_BASE" for v :: nat by (simp add: push_bit_eq_mult DIG_BASE_def)
    show ?thesis unfolding u64_def sq p by (simp only: mod_mult_mult2)
  qed
  then have "u64 (push_bit DIG_SIZE v) OR d = d + DIG_BASE * (v mod DIG_BASE)" using or_push_digit [OF d] by (simp add: or.commute)
  also have "\<dots> = (v * DIG_BASE + d) mod 2 ^ 64"
    unfolding sq using d by (simp add: mod_mult2_eq)
  finally show ?thesis .
qed

lemma hash_fold:
  assumes "digits ds"
  shows "foldl (\<lambda>val d. u64 (push_bit DIG_SIZE val) OR d) (v mod 2 ^ 64) ds = top_val v ds mod 2 ^ 64"
  using assms
proof (induction ds arbitrary: v)
  case (Cons d ds)
  have "u64 (push_bit DIG_SIZE (v mod 2 ^ 64)) OR d = (v * DIG_BASE + d) mod 2 ^ 64"
    using shift_in_digit [of d "v mod 2 ^ 64"] Cons.prems unfolding digits_Cons
    by (metis mod_add_left_eq mod_mult_left_eq)
  then show ?case using Cons by (simp add: top_val_def)
qed (simp add: top_val_def)

lemma digits_rev [simp]: "digits (rev ds) \<longleftrightarrow> digits ds" by (simp add: digits_def)

lemma top_down_val:
  assumes "mpz_ok z"
  shows "digits (top_down z)" and "top_val 0 (top_down z) = mpz_mag z"
  using assms by (simp_all add: top_down_def top_val_rev mpz_mag_def mpz_ok_def normal_def digits_take)

lemma s64_wrap: "s64 (i mod 2 ^ 64) = s64 i"
  by (simp add: s64_def mod_simps)

lemma s64_signed: "s64 (if neg then int (to_u64 (- int (n mod 2 ^ 64))) else int (n mod 2 ^ 64)) = s64 (tc neg n)"
proof (cases neg)
  case True
  have "int (to_u64 (- int (n mod 2 ^ 64))) = (- int n) mod 2 ^ 64"
    by (simp add: to_u64_def zmod_int mod_simps)
  then show ?thesis using True s64_wrap [of "- int n"] by (simp add: tc_def)
next
  case False
  then show ?thesis using s64_wrap [of "int n"] by (simp add: tc_def zmod_int)
qed

lemma mpz_hash_wraps:
  assumes "mpz_ok z"
  shows "mpz_hash z = s64 (mpz_val z)"
proof -
  have "foldl (\<lambda>val d. u64 (push_bit DIG_SIZE val) OR d) 0 (top_down z) = mpz_mag z mod 2 ^ 64"
    using hash_fold [OF top_down_val(1) [OF assms], of 0] top_down_val(2) [OF assms] by simp
  then show ?thesis by (simp only: mpz_hash_def mpz_val_def Let_def s64_signed)
qed

lemma as_uint_loop_val:
  assumes "digits ds" and "Suc lim * DIG_BASE \<le> 2 ^ 64"
  shows "as_uint_loop lim v ds = (if ds = [] \<or> top_val v ds < Suc lim * DIG_BASE then Some (top_val v ds) else None)"
  using assms(1)
proof (induction ds arbitrary: v)
  case (Cons d ds)
  have "v * DIG_BASE \<le> top_val v (d # ds)"
  proof -
    have "v * DIG_BASE * 1 \<le> (v * DIG_BASE + d) * DIG_BASE ^ length ds" by (intro mult_le_mono) simp_all
    then show ?thesis using top_val_mono [of "v * DIG_BASE + d" ds] by (simp add: top_val_def)
  qed
  moreover have "Suc lim * DIG_BASE \<le> v * DIG_BASE" if "lim < v" using that by (intro mult_le_mono) simp_all
  moreover have "v * DIG_BASE + d < Suc lim * DIG_BASE" if "v \<le> lim"
  proof -
    have "v * DIG_BASE \<le> lim * DIG_BASE" using that by (rule mult_le_mono1)
    moreover have "d < DIG_BASE" using Cons.prems by simp
    ultimately show ?thesis unfolding mult_Suc by linarith
  qed
  moreover have "u64 (push_bit DIG_SIZE v) OR d = v * DIG_BASE + d" if "v * DIG_BASE + d < Suc lim * DIG_BASE"
    using shift_in_digit [of d v] Cons.prems that assms(2) by simp
  moreover have "top_val v (d # ds) = top_val (v * DIG_BASE + d) ds" by (simp add: top_val_def)
  moreover have "as_uint_loop lim (v * DIG_BASE + d) ds =
      (if ds = [] \<or> top_val (v * DIG_BASE + d) ds < Suc lim * DIG_BASE then Some (top_val (v * DIG_BASE + d) ds) else None)"
    using Cons by simp
  moreover have "ds = [] \<Longrightarrow> top_val (v * DIG_BASE + d) ds = v * DIG_BASE + d" by (simp add: top_val_def)
  ultimately show ?case by (cases "lim < v") (simp_all add: not_less)
qed (simp add: top_val_def)

lemma mpz_as_int_checked_val:
  assumes "mpz_ok z"
  shows "mpz_as_int_checked z = (if mpz_mag z < 2 ^ 63 then Some (mpz_val z) else None)"
proof -
  let ?l = "drop_bit DIG_SIZE (2 ^ 63 - 1) :: nat"
  have l: "Suc ?l * DIG_BASE = 2 ^ 63" by (simp add: DIG_BASE_def drop_bit_eq_div)
  have "as_uint_loop ?l 0 (top_down z) = (if top_down z = [] \<or> mpz_mag z < 2 ^ 63 then Some (mpz_mag z) else None)"
    by (rule as_uint_loop_val [OF top_down_val(1) [OF assms], of ?l 0, unfolded l top_down_val(2) [OF assms]]) simp
  moreover have "top_down z = [] \<Longrightarrow> mpz_mag z = 0" by (auto simp: top_down_def mpz_mag_def)
  moreover have "s64 (if mpz_neg z then int (to_u64 (- int (mpz_mag z))) else int (mpz_mag z)) = mpz_val z" if "mpz_mag z < 2 ^ 63"
  proof -
    have m: "mpz_mag z mod 2 ^ 64 = mpz_mag z" using that by simp
    show ?thesis using s64_signed [of "mpz_neg z" "mpz_mag z", unfolded m] that by (simp add: mpz_val_def) (simp add: s64_def tc_def)
  qed
  ultimately show ?thesis by (auto simp: mpz_as_int_checked_def)
qed

lemma mpz_as_uint_checked_val:
  assumes "mpz_ok z"
  shows "mpz_as_uint_checked z = (if \<not> mpz_neg z \<and> mpz_mag z < 2 ^ 64 then Some (mpz_mag z) else None)"
proof -
  let ?l = "drop_bit (DIG_SIZE - 1) (2 ^ 63 - 1) :: nat"
  have l: "Suc ?l * DIG_BASE = 2 ^ 64" by (simp add: DIG_BASE_def drop_bit_eq_div)
  have "as_uint_loop ?l 0 (top_down z) = (if top_down z = [] \<or> mpz_mag z < 2 ^ 64 then Some (mpz_mag z) else None)"
    by (rule as_uint_loop_val [OF top_down_val(1) [OF assms], of ?l 0, unfolded l top_down_val(2) [OF assms]]) simp
  moreover have "top_down z = [] \<Longrightarrow> mpz_mag z = 0" by (auto simp: top_down_def mpz_mag_def)
  ultimately show ?thesis by (auto simp: mpz_as_uint_checked_def)
qed

section \<open>Text\<close>

text \<open>The value of the longest prefix of digits, and its length.\<close>

fun parsed :: "nat \<Rightarrow> nat \<Rightarrow> nat list \<Rightarrow> nat \<times> nat" where
  "parsed base v [] = (0, v)"
| "parsed base v (c # cs) =
     (case digit_value base c of None \<Rightarrow> (0, v) | Some d \<Rightarrow> let (n, w) = parsed base (v * base + d) cs in (Suc n, w))"

lemma digit_value_less: "digit_value base c = Some d \<Longrightarrow> d < base"
  by (auto simp: digit_value_def Let_def split: if_splits)

lemma from_str_loop_val:
  assumes "normal (m ()) l" and "dval (take l (m ())) < 256 ^ cur" and "0 < base" and "base \<le> 256"
    and "256 ^ (cur + length cs) \<le> DIG_BASE ^ length (m ())"
  shows "\<exists>k m'. from_str_loop base cs cur l m = (cur + fst (parsed base (dval (take l (m ()))) cs), k, m') \<and> length (m' ()) = length (m ()) \<and>
    normal (m' ()) k \<and> dval (take k (m' ())) = snd (parsed base (dval (take l (m ()))) cs)"
  using assms
proof (induction cs arbitrary: cur l m)
  case (Cons c cs)
  show ?case
  proof (cases "digit_value base c")
    case (Some d)
    let ?v = "dval (take l (m ()))"
    have d: "d < base" using digit_value_less [OF Some] .
    have "?v * base + d < (?v + 1) * base" using d by simp
    also have "\<dots> \<le> 256 ^ cur * 256" using Cons.prems(2,4) by (intro mult_le_mono) simp_all
    finally have v: "?v * base + d < 256 ^ (cur + 1)" by simp
    also have "\<dots> \<le> 256 ^ (cur + length (c # cs))" by (intro power_increasing) simp_all
    finally have bound: "?v * base + d < DIG_BASE ^ length (m ())" using Cons.prems(5) by linarith
    have "l < length (m ()) \<or> ?v * base + d < DIG_BASE ^ l"
      using bound Cons.prems(1) by (cases "l = length (m ())") (auto simp: normal_def)
    moreover have "base < DIG_BASE" "d < DIG_BASE" using d Cons.prems(4) by (simp_all add: DIG_BASE_def)
    ultimately obtain k m' where step: "mpn_mul_dig_add_dig () l base d m = (k, m')" and s: "stored () (?v * base + d) k m m'"
      using mpn_mul_dig_add_dig_stored [where m = m and i = "()", OF Cons.prems(1,3)] by metis
    have "\<exists>k' m''. from_str_loop base cs (cur + 1) k m' = (cur + 1 + fst (parsed base (dval (take k (m' ()))) cs), k', m'') \<and>
        length (m'' ()) = length (m' ()) \<and> normal (m'' ()) k' \<and> dval (take k' (m'' ())) = snd (parsed base (dval (take k (m' ()))) cs)"
      using s v Cons.prems(3-5) by (intro Cons.IH) (auto simp: stored_def)
    then show ?thesis using s Some step by (auto simp: stored_def split: prod.split)
  qed (use Cons.prems in auto)
qed simp

lemma mpz_set_from_str_val:
  assumes "mpz_ok z" and "0 < base" and "base \<le> 36"
  shows "fst (mpz_set_from_str z str neg base) = fst (parsed base 0 str)" and "mpz_ok (snd (mpz_set_from_str z str neg base))"
    and "mpz_val (snd (mpz_set_from_str z str neg base)) = tc neg (snd (parsed base 0 str))"
proof -
  let ?n = "length str * 8 div DIG_SIZE + 1"
  define z' where "z' = mpz_need_dig ?n z"
  note n = need_dig [OF assms(1), of ?n, folded z'_def]
  have "(256 :: nat) ^ length str = 2 ^ (8 * length str)" by (simp add: power_mult)
  also have "\<dots> \<le> 2 ^ (DIG_SIZE * ?n)" by (intro power_increasing) auto
  also have "\<dots> = DIG_BASE ^ ?n" unfolding DIG_BASE_def power_mult ..
  also have "\<dots> \<le> DIG_BASE ^ length (mpz_dig z')" using n(5) by (rule power_increasing) simp
  finally have room: "256 ^ (0 + length str) \<le> DIG_BASE ^ length (mpz_dig z')" by simp
  have "normal (mpz_dig z') 0" using n(1) by (simp add: mpz_ok_def normal_def)
  from from_str_loop_val [where m = "\<lambda>_. mpz_dig z'" and l = 0 and cur = 0 and cs = str and base = base, OF this _ assms(2) _ room] assms(3)
  obtain k m' where "from_str_loop base str 0 0 (\<lambda>_. mpz_dig z') = (fst (parsed base 0 str), k, m')" "length (m' ()) = length (mpz_dig z')"
    "normal (m' ()) k" "dval (take k (m' ())) = snd (parsed base 0 str)" by auto
  then show "fst (mpz_set_from_str z str neg base) = fst (parsed base 0 str)" "mpz_ok (snd (mpz_set_from_str z str neg base))"
    "mpz_val (snd (mpz_set_from_str z str neg base)) = tc neg (snd (parsed base 0 str))"
    using n(1) unfolding mpz_set_from_str_def Let_def z'_def [symmetric] by (simp_all add: mpz_ok_def mpz_val_def mpz_mag_def)
qed

lemma str_divide_val:
  assumes "digits ds" and "n \<le> length ds" and "a < base" and "base \<le> DIG_BASE" and "str_divide base n a ds = (r, es)"
  shows "r < base \<and> digits es \<and> length es = length ds \<and> drop n es = drop n ds \<and>
    a * DIG_BASE ^ n + dval (take n ds) = base * dval (take n es) + r"
  using assms
proof (induction n arbitrary: a ds)
  case 0
  then show ?case by simp
next
  case (Suc n)
  let ?a = "push_bit DIG_SIZE a OR ds ! n"
  have dn: "ds ! n < DIG_BASE" using Suc.prems by (simp add: digits_nth)
  have a: "?a = a * DIG_BASE + ds ! n" using or_push_digit [OF dn, of a] by (simp add: or.commute algebra_simps)
  have "a * DIG_BASE + ds ! n < (a + 1) * DIG_BASE" using dn by simp
  also have "\<dots> \<le> base * DIG_BASE" using Suc.prems(3) by (intro mult_le_mono) simp_all
  finally have q: "?a div base < DIG_BASE" unfolding a by (simp add: less_mult_imp_div_less mult.commute)
  define ds' where "ds' = ds[n := ?a div base]"
  have "str_divide base n (?a mod base) ds' = (r, es)"
    using Suc.prems(5) q by (simp add: ds'_def Let_def DIG_BASE_def)
  moreover have "digits ds'" "n \<le> length ds'" using Suc.prems q by (simp_all add: ds'_def digits_update)
  ultimately have IH: "r < base" "digits es" "length es = length ds'" "drop n es = drop n ds'"
    "?a mod base * DIG_BASE ^ n + dval (take n ds') = base * dval (take n es) + r"
    using Suc.IH [of ds' "?a mod base"] Suc.prems(3,4) by auto
  have en: "es ! n = ?a div base" "drop (Suc n) es = drop (Suc n) ds"
    using arg_cong [OF IH(4), of hd] arg_cong [OF IH(4), of tl] IH(3) Suc.prems(2)
    by (simp_all add: hd_drop_conv_nth ds'_def drop_Suc tl_drop) (metis drop_Suc drop_update_cancel lessI tl_drop)
  have "base * dval (take (Suc n) es) + r = ?a mod base * DIG_BASE ^ n + dval (take n ds) + base * (DIG_BASE ^ n * (?a div base))"
    using IH(3,5) en(1) Suc.prems(2) by (simp add: take_snoc dval_snoc ds'_def algebra_simps)
  also have "\<dots> = dval (take n ds) + DIG_BASE ^ n * (?a mod base + base * (?a div base))"
    by (simp only: distrib_left mult.assoc mult.commute mult.left_commute add.assoc add.commute add.left_commute)
  also have "\<dots> = a * DIG_BASE ^ Suc n + dval (take (Suc n) ds)"
    using Suc.prems(2) unfolding a by (simp add: take_snoc dval_snoc algebra_simps)
  finally show ?case using IH en(2) by (simp add: ds'_def)
qed

text \<open>The digits of a number in a base, lowest first.\<close>

function base_digits :: "nat \<Rightarrow> nat \<Rightarrow> nat list" where
  "base_digits base v = (if v < base \<or> base < 2 then [v] else v mod base # base_digits base (v div base))"
  by pat_completeness auto
termination by (relation "measure snd") (auto intro!: div_less_dividend)

declare base_digits.simps [simp del]

definition digit_char :: "nat \<Rightarrow> nat \<Rightarrow> nat" where
  "digit_char base_char d = (if d < 10 then 48 + d else base_char + (d - 10))"

lemma as_str_loop_val:
  assumes "digits ds" and "2 \<le> base" and "base \<le> 36" and "57 < base_char"
  shows "as_str_loop base base_char 0 ds s lc = Some (s @ map (digit_char base_char) (base_digits base (dval ds)))"
  using assms(1)
proof (induction "dval ds" arbitrary: ds s lc rule: less_induct)
  case less
  obtain r es where div: "str_divide base (length ds) 0 ds = (r, es)" by fastforce
  have "base \<le> DIG_BASE" using assms(3) by (simp add: DIG_BASE_def)
  from str_divide_val [OF less.prems order_refl _ this div] assms(2)
  have es: "r < base" "digits es" "dval ds = base * dval es + r" "length es = length ds" by auto
  have qr: "dval ds div base = dval es" "dval ds mod base = r" using es(1,3) by simp_all
  have ch: "(if r + 48 > 57 then r + 48 + (base_char - 57 - 1) else r + 48) = digit_char base_char r"
    using assms(4) by (simp add: digit_char_def add.commute)
  have fin: "(\<forall>d \<in> set es. d = 0) \<longleftrightarrow> dval ds < base"
    unfolding dval_zero_iff [symmetric] using qr(1) assms(2) by (auto simp: div_eq_0_iff)
  have step: "as_str_loop base base_char 0 ds s lc =
      (if dval ds < base then Some (s @ [digit_char base_char r]) else as_str_loop base base_char 0 es (s @ [digit_char base_char r]) lc)"
    by (subst as_str_loop.simps) (simp only: div prod.case Let_def ch fin simp_thms if_False)
  show ?case
  proof (cases "dval ds < base")
    case True
    then show ?thesis
      using step qr by (simp add: base_digits.simps)
  next
    case False
    then have "dval es < dval ds" using es(3) assms(2) qr(1) by (metis div_less_dividend gr_zeroI less_le_trans not_less one_less_numeral_iff
        semiring_norm(76) less_nat_zero_code)
    then have "as_str_loop base base_char 0 es (s @ [digit_char base_char r]) lc =
        Some ((s @ [digit_char base_char r]) @ map (digit_char base_char) (base_digits base (dval es)))"
      using less.hyps es(2) by blast
    then show ?thesis
      using False step qr assms(2) by (subst base_digits.simps) simp
  qed
qed

lemma digit_value_char:
  assumes "d < base" and "base \<le> 36" and "c \<in> {65, 97}"
  shows "digit_value base (digit_char c d) = Some d"
  using assms by (auto simp: digit_value_def digit_char_def Let_def)

lemma parsed_digits:
  assumes "\<forall>d \<in> set ds. d < base" and "base \<le> 36" and "c \<in> {65, 97}"
  shows "parsed base v (map (digit_char c) ds) = (length ds, foldl (\<lambda>v d. v * base + d) v ds)"
  using assms(1) by (induction ds arbitrary: v) (simp_all add: digit_value_char [OF _ assms(2,3)])

lemma base_digits_less: "2 \<le> base \<Longrightarrow> \<forall>d \<in> set (base_digits base v). d < base"
  by (induction base v rule: base_digits.induct) (subst base_digits.simps, auto)

lemma base_digits_val: "2 \<le> base \<Longrightarrow> foldl (\<lambda>v d. v * base + d) 0 (rev (base_digits base v)) = v"
proof (induction base v rule: base_digits.induct)
  case (1 base v)
  then show ?case by (cases "v < base") (simp_all add: base_digits.simps [of base v])
qed

lemma mpz_as_str_val:
  assumes "mpz_ok z" and "2 \<le> base" and "base \<le> 36" and "57 < base_char"
  shows "mpz_as_str_inpl z base prefix base_char 0 =
    Some ((if mpz_neg z \<and> mpz_len z \<noteq> 0 then [45] else []) @ prefix @ rev (map (digit_char base_char) (base_digits base (mpz_mag z))))"
proof (cases "mpz_len z = 0")
  case True
  then show ?thesis using assms by (simp add: mpz_as_str_inpl_def mpz_mag_def base_digits.simps digit_char_def)
next
  case False
  have "digits (take (mpz_len z) (mpz_dig z))" using assms(1) by (simp add: mpz_ok_def normal_def digits_take)
  from as_str_loop_val [OF this assms(2-4)] False show ?thesis by (simp add: mpz_as_str_inpl_def mpz_mag_def)
qed

section \<open>Bytes\<close>

fun bval :: "nat list \<Rightarrow> nat" where
  "bval [] = 0"
| "bval (b # bs) = b + 256 * bval bs"

lemma bval_append: "bval (xs @ ys) = bval xs + 256 ^ length xs * bval ys"
  by (induction xs) (simp_all add: algebra_simps)

lemma bval_less: "\<forall>b \<in> set bs. b < 256 \<Longrightarrow> bval bs < 256 ^ length bs"
  by (induction bs) fastforce+

lemma from_bytes_digit_val:
  assumes "\<forall>b \<in> set bs. b < 256" and "d < 2 ^ (8 * k)" and "k \<le> 4"
  shows "from_bytes_digit d (8 * k) bs = (d + 2 ^ (8 * k) * bval (take (4 - k) bs), drop (4 - k) bs)"
  using assms
proof (induction bs arbitrary: d k)
  case Nil
  then show ?case by (simp add: from_bytes_digit.simps)
next
  case (Cons b bs)
  show ?case
  proof (cases "k = 4")
    case False
    then have k: "k < 4" using Cons.prems(3) by simp
    have bd: "b * 2 ^ (8 * k) < 2 ^ (8 * Suc k)" using Cons.prems(1) by (simp add: power_add)
    also have "\<dots> \<le> 2 ^ 32" using k by (intro power_increasing) simp_all
    finally have u: "u32 (push_bit (8 * k) b) = push_bit (8 * k) b" by (simp add: u32_def push_bit_eq_mult)
    have or: "d OR push_bit (8 * k) b = b * 2 ^ (8 * k) + d"
      using shift_or [of "8 * k" d b] k Cons.prems(2) by (simp add: or.commute)
    have "d + b * 2 ^ (8 * k) < 2 ^ (8 * k) + b * 2 ^ (8 * k)" using Cons.prems(2) by simp
    also have "\<dots> \<le> 2 ^ (8 * k) * 256" using Cons.prems(1) mult_le_mono1 [of "b + 1" 256 "2 ^ (8 * k)"] by (simp add: algebra_simps)
    finally have less: "b * 2 ^ (8 * k) + d < 2 ^ (8 * Suc k)" by (simp add: power_add add.commute)
    have "from_bytes_digit d (8 * k) (b # bs) = from_bytes_digit (b * 2 ^ (8 * k) + d) (8 * Suc k) bs"
      using k u or by (subst from_bytes_digit.simps) (simp add: add.commute)
    also have "\<dots> = (b * 2 ^ (8 * k) + d + 2 ^ (8 * Suc k) * bval (take (4 - Suc k) bs), drop (4 - Suc k) bs)"
      using Cons.prems(1) less k by (intro Cons.IH) simp_all
    finally show ?thesis using k by (simp add: power_add algebra_simps Suc_diff_Suc [symmetric])
  qed (simp add: from_bytes_digit.simps)
qed

lemma from_bytes_loop_val:
  assumes "\<forall>b \<in> set bs. b < 256" and "digits ds" and "l + (length bs + 3) div 4 \<le> length ds" and "from_bytes_loop bs l ds = (k, es)"
  shows "length es = length ds \<and> digits es \<and> k \<le> length ds \<and> dval (take k es) = dval (take l ds) + DIG_BASE ^ l * bval bs"
  using assms
proof (induction bs l ds rule: from_bytes_loop.induct)
  case (1 bs l ds)
  show ?case
  proof (cases "bs = []")
    case True
    then show ?thesis using "1.prems" by (simp add: from_bytes_loop.simps)
  next
    case False
    let ?d = "bval (take 4 bs)"
    have d: "from_bytes_digit 0 0 bs = (?d, drop 4 bs)" using from_bytes_digit_val [OF "1.prems"(1), of 0 0] by simp
    have "?d < 256 ^ length (take 4 bs)" using "1.prems"(1) by (intro bval_less) (auto dest: in_set_takeD)
    also have "(256 :: nat) ^ length (take 4 bs) \<le> 256 ^ 4" by (intro power_increasing) simp_all
    finally have less: "?d < DIG_BASE" by (simp add: DIG_BASE_def)
    have "0 < length bs" using False by simp
    then have len: "(length bs + 3) div 4 = Suc ((length (drop 4 bs) + 3) div 4)" unfolding length_drop by presburger
    have l: "l < length ds" using "1.prems"(3) len by simp
    have "from_bytes_loop (drop 4 bs) (l + 1) (ds[l := ?d mod DIG_BASE]) = (k, es)"
      using "1.prems"(4) False d by (subst (asm) from_bytes_loop.simps) simp
    from "1.IH" [OF False d [symmetric] refl _ _ _ this] "1.prems" len less l
    have IH: "length es = length ds" "digits es" "k \<le> length ds"
      "dval (take k es) = dval (take (Suc l) (ds[l := ?d])) + DIG_BASE ^ Suc l * bval (drop 4 bs)"
      by (auto simp: digits_update dest: in_set_dropD)
    have "bval bs = ?d + 256 ^ length (take 4 bs) * bval (drop 4 bs)"
      using bval_append [of "take 4 bs" "drop 4 bs"] by simp
    moreover have "256 ^ length (take 4 bs) * bval (drop 4 bs) = DIG_BASE * bval (drop 4 bs)"
      by (cases "length bs \<le> 4") (auto simp: DIG_BASE_def min_def)
    ultimately have "bval bs = ?d + DIG_BASE * bval (drop 4 bs)" by simp
    then show ?thesis using IH l by (simp add: take_snoc dval_snoc algebra_simps)
  qed
qed

lemma mpz_set_from_bytes_val:
  assumes "mpz_ok z" and "\<forall>b \<in> set buf. b < 256"
  shows "mpz_ok (mpz_set_from_bytes z big_endian buf)"
    and "mpz_val (mpz_set_from_bytes z big_endian buf) = int (bval (if big_endian then rev buf else buf))"
proof -
  let ?n = "(length buf * 8 + DIG_SIZE - 1) div DIG_SIZE" and ?b = "if big_endian then rev buf else buf"
  define z' where "z' = mpz_need_dig ?n z"
  note n = need_dig [OF assms(1), of ?n, folded z'_def]
  have "?n = (length ?b + 3) div 4" by (auto simp: le_div_geq)
  then have "0 + (length ?b + 3) div 4 \<le> length (mpz_dig z')" using n(5) by simp
  moreover obtain l ds where loop: "from_bytes_loop ?b 0 (mpz_dig z') = (l, ds)" by fastforce
  moreover have "\<forall>b \<in> set ?b. b < 256" "digits (mpz_dig z')" using assms(2) n(1) by (auto simp: mpz_ok_def normal_def)
  ultimately have "length ds = length (mpz_dig z')" "digits ds" "l \<le> length ds" "dval (take l ds) = bval ?b"
    using from_bytes_loop_val [of ?b "mpz_dig z'" 0 l ds] by auto
  then show "mpz_ok (mpz_set_from_bytes z big_endian buf)" "mpz_val (mpz_set_from_bytes z big_endian buf) = int (bval ?b)"
    using n(1) mpn_remove_trailing_zeros_val [of l ds] unfolding mpz_set_from_bytes_def Let_def z'_def [symmetric] loop
    by (simp_all add: mpz_ok_def mpz_val_def mpz_mag_def tc_def normal_remove_trailing_zeros)
qed

text \<open>
  The bytes of a two's complement number, and the carry of its computation from the complemented bytes
  of the magnitude: it is 1 as long as all bytes below are zero.
\<close>

lemma byte_step:
  fixes v i :: nat
  defines "b \<equiv> v div 256 ^ i mod 256" and "c \<equiv> of_bool (v mod 256 ^ i = 0)"
  shows "u8 (255 - b + c) = nat ((- int v) div 256 ^ i mod 256)" and "(255 - b + c) div 256 = of_bool (v mod 256 ^ Suc i = 0)"
proof -
  let ?h = "v div 256 ^ i"
  have "(- int v) div int (256 ^ i) = (if int v mod int (256 ^ i) = 0 then - (int v div int (256 ^ i)) else - (int v div int (256 ^ i)) - 1)"
    by (rule zdiv_zminus1_eq_if) simp
  then have div: "(- int v) div 256 ^ i = - int ?h - (if v mod 256 ^ i = 0 then 0 else 1)"
    unfolding zdiv_int [symmetric] zmod_int [symmetric] by simp
  have b: "b < 256" and h: "int ?h mod 256 = int b" by (simp_all add: b_def zmod_int)
  have neg: "(- int ?h) mod 256 = (if b = 0 then 0 else 256 - int b)" using zmod_zminus1_eq_if [of "int ?h" 256] h by simp
  have pred: "(- int ?h - 1) mod 256 = 255 - int b"
  proof -
    have "(- int ?h - 1) mod 256 = ((- int ?h) mod 256 - 1) mod 256" by (simp add: mod_diff_left_eq)
    also have "\<dots> = 255 - int b" using b unfolding neg by (auto simp: zmod_minus1)
    finally show ?thesis .
  qed
  show "u8 (255 - b + c) = nat ((- int v) div 256 ^ i mod 256)"
  proof (cases "v mod 256 ^ i = 0")
    case True
    then have "nat ((- int v) div 256 ^ i mod 256) = (if b = 0 then 0 else 256 - b)"
      unfolding div using neg b by (auto simp: nat_diff_distrib)
    then show ?thesis using True b by (auto simp: u8_def c_def Suc_diff_le)
  next
    case False
    then have "nat ((- int v) div 256 ^ i mod 256) = 255 - b" unfolding div using pred b by (simp add: nat_diff_distrib)
    then show ?thesis using False by (simp add: u8_def c_def)
  qed
  have "v mod 256 ^ Suc i = v mod 256 ^ i + 256 ^ i * b" by (simp add: b_def mod_mult2_eq mult.commute [of 256])
  then have "v mod 256 ^ Suc i = 0 \<longleftrightarrow> v mod 256 ^ i = 0 \<and> b = 0" by simp
  then show "(255 - b + c) div 256 = of_bool (v mod 256 ^ Suc i = 0)" using b by (auto simp: c_def)
qed

text \<open>Byte \<open>i\<close> of an integer.\<close>

definition int_byte :: "int \<Rightarrow> nat \<Rightarrow> nat" where
  "int_byte v i = nat (v div 256 ^ i mod 256)"

lemma digit_byte:
  assumes "t < 4"
  shows "v div DIG_BASE ^ j mod DIG_BASE div 256 ^ t mod 256 = v div 256 ^ (4 * j + t) mod 256"
proof -
  let ?w = "v div DIG_BASE ^ j"
  have B: "DIG_BASE = 256 ^ t * 256 ^ (4 - t)" using assms unfolding power_add [symmetric] by (simp add: DIG_BASE_def)
  have "?w mod DIG_BASE div 256 ^ t = ?w div 256 ^ t mod 256 ^ (4 - t)"
    by (subst (2) B) (simp add: mod_mult2_eq)
  also have "\<dots> mod 256 = ?w div 256 ^ t mod 256" using assms by (intro mod_mod_cancel) (simp add: dvd_power)
  also have "?w div 256 ^ t = v div 256 ^ (4 * j + t)"
    by (simp add: power_add power_mult DIG_BASE_def div_mult2_eq)
  finally show ?thesis .
qed

lemma int_byte_val:
  "int_byte (tc False v) i = v div 256 ^ i mod 256" "int_byte (tc True v) i = u8 (255 - v div 256 ^ i mod 256 + of_bool (v mod 256 ^ i = 0))"
proof -
  have "int v div 256 ^ i mod 256 = int (v div 256 ^ i mod 256)" by (simp add: zdiv_int zmod_int)
  then show "int_byte (tc False v) i = v div 256 ^ i mod 256" by (simp add: int_byte_def tc_def)
  show "int_byte (tc True v) i = u8 (255 - v div 256 ^ i mod 256 + of_bool (v mod 256 ^ i = 0))"
    using byte_step(1) [of v i] by (simp add: int_byte_def tc_def)
qed

lemma low_byte:
  fixes d :: nat
  shows "u8 (u32 d) = d mod 256" and "(u32 d XOR 4294967295) AND 255 = 255 - d mod 256"
proof -
  have "d mod 2 ^ 32 mod 2 ^ 8 = d mod 2 ^ 8" by (rule mod_mod_cancel) simp
  then show "u8 (u32 d) = d mod 256" by (simp add: u8_def u32_def)
  have m: "(4294967295 :: nat) = mask 32" "(255 :: nat) = mask 8" by (simp_all add: mask_eq_exp_minus_1)
  have "(u32 d XOR 4294967295) AND 255 = take_bit 8 (u32 d XOR mask 32)" unfolding m by (simp add: take_bit_eq_mask)
  also have "\<dots> = take_bit 8 d XOR mask 8"
  proof -
    have u: "u32 d = take_bit 32 d" by (simp add: u32_def take_bit_eq_mod)
    show ?thesis unfolding u by (rule bit_eqI) (auto simp: bit_simps)
  qed
  also have "\<dots> = mask 8 - take_bit 8 d"
  proof -
    have "take_bit 8 d AND (take_bit 8 d XOR mask 8) = 0" by (rule bit_eqI) (auto simp: bit_simps)
    then have "take_bit 8 d + (take_bit 8 d XOR mask 8) = take_bit 8 d OR (take_bit 8 d XOR mask 8)"
      by (rule disjunctive_add_eq_or)
    also have "\<dots> = mask 8" by (rule bit_eqI) (auto simp: bit_simps)
    finally show ?thesis by simp
  qed
  also have "\<dots> = 255 - d mod 256" by (simp add: take_bit_eq_mod mask_eq_exp_minus_1)
  finally show "(u32 d XOR 4294967295) AND 255 = 255 - d mod 256" .
qed

lemma as_bytes_digit_val:
  fixes v len i :: nat
  defines "stop n \<equiv> i < len \<and> len \<le> i + n"
  assumes "\<forall>t < n. e div 256 ^ t mod 256 = v div 256 ^ (i + t) mod 256" and "neg \<longrightarrow> carry = of_bool (v mod 256 ^ i = 0)"
  shows "\<exists>c. as_bytes_digit neg len n e carry (map (int_byte (tc neg v)) [0..<i]) =
      (i < len \<and> len \<le> i + n, c, map (int_byte (tc neg v)) [0..<if i < len \<and> len \<le> i + n then len else i + n]) \<and>
      (neg \<and> \<not> (i < len \<and> len \<le> i + n) \<longrightarrow> c = of_bool (v mod 256 ^ (i + n) = 0))"
  using assms(2,3)
proof (induction n arbitrary: e carry i)
  case 0
  then show ?case by simp
next
  case (Suc n)
  let ?out = "map (int_byte (tc neg v)) [0..<i]"
  have e0: "e mod 256 = v div 256 ^ i mod 256" using Suc.prems(1) [rule_format, of 0] by simp
  define val where "val = (if neg then 255 - e mod 256 + carry else u32 e)"
  define c where "c = (if neg then val div 256 else carry)"
  have byte: "u8 val = int_byte (tc neg v) i"
    using Suc.prems(2) e0 by (cases neg) (simp_all add: val_def int_byte_val low_byte(1))
  have carry: "neg \<longrightarrow> c = of_bool (v mod 256 ^ Suc i = 0)"
    using Suc.prems(2) e0 byte_step(2) [of v i] by (simp add: c_def val_def)
  have step: "as_bytes_digit neg len (Suc n) e carry ?out =
      (if Suc i = len then (True, c, map (int_byte (tc neg v)) [0..<Suc i])
       else as_bytes_digit neg len n (e div 256) c (map (int_byte (tc neg v)) [0..<Suc i]))"
    using byte by (cases "Suc i = len"; cases neg) (auto simp: Let_def c_def val_def low_byte(2))
  have "\<forall>t < n. e div 256 div 256 ^ t mod 256 = v div 256 ^ (Suc i + t) mod 256"
  proof (intro allI impI)
    fix t assume "t < n"
    then have "e div 256 ^ Suc t mod 256 = v div 256 ^ (i + Suc t) mod 256" using Suc.prems(1) by blast
    then show "e div 256 div 256 ^ t mod 256 = v div 256 ^ (Suc i + t) mod 256" by (simp add: div_mult2_eq)
  qed
  from Suc.IH [OF this carry] show ?case unfolding step by (cases "Suc i = len") auto
qed

lemma dval_nth:
  assumes "digits ds" and "j < length ds"
  shows "dval ds div DIG_BASE ^ j mod DIG_BASE = ds ! j"
proof -
  have "dval ds = dval (take j ds) + DIG_BASE ^ j * dval (drop j ds)"
    using dval_append [of "take j ds" "drop j ds"] assms(2) by simp
  moreover have "dval (take j ds) < DIG_BASE ^ j" using dval_less [OF digits_take [OF assms(1), of j]] assms(2) by simp
  moreover have "dval (drop j ds) = ds ! j + DIG_BASE * dval (drop (Suc j) ds)" using assms(2) by (simp flip: Cons_nth_drop_Suc)
  ultimately show ?thesis using digits_nth [OF assms] by simp
qed

lemma as_bytes_loop_val:
  assumes "digits ds" and "j \<le> length ds" and "neg \<longrightarrow> carry = of_bool (dval ds mod 256 ^ (4 * j) = 0)" and "\<not> (0 < len \<and> len \<le> 4 * j)"
  shows "as_bytes_loop neg len (drop j ds) carry (map (int_byte (tc neg (dval ds))) [0..<4 * j]) =
    map (int_byte (tc neg (dval ds))) [0..<if 0 < len then min len (4 * length ds) else 4 * length ds]"
  using assms(2-)
proof (induction "length ds - j" arbitrary: j carry)
  case 0
  then show ?case by (auto simp: min_absorb2)
next
  case (Suc k)
  then have j: "j < length ds" by simp
  let ?v = "dval ds" and ?n = "4 * j"
  have d: "drop j ds = ds ! j # drop (Suc j) ds" using j by (simp add: Cons_nth_drop_Suc)
  have "?v div DIG_BASE ^ j mod DIG_BASE = ds ! j" by (rule dval_nth [OF assms(1) j])
  then have "\<forall>t < 4. ds ! j div 256 ^ t mod 256 = ?v div 256 ^ (?n + t) mod 256" using digit_byte [of _ ?v j] by simp
  from as_bytes_digit_val [OF this Suc.prems(2), of len]
  obtain c where digit: "as_bytes_digit neg len 4 (ds ! j) carry (map (int_byte (tc neg ?v)) [0..<?n]) =
      (?n < len \<and> len \<le> ?n + 4, c, map (int_byte (tc neg ?v)) [0..<if ?n < len \<and> len \<le> ?n + 4 then len else ?n + 4])"
    and c: "neg \<and> \<not> (?n < len \<and> len \<le> ?n + 4) \<longrightarrow> c = of_bool (?v mod 256 ^ (?n + 4) = 0)" by blast
  show ?case
  proof (cases "?n < len \<and> len \<le> ?n + 4")
    case True
    then show ?thesis using digit j by (simp add: d min_absorb1)
  next
    case False
    have "as_bytes_loop neg len (drop (Suc j) ds) c (map (int_byte (tc neg ?v)) [0..<4 * Suc j]) =
        map (int_byte (tc neg ?v)) [0..<if 0 < len then min len (4 * length ds) else 4 * length ds]"
      using Suc.hyps(2) Suc.prems j False c by (intro Suc.hyps(1)) (auto simp: add.commute)
    moreover have F: "(?n < len \<and> len \<le> ?n + 4) = False" using False by simp
    have "as_bytes_loop neg len (drop j ds) carry (map (int_byte (tc neg ?v)) [0..<?n]) =
        as_bytes_loop neg len (drop (Suc j) ds) c (map (int_byte (tc neg ?v)) [0..<4 * Suc j])"
      using digit unfolding F if_False by (simp add: d add.commute)
    ultimately show ?thesis by simp
  qed
qed

lemma mpz_as_bytes_val:
  assumes "mpz_ok z"
  shows "mpz_as_bytes_written z len =
    map (int_byte (mpz_val z)) [0..<if 0 < len then min len (4 * mpz_len z) else 4 * mpz_len z]"
proof -
  let ?ds = "take (mpz_len z) (mpz_dig z)"
  have "digits ?ds" "length ?ds = mpz_len z" using assms by (auto simp: mpz_ok_def normal_def digits_take)
  then show ?thesis
    using as_bytes_loop_val [of ?ds 0 "mpz_neg z" 1 len] unfolding mpz_as_bytes_written_def mpz_val_def mpz_mag_def
    by (cases "len = 0") simp_all
qed

end
