(* ===== verification/MpnDivExample.thy ===== *)
theory MpnDivExample
  imports MpnDiv "HOL-Library.Code_Target_Nat"
begin

text \<open>
  A division in which the 64-bit borrow of \<^verbatim>\<open>mpn_div\<close> overflows: the leading digit of the numerator
  equals that of the denominator, the estimate of the quotient digit is \<open>2 ^ 32 + 1\<close>, and the quotient
  comes out as 1 where it is \<open>2 ^ 32 - 1\<close>.
\<close>

section \<open>When the borrow overflows\<close>

definition div_memory :: "nat bufs" where
  "div_memory = (\<lambda>_. [])
     (0 := [0, 0, DIG_BASE - 2, DIG_BASE div 2, 0], 1 := [DIG_BASE - 1, DIG_BASE - 1, DIG_BASE div 2], 2 := [0, 0, 0, 0])"


end
