(* ===== verification/MpzProps.thy ===== *)
theory MpzProps
  imports MpzConv MpnDivExample
begin

text \<open>
  The properties of the multi-precision integers, each with a witness on the store \<open>zstore_ex\<close>, and the
  inputs on which an operation does not do what its comment says.
\<close>

definition zstore_ex :: zstore where
  "zstore_ex = (\<lambda>_. mpz_init_zero)
     (Z 3 := \<lparr>mpz_neg = True, mpz_fixed = False, mpz_alloc = 2, mpz_len = 2, mpz_dig = [7, 5]\<rparr>,
      Z 2 := \<lparr>mpz_neg = False, mpz_fixed = False, mpz_alloc = 3, mpz_len = 1, mpz_dig = [1000, 0, 0]\<rparr>)"

lemma zstore_ex_ok [simp]: "mpz_ok (zstore_ex (Z 0))" "mpz_ok (zstore_ex (Z 3))" "mpz_ok (zstore_ex (Z 2))"
  by (simp_all add: zstore_ex_def mpz_ok_def normal_def digits_def DIG_BASE_def mpz_init_zero_def)

lemma zstore_ex_plain [simp]: "mpz_plain (zstore_ex (Z 3))" "mpz_plain (zstore_ex (Z 2))" "mpz_neg (zstore_ex (Z 3))"
  "\<not> mpz_neg (zstore_ex (Z 2))" "mpz_len (zstore_ex (Z 3)) = 2" "mpz_len (zstore_ex (Z 2)) = 1" "\<not> mpz_neg (zstore_ex (Z 0))"
  by (simp_all add: zstore_ex_def mpz_plain_def mpz_init_zero_def)





text \<open>
  C15.  Powers: \<^verbatim>\<open>mpz_pow_inpl\<close> computes the power of a base other than zero, whatever objects are
  shared; \<^verbatim>\<open>mpz_pow3_inpl\<close> the power modulo a number of magnitude above one, when the destination is a
  separate object, the exponent is positive and the digit division by the modulus is exact.
\<close>

theorem mpz_powers:
  assumes "mpz_ok (st dest)" and "mpz_ok (st lhs)" and "mpz_ok (st rhs)" and "{dest, lhs, rhs} \<inter> {Ztemp, Zx, Zn, Zquo, Zone} = {}"
    and "0 < mpz_len (st lhs)" and "\<not> mpz_neg (st rhs)"
  shows "assigned dest {Ztemp, Zx, Zn} (mpz_val (st lhs) ^ mpz_mag (st rhs)) st (mpz_pow_inpl dest lhs rhs st) \<and>
    (mpz_ok (st md) \<and> md \<notin> {Ztemp, Zx, Zn, Zquo, Zone} \<and> dest \<notin> {lhs, rhs, md} \<and> 0 < mpz_len (st rhs) \<and> 1 < mpz_mag (st md) \<and>
       div_exact (mpz_dig (st md)) (mpz_len (st md)) \<longrightarrow>
     (\<exists>st'. mpz_pow3_inpl dest lhs rhs md st = Some st' \<and>
        assigned dest {Ztemp, Zx, Zn, Zquo, Zone} (mpz_val (st lhs) ^ mpz_mag (st rhs) mod mpz_val (st md)) st st'))"
  using assms mpz_pow_assigned [of st dest lhs rhs] mpz_pow3_correct [of st dest lhs rhs md] by (auto split: if_splits)

theorem mpz_powers_witness:
  "assigned (Z 0) {Ztemp, Zx, Zn} (mpz_val (zstore_ex (Z 3)) ^ mpz_mag (zstore_ex (Z 2))) zstore_ex (mpz_pow_inpl (Z 0) (Z 3) (Z 2) zstore_ex) \<and>
   (\<exists>st'. mpz_pow3_inpl (Z 0) (Z 3) (Z 2) (Z 2) zstore_ex = Some st' \<and>
      assigned (Z 0) {Ztemp, Zx, Zn, Zquo, Zone} (mpz_val (zstore_ex (Z 3)) ^ mpz_mag (zstore_ex (Z 2)) mod mpz_val (zstore_ex (Z 2))) zstore_ex st')"
proof -
  have "1 < mpz_mag (zstore_ex (Z 2))" by (simp add: zstore_ex_def mpz_mag_def)
  then show ?thesis using mpz_powers [of zstore_ex "Z 0" "Z 3" "Z 2" "Z 2"] by (simp add: div_exact_def div_safe_def)
qed



text \<open>
  C17.  The bitwise operations are those on two's complement numbers of unbounded length, for operands
  in which zero has no sign.
\<close>

theorem mpz_bitwise:
  assumes "mpz_ok (st dest)" and "mpz_ok (st lhs)" and "mpz_ok (st rhs)" and "mpz_plain (st lhs)" and "mpz_plain (st rhs)"
    and "mpz_len (st lhs) < 2 ^ 64" and "mpz_len (st rhs) < 2 ^ 64"
  shows "assigned dest {} (mpz_val (st lhs) AND mpz_val (st rhs)) st (mpz_and_inpl dest lhs rhs st) \<and>
    assigned dest {} (mpz_val (st lhs) OR mpz_val (st rhs)) st (mpz_or_inpl dest lhs rhs st) \<and>
    assigned dest {} (mpz_val (st lhs) XOR mpz_val (st rhs)) st (mpz_xor_inpl dest lhs rhs st)"
  using mpz_and_assigned [OF assms] mpz_or_assigned [OF assms] mpz_xor_assigned [OF assms] by blast

theorem mpz_bitwise_witness:
  "assigned (Z 2) {} (mpz_val (zstore_ex (Z 3)) AND mpz_val (zstore_ex (Z 2))) zstore_ex (mpz_and_inpl (Z 2) (Z 3) (Z 2) zstore_ex) \<and>
   assigned (Z 2) {} (mpz_val (zstore_ex (Z 3)) OR mpz_val (zstore_ex (Z 2))) zstore_ex (mpz_or_inpl (Z 2) (Z 3) (Z 2) zstore_ex) \<and>
   assigned (Z 2) {} (mpz_val (zstore_ex (Z 3)) XOR mpz_val (zstore_ex (Z 2))) zstore_ex (mpz_xor_inpl (Z 2) (Z 3) (Z 2) zstore_ex)"
  using mpz_bitwise [of zstore_ex "Z 2" "Z 3" "Z 2"] by simp

text \<open>
  C18.  The two configurations agree: with \<^verbatim>\<open>MICROPY_OPT_MPZ_BITWISE\<close> the operations take other routines
  and leave the same values.
\<close>

theorem mpz_bitwise_configurations_agree:
  assumes "mpz_ok (st dest)" and "mpz_ok (st lhs)" and "mpz_ok (st rhs)" and "mpz_plain (st lhs)" and "mpz_plain (st rhs)"
    and "mpz_len (st lhs) < 2 ^ 64" and "mpz_len (st rhs) < 2 ^ 64"
  shows "mpz_val (mpz_and_inpl_opt dest lhs rhs st z) = mpz_val (mpz_and_inpl dest lhs rhs st z) \<and>
    mpz_val (mpz_or_inpl_opt dest lhs rhs st z) = mpz_val (mpz_or_inpl dest lhs rhs st z) \<and>
    mpz_val (mpz_xor_inpl_opt dest lhs rhs st z) = mpz_val (mpz_xor_inpl dest lhs rhs st z)"
  using mpz_and_assigned [OF assms] mpz_or_assigned [OF assms] mpz_xor_assigned [OF assms]
    mpz_and_opt_assigned [OF assms] mpz_or_opt_assigned [OF assms] mpz_xor_opt_assigned [OF assms]
  unfolding assigned_def by (cases "z = dest") simp_all

theorem mpz_bitwise_configurations_agree_witness:
  "mpz_val (mpz_and_inpl_opt (Z 0) (Z 3) (Z 2) zstore_ex (Z 0)) = mpz_val (mpz_and_inpl (Z 0) (Z 3) (Z 2) zstore_ex (Z 0)) \<and>
   mpz_val (mpz_or_inpl_opt (Z 0) (Z 3) (Z 2) zstore_ex (Z 0)) = mpz_val (mpz_or_inpl (Z 0) (Z 3) (Z 2) zstore_ex (Z 0)) \<and>
   mpz_val (mpz_xor_inpl_opt (Z 0) (Z 3) (Z 2) zstore_ex (Z 0)) = mpz_val (mpz_xor_inpl (Z 0) (Z 3) (Z 2) zstore_ex (Z 0))"
  using mpz_bitwise_configurations_agree [of zstore_ex "Z 0" "Z 3" "Z 2" "Z 0"] by simp

text \<open>
  C19.  Text round trip: an integer written in a base from 2 to 32 without separators reads back as
  itself, its sign apart; all of the text is read.  The conversion terminates.
\<close>

theorem mpz_text_roundtrip:
  assumes "mpz_ok z" and "mpz_ok y" and "2 \<le> base" and "base \<le> 32" and "base_char \<in> {65, 97}"
  shows "\<exists>s. mpz_as_str_inpl z base [] base_char 0 = Some ((if mpz_neg z \<and> mpz_len z \<noteq> 0 then [45] else []) @ s) \<and>
    fst (mpz_set_from_str y s (mpz_neg z) base) = length s \<and>
    mpz_ok (snd (mpz_set_from_str y s (mpz_neg z) base)) \<and> mpz_val (snd (mpz_set_from_str y s (mpz_neg z) base)) = mpz_val z"
proof -
  let ?ds = "rev (base_digits base (mpz_mag z))"
  have "parsed base 0 (map (digit_char base_char) ?ds) = (length ?ds, mpz_mag z)"
    using parsed_digits [of ?ds base base_char 0] base_digits_less [OF assms(3), of "mpz_mag z"] base_digits_val [OF assms(3)] assms(4,5) by simp
  then show ?thesis
    using mpz_as_str_val [OF assms(1,3), of base_char "[]"] mpz_set_from_str_val [OF assms(2), of base] assms(3-5)
    by (intro exI [of _ "map (digit_char base_char) ?ds"]) (auto simp: mpz_val_def rev_map)
qed

theorem mpz_text_roundtrip_witness:
  "\<exists>s. mpz_as_str_inpl (zstore_ex (Z 3)) 10 [] 97 0 = Some ((if mpz_neg (zstore_ex (Z 3)) \<and> mpz_len (zstore_ex (Z 3)) \<noteq> 0 then [45] else []) @ s) \<and>
    fst (mpz_set_from_str (zstore_ex (Z 0)) s (mpz_neg (zstore_ex (Z 3))) 10) = length s \<and>
    mpz_ok (snd (mpz_set_from_str (zstore_ex (Z 0)) s (mpz_neg (zstore_ex (Z 3))) 10)) \<and>
    mpz_val (snd (mpz_set_from_str (zstore_ex (Z 0)) s (mpz_neg (zstore_ex (Z 3))) 10)) = mpz_val (zstore_ex (Z 3))"
  using mpz_text_roundtrip [of "zstore_ex (Z 3)" "zstore_ex (Z 0)" 10 97] by simp

text \<open>
  C20.  Machine integers: one stored by \<^verbatim>\<open>mpz_set_from_int\<close> or \<^verbatim>\<open>mpz_set_from_ll\<close> has its value; the checked
  conversions return the value exactly when the magnitude is below \<open>2 ^ 63\<close>, respectively when the number
  is not negative and below \<open>2 ^ 64\<close>; the hash is the value modulo \<open>2 ^ 64\<close>, as a signed number.
\<close>

theorem mpz_machine_integers:
  assumes "mpz_ok z" and "- (2 ^ 63) \<le> v" and "v < 2 ^ 63"
  shows "mpz_ok (mpz_set_from_int v z) \<and> mpz_val (mpz_set_from_int v z) = v \<and> mpz_val (mpz_set_from_ll v True z) = v \<and>
    mpz_as_int_checked z = (if mpz_mag z < 2 ^ 63 then Some (mpz_val z) else None) \<and>
    mpz_as_uint_checked z = (if \<not> mpz_neg z \<and> mpz_mag z < 2 ^ 64 then Some (mpz_mag z) else None) \<and>
    mpz_hash z = s64 (mpz_val z)"
  using mpz_set_from_int_ok [OF assms] mpz_set_from_ll_ok [of z True v] mpz_as_int_checked_val [OF assms(1)]
    mpz_as_uint_checked_val [OF assms(1)] mpz_hash_wraps [OF assms(1)] assms by simp

theorem mpz_machine_integers_witness:
  "mpz_ok (mpz_set_from_int (-9223372036854775808) (zstore_ex (Z 3))) \<and>
   mpz_val (mpz_set_from_int (-9223372036854775808) (zstore_ex (Z 3))) = -9223372036854775808 \<and>
   mpz_as_int_checked (zstore_ex (Z 3)) = Some (-21474836487)"
proof -
  have "mpz_mag (zstore_ex (Z 3)) = 21474836487" by (simp add: zstore_ex_def mpz_mag_def DIG_BASE_def)
  then show ?thesis using mpz_machine_integers [of "zstore_ex (Z 3)" "-9223372036854775808"] by (simp add: mpz_val_def tc_def)
qed

text \<open>
  C21.  Bytes: into a buffer of at least one byte \<^verbatim>\<open>mpz_as_bytes\<close> writes the low bytes of the two's
  complement number, as many as both the buffer and the digits have; the bytes of a non-negative number
  that fits read back as the number, in either byte order.
\<close>

theorem mpz_bytes_roundtrip:
  assumes "mpz_ok z" and "mpz_ok y" and "0 < len"
  shows "mpz_as_bytes_written z len = map (int_byte (mpz_val z)) [0..<min len (4 * mpz_len z)] \<and>
    (\<not> mpz_neg z \<and> 4 * mpz_len z \<le> len \<longrightarrow>
     mpz_val (mpz_set_from_bytes y big_endian (mpz_as_bytes z big_endian (replicate len 0))) = mpz_val z)"
proof -
  let ?n = "4 * mpz_len z" and ?w = "mpz_as_bytes_written z len"
  have w: "?w = map (int_byte (mpz_val z)) [0..<min len ?n]" using mpz_as_bytes_val [OF assms(1), of len] assms(3) by simp
  have "bval (map (\<lambda>i. v div 256 ^ i mod 256) [0..<n]) = v mod 256 ^ n" for v n :: nat
  proof (induction n)
    case (Suc n)
    then show ?case by (simp add: bval_append mod_mult2_eq [of v "256 ^ n" 256] mult.commute [of 256])
  qed simp
  moreover have "mpz_mag z < 256 ^ ?n"
  proof -
    have "mpz_mag z < DIG_BASE ^ mpz_len z" using normal_less assms(1) by (simp add: mpz_ok_def mpz_mag_def)
    then show ?thesis by (simp add: DIG_BASE_def power_mult)
  qed
  ultimately have b: "bval ?w = mpz_mag z" if "\<not> mpz_neg z" "?n \<le> len"
    using w that by (simp add: mpz_val_def int_byte_val(1) [abs_def] min_absorb2)
  have zeros: "bval (replicate k 0) = 0" for k by (induction k) simp_all
  have "mpz_val (mpz_set_from_bytes y big_endian (mpz_as_bytes z big_endian (replicate len 0))) = mpz_val z"
    if "\<not> mpz_neg z" "?n \<le> len"
  proof -
    have bytes: "\<forall>b \<in> set ?w. b < 256" unfolding w by (auto simp: int_byte_def nat_less_iff)
    have l: "length ?w = ?n" using w that by simp
    have "mpz_val (mpz_set_from_bytes y big_endian (mpz_as_bytes z big_endian (replicate len 0))) = int (bval (?w @ replicate (len - ?n) 0))"
      using mpz_set_from_bytes_val(2) [OF assms(2), of "mpz_as_bytes z big_endian (replicate len 0)" big_endian] bytes l that(2)
      by (auto simp: mpz_as_bytes_def Let_def ball_Un)
    then show ?thesis using b [OF that] that by (simp add: bval_append zeros mpz_val_def tc_def)
  qed
  with w show ?thesis by blast
qed

theorem mpz_bytes_roundtrip_witness:
  "mpz_as_bytes_written (zstore_ex (Z 2)) 8 = map (int_byte (mpz_val (zstore_ex (Z 2)))) [0..<min 8 (4 * mpz_len (zstore_ex (Z 2)))] \<and>
   mpz_val (mpz_set_from_bytes (zstore_ex (Z 0)) True (mpz_as_bytes (zstore_ex (Z 2)) True (replicate 8 0))) = mpz_val (zstore_ex (Z 2))"
  using mpz_bytes_roundtrip [of "zstore_ex (Z 2)" "zstore_ex (Z 0)" 8 True] by simp

end
