(* ===== verification/MpzExample.thy ===== *)
theory MpzExample
  imports MpzConv "HOL-Library.Code_Target_Nat"
begin

text \<open>
  Inputs on which an operation of \<^verbatim>\<open>py/mpz.c\<close> does not do what it is for, or what its comment says.
\<close>

definition big :: "bool \<Rightarrow> mpz" where
  "big neg = \<lparr>mpz_neg = neg, mpz_fixed = False, mpz_alloc = 3, mpz_len = 3, mpz_dig = [0, 0, 64]\<rparr>"

definition small :: "bool \<Rightarrow> nat \<Rightarrow> mpz" where
  "small neg n = \<lparr>mpz_neg = neg, mpz_fixed = False, mpz_alloc = 2, mpz_len = 1, mpz_dig = [n, 0]\<rparr>"

definition example_store :: zstore where
  "example_store = (\<lambda>_. mpz_init_zero)(Z 3 := big True, Z 4 := big False, Z 5 := small True 5, Z 6 := small False 5)"

definition negative_zero :: mpz where
  "negative_zero = \<lparr>mpz_neg = True, mpz_fixed = False, mpz_alloc = 3, mpz_len = 0, mpz_dig = [0, 0, 0]\<rparr>"


text \<open>
  A power modulo a number with the destination shared with the base, as the comment of \<^verbatim>\<open>mpz_pow3_inpl\<close>
  allows, comes out as the power of 1.
\<close>

lemma mpz_pow3_shared:
  assumes "mpz_ok (st dest)" and "mpz_ok (st rhs)" and "mpz_ok (st md)"
    and "{dest, rhs, md} \<inter> {Ztemp, Zx, Zn, Zquo, Zone} = {}" and "dest \<notin> {rhs, md}"
    and "0 < mpz_len (st dest)" and "0 < mpz_len (st rhs)" and "\<not> mpz_neg (st rhs)" and "1 < mpz_mag (st md)"
    and "div_exact (mpz_dig (st md)) (mpz_len (st md))"
  shows "\<exists>st'. mpz_pow3_inpl dest dest rhs md st = Some st' \<and> mpz_val (st' dest) = 1 mod mpz_val (st md)"
  using mpz_pow3_correct [of st dest dest rhs md] assms by (auto simp: assigned_def)

text \<open>A right shift of a negative number into itself is not rounded.\<close>

lemma shr_in_place:
  "mpz_val (mpz_shr_inpl (Z 5) (Z 5) 1 example_store (Z 5)) = - 2 \<and> mpz_val (mpz_shr_inpl (Z 0) (Z 5) 1 example_store (Z 0)) = - 3"
  by code_simp

lemma pow_zero_zero: "mpz_val (mpz_pow_inpl (Z 0) (Z 1) (Z 2) example_store (Z 0)) = 0"
  by code_simp

lemma leading_separator: "mpz_as_str_inpl (small False 500) 10 [] 97 44 = Some [44, 53, 48, 48]"
  by code_simp

lemma as_bytes_empty_buffer: "length (mpz_as_bytes_written (big False) 0) = 12"
  by code_simp


end
