(* ===== verification/SmallInt.thy ===== *)
theory SmallInt
  imports Prelude
begin

text \<open>
  Small integers: \<^verbatim>\<open>py/smallint.c\<close>, \<^verbatim>\<open>py/smallint.h\<close> and the tagged words of \<^verbatim>\<open>py/obj.h\<close>, for the object
  representation A on a 64-bit machine.  A small integer is a machine word of which one bit is the tag,
  so it has 63 bits; the arithmetic is C's on 64-bit words.
\<close>

unbundle bit_operations_syntax

definition MP_SMALL_INT_MIN :: int where
  "MP_SMALL_INT_MIN = s64 (2 ^ 63) div 2"

definition MP_SMALL_INT_MAX :: int where
  "MP_SMALL_INT_MAX = NOT MP_SMALL_INT_MIN"

definition MP_SMALL_INT_FITS :: "int \<Rightarrow> bool" where
  "MP_SMALL_INT_FITS n \<longleftrightarrow> (n XOR s64 (2 * n)) AND 2 ^ 63 = 0"

text \<open>The value read back from the word that \<^verbatim>\<open>MP_OBJ_NEW_SMALL_INT\<close> makes: shifted left by one, then right.\<close>

definition small_int_value :: "int \<Rightarrow> int" where
  "small_int_value v = s64 (2 * v + 1) div 2"

definition mp_small_int_mul_overflow :: "int \<Rightarrow> int \<Rightarrow> bool" where
  "mp_small_int_mul_overflow x y =
     (if x > 0 then
        (if y > 0 then x > c_div MP_SMALL_INT_MAX y
         else y < c_div MP_SMALL_INT_MIN x)
      else
        (if y > 0 then x < c_div MP_SMALL_INT_MIN y
         else x \<noteq> 0 \<and> y < c_div MP_SMALL_INT_MAX x))"

definition mp_small_int_modulo :: "int \<Rightarrow> int \<Rightarrow> int" where
  "mp_small_int_modulo dividend divisor =
     (let dividend = c_mod dividend divisor
      in if dividend < 0 \<and> divisor > 0 \<or> dividend > 0 \<and> divisor < 0 then dividend + divisor else dividend)"

definition mp_small_int_floor_divide :: "int \<Rightarrow> int \<Rightarrow> int" where
  "mp_small_int_floor_divide num denom =
     (let num = (if num \<ge> 0 then (if denom < 0 then s64 (num + (- denom - 1)) else num)
                 else (if denom \<ge> 0 then s64 (num + (- denom + 1)) else num))
      in c_div num denom)"

section \<open>Exactness\<close>

abbreviation is_small :: "int \<Rightarrow> bool" where
  "is_small v \<equiv> MP_SMALL_INT_MIN \<le> v \<and> v \<le> MP_SMALL_INT_MAX"

abbreviation is_mp_int :: "int \<Rightarrow> bool" where
  "is_mp_int v \<equiv> - (2 ^ 63) \<le> v \<and> v < 2 ^ 63"

lemma small_int_min [simp]: "MP_SMALL_INT_MIN = - (2 ^ 62)"
  by (simp add: MP_SMALL_INT_MIN_def s64_def)

lemma small_int_max [simp]: "MP_SMALL_INT_MAX = 2 ^ 62 - 1"
  by (simp add: MP_SMALL_INT_MAX_def not_int_def)

lemma s64_bit_63: "bit (s64 n) 63 \<longleftrightarrow> s64 n < 0"
proof -
  have "s64 n div 2 ^ 63 = (if s64 n < 0 then - 1 else 0)"
  proof (cases "s64 n < 0")
    case True
    then show ?thesis using s64_range [of n] by (simp add: div_pos_neg_trivial div_eq_minus1)
  next
    case False
    then show ?thesis using s64_range [of n] by simp
  qed
  then show ?thesis by (simp add: bit_iff_odd)
qed

lemma s64_around:
  "- 3 * 2 ^ 63 \<le> i \<Longrightarrow> i < - (2 ^ 63) \<Longrightarrow> s64 i = i + 2 ^ 64"
  "2 ^ 63 \<le> i \<Longrightarrow> i < 3 * 2 ^ 63 \<Longrightarrow> s64 i = i - 2 ^ 64"
proof -
  show "s64 i = i + 2 ^ 64" if "- 3 * 2 ^ 63 \<le> i" "i < - (2 ^ 63)"
    using that mod_pos_pos_trivial [of "i + 2 ^ 63 + 2 ^ 64" "2 ^ 64"] mod_add_self2 [of "i + 2 ^ 63" "2 ^ 64"] by (simp add: s64_def)
  show "s64 i = i - 2 ^ 64" if "2 ^ 63 \<le> i" "i < 3 * 2 ^ 63"
    using that mod_pos_pos_trivial [of "i + 2 ^ 63 - 2 ^ 64" "2 ^ 64"] minus_mod_self2 [of "i + 2 ^ 63" "2 ^ 64"] by (simp add: s64_def)
qed

lemma small_int_fits:
  assumes "is_mp_int n"
  shows "MP_SMALL_INT_FITS n \<longleftrightarrow> is_small n"
proof -
  have s: "s64 n = n" using assms by simp
  have "MP_SMALL_INT_FITS n \<longleftrightarrow> (n < 0 \<longleftrightarrow> s64 (2 * n) < 0)"
    using s64_bit_63 [of n] s64_bit_63 [of "2 * n"] unfolding s MP_SMALL_INT_FITS_def
    by (simp add: and_exp_eq_0_iff_not_bit bit_xor_iff del: power_numeral flip: power_numeral)
  moreover have "s64 (2 * n) = (if n < - (2 ^ 62) then 2 * n + 2 ^ 64 else if n < 2 ^ 62 then 2 * n else 2 * n - 2 ^ 64)"
    using assms s64_around [of "2 * n"] by auto
  ultimately show ?thesis using assms by (simp split: if_splits)
qed

lemma small_int_value: "is_small v \<Longrightarrow> small_int_value v = v"
  by (simp add: small_int_value_def)

lemma c_div_sign:
  "0 < b \<Longrightarrow> a \<le> 0 \<Longrightarrow> c_div a b = - (- a div b)" "b < 0 \<Longrightarrow> 0 \<le> a \<Longrightarrow> c_div a b = - (a div - b)"
  "b < 0 \<Longrightarrow> a \<le> 0 \<Longrightarrow> c_div a b = - a div - b"
  by (cases "a = 0"; simp add: c_div_def)+

lemma div_less_iff:
  assumes "0 < (b :: int)"
  shows "a div b < q \<longleftrightarrow> a < q * b" and "y < - (a div b) \<longleftrightarrow> y * b < - a"
proof -
  show *: "a div b < q \<longleftrightarrow> a < q * b" for q
  proof
    assume "a div b < q"
    then have "(a div b + 1) * b \<le> q * b" using assms by (intro mult_right_mono) simp_all
    then show "a < q * b" using div_mult_mod_eq [of a b] pos_mod_bound [OF assms, of a] by (simp only: distrib_right mult_1_left)
  next
    assume "a < q * b"
    then show "a div b < q"
      using div_mult_mod_eq [of a b] pos_mod_sign [OF assms, of a] assms mult_less_cancel_right_pos [OF assms, of "a div b" q] by linarith
  qed
  show "y < - (a div b) \<longleftrightarrow> y * b < - a" using * [of "- y"] by auto
qed

lemma not_small:
  "0 \<le> p \<Longrightarrow> \<not> is_small p \<longleftrightarrow> 2 ^ 62 - 1 < p" "p \<le> 0 \<Longrightarrow> \<not> is_small p \<longleftrightarrow> p < - (2 ^ 62)"
  by auto

lemma mul_overflow:
  assumes "is_small x" and "is_small y"
  shows "mp_small_int_mul_overflow x y \<longleftrightarrow> \<not> is_small (x * y)"
proof -
  consider "0 < x" "0 < y" | "0 < x" "y \<le> 0" | "x \<le> 0" "0 < y" | "x < 0" "y \<le> 0" | "x = 0" "y \<le> 0" by linarith
  then show ?thesis
  proof cases
    case 1
    then have "0 \<le> x * y" by simp
    with 1 show ?thesis unfolding not_small(1) [OF \<open>0 \<le> x * y\<close>]
      by (simp add: mp_small_int_mul_overflow_def c_div_nonneg div_less_iff)
  next
    case 2
    then have "x * y \<le> 0" by (simp add: mult_nonneg_nonpos)
    with 2 show ?thesis unfolding not_small(2) [OF \<open>x * y \<le> 0\<close>]
      by (simp add: mp_small_int_mul_overflow_def c_div_sign div_less_iff mult.commute [of x])
  next
    case 3
    then have "x * y \<le> 0" by (simp add: mult_nonpos_nonneg)
    with 3 show ?thesis unfolding not_small(2) [OF \<open>x * y \<le> 0\<close>]
      by (simp add: mp_small_int_mul_overflow_def c_div_sign div_less_iff)
  next
    case 4
    then have "0 \<le> x * y" by (simp add: mult_nonpos_nonpos)
    with 4 show ?thesis unfolding not_small(1) [OF \<open>0 \<le> x * y\<close>]
      by (simp add: mp_small_int_mul_overflow_def c_div_sign div_less_iff mult.commute [of x])
  qed (simp add: mp_small_int_mul_overflow_def)
qed

lemma small_modulo:
  assumes "divisor \<noteq> 0"
  shows "mp_small_int_modulo dividend divisor = dividend mod divisor"
proof -
  consider "0 \<le> dividend" "0 < divisor" | "dividend < 0" "0 < divisor" | "0 \<le> dividend" "divisor < 0" | "dividend < 0" "divisor < 0"
    using assms by linarith
  then show ?thesis
  proof cases
    case 1
    then have "0 \<le> dividend mod divisor" by simp
    then have "\<not> dividend mod divisor < 0" "\<not> divisor < 0" using 1 by linarith+
    then show ?thesis unfolding mp_small_int_modulo_def Let_def c_mod_nonneg [OF 1(1) less_imp_le [OF 1(2)]]
      by (simp only: simp_thms if_False)
  next
    case 2
    then have "c_mod dividend divisor = - (- dividend mod divisor)" by (simp add: c_mod_def c_div_sign minus_div_mult_eq_mod [symmetric])
    moreover have "dividend mod divisor = (if - dividend mod divisor = 0 then 0 else divisor - (- dividend mod divisor))"
      using zmod_zminus1_eq_if [of "- dividend" divisor] 2 by simp
    moreover have "0 \<le> - dividend mod divisor" using 2 by simp
    ultimately show ?thesis using 2 unfolding mp_small_int_modulo_def Let_def by (smt (verit))
  next
    case 3
    then have "c_mod dividend divisor = dividend mod - divisor" by (simp add: c_mod_def c_div_sign minus_mult_div_eq_mod [symmetric])
    moreover have "dividend mod divisor = (if dividend mod - divisor = 0 then 0 else dividend mod - divisor + divisor)"
      using zmod_zminus2_eq_if [of dividend "- divisor"] 3 by simp
    moreover have "0 \<le> dividend mod - divisor" using 3 by (intro pos_mod_sign) simp
    ultimately show ?thesis using 3 unfolding mp_small_int_modulo_def Let_def by (smt (verit))
  next
    case 4
    then have "c_mod dividend divisor = - (- dividend mod - divisor)" by (simp add: c_mod_def c_div_sign minus_div_mult_eq_mod [symmetric])
    moreover have "0 \<le> - dividend mod - divisor" using 4 by (intro pos_mod_sign) simp
    moreover have "dividend mod divisor = - (- dividend mod - divisor)" by simp
    ultimately show ?thesis using 4 unfolding mp_small_int_modulo_def Let_def by (smt (verit))
  qed
qed

lemma small_floor_divide:
  assumes "is_small num" and "is_small denom" and "denom \<noteq> 0"
  shows "mp_small_int_floor_divide num denom = num div denom"
proof -
  have up: "- ((a + b - 1) div b) = (- a) div b" if "0 < b" for a b :: int
  proof -
    have "a + b - 1 = (a mod b + b - 1) + a div b * b" using div_mult_mod_eq [of a b] by linarith
    then have "(a + b - 1) div b = a div b + (a mod b + b - 1) div b"
      using that by (metis div_mult_self1 add.commute less_irrefl mult.commute)
    moreover have "(a mod b + b - 1) div b = of_bool (a mod b \<noteq> 0)"
    proof (cases "a mod b = 0")
      case False
      then have "(a mod b - 1 + b) div b = 1"
        using that pos_mod_sign [OF that, of a] pos_mod_bound [OF that, of a] by (subst div_add_self2) simp_all
      with False show ?thesis by (simp add: algebra_simps)
    qed (use that in simp)
    ultimately show ?thesis using that by (simp add: zdiv_zminus1_eq_if)
  qed
  consider "0 \<le> num" "0 < denom" | "num < 0" "0 < denom" | "0 \<le> num" "denom < 0" | "num < 0" "denom < 0"
    using assms(3) by linarith
  then show ?thesis
  proof cases
    case 1
    then show ?thesis by (simp add: mp_small_int_floor_divide_def c_div_nonneg)
  next
    case 2
    then show ?thesis using assms up [of denom "- num"] by (simp add: mp_small_int_floor_divide_def c_div_sign algebra_simps)
  next
    case 3
    then show ?thesis using assms up [of "- denom" num] by (simp add: mp_small_int_floor_divide_def c_div_sign algebra_simps)
  next
    case 4
    then show ?thesis by (simp add: mp_small_int_floor_divide_def c_div_sign)
  qed
qed

end
