(* ===== verification/ObjInt.thy ===== *)
theory ObjInt
  imports SmallInt MpzConv
begin

text \<open>
  Integer objects: \<^verbatim>\<open>py/objint_mpz.c\<close>, the parts of \<^verbatim>\<open>py/objint.c\<close> that do not depend on the kind of long
  integer, \<^verbatim>\<open>py/objbool.c\<close>, and the number part of \<^verbatim>\<open>mp_unary_op\<close>, \<^verbatim>\<open>mp_binary_op\<close> and \<^verbatim>\<open>mp_obj_equal\<close>.

  Integer objects are never written after they were made, so an object is its contents.  An operation
  on big integers works on a store of its own: \<open>Z 0\<close> the result, \<open>Z 1\<close> the second result, \<open>Z 2\<close> the local
  variable \<^verbatim>\<open>z_int\<close>, \<open>Z 3\<close> and \<open>Z 4\<close> the operands that are big.  Floating-point numbers, and the operators
  of objects of other types, are parameters.
\<close>

section \<open>Objects and operators\<close>

datatype arith =
    OP_OR | OP_XOR | OP_AND | OP_LSHIFT | OP_RSHIFT | OP_ADD | OP_SUBTRACT | OP_MULTIPLY | OP_MAT_MULTIPLY
  | OP_FLOOR_DIVIDE | OP_TRUE_DIVIDE | OP_MODULO | OP_POWER

text \<open>\<^verbatim>\<open>MP_BINARY_OP_IS\<close> and \<^verbatim>\<open>MP_BINARY_OP_EXCEPTION_MATCH\<close> do not look at numbers and are left out.\<close>

datatype mp_binary_op_t =
    OP_LESS | OP_MORE | OP_EQUAL | OP_LESS_EQUAL | OP_MORE_EQUAL | OP_NOT_EQUAL | OP_IN
  | INPLACE arith | BINARY arith | OP_DIVMOD | OP_CONTAINS | REVERSE arith

datatype mp_unary_op_t = OP_POSITIVE | OP_NEGATIVE | OP_INVERT | OP_NOT | OP_BOOL | OP_LEN | OP_HASH | OP_ABS | OP_INT

datatype 'o mp_obj = MP_SMALL int | MP_INT mpz | MP_BOOL bool | MP_TUPLE "'o mp_obj list" | MP_OTHER 'o

text \<open>What a call does: not return, raise, return the null object (operator not supported), return an object.\<close>

datatype 'o op_result = NO_RETURN | RAISE mp_exn | OBJ_NULL | RETURN "'o mp_obj"

record ('f, 'o) number_env =
  is_float :: "'o \<Rightarrow> bool"
  is_complex :: "'o \<Rightarrow> bool"
  is_sequence :: "'o \<Rightarrow> bool"
  mpz_as_float :: "mpz \<Rightarrow> 'f"
  int_as_float :: "int \<Rightarrow> 'f"
  float_div :: "'f \<Rightarrow> 'f \<Rightarrow> 'f"
  new_float :: "'f \<Rightarrow> 'o"
  float_binary_op :: "mp_binary_op_t \<Rightarrow> 'f \<Rightarrow> 'o mp_obj \<Rightarrow> 'o op_result"
  complex_binary_op :: "mp_binary_op_t \<Rightarrow> 'f \<Rightarrow> 'o mp_obj \<Rightarrow> 'o op_result"
  other_binary_op :: "mp_binary_op_t \<Rightarrow> 'o mp_obj \<Rightarrow> 'o mp_obj \<Rightarrow> 'o op_result"
  other_equal :: "'o mp_obj \<Rightarrow> 'o mp_obj \<Rightarrow> 'o op_result"
  other_contains :: "'o mp_obj \<Rightarrow> 'o mp_obj \<Rightarrow> 'o op_result"

definition mp_obj_new_small_int :: "int \<Rightarrow> 'o mp_obj" where
  "mp_obj_new_small_int v = MP_SMALL (small_int_value v)"

definition mp_obj_new_int_from_ll :: "int \<Rightarrow> 'o mp_obj" where
  "mp_obj_new_int_from_ll val = MP_INT (mpz_set_from_ll val True mpz_init_zero)"

definition mp_obj_new_int_from_ull :: "nat \<Rightarrow> 'o mp_obj" where
  "mp_obj_new_int_from_ull val = MP_INT (mpz_set_from_ll (s64 (int val)) False mpz_init_zero)"

definition mp_obj_new_int :: "int \<Rightarrow> 'o mp_obj" where
  "mp_obj_new_int value = (if MP_SMALL_INT_FITS value then mp_obj_new_small_int value else mp_obj_new_int_from_ll value)"

definition MP_SMALL_INT_POSITIVE_MASK :: nat where
  "MP_SMALL_INT_POSITIVE_MASK = to_u64 (NOT (2 ^ 63 OR 2 ^ 62))"

definition mp_obj_new_int_from_uint :: "nat \<Rightarrow> 'o mp_obj" where
  "mp_obj_new_int_from_uint value =
     (if value AND to_u64 (NOT (int MP_SMALL_INT_POSITIVE_MASK)) = 0 then mp_obj_new_small_int (int value)
      else mp_obj_new_int_from_ull value)"

definition mp_obj_new_int_from_str_len :: "nat list \<Rightarrow> bool \<Rightarrow> nat \<Rightarrow> nat \<times> 'o mp_obj" where
  "mp_obj_new_int_from_str_len str neg base =
     (let (n, z) = mpz_set_from_str mpz_init_zero str neg base in (n, MP_INT z))"

definition mp_obj_int_sign :: "'o mp_obj \<Rightarrow> int" where
  "mp_obj_int_sign self = (case self of
       MP_SMALL val \<Rightarrow> if val < 0 then - 1 else if val > 0 then 1 else 0
     | MP_INT z \<Rightarrow> if mpz_len z = 0 then 0 else if \<not> mpz_neg z then 1 else - 1
     | _ \<Rightarrow> 0)"

definition mp_obj_int_get_truncated :: "'o mp_obj \<Rightarrow> int" where
  "mp_obj_int_get_truncated self = (case self of MP_SMALL val \<Rightarrow> val | MP_INT z \<Rightarrow> mpz_hash z | _ \<Rightarrow> 0)"

definition mp_obj_int_get_checked :: "'o mp_obj \<Rightarrow> mp_exn + int" where
  "mp_obj_int_get_checked self = (case self of
       MP_SMALL val \<Rightarrow> Inr val
     | MP_INT z \<Rightarrow> (case mpz_as_int_checked z of Some v \<Rightarrow> Inr v | None \<Rightarrow> Inl OverflowError)
     | _ \<Rightarrow> Inl TypeError)"

definition mp_obj_int_get_uint_checked :: "'o mp_obj \<Rightarrow> mp_exn + nat" where
  "mp_obj_int_get_uint_checked self = (case self of
       MP_SMALL val \<Rightarrow> if val \<ge> 0 then Inr (nat val) else Inl OverflowError
     | MP_INT z \<Rightarrow> (case mpz_as_uint_checked z of Some v \<Rightarrow> Inr v | None \<Rightarrow> Inl OverflowError)
     | _ \<Rightarrow> Inl TypeError)"

definition mp_obj_get_int :: "'o mp_obj \<Rightarrow> mp_exn + int" where
  "mp_obj_get_int arg = (case arg of MP_BOOL b \<Rightarrow> Inr (of_bool b) | _ \<Rightarrow> mp_obj_int_get_checked arg)"

section \<open>Bytes and text\<close>

definition mp_obj_int_from_bytes_impl :: "bool \<Rightarrow> nat list \<Rightarrow> 'o mp_obj" where
  "mp_obj_int_from_bytes_impl big_endian buf = MP_INT (mpz_set_from_bytes mpz_init_zero big_endian buf)"

text \<open>The bytes are given in the order in which the loop reads them, the most significant one first.\<close>

fun from_bytes_small :: "nat \<Rightarrow> nat list \<Rightarrow> nat option" where
  "from_bytes_small value [] = Some value"
| "from_bytes_small value (b # bs) =
     (if int value > MP_SMALL_INT_MAX div 2 ^ 8 then None else from_bytes_small (u64 (value * 2 ^ 8) OR b) bs)"

definition int_from_bytes :: "bool \<Rightarrow> nat list \<Rightarrow> 'o mp_obj" where
  "int_from_bytes little buf =
     (case from_bytes_small 0 (if little then rev buf else buf) of
        None \<Rightarrow> mp_obj_int_from_bytes_impl (\<not> little) buf
      | Some value \<Rightarrow> mp_obj_new_int_from_uint value)"

definition log_base2_floor :: "nat list" where
  "log_base2_floor = [0, 1, 1, 2, 2, 2, 2, 3, 3, 3, 3, 3, 3, 3, 3, 4]"

definition mp_int_format_size :: "nat \<Rightarrow> nat \<Rightarrow> nat list \<Rightarrow> nat \<Rightarrow> nat" where
  "mp_int_format_size num_bits base prefix comma =
     (let num_digits = num_bits div log_base2_floor ! (base - 1) + 1;
          num_commas = (if comma \<noteq> 0 then num_digits div 3 else 0)
      in num_digits + num_commas + length prefix + 2)"

text \<open>
  The loop that writes the digits of a small integer from the end of the buffer towards its start:
  \<open>room\<close> is the number of free characters before \<open>b\<close>, \<open>run\<close> the number written since the last separator.
\<close>

function format_loop :: "nat \<Rightarrow> nat \<Rightarrow> nat \<Rightarrow> nat \<Rightarrow> nat \<Rightarrow> nat \<Rightarrow> nat list \<Rightarrow> nat \<times> nat list" where
  "format_loop base base_char comma num room run s =
     (let c = num mod base; num = num div base;
          c = (if c \<ge> 10 then c + base_char - 10 else c + 48);
          s = c # s; room = room - 1; run = run + 1;
          (s, room, run) = (if comma \<noteq> 0 \<and> num \<noteq> 0 \<and> room > 0 \<and> run = 3 then (comma # s, room - 1, 0) else (s, room, run))
      in if room > 0 \<and> num \<noteq> 0 then format_loop base base_char comma num room run s else (room, s))"
  by pat_completeness auto
termination by (relation "measure (\<lambda>(base, base_char, comma, num, room, run, s). room)") (auto split: if_splits)

declare format_loop.simps [simp del]

definition format_small :: "int \<Rightarrow> nat \<Rightarrow> nat list \<Rightarrow> nat \<Rightarrow> nat \<Rightarrow> nat list" where
  "format_small num base prefix base_char comma =
     (let neg = num < 0; num = nat \<bar>num\<bar>;
          room = mp_int_format_size 64 base prefix comma - 1;
          (room, s) = (if num = 0 then (room - 1, [48]) else format_loop base base_char comma num room 0 []);
          (room, s) = (if room > length prefix then (room - length prefix, prefix @ s) else (room, s))
      in if neg \<and> room > 0 then 45 # s else s)"

definition mp_obj_int_formatted :: "'o mp_obj \<Rightarrow> nat \<Rightarrow> nat list \<Rightarrow> nat \<Rightarrow> nat \<Rightarrow> nat list option" where
  "mp_obj_int_formatted self base prefix base_char comma = (case self of
       MP_SMALL num \<Rightarrow> Some (format_small num base prefix base_char comma)
     | MP_INT z \<Rightarrow> mpz_as_str_inpl z base prefix base_char comma
     | _ \<Rightarrow> None)"

section \<open>Unary operators\<close>

definition mp_obj_int_unary_op :: "mp_unary_op_t \<Rightarrow> mpz \<Rightarrow> 'o op_result" where
  "mp_obj_int_unary_op op z =
     (let st = (\<lambda>_. mpz_init_zero)(Z 3 := z)
      in case op of
           OP_BOOL \<Rightarrow> RETURN (MP_BOOL (\<not> mpz_is_zero z))
         | OP_HASH \<Rightarrow> RETURN (mp_obj_new_small_int (mpz_hash z))
         | OP_POSITIVE \<Rightarrow> RETURN (MP_INT z)
         | OP_NEGATIVE \<Rightarrow> RETURN (MP_INT (mpz_neg_inpl (Z 0) (Z 3) st (Z 0)))
         | OP_INVERT \<Rightarrow> RETURN (MP_INT (mpz_not_inpl (Z 0) (Z 3) st (Z 0)))
         | OP_ABS \<Rightarrow> if \<not> mpz_neg z then RETURN (MP_INT z) else RETURN (MP_INT (mpz_abs_inpl (Z 0) (Z 3) st (Z 0)))
         | _ \<Rightarrow> OBJ_NULL)"

definition mp_obj_is_true :: "'o mp_obj \<Rightarrow> bool" where
  "mp_obj_is_true arg = (case arg of
       MP_BOOL b \<Rightarrow> b
     | MP_SMALL v \<Rightarrow> v \<noteq> 0
     | MP_INT z \<Rightarrow> (case (mp_obj_int_unary_op OP_BOOL z :: 'o op_result) of RETURN r \<Rightarrow> r = MP_BOOL True | _ \<Rightarrow> True)
     | MP_TUPLE xs \<Rightarrow> xs \<noteq> []
     | MP_OTHER _ \<Rightarrow> True)"

definition small_int_unary_op :: "mp_unary_op_t \<Rightarrow> int \<Rightarrow> 'o op_result" where
  "small_int_unary_op op val = (case op of
       OP_BOOL \<Rightarrow> RETURN (MP_BOOL (val \<noteq> 0))
     | OP_HASH \<Rightarrow> RETURN (MP_SMALL val)
     | OP_POSITIVE \<Rightarrow> RETURN (MP_SMALL val)
     | OP_INT \<Rightarrow> RETURN (MP_SMALL val)
     | OP_NEGATIVE \<Rightarrow> if val = MP_SMALL_INT_MIN then RETURN (mp_obj_new_int (- val)) else RETURN (mp_obj_new_small_int (- val))
     | OP_ABS \<Rightarrow> if val \<ge> 0 then RETURN (MP_SMALL val)
         else if val = MP_SMALL_INT_MIN then RETURN (mp_obj_new_int (- val)) else RETURN (mp_obj_new_small_int (- val))
     | _ \<Rightarrow> RETURN (mp_obj_new_small_int (NOT val)))"

text \<open>For an integer or a boolean; \<^verbatim>\<open>bool_unary_op\<close> does not support \<^verbatim>\<open>len\<close> and else takes the integer.\<close>

definition mp_unary_op :: "mp_unary_op_t \<Rightarrow> 'o mp_obj \<Rightarrow> 'o op_result" where
  "mp_unary_op op arg =
     (if op = OP_NOT then RETURN (MP_BOOL (\<not> mp_obj_is_true arg))
      else case arg of
        MP_SMALL val \<Rightarrow> small_int_unary_op op val
      | MP_INT z \<Rightarrow> (case mp_obj_int_unary_op op z of OBJ_NULL \<Rightarrow> RAISE TypeError | r \<Rightarrow> r)
      | MP_BOOL b \<Rightarrow> if op = OP_LEN then RAISE TypeError else small_int_unary_op op (of_bool b)
      | _ \<Rightarrow> OBJ_NULL)"

section \<open>Binary operators on big integers\<close>

text \<open>
  An operand: a small integer is copied to \<^verbatim>\<open>z_int\<close>, whose digits are a local array.  Of those only the
  ones below the length are read.
\<close>

definition load_operand :: "'o mp_obj \<Rightarrow> zref \<Rightarrow> zstore \<Rightarrow> zref \<times> zstore" where
  "load_operand obj own st = (case obj of
       MP_SMALL v \<Rightarrow> (Z 2, st(Z 2 := mpz_init_fixed_from_int (replicate MPZ_NUM_DIG_FOR_INT 0) MPZ_NUM_DIG_FOR_INT v))
     | MP_INT z \<Rightarrow> (own, st(own := z))
     | _ \<Rightarrow> (own, st))"

definition int_result :: "zstore \<Rightarrow> 'o op_result" where
  "int_result st = RETURN (MP_INT (st (Z 0)))"

definition int_shift :: "bool \<Rightarrow> 'o mp_obj \<Rightarrow> zref \<Rightarrow> zstore \<Rightarrow> 'o op_result" where
  "int_shift left rhs_in zlhs st = (case mp_obj_int_get_checked rhs_in of
       Inl e \<Rightarrow> RAISE e
     | Inr irhs \<Rightarrow>
         if irhs < 0 then RAISE ValueError
         else int_result (if left then mpz_shl_inpl (Z 0) zlhs (nat irhs) st else mpz_shr_inpl (Z 0) zlhs (nat irhs) st))"

definition int_divmod :: "(zstore \<Rightarrow> 'o op_result) \<Rightarrow> zref \<Rightarrow> zref \<Rightarrow> zref \<Rightarrow> zref \<Rightarrow> zstore \<Rightarrow> 'o op_result" where
  "int_divmod k quo rem zlhs zrhs st =
     (if mpz_is_zero (st zrhs) then RAISE ZeroDivisionError
      else case mpz_divmod_inpl quo rem zlhs zrhs st of None \<Rightarrow> NO_RETURN | Some st \<Rightarrow> k st)"

text \<open>The inner switch, for \<^verbatim>\<open>INPLACE_OR\<close> up to \<^verbatim>\<open>DIVMOD\<close>; whatever is not listed before is taken for \<^verbatim>\<open>DIVMOD\<close>.\<close>

definition int_both :: "zstore \<Rightarrow> 'o op_result" where
  "int_both st = RETURN (MP_TUPLE [MP_INT (st (Z 1)), MP_INT (st (Z 0))])"

definition int_arith :: "('f, 'o) number_env \<Rightarrow> mp_binary_op_t \<Rightarrow> arith \<Rightarrow> 'o mp_obj \<Rightarrow> zref \<Rightarrow> zref \<Rightarrow> zstore \<Rightarrow> 'o op_result" where
  "int_arith E op a rhs_in zlhs zrhs st = (case a of
       OP_ADD \<Rightarrow> int_result (mpz_add_inpl (Z 0) zlhs zrhs st)
     | OP_SUBTRACT \<Rightarrow> int_result (mpz_sub_inpl (Z 0) zlhs zrhs st)
     | OP_MULTIPLY \<Rightarrow> int_result (mpz_mul_inpl (Z 0) zlhs zrhs st)
     | OP_FLOOR_DIVIDE \<Rightarrow> int_divmod int_result (Z 0) (Z 1) zlhs zrhs st
     | OP_MODULO \<Rightarrow> int_divmod int_result (Z 1) (Z 0) zlhs zrhs st
     | OP_AND \<Rightarrow> int_result (mpz_and_inpl (Z 0) zlhs zrhs st)
     | OP_OR \<Rightarrow> int_result (mpz_or_inpl (Z 0) zlhs zrhs st)
     | OP_XOR \<Rightarrow> int_result (mpz_xor_inpl (Z 0) zlhs zrhs st)
     | OP_LSHIFT \<Rightarrow> int_shift True rhs_in zlhs st
     | OP_RSHIFT \<Rightarrow> int_shift False rhs_in zlhs st
     | OP_POWER \<Rightarrow> if mpz_is_neg (st zrhs) then float_binary_op E op (mpz_as_float E (st zlhs)) rhs_in
         else int_result (mpz_pow_inpl (Z 0) zlhs zrhs st)
     | _ \<Rightarrow> int_divmod int_both (Z 1) (Z 0) zlhs zrhs st)"

definition int_compare :: "mp_binary_op_t \<Rightarrow> mpz \<Rightarrow> mpz \<Rightarrow> 'o op_result" where
  "int_compare op zlhs zrhs =
     (let cmp = mpz_cmp zlhs zrhs
      in case op of
           OP_LESS \<Rightarrow> RETURN (MP_BOOL (cmp < 0))
         | OP_MORE \<Rightarrow> RETURN (MP_BOOL (cmp > 0))
         | OP_LESS_EQUAL \<Rightarrow> RETURN (MP_BOOL (cmp \<le> 0))
         | OP_MORE_EQUAL \<Rightarrow> RETURN (MP_BOOL (cmp \<ge> 0))
         | OP_EQUAL \<Rightarrow> RETURN (MP_BOOL (cmp = 0))
         | _ \<Rightarrow> OBJ_NULL)"

text \<open>\<^verbatim>\<open>mp_obj_int_binary_op\<close> from the test for a true division on, both operands being integers.\<close>

definition int_binary_op_ints :: "('f, 'o) number_env \<Rightarrow> mp_binary_op_t \<Rightarrow> 'o mp_obj \<Rightarrow> zref \<Rightarrow> zref \<Rightarrow> zstore \<Rightarrow> 'o op_result" where
  "int_binary_op_ints E op rhs_in zlhs zrhs st =
     (if op = BINARY OP_TRUE_DIVIDE \<or> op = INPLACE OP_TRUE_DIVIDE then
        (if mpz_is_zero (st zrhs) then RAISE ZeroDivisionError
         else RETURN (MP_OTHER (new_float E (float_div E (mpz_as_float E (st zlhs)) (mpz_as_float E (st zrhs))))))
      else case op of
        INPLACE a \<Rightarrow> int_arith E op a rhs_in zlhs zrhs st
      | BINARY a \<Rightarrow> int_arith E op a rhs_in zlhs zrhs st
      | OP_DIVMOD \<Rightarrow> int_divmod int_both (Z 1) (Z 0) zlhs zrhs st
      | _ \<Rightarrow> int_compare op (st zlhs) (st zrhs))"

text \<open>\<open>rec\<close> is \<^verbatim>\<open>mp_binary_op\<close>, which the handling of booleans and sequences calls again.\<close>

definition mp_obj_int_binary_op_extra_cases ::
  "('f, 'o) number_env \<Rightarrow> (mp_binary_op_t \<Rightarrow> 'o mp_obj \<Rightarrow> 'o mp_obj \<Rightarrow> 'o op_result) \<Rightarrow> mp_binary_op_t \<Rightarrow> 'o mp_obj \<Rightarrow> 'o mp_obj \<Rightarrow> 'o op_result"
where
  "mp_obj_int_binary_op_extra_cases E rec op lhs_in rhs_in =
     (if rhs_in = MP_BOOL False then rec op lhs_in (MP_SMALL 0)
      else if rhs_in = MP_BOOL True then rec op lhs_in (MP_SMALL 1)
      else if op = BINARY OP_MULTIPLY \<and> (case rhs_in of MP_TUPLE _ \<Rightarrow> True | MP_OTHER b \<Rightarrow> is_sequence E b | _ \<Rightarrow> False)
      then rec op rhs_in lhs_in
      else OBJ_NULL)"

definition mp_obj_int_binary_op ::
  "('f, 'o) number_env \<Rightarrow> (mp_binary_op_t \<Rightarrow> 'o mp_obj \<Rightarrow> 'o mp_obj \<Rightarrow> 'o op_result) \<Rightarrow> mp_binary_op_t \<Rightarrow> 'o mp_obj \<Rightarrow> 'o mp_obj \<Rightarrow> 'o op_result"
where
  "mp_obj_int_binary_op E rec op lhs_in rhs_in =
     (let (zlhs, st) = load_operand lhs_in (Z 3) (\<lambda>_. mpz_init_zero);
          (zrhs, st) = load_operand rhs_in (Z 4) st
      in case rhs_in of
           MP_SMALL _ \<Rightarrow> int_binary_op_ints E op rhs_in zlhs zrhs st
         | MP_INT _ \<Rightarrow> int_binary_op_ints E op rhs_in zlhs zrhs st
         | MP_OTHER b \<Rightarrow>
             if is_float E b then float_binary_op E op (mpz_as_float E (st zlhs)) rhs_in
             else if is_complex E b then complex_binary_op E op (mpz_as_float E (st zlhs)) rhs_in
             else mp_obj_int_binary_op_extra_cases E rec op lhs_in rhs_in
         | _ \<Rightarrow> mp_obj_int_binary_op_extra_cases E rec op lhs_in rhs_in)"

definition mp_obj_int_pow3 :: "'o mp_obj \<Rightarrow> 'o mp_obj \<Rightarrow> 'o mp_obj \<Rightarrow> 'o op_result" where
  "mp_obj_int_pow3 base exponent modulus =
     (let load = (\<lambda>obj. case obj of MP_SMALL v \<Rightarrow> Some (mpz_init_from_int v) | MP_INT z \<Rightarrow> Some z | _ \<Rightarrow> None)
      in case (load base, load exponent, load modulus) of
           (Some l, Some r, Some m) \<Rightarrow>
             (case mpz_pow3_inpl (Z 0) (Z 2) (Z 3) (Z 4)
                 ((\<lambda>_. mpz_init_zero)(Z 0 := mpz_set_from_ll 0 False mpz_init_zero, Z 2 := l, Z 3 := r, Z 4 := m)) of
                None \<Rightarrow> NO_RETURN | Some st \<Rightarrow> int_result st)
         | _ \<Rightarrow> RAISE TypeError)"

section \<open>The operator dispatch of the runtime\<close>

text \<open>The loop of a power of small integers; \<open>None\<close> is the jump to \<^verbatim>\<open>power_overflow\<close>.\<close>

function small_power_loop :: "int \<Rightarrow> int \<Rightarrow> int \<Rightarrow> int option" where
  "small_power_loop ans lhs_val rhs_val =
     (if rhs_val > 0 then
        (let odd_case = rhs_val AND 1 \<noteq> 0
         in if odd_case \<and> mp_small_int_mul_overflow ans lhs_val then None
            else
              let ans = (if odd_case then ans * lhs_val else ans)
              in if rhs_val = 1 then Some ans
                 else if mp_small_int_mul_overflow lhs_val lhs_val then None
                 else small_power_loop ans (lhs_val * lhs_val) (c_div rhs_val 2))
      else Some ans)"
  by pat_completeness auto
termination by (relation "measure (\<lambda>(_, _, n). nat n)") (auto simp: c_div_nonneg)

declare small_power_loop.simps [simp del]

text \<open>
  What the switch on two small integers does: a value that is then made an integer object, a result, or
  a jump to the generic operator with the left operand made big.
\<close>

datatype 'o small_result = VALUE int | RESULT "'o op_result" | GENERIC "'o mp_obj"

definition small_lshift :: "int \<Rightarrow> int \<Rightarrow> 'o small_result" where
  "small_lshift lhs_val rhs_val =
     (if rhs_val < 0 then RESULT (RAISE ValueError)
      else if rhs_val \<ge> 64 \<or> lhs_val > MP_SMALL_INT_MAX div 2 ^ nat rhs_val \<or> lhs_val < MP_SMALL_INT_MIN div 2 ^ nat rhs_val
      then GENERIC (mp_obj_new_int_from_ll lhs_val)
      else VALUE (s64 (lhs_val * 2 ^ nat rhs_val)))"

definition small_rshift :: "int \<Rightarrow> int \<Rightarrow> 'o small_result" where
  "small_rshift lhs_val rhs_val =
     (if rhs_val < 0 then RESULT (RAISE ValueError)
      else let rhs_val = (if rhs_val \<ge> 64 then 63 else rhs_val) in VALUE (lhs_val div 2 ^ nat rhs_val))"

definition small_divide :: "int \<Rightarrow> 'o small_result \<Rightarrow> 'o small_result" where
  "small_divide rhs_val r = (if rhs_val = 0 then RESULT (RAISE ZeroDivisionError) else r)"

definition small_arith :: "('f, 'o) number_env \<Rightarrow> mp_binary_op_t \<Rightarrow> arith \<Rightarrow> int \<Rightarrow> int \<Rightarrow> 'o small_result" where
  "small_arith E op a lhs_val rhs_val = (case a of
       OP_OR \<Rightarrow> VALUE (lhs_val OR rhs_val)
     | OP_XOR \<Rightarrow> VALUE (lhs_val XOR rhs_val)
     | OP_AND \<Rightarrow> VALUE (lhs_val AND rhs_val)
     | OP_LSHIFT \<Rightarrow> small_lshift lhs_val rhs_val
     | OP_RSHIFT \<Rightarrow> small_rshift lhs_val rhs_val
     | OP_ADD \<Rightarrow> VALUE (s64 (lhs_val + rhs_val))
     | OP_SUBTRACT \<Rightarrow> VALUE (s64 (lhs_val - rhs_val))
     | OP_MULTIPLY \<Rightarrow>
         if mp_small_int_mul_overflow lhs_val rhs_val then GENERIC (mp_obj_new_int_from_ll lhs_val)
         else RESULT (RETURN (mp_obj_new_small_int (lhs_val * rhs_val)))
     | OP_FLOOR_DIVIDE \<Rightarrow> small_divide rhs_val (VALUE (mp_small_int_floor_divide lhs_val rhs_val))
     | OP_TRUE_DIVIDE \<Rightarrow> small_divide rhs_val
         (RESULT (RETURN (MP_OTHER (new_float E (float_div E (int_as_float E lhs_val) (int_as_float E rhs_val))))))
     | OP_MODULO \<Rightarrow> small_divide rhs_val (VALUE (mp_small_int_modulo lhs_val rhs_val))
     | OP_POWER \<Rightarrow>
         if rhs_val < 0 then RESULT (float_binary_op E op (int_as_float E lhs_val) (MP_SMALL rhs_val))
         else (case small_power_loop 1 lhs_val rhs_val of
             Some ans \<Rightarrow> VALUE ans | None \<Rightarrow> GENERIC (mp_obj_new_int_from_ll lhs_val))
     | OP_MAT_MULTIPLY \<Rightarrow> RESULT (RAISE TypeError))"

definition small_int_binary_op :: "('f, 'o) number_env \<Rightarrow> mp_binary_op_t \<Rightarrow> int \<Rightarrow> int \<Rightarrow> 'o small_result" where
  "small_int_binary_op E op lhs_val rhs_val = (case op of
       INPLACE a \<Rightarrow> small_arith E op a lhs_val rhs_val
     | BINARY a \<Rightarrow> small_arith E op a lhs_val rhs_val
     | OP_DIVMOD \<Rightarrow> small_divide rhs_val (RESULT (RETURN (MP_TUPLE
         [mp_obj_new_small_int (mp_small_int_floor_divide lhs_val rhs_val), mp_obj_new_small_int (mp_small_int_modulo lhs_val rhs_val)])))
     | OP_LESS \<Rightarrow> RESULT (RETURN (MP_BOOL (lhs_val < rhs_val)))
     | OP_MORE \<Rightarrow> RESULT (RETURN (MP_BOOL (lhs_val > rhs_val)))
     | OP_LESS_EQUAL \<Rightarrow> RESULT (RETURN (MP_BOOL (lhs_val \<le> rhs_val)))
     | OP_MORE_EQUAL \<Rightarrow> RESULT (RETURN (MP_BOOL (lhs_val \<ge> rhs_val)))
     | _ \<Rightarrow> RESULT (RAISE TypeError))"

text \<open>The operator of the type of the left operand; \<^verbatim>\<open>bool_binary_op\<close> calls \<^verbatim>\<open>mp_binary_op\<close> on the integer.\<close>

definition type_binary_op ::
  "('f, 'o) number_env \<Rightarrow> (mp_binary_op_t \<Rightarrow> 'o mp_obj \<Rightarrow> 'o mp_obj \<Rightarrow> 'o op_result) \<Rightarrow> mp_binary_op_t \<Rightarrow> 'o mp_obj \<Rightarrow> 'o mp_obj \<Rightarrow> 'o op_result"
where
  "type_binary_op E rec op lhs rhs = (case lhs of
       MP_SMALL _ \<Rightarrow> mp_obj_int_binary_op E rec op lhs rhs
     | MP_INT _ \<Rightarrow> mp_obj_int_binary_op E rec op lhs rhs
     | MP_BOOL b \<Rightarrow> rec op (MP_SMALL (of_bool b)) rhs
     | _ \<Rightarrow> other_binary_op E op lhs rhs)"

definition mp_obj_equal ::
  "('f, 'o) number_env \<Rightarrow> (mp_binary_op_t \<Rightarrow> 'o mp_obj \<Rightarrow> 'o mp_obj \<Rightarrow> 'o op_result) \<Rightarrow> 'o mp_obj \<Rightarrow> 'o mp_obj \<Rightarrow> 'o op_result"
where
  "mp_obj_equal E rec o1 o2 = (case (o1, o2) of
       (MP_SMALL v, MP_SMALL w) \<Rightarrow> RETURN (MP_BOOL (v = w))
     | _ \<Rightarrow>
         if o1 = o2 \<and> (case o1 of MP_BOOL _ \<Rightarrow> True | _ \<Rightarrow> False) then RETURN (MP_BOOL True)
         else
           let (o1, o2) = (case o1 of MP_SMALL _ \<Rightarrow> (o2, o1) | _ \<Rightarrow> (o1, o2))
           in case o1 of
                MP_TUPLE _ \<Rightarrow> other_equal E o1 o2
              | MP_OTHER _ \<Rightarrow> other_equal E o1 o2
              | _ \<Rightarrow> (case type_binary_op E rec OP_EQUAL o1 o2 of
                    OBJ_NULL \<Rightarrow> RETURN (MP_BOOL False) | RETURN r \<Rightarrow> RETURN (MP_BOOL (r = MP_BOOL True)) | r \<Rightarrow> r))"

text \<open>From the label \<^verbatim>\<open>generic_binary_op\<close> on: the type of the left operand, then the reverse operator of the other.\<close>

definition generic_binary_op ::
  "('f, 'o) number_env \<Rightarrow> (mp_binary_op_t \<Rightarrow> 'o mp_obj \<Rightarrow> 'o mp_obj \<Rightarrow> 'o op_result) \<Rightarrow> mp_binary_op_t \<Rightarrow> 'o mp_obj \<Rightarrow> 'o mp_obj \<Rightarrow> 'o op_result"
where
  "generic_binary_op E rec op lhs rhs = (case type_binary_op E rec op lhs rhs of
       OBJ_NULL \<Rightarrow>
         (case op of
            BINARY a \<Rightarrow> (case type_binary_op E rec (REVERSE a) rhs lhs of OBJ_NULL \<Rightarrow> RAISE TypeError | r \<Rightarrow> r)
          | OP_CONTAINS \<Rightarrow> (case lhs of MP_TUPLE _ \<Rightarrow> other_contains E lhs rhs | MP_OTHER _ \<Rightarrow> other_contains E lhs rhs | _ \<Rightarrow> RAISE TypeError)
          | _ \<Rightarrow> RAISE TypeError)
     | r \<Rightarrow> r)"

definition mp_binary_op_body ::
  "('f, 'o) number_env \<Rightarrow> (mp_binary_op_t \<Rightarrow> 'o mp_obj \<Rightarrow> 'o mp_obj \<Rightarrow> 'o op_result) \<Rightarrow> mp_binary_op_t \<Rightarrow> 'o mp_obj \<Rightarrow> 'o mp_obj \<Rightarrow> 'o op_result"
where
  "mp_binary_op_body E rec op lhs rhs =
     (if op = OP_EQUAL then mp_obj_equal E rec lhs rhs
      else if op = OP_NOT_EQUAL then
        (case mp_obj_equal E rec lhs rhs of RETURN r \<Rightarrow> RETURN (MP_BOOL (r \<noteq> MP_BOOL True)) | r \<Rightarrow> r)
      else case (lhs, rhs) of
        (MP_SMALL lhs_val, MP_SMALL rhs_val) \<Rightarrow>
          (case small_int_binary_op E op lhs_val rhs_val of
             VALUE v \<Rightarrow> RETURN (mp_obj_new_int v)
           | RESULT r \<Rightarrow> r
           | GENERIC lhs \<Rightarrow> generic_binary_op E rec op lhs rhs)
      | (MP_SMALL lhs_val, MP_OTHER b) \<Rightarrow>
          if is_float E b then (case float_binary_op E op (int_as_float E lhs_val) rhs of OBJ_NULL \<Rightarrow> RAISE TypeError | r \<Rightarrow> r)
          else if is_complex E b then (case complex_binary_op E op (int_as_float E lhs_val) rhs of OBJ_NULL \<Rightarrow> RAISE TypeError | r \<Rightarrow> r)
          else if op = OP_IN then generic_binary_op E rec OP_CONTAINS rhs lhs else generic_binary_op E rec op lhs rhs
      | _ \<Rightarrow> if op = OP_IN then generic_binary_op E rec OP_CONTAINS rhs lhs else generic_binary_op E rec op lhs rhs)"

text \<open>A call within a call has one boolean less among its operands, or a sequence on the left: three levels are enough.\<close>

primrec mp_binary_op_n :: "nat \<Rightarrow> ('f, 'o) number_env \<Rightarrow> mp_binary_op_t \<Rightarrow> 'o mp_obj \<Rightarrow> 'o mp_obj \<Rightarrow> 'o op_result" where
  "mp_binary_op_n 0 E op lhs rhs = NO_RETURN"
| "mp_binary_op_n (Suc n) E op lhs rhs = mp_binary_op_body E (mp_binary_op_n n E) op lhs rhs"

definition mp_binary_op :: "('f, 'o) number_env \<Rightarrow> mp_binary_op_t \<Rightarrow> 'o mp_obj \<Rightarrow> 'o mp_obj \<Rightarrow> 'o op_result" where
  "mp_binary_op = mp_binary_op_n 3"

end
