(* ===== verification/IntArith.thy ===== *)
theory IntArith
  imports ObjInt
begin

text \<open>
  The operators on integer objects against the integers: whatever mixture of small integers, big integers
  and booleans the operands are, the arithmetic operators return an object whose value is the result.
\<close>

section \<open>Values of objects\<close>

fun int_ok :: "'o mp_obj \<Rightarrow> bool" where
  "int_ok (MP_SMALL v) = is_small v"
| "int_ok (MP_INT z) = mpz_ok z"
| "int_ok (MP_BOOL b) = True"
| "int_ok _ = False"

fun int_val :: "'o mp_obj \<Rightarrow> int" where
  "int_val (MP_SMALL v) = v"
| "int_val (MP_INT z) = mpz_val z"
| "int_val (MP_BOOL b) = of_bool b"
| "int_val _ = 0"

text \<open>The big integer an operand is loaded into.\<close>

fun int_mpz :: "'o mp_obj \<Rightarrow> mpz" where
  "int_mpz (MP_SMALL v) = mpz_init_fixed_from_int (replicate MPZ_NUM_DIG_FOR_INT 0) MPZ_NUM_DIG_FOR_INT v"
| "int_mpz (MP_INT z) = z"
| "int_mpz (MP_BOOL b) = mpz_init_fixed_from_int (replicate MPZ_NUM_DIG_FOR_INT 0) MPZ_NUM_DIG_FOR_INT (of_bool b)"
| "int_mpz _ = mpz_init_zero"

fun is_big :: "'o mp_obj \<Rightarrow> bool" where
  "is_big (MP_INT z) = True"
| "is_big _ = False"

fun is_int :: "'o mp_obj \<Rightarrow> bool" where
  "is_int (MP_SMALL v) = True"
| "is_int (MP_INT z) = True"
| "is_int _ = False"

definition int_spec :: "arith \<Rightarrow> int \<Rightarrow> int \<Rightarrow> int" where
  "int_spec a x y = (case a of
       OP_OR \<Rightarrow> x OR y | OP_XOR \<Rightarrow> x XOR y | OP_AND \<Rightarrow> x AND y
     | OP_LSHIFT \<Rightarrow> x * 2 ^ nat y | OP_RSHIFT \<Rightarrow> x div 2 ^ nat y
     | OP_ADD \<Rightarrow> x + y | OP_SUBTRACT \<Rightarrow> x - y | OP_MULTIPLY \<Rightarrow> x * y
     | OP_FLOOR_DIVIDE \<Rightarrow> x div y | OP_MODULO \<Rightarrow> x mod y | OP_POWER \<Rightarrow> x ^ nat y | _ \<Rightarrow> 0)"

text \<open>
  When the operator is defined, and when the code computes it: bitwise operators and powers on objects
  other than a zero with a negative sign, divisions by numbers for which the digit division is exact.
\<close>

definition int_defined :: "arith \<Rightarrow> 'o mp_obj \<Rightarrow> 'o mp_obj \<Rightarrow> bool" where
  "int_defined a l r =
     (let big = is_big l \<or> is_big r;
          plain = (\<lambda>x. mpz_plain (int_mpz x) \<and> mpz_len (int_mpz x) < 2 ^ 64)
      in case a of
           OP_OR \<Rightarrow> big \<longrightarrow> plain l \<and> plain r
         | OP_XOR \<Rightarrow> big \<longrightarrow> plain l \<and> plain r
         | OP_AND \<Rightarrow> big \<longrightarrow> plain l \<and> plain r
         | OP_LSHIFT \<Rightarrow> 0 \<le> int_val r \<and> int_val r < 2 ^ 63
         | OP_RSHIFT \<Rightarrow> 0 \<le> int_val r \<and> int_val r < 2 ^ 63
         | OP_FLOOR_DIVIDE \<Rightarrow> int_val r \<noteq> 0 \<and> (big \<longrightarrow> div_exact (mpz_dig (int_mpz r)) (mpz_len (int_mpz r)))
         | OP_MODULO \<Rightarrow> int_val r \<noteq> 0 \<and> (big \<longrightarrow> div_exact (mpz_dig (int_mpz r)) (mpz_len (int_mpz r)))
         | OP_POWER \<Rightarrow> 0 \<le> int_val r \<and> (big \<longrightarrow> mpz_plain (int_mpz r) \<and> (int_val l \<noteq> 0 \<or> int_val r \<noteq> 0))
         | OP_MAT_MULTIPLY \<Rightarrow> False
         | OP_TRUE_DIVIDE \<Rightarrow> False
         | _ \<Rightarrow> True)"

lemma init_fixed:
  assumes "is_mp_int v"
  shows "mpz_ok (mpz_init_fixed_from_int (replicate MPZ_NUM_DIG_FOR_INT 0) MPZ_NUM_DIG_FOR_INT v)" (is "mpz_ok ?z")
    and "mpz_val (mpz_init_fixed_from_int (replicate MPZ_NUM_DIG_FOR_INT 0) MPZ_NUM_DIG_FOR_INT v) = v"
    and "mpz_plain (mpz_init_fixed_from_int (replicate MPZ_NUM_DIG_FOR_INT 0) MPZ_NUM_DIG_FOR_INT v)"
proof -
  let ?i = "\<lparr>mpz_neg = False, mpz_fixed = True, mpz_alloc = MPZ_NUM_DIG_FOR_INT, mpz_len = 0, mpz_dig = replicate MPZ_NUM_DIG_FOR_INT 0\<rparr>"
  have i: "mpz_ok ?i" by (simp add: mpz_ok_def normal_def digits_def)
  show ok: "mpz_ok ?z" and val: "mpz_val ?z = v"
    using mpz_set_from_int_ok [OF i] assms by (simp_all add: mpz_init_fixed_from_int_def)
  show "mpz_plain ?z"
  proof (cases "v = 0")
    case False
    then show ?thesis using val mpz_val_zero [OF ok] by (simp add: mpz_plain_def)
  qed (simp add: mpz_plain_def mpz_init_fixed_from_int_def mpz_set_from_int_def)
qed

lemma int_mpz:
  assumes "int_ok obj"
  shows "mpz_ok (int_mpz obj)" and "mpz_val (int_mpz obj) = int_val obj" and "\<not> is_big obj \<Longrightarrow> mpz_plain (int_mpz obj)"
  using assms init_fixed by (cases obj; simp)+

lemma new_int_from_ll:
  assumes "is_mp_int v"
  shows "int_ok (mp_obj_new_int_from_ll v)" and "int_val (mp_obj_new_int_from_ll v) = v"
    and "mp_obj_new_int_from_ll v = MP_INT (int_mpz (mp_obj_new_int_from_ll v))"
  using mpz_set_from_ll_ok [of mpz_init_zero True v] assms by (simp_all add: mp_obj_new_int_from_ll_def)

lemma new_small_int: "is_small v \<Longrightarrow> mp_obj_new_small_int v = MP_SMALL v"
  using small_int_value [of v] unfolding mp_obj_new_small_int_def by simp

lemma new_int:
  assumes "is_mp_int v"
  shows "int_ok (mp_obj_new_int v)" and "int_val (mp_obj_new_int v) = v"
  using small_int_fits [OF assms] unfolding mp_obj_new_int_def
  by (auto simp: new_small_int new_int_from_ll(1,2) [OF assms] simp del: small_int_min small_int_max)

section \<open>Operands in the store\<close>

definition loaded :: "'o mp_obj \<Rightarrow> 'o mp_obj \<Rightarrow> zref \<Rightarrow> zref \<Rightarrow> zstore \<Rightarrow> bool" where
  "loaded l r zl zr st \<longleftrightarrow> st zl = int_mpz l \<and> st zr = int_mpz r \<and> st (Z 0) = mpz_init_zero \<and> st (Z 1) = mpz_init_zero \<and>
     zl \<in> {Z 2, Z 3} \<and> zr \<in> {Z 2, Z 4} \<and> zl \<noteq> zr"

lemma load_both:
  assumes "is_int l" and "is_int r" and "is_big l \<or> is_big r"
  obtains zl zr st where "loaded l r zl zr st" and "\<And>rec op. mp_obj_int_binary_op E rec op l r = int_binary_op_ints E op r zl zr st"
proof (rule that)
  let ?st = "snd (load_operand l (Z 3) (\<lambda>_. mpz_init_zero))"
  show "loaded l r (fst (load_operand l (Z 3) (\<lambda>_. mpz_init_zero))) (fst (load_operand r (Z 4) ?st)) (snd (load_operand r (Z 4) ?st))"
    using assms by (cases l; cases r; simp add: loaded_def load_operand_def)
  show "mp_obj_int_binary_op E rec op l r = int_binary_op_ints E op r
      (fst (load_operand l (Z 3) (\<lambda>_. mpz_init_zero))) (fst (load_operand r (Z 4) ?st)) (snd (load_operand r (Z 4) ?st))" for rec op
    using assms(2) by (cases r; simp add: mp_obj_int_binary_op_def split_beta)
qed

lemma loaded_operands:
  assumes "loaded l r zl zr st" and "int_ok l" and "int_ok r"
  shows "mpz_ok (st (Z 0))" and "mpz_ok (st (Z 1))" and "mpz_ok (st zl)" and "mpz_ok (st zr)"
    and "mpz_val (st zl) = int_val l" and "mpz_val (st zr) = int_val r" and "{Z 0, Z 1, zl, zr} \<inter> {Ztemp, Zx, Zn, Zquo, Zone, Zk} = {}"
    and "{Z 0, Z 1} \<inter> {zl, zr} = {}"
  using assms int_mpz by (auto simp: loaded_def)

section \<open>Arithmetic on big integers\<close>

lemma int_result: "assigned (Z 0) T v st st' \<Longrightarrow> \<exists>obj. int_result st' = RETURN obj \<and> int_ok obj \<and> int_val obj = v"
  by (simp add: int_result_def assigned_def)

lemma int_divmod:
  assumes ld: "loaded l r zl zr st" and ok: "int_ok l" "int_ok r" and d: "int_val r \<noteq> 0" "div_exact (mpz_dig (int_mpz r)) (mpz_len (int_mpz r))"
    and z: "{q, m} = {Z 0, Z 1}"
  shows "\<exists>st'. int_divmod k q m zl zr st = k st' \<and> mpz_ok (st' q) \<and> mpz_ok (st' m) \<and>
    mpz_val (st' q) = int_val l div int_val r \<and> mpz_val (st' m) = int_val l mod int_val r"
proof -
  note o = loaded_operands [OF ld ok]
  have nz: "mpz_len (st zr) \<noteq> 0" using d(1) o(4,6) mpz_val_zero by metis
  have "q \<notin> {m, zl, zr}" "m \<noteq> zr" "Zone \<notin> {q, m, zl, zr}" "mpz_ok (st q)" "mpz_ok (st m)" "\<not> mpz_neg (st q)"
    using o z ld by (auto simp: loaded_def doubleton_eq_iff mpz_init_zero_def)
  moreover have "st zr = int_mpz r" using ld by (simp add: loaded_def)
  ultimately show ?thesis
    using mpz_divmod_assigned [of st q m zl zr] o nz d(2) by (auto simp: int_divmod_def mpz_is_zero_def)
qed


lemma int_shift:
  assumes ld: "loaded l r zl zr st" and ok: "int_ok l" "int_ok r" "is_int r" and y: "0 \<le> int_val r" "int_val r < 2 ^ 63"
  shows "\<exists>obj. int_shift left r zl st = RETURN obj \<and> int_ok obj \<and>
    int_val obj = (if left then int_val l * 2 ^ nat (int_val r) else int_val l div 2 ^ nat (int_val r))"
proof -
  note o = loaded_operands [OF ld ok(1,2)]
  have "mp_obj_int_get_checked r = Inr (int_val r)"
  proof (cases r)
    case (MP_INT z)
    then have "mpz_ok z" "mpz_val z = int_val r" using ok by simp_all
    moreover from this have "mpz_mag z < 2 ^ 63" using y by (auto simp: mpz_val_def tc_def split: if_splits)
    ultimately show ?thesis using mpz_as_int_checked_val [of z] MP_INT by (simp add: mp_obj_int_get_checked_def)
  qed (use ok in \<open>simp_all add: mp_obj_int_get_checked_def\<close>)
  moreover have "assigned (Z 0) {} (int_val l * 2 ^ n) st (mpz_shl_inpl (Z 0) zl n st)" for n
    using mpz_shl_assigned [of st "Z 0" zl] o by simp
  moreover have "assigned (Z 0) {} (int_val l div 2 ^ n) st (mpz_shr_inpl (Z 0) zl n st)" for n
    using mpz_shr_assigned [of st "Z 0" zl] o by auto
  ultimately show ?thesis using y by (auto intro!: int_result simp: int_shift_def)
qed

lemma int_power:
  assumes ld: "loaded l r zl zr st" and ok: "int_ok l" "int_ok r" and y: "0 \<le> int_val r" "int_val l \<noteq> 0 \<or> int_val r \<noteq> 0"
    and p: "mpz_plain (int_mpz r)"
  shows "\<not> mpz_is_neg (st zr)" and "assigned (Z 0) {Ztemp, Zx, Zn} (int_val l ^ nat (int_val r)) st (mpz_pow_inpl (Z 0) zl zr st)"
proof -
  note o = loaded_operands [OF ld ok(1,2)]
  have pr: "mpz_plain (st zr)" using ld p by (simp add: loaded_def)
  have nn: "\<not> mpz_neg (st zr)"
    using y(1) pr o(4,6) mpz_mag_zero [OF o(4)] by (auto simp: mpz_val_def tc_def mpz_plain_def split: if_splits)
  then show "\<not> mpz_is_neg (st zr)" by (simp add: mpz_is_neg_def)
  have mag: "mpz_mag (st zr) = nat (int_val r)" using nn o(6) by (simp add: mpz_val_def tc_def)
  show "assigned (Z 0) {Ztemp, Zx, Zn} (int_val l ^ nat (int_val r)) st (mpz_pow_inpl (Z 0) zl zr st)"
  proof (cases "mpz_len (st zl) = 0")
    case True
    then have "int_val l = 0" using o(3,5) mpz_val_zero by metis
    then have "0 < nat (int_val r)" using y by simp
    then show ?thesis using True \<open>int_val l = 0\<close> mpz_set_from_int_ok [OF o(1), of 0]
      by (simp add: mpz_pow_inpl_def assigned_def zero_power)
  next
    case False
    then show ?thesis using mpz_pow_assigned [of st "Z 0" zl zr] o nn mag by simp
  qed
qed

lemma int_arith_correct:
  assumes ld: "loaded l r zl zr st" and ok: "int_ok l" "int_ok r" "is_int r" and big: "is_big l \<or> is_big r" and d: "int_defined a l r"
  shows "\<exists>obj. int_arith E op a r zl zr st = RETURN obj \<and> int_ok obj \<and> int_val obj = int_spec a (int_val l) (int_val r)"
proof -
  note o = loaded_operands [OF ld ok(1,2)]
  have zl: "st zl = int_mpz l" "st zr = int_mpz r" using ld by (simp_all add: loaded_def)
  show ?thesis
  proof (cases a)
    case OP_OR
    then show ?thesis using mpz_or_assigned [of st "Z 0" zl zr] o(1,3-6) zl d big int_result by (fastforce simp: int_arith_def int_spec_def int_defined_def)
  next
    case OP_XOR
    then show ?thesis using mpz_xor_assigned [of st "Z 0" zl zr] o(1,3-6) zl d big int_result by (fastforce simp: int_arith_def int_spec_def int_defined_def)
  next
    case OP_AND
    then show ?thesis using mpz_and_assigned [of st "Z 0" zl zr] o(1,3-6) zl d big int_result by (fastforce simp: int_arith_def int_spec_def int_defined_def)
  next
    case OP_LSHIFT
    then show ?thesis using int_shift [OF ld ok, of True] d by (simp add: int_arith_def int_spec_def int_defined_def)
  next
    case OP_RSHIFT
    then show ?thesis using int_shift [OF ld ok, of False] d by (simp add: int_arith_def int_spec_def int_defined_def)
  next
    case OP_ADD
    then show ?thesis using mpz_add_assigned [of st "Z 0" zl zr] o(1,3-6) int_result by (fastforce simp: int_arith_def int_spec_def)
  next
    case OP_SUBTRACT
    then show ?thesis using mpz_sub_assigned [of st "Z 0" zl zr] o(1,3-6) int_result by (fastforce simp: int_arith_def int_spec_def)
  next
    case OP_MULTIPLY
    then show ?thesis using mpz_mul_assigned [of st "Z 0" zl zr] o(1,3-7) int_result by (fastforce simp: int_arith_def int_spec_def)
  next
    case OP_FLOOR_DIVIDE
    then show ?thesis using int_divmod [OF ld ok(1,2), of "Z 0" "Z 1" int_result] d big
      by (auto simp: int_arith_def int_spec_def int_defined_def int_result_def)
  next
    case OP_MODULO
    then show ?thesis using int_divmod [OF ld ok(1,2), of "Z 1" "Z 0" int_result] d big
      by (auto simp: insert_commute int_arith_def int_spec_def int_defined_def int_result_def)
  next
    case OP_POWER
    then show ?thesis using int_power [OF ld ok(1,2)] d big int_result by (fastforce simp: int_arith_def int_spec_def int_defined_def)
  qed (use d in \<open>simp_all add: int_defined_def\<close>)
qed

section \<open>Arithmetic on small integers\<close>

lemma small_power_loop:
  assumes "is_small ans" and "is_small b" and "0 \<le> n"
  shows "small_power_loop ans b n = Some v \<Longrightarrow> v = ans * b ^ nat n \<and> is_small v" and "b = 0 \<Longrightarrow> small_power_loop ans b n \<noteq> None"
proof -
  have "(small_power_loop ans b n = Some v \<longrightarrow> v = ans * b ^ nat n \<and> is_small v) \<and> (b = 0 \<longrightarrow> small_power_loop ans b n \<noteq> None)"
    using assms
  proof (induction ans b n rule: small_power_loop.induct)
    case (1 ans b n)
    show ?case
    proof (cases "0 < n")
      case False
      then show ?thesis using 1(4) 1(2) by (auto simp: small_power_loop.simps [of _ _ 0])
    next
      case True
      define ans' where "ans' = (if n AND 1 \<noteq> 0 then ans * b else ans)"
      have and1: "n AND 1 = n mod 2" by (rule and_one_eq)
      show ?thesis
      proof (cases "(n AND 1 \<noteq> 0 \<and> mp_small_int_mul_overflow ans b) \<or> (n \<noteq> 1 \<and> mp_small_int_mul_overflow b b)")
        case overflow: True
        have "b \<noteq> 0" using overflow mul_overflow [OF 1(2,3)] mul_overflow [OF 1(3,3)] by auto
        then show ?thesis using overflow True by (auto simp: small_power_loop.simps [of ans b n] Let_def)
      next
        case fits: False
        have a': "is_small ans'" using fits mul_overflow [OF 1(2,3)] 1(2) unfolding ans'_def by metis
        show ?thesis
        proof (cases "n = 1")
          case one: True
          then show ?thesis using fits a' by (auto simp: small_power_loop.simps [of _ _ 1] ans'_def Let_def)
        next
          case False
          have step: "small_power_loop ans b n = small_power_loop ans' (b * b) (c_div n 2)"
            using fits True False by (subst small_power_loop.simps) (auto simp: ans'_def Let_def)
          have h: "c_div n 2 = n div 2" using True by (simp add: c_div_nonneg)
          have "ans' * (b * b) ^ nat (n div 2) = ans * b ^ nat n"
          proof -
            have "nat n = 2 * nat (n div 2) + nat (n mod 2)"
              using nat_div_distrib [of n 2] nat_mod_distrib [of n 2] True by simp
            then have "b ^ nat n = (b * b) ^ nat (n div 2) * b ^ nat (n mod 2)" by (simp add: power_add power_mult power2_eq_square)
            moreover have "n mod 2 = 0 \<or> n mod 2 = 1" by presburger
            ultimately show ?thesis by (auto simp: ans'_def and1)
          qed
          moreover have "is_small (b * b)" using fits False mul_overflow [OF 1(3,3)] by blast
          ultimately show ?thesis using 1(1) [OF True refl _ ans'_def [unfolded atomize_eq] False] fits False a' True h step by auto
        qed
      qed
    qed
  qed
  then show "small_power_loop ans b n = Some v \<Longrightarrow> v = ans * b ^ nat n \<and> is_small v"
    and "b = 0 \<Longrightarrow> small_power_loop ans b n \<noteq> None" by blast+
qed

lemma bitwise_small:
  assumes "is_small x" and "is_small y"
  shows "is_mp_int (x OR y)" and "is_mp_int (x AND y)" and "is_mp_int (x XOR y)"
proof -
  have r: "is_mp_int z \<longleftrightarrow> signed_take_bit 63 z = z" for z by (simp add: signed_take_bit_int_eq_self_iff)
  have "is_mp_int x" "is_mp_int y" using assms by auto
  then have "bit x (min 63 n) = bit x n" and "bit y (min 63 n) = bit y n" for n
    unfolding r using bit_signed_take_bit_iff [of 63 x n] bit_signed_take_bit_iff [of 63 y n] by simp_all
  then show "is_mp_int (x OR y)" "is_mp_int (x AND y)" "is_mp_int (x XOR y)" unfolding r
    by (auto simp: bit_eq_iff bit_signed_take_bit_iff bit_or_iff bit_and_iff bit_xor_iff)
qed

text \<open>What \<^verbatim>\<open>mp_binary_op\<close> makes of the outcome of the switch, when it has the value \<open>v\<close>.\<close>

definition small_result_ok :: "'o small_result \<Rightarrow> int \<Rightarrow> int \<Rightarrow> bool" where
  "small_result_ok res x v = (case res of
       VALUE w \<Rightarrow> w = v \<and> is_mp_int v
     | RESULT r \<Rightarrow> (\<exists>obj. r = RETURN obj \<and> int_ok obj \<and> int_val obj = v)
     | GENERIC l \<Rightarrow> l = mp_obj_new_int_from_ll x)"

lemma small_lshift:
  assumes "is_small x" and "0 \<le> y"
  shows "small_result_ok (small_lshift x y) x (x * 2 ^ nat y)"
proof (cases "y \<ge> 64 \<or> x > MP_SMALL_INT_MAX div 2 ^ nat y \<or> x < MP_SMALL_INT_MIN div 2 ^ nat y")
  case True
  then show ?thesis using assms(2) unfolding small_lshift_def by (auto simp: small_result_ok_def)
next
  case False
  let ?p = "2 ^ nat y :: int"
  have x: "MP_SMALL_INT_MIN div ?p \<le> x" "x \<le> MP_SMALL_INT_MAX div ?p" using False by linarith+
  have "x * ?p \<le> MP_SMALL_INT_MAX"
  proof -
    have "x * ?p \<le> MP_SMALL_INT_MAX div ?p * ?p" by (intro mult_right_mono x) simp
    moreover have "0 \<le> MP_SMALL_INT_MAX mod ?p" by (intro pos_mod_sign) simp
    ultimately show ?thesis using div_mult_mod_eq [of MP_SMALL_INT_MAX ?p] by linarith
  qed
  moreover have "MP_SMALL_INT_MIN - ?p < x * ?p"
  proof -
    have "MP_SMALL_INT_MIN div ?p * ?p \<le> x * ?p" by (intro mult_right_mono x) simp
    moreover have "MP_SMALL_INT_MIN mod ?p < ?p" by (intro pos_mod_bound) simp
    ultimately show ?thesis using div_mult_mod_eq [of MP_SMALL_INT_MIN ?p] by linarith
  qed
  moreover have "?p \<le> 2 ^ 62 \<or> y = 63"
  proof (rule disjCI)
    assume "y \<noteq> 63"
    then have "nat y \<le> 62" using False by linarith
    then show "?p \<le> 2 ^ 62" by (intro power_increasing) simp_all
  qed
  ultimately have "is_mp_int (x * ?p)" using x by auto
  then show ?thesis using False assms(2) unfolding small_lshift_def by (simp add: small_result_ok_def)
qed

lemma abs_div_le:
  fixes x p :: int
  assumes "p \<noteq> 0"
  shows "\<bar>x div p\<bar> \<le> \<bar>x\<bar>"
proof -
  have pos: "\<bar>x div q\<bar> \<le> \<bar>x\<bar>" if "0 < q" for x q :: int
  proof (cases "x < 0")
    case True
    then have "x \<le> x div q" "x div q < 0" using zdiv_mono2_neg [of x 1 q] that by (simp_all add: pos_imp_zdiv_neg_iff)
    then show ?thesis by simp
  next
    case False
    then have "0 \<le> x div q" "x div q \<le> x" using zdiv_mono2 [of x 1 q] that by (simp_all add: pos_imp_zdiv_nonneg_iff)
    then show ?thesis by simp
  qed
  show ?thesis using pos [of p x] pos [of "- p" "- x"] assms by (cases "0 < p") auto
qed

lemma small_rshift:
  assumes "is_small x" and "0 \<le> y"
  shows "small_result_ok (small_rshift x y) x (x div 2 ^ nat y)"
proof -
  have big: "x div 2 ^ n = (if x < 0 then - 1 else 0)" if "63 \<le> n" for n
  proof -
    have "(2 :: int) ^ 63 \<le> 2 ^ n" using that by (intro power_increasing) simp_all
    then show ?thesis using assms(1) int_div_pos_eq [of x "2 ^ n" "- 1" "x + 2 ^ n"] by auto
  qed
  have "is_mp_int (x div 2 ^ n)" for n using abs_div_le [of "2 ^ n" x] assms(1) by auto
  then show ?thesis using assms(2) big [of 63] big [of "nat y"] by (simp add: small_rshift_def small_result_ok_def Let_def)
qed

lemma small_arith:
  assumes ok: "is_small x" "is_small y" and d: "int_defined a (MP_SMALL x :: 'o mp_obj) (MP_SMALL y)"
  shows "small_result_ok (small_arith E op a x y) x (int_spec a x y)"
    and "small_arith E op a x y = GENERIC l \<Longrightarrow> int_defined a (mp_obj_new_int_from_ll x :: 'o mp_obj) (MP_SMALL y)"
proof -
  have x: "is_mp_int x" using ok(1) by simp
  have ll: "int_val (mp_obj_new_int_from_ll x :: 'o mp_obj) = x" using new_int_from_ll(2) [OF x] by simp
  have py: "mpz_plain (int_mpz (MP_SMALL y :: 'o mp_obj))" using int_mpz(3) [of "MP_SMALL y"] ok(2) by simp
  have "small_result_ok (small_arith E op a x y) x (int_spec a x y) \<and>
    ((\<exists>l. small_arith E op a x y = GENERIC l) \<longrightarrow> int_defined a (mp_obj_new_int_from_ll x :: 'o mp_obj) (MP_SMALL y))"
  proof (cases a)
    case OP_LSHIFT
    then show ?thesis using small_lshift [OF ok(1), of y] d by (simp add: small_arith_def int_spec_def int_defined_def)
  next
    case OP_RSHIFT
    then show ?thesis using small_rshift [OF ok(1), of y] d by (simp add: small_arith_def int_spec_def int_defined_def)
  next
    case OP_MULTIPLY
    then show ?thesis using mul_overflow [OF ok]
      by (simp add: small_arith_def int_spec_def int_defined_def small_result_ok_def new_small_int del: small_int_min small_int_max)
  next
    case OP_FLOOR_DIVIDE
    have "is_mp_int (x div y)" if "y \<noteq> 0" using abs_div_le [OF that, of x] ok(1) by auto
    then show ?thesis using OP_FLOOR_DIVIDE small_floor_divide [OF ok] d
      by (auto simp: small_arith_def int_spec_def int_defined_def small_result_ok_def small_divide_def)
  next
    case OP_MODULO
    have "is_mp_int (x mod y)" if "y \<noteq> 0" using abs_mod_less [OF that, of x] ok(2) by auto
    then show ?thesis using OP_MODULO small_modulo [of y x] d
      by (auto simp: small_arith_def int_spec_def int_defined_def small_result_ok_def small_divide_def)
  next
    case OP_POWER
    then have y: "0 \<le> y" using d by (simp add: int_defined_def)
    show ?thesis
    proof (cases "small_power_loop 1 x y")
      case None
      then have "x \<noteq> 0" using small_power_loop(2) [of 1 x y] ok y by auto
      then show ?thesis using OP_POWER y None py ll by (simp add: small_arith_def int_spec_def int_defined_def small_result_ok_def)
    next
      case (Some v)
      then show ?thesis using small_power_loop(1) [of 1 x y v] ok(1) y OP_POWER
        by (auto simp: small_arith_def int_spec_def small_result_ok_def)
    qed
  qed (use ok d bitwise_small [OF ok] in \<open>auto simp: small_arith_def int_spec_def int_defined_def small_result_ok_def\<close>)
  then show "small_result_ok (small_arith E op a x y) x (int_spec a x y)"
    and "small_arith E op a x y = GENERIC l \<Longrightarrow> int_defined a (mp_obj_new_int_from_ll x :: 'o mp_obj) (MP_SMALL y)" by auto
qed

section \<open>The dispatch\<close>

definition unbool :: "'o mp_obj \<Rightarrow> 'o mp_obj" where
  "unbool obj = (case obj of MP_BOOL b \<Rightarrow> MP_SMALL (of_bool b) | _ \<Rightarrow> obj)"

lemma unbool [simp]:
  "int_ok (unbool obj) = int_ok obj" "int_val (unbool obj) = int_val obj" "int_mpz (unbool obj) = int_mpz obj" "is_big (unbool obj) = is_big obj"
  by (cases obj; simp add: unbool_def)+

lemma unbool_is_int: "int_ok obj \<Longrightarrow> is_int (unbool obj)"
  by (cases obj) (simp_all add: unbool_def)

lemma int_defined_unbool [simp]: "int_defined a (unbool l) (unbool r) = int_defined a l r"
  unfolding int_defined_def Let_def unbool by (rule refl)

definition ordinary :: "mp_binary_op_t \<Rightarrow> bool" where
  "ordinary op \<longleftrightarrow> op \<notin> {OP_EQUAL, OP_NOT_EQUAL, OP_IN, OP_CONTAINS} \<and> (\<forall>a. op \<noteq> REVERSE a)"

text \<open>A boolean operand is replaced by the small integer, in at most two calls within the call.\<close>

lemma bool_operands:
  assumes ok: "int_ok l" "int_ok r" and op: "ordinary op" and res: "\<And>rec. mp_binary_op_body E rec op (unbool l) (unbool r) = res" and nn: "res \<noteq> OBJ_NULL"
  shows "mp_binary_op E op l r = res"
proof -
  have r: "mp_binary_op_n (Suc n) E op (unbool l) (unbool r) = res" for n using res by simp
  have right: "mp_binary_op_n (Suc (Suc n)) E op (unbool l) r = res" for n
  proof (cases r)
    case (MP_BOOL b)
    have "mp_obj_int_binary_op E (mp_binary_op_n (Suc n) E) op (unbool l) r = res"
      using r [of n] MP_BOOL by (cases b) (simp_all add: mp_obj_int_binary_op_def mp_obj_int_binary_op_extra_cases_def unbool_def split_beta)
    moreover have "mp_binary_op_n (Suc (Suc n)) E op (unbool l) r = generic_binary_op E (mp_binary_op_n (Suc n) E) op (unbool l) r"
      using MP_BOOL op by (cases "unbool l") (auto simp: mp_binary_op_body_def ordinary_def)
    ultimately show ?thesis using unbool_is_int [OF ok(1)] nn
      by (cases "unbool l") (auto simp: generic_binary_op_def type_binary_op_def split: op_result.splits)
  qed (use r [of "Suc n"] in \<open>simp_all add: unbool_def\<close>)
  have "mp_binary_op_n (Suc (Suc (Suc 0))) E op l r = res"
  proof (cases l)
    case (MP_BOOL b)
    then have "mp_binary_op_n (Suc (Suc 0)) E op (MP_SMALL (of_bool b)) r = res" using right [of 0] by (simp add: unbool_def)
    moreover have "mp_binary_op_n (Suc (Suc (Suc 0))) E op l r = generic_binary_op E (mp_binary_op_n (Suc (Suc 0)) E) op l r"
      using MP_BOOL op by (cases r) (auto simp: mp_binary_op_body_def ordinary_def)
    ultimately show ?thesis using MP_BOOL nn by (simp add: generic_binary_op_def type_binary_op_def split: op_result.splits)
  qed (use right [of "Suc 0"] in \<open>simp_all add: unbool_def\<close>)
  then show ?thesis by (simp add: mp_binary_op_def numeral_3_eq_3)
qed

lemma body_big:
  assumes "is_int l" and "is_int r" and "is_big l \<or> is_big r" and "ordinary op"
  shows "mp_binary_op_body E rec op l r = generic_binary_op E rec op l r"
  using assms by (cases l; cases r) (auto simp: mp_binary_op_body_def ordinary_def)

lemma generic_big:
  assumes ok: "int_ok l" "int_ok r" "is_int l" "is_int r" and big: "is_big l \<or> is_big r" and d: "int_defined a l r" and op: "op = BINARY a \<or> op = INPLACE a"
  shows "\<exists>obj. (\<forall>rec. generic_binary_op E rec op l r = RETURN obj) \<and> int_ok obj \<and> int_val obj = int_spec a (int_val l) (int_val r)"
proof -
  obtain zl zr st where ld: "loaded l r zl zr st" and bin: "\<And>rec op. mp_obj_int_binary_op E rec op l r = int_binary_op_ints E op r zl zr st"
    by (rule load_both [OF ok(3,4) big, of E]) (rule that)
  have nt: "a \<noteq> OP_TRUE_DIVIDE" using d by (auto simp: int_defined_def)
  obtain obj where o: "int_arith E op a r zl zr st = RETURN obj" "int_ok obj" "int_val obj = int_spec a (int_val l) (int_val r)"
    using int_arith_correct [OF ld ok(1,2,4) big d] by blast
  have "int_binary_op_ints E op r zl zr st = RETURN obj" using op nt o(1) by (auto simp: int_binary_op_ints_def)
  then have "generic_binary_op E rec op l r = RETURN obj" for rec
    using ok(3) bin by (cases l) (simp_all add: generic_binary_op_def type_binary_op_def)
  then show ?thesis using o by blast
qed

lemma ints_correct:
  assumes ok: "int_ok l" "int_ok r" "is_int l" "is_int r" and d: "int_defined a l r" and op: "op = BINARY a \<or> op = INPLACE a"
  shows "\<exists>obj. (\<forall>rec. mp_binary_op_body E rec op l r = RETURN obj) \<and> int_ok obj \<and> int_val obj = int_spec a (int_val l) (int_val r)"
proof (cases "is_big l \<or> is_big r")
  case True
  have "ordinary op" using op by (auto simp: ordinary_def)
  then show ?thesis using body_big [OF ok(3,4) True] generic_big [OF ok True d op] by metis
next
  case False
  then obtain x y where lr: "l = MP_SMALL x" "r = MP_SMALL y" using ok by (cases l; cases r) auto
  then have xy: "is_small x" "is_small y" "is_mp_int x" using ok by auto
  have s: "small_int_binary_op E op x y = small_arith E op a x y" using op by (auto simp: small_int_binary_op_def)
  note sm = small_arith [OF xy(1,2), of a E op] d [unfolded lr]
  show ?thesis
  proof (cases "small_arith E op a x y")
    case (VALUE v)
    then have "v = int_spec a x y" "is_mp_int v" using sm by (auto simp: small_result_ok_def)
    then show ?thesis using VALUE lr s op new_int [of v] by (auto simp: mp_binary_op_body_def)
  next
    case (RESULT res)
    then obtain obj where "res = RETURN obj" "int_ok obj" "int_val obj = int_spec a x y" using sm by (auto simp: small_result_ok_def)
    then show ?thesis using RESULT lr s op by (auto simp: mp_binary_op_body_def)
  next
    case (GENERIC l')
    then have l': "l' = mp_obj_new_int_from_ll x" "int_defined a l' (MP_SMALL y)" using sm by (auto simp: small_result_ok_def)
    have "is_big l'" "is_int l'" "int_ok l'" "int_val l' = x"
      using l'(1) new_int_from_ll [OF xy(3)] by (auto simp: mp_obj_new_int_from_ll_def)
    then have "\<exists>obj. (\<forall>rec. generic_binary_op E rec op l' r = RETURN obj) \<and> int_ok obj \<and> int_val obj = int_spec a x y"
      using generic_big [of l' r a op E] ok op l'(2) lr by simp
    then show ?thesis using GENERIC lr s op by (auto simp: mp_binary_op_body_def)
  qed
qed

lemma mp_binary_op_correct:
  assumes "int_ok l" and "int_ok r" and "int_defined a l r" and "op = BINARY a \<or> op = INPLACE a"
  shows "\<exists>obj. mp_binary_op E op l r = RETURN obj \<and> int_ok obj \<and> int_val obj = int_spec a (int_val l) (int_val r)"
proof -
  obtain obj where "\<And>rec. mp_binary_op_body E rec op (unbool l) (unbool r) = RETURN obj" "int_ok obj" "int_val obj = int_spec a (int_val l) (int_val r)"
    using ints_correct [of "unbool l" "unbool r" a op E] unbool_is_int assms by auto
  then show ?thesis using bool_operands [OF assms(1,2), of op E "RETURN obj"] assms(4) by (auto simp: ordinary_def)
qed

end
