(* ===== verification/IntText.thy ===== *)
theory IntText
  imports IntArith
begin

text \<open>
  Integers as text: the size that \<^verbatim>\<open>mp_int_format_size\<close> computes is enough for what the conversions write,
  and small and big integers are written the same way.
\<close>

section \<open>How many digits\<close>

lemma base_digits_length:
  assumes "2 \<le> base" and "v < base ^ k" and "0 < k"
  shows "length (base_digits base v) \<le> k"
  using assms
proof (induction k arbitrary: v)
  case (Suc k)
  show ?case
  proof (cases "v < base")
    case False
    then have "0 < k" using Suc.prems(2) by (cases k) simp_all
    moreover have "v div base < base ^ k" using Suc.prems(1,2) by (simp add: less_mult_imp_div_less mult.commute)
    ultimately have "length (base_digits base (v div base)) \<le> k" using Suc by simp
    then show ?thesis using False Suc.prems(1) by (subst base_digits.simps) simp
  qed (simp add: base_digits.simps)
qed simp

lemma log_base2_floor:
  assumes "2 \<le> base" and "base \<le> 16"
  shows "0 < log_base2_floor ! (base - 1)" and "2 ^ (log_base2_floor ! (base - 1)) \<le> base"
proof -
  have "\<forall>b \<in> set [2..<17]. 0 < log_base2_floor ! (b - 1) \<and> 2 ^ (log_base2_floor ! (b - 1)) \<le> b"
    by (simp add: upt_rec log_base2_floor_def)
  moreover have "base \<in> set [2..<17]" using assms unfolding set_upt by simp
  ultimately show "0 < log_base2_floor ! (base - 1)" and "2 ^ (log_base2_floor ! (base - 1)) \<le> base" by blast+
qed

lemma digits_in_bits:
  assumes "2 \<le> base" and "base \<le> 16" and "v < 2 ^ bits"
  shows "length (base_digits base v) \<le> bits div log_base2_floor ! (base - 1) + 1"
proof (rule base_digits_length [OF assms(1)])
  let ?lg = "log_base2_floor ! (base - 1)"
  note lg = log_base2_floor [OF assms(1,2)]
  have "bits \<le> ?lg * (bits div ?lg + 1)"
    using div_mult_mod_eq [of bits ?lg] mod_less_divisor [OF lg(1), of bits] unfolding distrib_left by (simp only: mult.commute [of ?lg] mult_1)
  then have "v < 2 ^ (?lg * (bits div ?lg + 1))" using assms(3) by (meson less_le_trans one_le_numeral power_increasing)
  also have "\<dots> \<le> base ^ (bits div ?lg + 1)" unfolding power_mult using lg(2) by (intro power_mono) simp_all
  finally show "v < base ^ (bits div ?lg + 1)" .
qed simp

section \<open>Big integers\<close>

definition mpz_max_num_bits :: "mpz \<Rightarrow> nat" where
  "mpz_max_num_bits z = mpz_len z * DIG_SIZE"

lemma as_str_loop_length:
  assumes "digits ds" and "2 \<le> base" and "base \<le> 36" and "lc \<le> length s" and "length s - lc < 3" and "comma \<noteq> 0"
  shows "\<exists>t. as_str_loop base base_char comma ds s lc = Some t \<and>
    length t = length s + length (base_digits base (dval ds)) + (length s - lc + length (base_digits base (dval ds))) div 3"
  using assms(1,4,5)
proof (induction "dval ds" arbitrary: ds s lc rule: less_induct)
  case less
  obtain r es where div: "str_divide base (length ds) 0 ds = (r, es)" by fastforce
  have "base \<le> DIG_BASE" using assms(3) by (simp add: DIG_BASE_def)
  from str_divide_val [OF less.prems(1) order_refl _ this div] assms(2)
  have es: "r < base" "digits es" "dval ds = base * dval es + r" "length es = length ds" by auto
  have q: "dval ds div base = dval es" using es(1,3) by simp
  have fin: "(\<forall>d \<in> set es. d = 0) \<longleftrightarrow> dval ds < base"
    unfolding dval_zero_iff [symmetric] using q assms(2) by (auto simp: div_eq_0_iff)
  define c where "c = (if r + 48 > 57 then r + 48 + (base_char - 57 - 1) else r + 48)"
  define s' where "s' = (if length s + 1 - lc = 3 then s @ [c, comma] else s @ [c])"
  define lc' where "lc' = (if length s + 1 - lc = 3 then length s + 2 else lc)"
  have step: "as_str_loop base base_char comma ds s lc = (if dval ds < base then Some s' else as_str_loop base base_char comma es s' lc')"
    using assms(6) by (subst as_str_loop.simps) (simp add: div fin c_def s'_def lc'_def)
  have s': "lc' \<le> length s'" "length s' - lc' < 3" "length s' + (length s' - lc' + k) div 3 = length s + 1 + (length s - lc + (k + 1)) div 3" for k
    using less.prems(2,3) by (auto simp: s'_def lc'_def)
  show ?case
  proof (cases "dval ds < base")
    case True
    then show ?thesis using step s'(1) s'(2) s'(3) [of 0] by (simp add: base_digits.simps)
  next
    case False
    then have "dval es < dval ds" using es(3) assms(2) q by (metis div_less_dividend gr_zeroI less_le_trans not_less one_less_numeral_iff
        semiring_norm(76) less_nat_zero_code)
    then obtain t where "as_str_loop base base_char comma es s' lc' = Some t"
      "length t = length s' + length (base_digits base (dval es)) + (length s' - lc' + length (base_digits base (dval es))) div 3"
      using less.hyps es(2) s'(1,2) by blast
    moreover have "length (base_digits base (dval ds)) = length (base_digits base (dval es)) + 1"
      using False assms(2) q by (subst base_digits.simps) simp
    ultimately show ?thesis using False step s'(3) [of "length (base_digits base (dval es))"] by simp
  qed
qed

lemma mpz_as_str_fits:
  assumes "mpz_ok z" and "2 \<le> base" and "base \<le> 16" and "57 < base_char"
  shows "\<exists>t. mpz_as_str_inpl z base prefix base_char comma = Some t \<and>
    length t + 1 \<le> mp_int_format_size (mpz_max_num_bits z) base prefix comma"
proof -
  let ?d = "length (base_digits base (mpz_mag z))" and ?n = "mpz_max_num_bits z div log_base2_floor ! (base - 1) + 1"
  have "mpz_mag z < DIG_BASE ^ mpz_len z" using assms(1) normal_less by (simp add: mpz_ok_def mpz_mag_def)
  then have "mpz_mag z < 2 ^ mpz_max_num_bits z" by (simp add: DIG_BASE_def mpz_max_num_bits_def mult.commute [of _ 32] power_mult)
  then have d: "?d \<le> ?n" by (rule digits_in_bits [OF assms(2,3)])
  show ?thesis
  proof (cases "comma = 0")
    case True
    then show ?thesis using mpz_as_str_val [OF assms(1,2) _ assms(4), of prefix] assms(3) d by (simp add: mp_int_format_size_def Let_def)
  next
    case False
    show ?thesis
    proof (cases "mpz_len z = 0")
      case True
      then show ?thesis by (simp add: mpz_as_str_inpl_def mp_int_format_size_def Let_def)
    next
      case nz: False
      have "digits (take (mpz_len z) (mpz_dig z))" using assms(1) by (simp add: mpz_ok_def normal_def digits_take)
      then obtain t where t: "as_str_loop base base_char comma (take (mpz_len z) (mpz_dig z)) [] 0 = Some t" "length t = ?d + ?d div 3"
        using as_str_loop_length [of "take (mpz_len z) (mpz_dig z)" base 0 "[]" comma base_char] assms(2,3) False by (auto simp: mpz_mag_def)
      have "?d div 3 \<le> ?n div 3" using d by (rule div_le_mono)
      then show ?thesis using t d nz False by (simp add: mpz_as_str_inpl_def mp_int_format_size_def Let_def)
    qed
  qed
qed

section \<open>Small integers\<close>

lemma format_loop_digits:
  assumes "2 \<le> base" and "length (base_digits base num) \<le> room" and "57 < base_char"
  shows "format_loop base base_char 0 num room run s =
    (room - length (base_digits base num), rev (map (digit_char base_char) (base_digits base num)) @ s)"
  using assms(1,2)
proof (induction base num arbitrary: room run s rule: base_digits.induct)
  case (1 base num)
  have ch: "(if num mod base \<ge> 10 then num mod base + base_char - 10 else num mod base + 48) = digit_char base_char (num mod base)"
    using assms(3) by (auto simp: digit_char_def add.commute)
  show ?case
  proof (cases "num < base")
    case True
    then have "1 \<le> room" using 1(3) by (simp add: base_digits.simps)
    then show ?thesis using True ch [unfolded mod_less [OF True]] by (subst format_loop.simps) (simp add: base_digits.simps Let_def)
  next
    case False
    then have l: "length (base_digits base num) = length (base_digits base (num div base)) + 1" using 1(2) by (subst base_digits.simps) simp
    moreover have "0 < length (base_digits base (num div base))" by (subst base_digits.simps) simp
    ultimately have room: "0 < room - 1" "length (base_digits base (num div base)) \<le> room - 1" using 1(3) by linarith+
    have "num div base \<noteq> 0" using False 1(2) by (simp add: div_eq_0_iff)
    then have "format_loop base base_char 0 num room run s =
        format_loop base base_char 0 (num div base) (room - 1) (run + 1) (digit_char base_char (num mod base) # s)"
      using room(1) ch by (subst format_loop.simps) (simp add: Let_def)
    also have "\<dots> = (room - 1 - length (base_digits base (num div base)),
        rev (map (digit_char base_char) (base_digits base (num div base))) @ digit_char base_char (num mod base) # s)"
      using 1(1) [of "room - 1"] False 1(2) room by simp
    also have "\<dots> = (room - length (base_digits base num), rev (map (digit_char base_char) (base_digits base num)) @ s)"
      using False 1(2) l by (subst (4) base_digits.simps) simp
    finally show ?thesis .
  qed
qed

lemma format_small:
  assumes "2 \<le> base" and "base \<le> 16" and "is_small v" and "57 < base_char"
  shows "format_small v base prefix base_char 0 =
    (if v < 0 then [45] else []) @ prefix @ rev (map (digit_char base_char) (base_digits base (nat \<bar>v\<bar>)))"
proof -
  let ?d = "length (base_digits base (nat \<bar>v\<bar>))" and ?n = "64 div log_base2_floor ! (base - 1) + 1"
  have "nat \<bar>v\<bar> < 2 ^ 64" using assms(3) by auto
  then have d: "?d \<le> ?n" by (rule digits_in_bits [OF assms(1,2)])
  have size: "mp_int_format_size 64 base prefix 0 - 1 = ?n + length prefix + 1" by (simp add: mp_int_format_size_def Let_def)
  have loop: "(if nat \<bar>v\<bar> = 0 then (?n + length prefix + 1 - 1, [48]) else format_loop base base_char 0 (nat \<bar>v\<bar>) (?n + length prefix + 1) 0 []) =
      (?n + length prefix + 1 - ?d, rev (map (digit_char base_char) (base_digits base (nat \<bar>v\<bar>))))"
    using format_loop_digits [OF assms(1) _ assms(4), of "nat \<bar>v\<bar>" "?n + length prefix + 1" 0 "[]"] d assms(1)
    by (cases "v = 0") (simp_all add: base_digits.simps [of base 0] digit_char_def)
  define r where "r = ?n + length prefix + 1 - ?d"
  have r: "length prefix < r" "0 < r - length prefix" using d by (simp_all add: r_def)
  show ?thesis unfolding format_small_def Let_def size loop r_def [symmetric] prod.case if_P [OF r(1)] using r(2) by simp
qed

end
