(* ===== verification/IntProps.thy ===== *)
theory IntProps
  imports IntText
begin

text \<open>
  The properties of integer objects: the operators compute on the integers, with the exceptions of the
  language; equal integers compare and hash alike; text fits its buffer.
\<close>

section \<open>Comparisons\<close>

definition compare_spec :: "mp_binary_op_t \<Rightarrow> int \<Rightarrow> int \<Rightarrow> bool" where
  "compare_spec op x y = (case op of
       OP_LESS \<Rightarrow> x < y | OP_MORE \<Rightarrow> x > y | OP_LESS_EQUAL \<Rightarrow> x \<le> y | OP_MORE_EQUAL \<Rightarrow> x \<ge> y
     | OP_EQUAL \<Rightarrow> x = y | OP_NOT_EQUAL \<Rightarrow> x \<noteq> y | _ \<Rightarrow> False)"

lemma int_compare:
  assumes "mpz_ok z1" and "mpz_ok z2" and "op \<in> {OP_LESS, OP_MORE, OP_LESS_EQUAL, OP_MORE_EQUAL, OP_EQUAL}"
  shows "int_compare op z1 z2 = RETURN (MP_BOOL (compare_spec op (mpz_val z1) (mpz_val z2)))"
proof -
  have c: "(mpz_cmp z1 z2 < 0) = (mpz_val z1 < mpz_val z2)" "(mpz_cmp z1 z2 = 0) = (mpz_val z1 = mpz_val z2)"
    using mpz_cmp_val [OF assms(1,2)] sgn_less [of "mpz_cmp z1 z2"] sgn_less [of "mpz_val z1 - mpz_val z2"]
      sgn_eq_0_iff [of "mpz_cmp z1 z2"] sgn_eq_0_iff [of "mpz_val z1 - mpz_val z2"] by auto
  then have "(mpz_cmp z1 z2 > 0) = (mpz_val z1 > mpz_val z2)" by linarith
  then show ?thesis using assms(3) c unfolding int_compare_def compare_spec_def Let_def by (auto simp: not_less [symmetric])
qed

lemma big_compare:
  assumes ok: "int_ok l" "int_ok r" "is_int l" "is_int r" and big: "is_big l \<or> is_big r"
    and op: "op \<in> {OP_LESS, OP_MORE, OP_LESS_EQUAL, OP_MORE_EQUAL, OP_EQUAL}"
  shows "mp_obj_int_binary_op E rec op l r = RETURN (MP_BOOL (compare_spec op (int_val l) (int_val r)))"
proof -
  obtain zl zr st where ld: "loaded l r zl zr st" and bin: "\<And>rec op. mp_obj_int_binary_op E rec op l r = int_binary_op_ints E op r zl zr st"
    by (rule load_both [OF ok(3,4) big, of E]) (rule that)
  have "int_compare op (st zl) (st zr) = RETURN (MP_BOOL (compare_spec op (mpz_val (st zl)) (mpz_val (st zr))))"
    using loaded_operands [OF ld ok(1,2)] op by (intro int_compare)
  then show ?thesis using loaded_operands(5,6) [OF ld ok(1,2)] op bin by (auto simp: int_binary_op_ints_def)
qed

lemma small_compare:
  assumes "op \<in> {OP_LESS, OP_MORE, OP_LESS_EQUAL, OP_MORE_EQUAL}"
  shows "small_int_binary_op E op x y = RESULT (RETURN (MP_BOOL (compare_spec op x y)))"
  using assms by (auto simp: small_int_binary_op_def compare_spec_def)

lemma type_int: "is_int l \<Longrightarrow> type_binary_op E rec op l r = mp_obj_int_binary_op E rec op l r"
  by (cases l) (simp_all add: type_binary_op_def)

lemma generic_return: "type_binary_op E rec op l r = RETURN x \<Longrightarrow> generic_binary_op E rec op l r = RETURN x"
  by (simp add: generic_binary_op_def)

lemma order_compare:
  assumes ok: "int_ok l" "int_ok r" and op: "op \<in> {OP_LESS, OP_MORE, OP_LESS_EQUAL, OP_MORE_EQUAL}"
  shows "mp_binary_op E op l r = RETURN (MP_BOOL (compare_spec op (int_val l) (int_val r)))"
proof (rule bool_operands [OF ok])
  show o: "ordinary op" using op by (auto simp: ordinary_def)
  have i: "is_int (unbool l)" "is_int (unbool r)" using ok unbool_is_int by blast+
  show "mp_binary_op_body E rec op (unbool l) (unbool r) = RETURN (MP_BOOL (compare_spec op (int_val l) (int_val r)))" for rec
  proof (cases "is_big l \<or> is_big r")
    case True
    then have "mp_obj_int_binary_op E rec op (unbool l) (unbool r) = RETURN (MP_BOOL (compare_spec op (int_val l) (int_val r)))"
      using big_compare [of "unbool l" "unbool r" op E rec] ok i op by auto
    then show ?thesis using body_big [OF i _ o, of E rec] True
      by (auto simp: type_int [OF i(1)] intro: generic_return)
  next
    case False
    then obtain x y where "unbool l = MP_SMALL x" "unbool r = MP_SMALL y" "int_val l = x" "int_val r = y"
      using ok by (cases l; cases r) (auto simp: unbool_def)
    then show ?thesis using small_compare [OF op, of E x y] op by (auto simp: mp_binary_op_body_def)
  qed
qed simp

lemma equal_compare:
  assumes ok: "int_ok l" "int_ok r"
  shows "mp_obj_equal E (mp_binary_op_n (Suc (Suc n)) E) l r = RETURN (MP_BOOL (int_val l = int_val r))"
proof -
  have ints: "mp_obj_equal E rec l r = RETURN (MP_BOOL (int_val l = int_val r))" if "int_ok l" "int_ok r" "is_int l" "is_int r" for l r rec
  proof (cases "is_big l \<or> is_big r")
    case True
    have "mp_obj_equal E rec l r = (case (if is_big l then type_binary_op E rec OP_EQUAL l r else type_binary_op E rec OP_EQUAL r l) of
        OBJ_NULL \<Rightarrow> RETURN (MP_BOOL False) | RETURN x \<Rightarrow> RETURN (MP_BOOL (x = MP_BOOL True)) | x \<Rightarrow> x)"
      using that True by (cases l; cases r; simp add: mp_obj_equal_def)
    then show ?thesis using that True big_compare [of l r OP_EQUAL E rec] big_compare [of r l OP_EQUAL E rec]
      by (auto simp: type_int compare_spec_def)
  next
    case False
    then show ?thesis using that by (cases l; cases r) (auto simp: mp_obj_equal_def)
  qed
  have one: "mp_binary_op_n (Suc n) E OP_EQUAL l r = RETURN (MP_BOOL (int_val l = int_val r))"
    if "int_ok l" "int_ok r" "is_int l" "is_int r" for l r n
    using ints [OF that] by (simp add: mp_binary_op_body_def)
  have right: "mp_obj_equal E (mp_binary_op_n (Suc n) E) l r = RETURN (MP_BOOL (int_val l = int_val r))"
    if l: "int_ok l" "is_int l" and r: "int_ok r" for l r n
  proof (cases r)
    case (MP_BOOL b)
    show ?thesis
    proof (cases l)
      case (MP_SMALL v)
      then show ?thesis using l MP_BOOL one [of "MP_SMALL (of_bool b)" "MP_SMALL v" n]
        by (auto simp: mp_obj_equal_def type_binary_op_def)
    next
      case (MP_INT z)
      have "mp_binary_op_n (Suc n) E OP_EQUAL l (MP_SMALL (of_bool b)) = RETURN (MP_BOOL (int_val l = of_bool b))"
        using one [of l "MP_SMALL (of_bool b)" n] l by simp
      then show ?thesis using MP_BOOL MP_INT by (cases b) (simp_all add: mp_obj_equal_def type_binary_op_def
        mp_obj_int_binary_op_def mp_obj_int_binary_op_extra_cases_def split_beta)
    qed (use l in simp_all)
  qed (use ints [of l r] that in simp_all)
  show ?thesis
  proof (cases l)
    case (MP_BOOL b)
    have "mp_binary_op_n (Suc (Suc n)) E OP_EQUAL (MP_SMALL (of_bool b)) r = RETURN (MP_BOOL (of_bool b = int_val r))"
      using right [of "MP_SMALL (of_bool b)" r n] ok by (simp add: mp_binary_op_body_def)
    then show ?thesis using MP_BOOL ok by (auto simp: mp_obj_equal_def type_binary_op_def split: mp_obj.splits)
  qed (use right [of l r "Suc n"] ok in simp_all)
qed

lemma mp_binary_op_compare:
  assumes "int_ok l" and "int_ok r" and "op \<in> {OP_LESS, OP_MORE, OP_LESS_EQUAL, OP_MORE_EQUAL, OP_EQUAL, OP_NOT_EQUAL}"
  shows "mp_binary_op E op l r = RETURN (MP_BOOL (compare_spec op (int_val l) (int_val r)))"
proof -
  have n: "mp_binary_op E op l r = mp_binary_op_body E (mp_binary_op_n (Suc (Suc 0)) E) op l r"
    by (simp add: mp_binary_op_def numeral_3_eq_3)
  have e: "mp_binary_op E op l r = RETURN (MP_BOOL (compare_spec op (int_val l) (int_val r)))" if "op = OP_EQUAL \<or> op = OP_NOT_EQUAL"
    unfolding n mp_binary_op_body_def equal_compare [OF assms(1,2)] using that by (auto simp: compare_spec_def)
  show ?thesis using e order_compare [OF assms(1,2), of op E] assms(3) by blast
qed

section \<open>Errors\<close>

definition division :: "mp_binary_op_t \<Rightarrow> bool" where
  "division op \<longleftrightarrow> op = OP_DIVMOD \<or> (\<exists>a \<in> {OP_FLOOR_DIVIDE, OP_MODULO, OP_TRUE_DIVIDE}. op = BINARY a \<or> op = INPLACE a)"

definition shift :: "mp_binary_op_t \<Rightarrow> bool" where
  "shift op \<longleftrightarrow> (\<exists>a \<in> {OP_LSHIFT, OP_RSHIFT}. op = BINARY a \<or> op = INPLACE a)"

text \<open>The exception that an operator on integers raises, by the value of its right operand.\<close>

definition int_error :: "mp_binary_op_t \<Rightarrow> int \<Rightarrow> mp_exn option" where
  "int_error op y =
     (if division op \<and> y = 0 then Some ZeroDivisionError
      else if shift op \<and> \<not> \<bar>y\<bar> < 2 ^ 63 then Some OverflowError
      else if shift op \<and> y < 0 then Some ValueError else None)"

lemma get_checked:
  assumes "int_ok obj" and "is_int obj"
  shows "mp_obj_int_get_checked obj = (if \<bar>int_val obj\<bar> < 2 ^ 63 then Inr (int_val obj) else Inl OverflowError)"
proof (cases obj)
  case (MP_INT z)
  then have "\<bar>mpz_val z\<bar> = int (mpz_mag z)" by (simp add: mpz_val_def tc_def)
  then have "(\<bar>mpz_val z\<bar> < 2 ^ 63) = (mpz_mag z < 2 ^ 63)" by simp
  then show ?thesis using MP_INT mpz_as_int_checked_val [of z] assms by (simp add: mp_obj_int_get_checked_def)
qed (use assms in \<open>auto simp: mp_obj_int_get_checked_def\<close>)

lemma big_error:
  assumes ok: "int_ok l" "int_ok r" "is_int l" "is_int r" and big: "is_big l \<or> is_big r" and e: "int_error op (int_val r) = Some e"
  shows "generic_binary_op E rec op l r = RAISE e"
proof -
  obtain zl zr st where ld: "loaded l r zl zr st" and bin: "\<And>rec op. mp_obj_int_binary_op E rec op l r = int_binary_op_ints E op r zl zr st"
    by (rule load_both [OF ok(3,4) big, of E]) (rule that)
  have z: "mpz_is_zero (st zr) \<longleftrightarrow> int_val r = 0"
    using loaded_operands(4,6) [OF ld ok(1,2)] mpz_val_zero [of "st zr"] by (simp add: mpz_is_zero_def)
  have "int_binary_op_ints E op r zl zr st = RAISE e"
  proof (cases "division op")
    case True
    then have "e = ZeroDivisionError" "int_val r = 0" "mpz_is_zero (st zr)"
      using e z by (auto simp: int_error_def shift_def division_def split: if_splits)
    then show ?thesis using True by (auto simp: division_def int_binary_op_ints_def int_arith_def int_divmod_def)
  next
    case False
    then show ?thesis
      using e get_checked [OF ok(2,4)] by (auto simp: int_error_def shift_def int_binary_op_ints_def int_arith_def int_shift_def split: if_splits)
  qed
  then show ?thesis by (simp add: generic_binary_op_def bin type_int [OF ok(3)])
qed

lemma small_error:
  assumes "is_small y" and "int_error op y = Some e"
  shows "small_int_binary_op E op x y = RESULT (RAISE e)"
  using assms by (auto simp: int_error_def division_def shift_def small_int_binary_op_def small_arith_def small_divide_def
      small_lshift_def small_rshift_def split: if_splits)

lemma mp_binary_op_error:
  assumes ok: "int_ok l" "int_ok r" and e: "int_error op (int_val r) = Some e"
  shows "mp_binary_op E op l r = RAISE e"
proof (rule bool_operands [OF ok])
  have op: "division op \<or> shift op" using e by (auto simp: int_error_def split: if_splits)
  then show o: "ordinary op" by (auto simp: ordinary_def division_def shift_def)
  have i: "is_int (unbool l)" "is_int (unbool r)" using ok unbool_is_int by blast+
  show "mp_binary_op_body E rec op (unbool l) (unbool r) = RAISE e" for rec
  proof (cases "is_big l \<or> is_big r")
    case True
    then show ?thesis using body_big [OF i _ o, of E rec] big_error [of "unbool l" "unbool r" op e E rec] ok i e by simp
  next
    case False
    then obtain x y where "unbool l = MP_SMALL x" "unbool r = MP_SMALL y" "is_small y" "int_val r = y"
      using ok by (cases l; cases r) (auto simp: unbool_def)
    moreover from this have "small_int_binary_op E op x y = RESULT (RAISE e)" using small_error e by blast
    moreover have "op \<noteq> OP_EQUAL" "op \<noteq> OP_NOT_EQUAL" using op by (auto simp: division_def shift_def)
    ultimately show ?thesis by (simp add: mp_binary_op_body_def)
  qed
qed simp

section \<open>Division with remainder\<close>

lemma big_divmod:
  fixes E :: "('f, 'o) number_env"
  assumes ok: "int_ok l" "int_ok r" "is_int l" "is_int r" and big: "is_big l \<or> is_big r" and d: "int_defined OP_MODULO l r"
  shows "\<exists>q m. (\<forall>rec. \<forall>op \<in> {OP_DIVMOD, BINARY OP_MAT_MULTIPLY}. generic_binary_op E rec op l r = RETURN (MP_TUPLE [q, m])) \<and>
    int_val q = int_val l div int_val r \<and> int_val m = int_val l mod int_val r"
proof -
  obtain zl zr st where ld: "loaded l r zl zr st" and bin: "\<And>rec op. mp_obj_int_binary_op E rec op l r = int_binary_op_ints E op r zl zr st"
    by (rule load_both [OF ok(3,4) big, of E]) (rule that)
  have "int_val r \<noteq> 0" "div_exact (mpz_dig (int_mpz r)) (mpz_len (int_mpz r))" using d big by (auto simp: int_defined_def)
  from int_divmod [OF ld ok(1,2) this, of "Z 1" "Z 0" "int_both :: zstore \<Rightarrow> 'o op_result"]
  obtain st' where st': "int_divmod int_both (Z 1) (Z 0) zl zr st = (int_both st' :: 'o op_result)"
    "mpz_val (st' (Z 1)) = int_val l div int_val r" "mpz_val (st' (Z 0)) = int_val l mod int_val r"
    by (auto simp: insert_commute)
  have "int_binary_op_ints E op r zl zr st = int_both st'" if "op \<in> {OP_DIVMOD, BINARY OP_MAT_MULTIPLY}" for op
    using that st'(1) by (auto simp: int_binary_op_ints_def int_arith_def)
  then show ?thesis using st'(2,3)
    by (intro exI [of _ "MP_INT (st' (Z 1))"] exI [of _ "MP_INT (st' (Z 0))"])
      (auto simp: generic_binary_op_def int_both_def bin type_int [OF ok(3)])
qed

section \<open>Unary operators\<close>

definition unary_spec :: "mp_unary_op_t \<Rightarrow> int \<Rightarrow> int" where
  "unary_spec op v = (case op of OP_NEGATIVE \<Rightarrow> - v | OP_INVERT \<Rightarrow> - v - 1 | OP_ABS \<Rightarrow> \<bar>v\<bar> | _ \<Rightarrow> v)"

lemma small_unary:
  assumes "is_small v" and "op \<in> {OP_POSITIVE, OP_NEGATIVE, OP_INVERT, OP_ABS}"
  shows "\<exists>obj :: 'o mp_obj. small_int_unary_op op v = RETURN obj \<and> int_ok obj \<and> int_val obj = unary_spec op v"
proof -
  have small: "\<exists>obj :: 'o mp_obj. RETURN (mp_obj_new_small_int w) = RETURN obj \<and> int_ok obj \<and> int_val obj = w" if "is_small w" for w
    using that by (simp add: new_small_int)
  have min: "\<exists>obj :: 'o mp_obj. RETURN (mp_obj_new_int (- MP_SMALL_INT_MIN)) = RETURN obj \<and> int_ok obj \<and> int_val obj = - MP_SMALL_INT_MIN"
    using new_int [of "- MP_SMALL_INT_MIN"] by simp
  consider "op = OP_POSITIVE" | "op = OP_NEGATIVE" | "op = OP_INVERT" | "op = OP_ABS" using assms(2) by blast
  then show ?thesis
  proof cases
    case 1
    then show ?thesis using assms(1) by (simp add: small_int_unary_op_def unary_spec_def)
  next
    case 2
    then show ?thesis using assms(1) small [of "- v"] min
      by (cases "v = MP_SMALL_INT_MIN") (simp_all add: small_int_unary_op_def unary_spec_def)
  next
    case 3
    then show ?thesis using assms(1) small [of "- v - 1"] by (simp add: small_int_unary_op_def unary_spec_def not_int_def)
  next
    case 4
    then show ?thesis using assms(1) small [of "- v"] min
      by (cases "v = MP_SMALL_INT_MIN"; cases "0 \<le> v") (simp_all add: small_int_unary_op_def unary_spec_def)
  qed
qed

lemma big_unary:
  assumes "mpz_ok z" and "op \<in> {OP_POSITIVE, OP_NEGATIVE, OP_INVERT, OP_ABS}"
  shows "\<exists>obj :: 'o mp_obj. mp_obj_int_unary_op op z = RETURN obj \<and> int_ok obj \<and> int_val obj = unary_spec op (mpz_val z)"
proof -
  define st where "st = ((\<lambda>_. mpz_init_zero)(Z 3 := z))"
  have ok: "mpz_ok (st (Z 0))" "mpz_ok (st (Z 3))" "st (Z 3) = z" using assms(1) by (simp_all add: st_def)
  have "assigned (Z 0) {} (- mpz_val z) st (mpz_neg_inpl (Z 0) (Z 3) st)" "assigned (Z 0) {} \<bar>mpz_val z\<bar> st (mpz_abs_inpl (Z 0) (Z 3) st)"
    "assigned (Z 0) {} (- mpz_val z - 1) st (mpz_not_inpl (Z 0) (Z 3) st)"
    using mpz_abs_neg_assigned [OF ok(1,2)] mpz_not_assigned [OF ok(1,2)] ok(3) by simp_all
  then show ?thesis using assms
    by (auto simp: mp_obj_int_unary_op_def assigned_def unary_spec_def mpz_val_def tc_def Let_def st_def [symmetric])
qed

lemma truth: "int_ok obj \<Longrightarrow> mp_obj_is_true obj \<longleftrightarrow> int_val obj \<noteq> 0"
  by (cases obj) (simp_all add: mp_obj_is_true_def mp_obj_int_unary_op_def mpz_is_zero_def mpz_val_zero)

lemma hash:
  assumes "int_ok obj"
  shows "mp_unary_op OP_HASH obj = RETURN (mp_obj_new_small_int (s64 (int_val obj)))"
  using assms mpz_hash_wraps
  by (cases obj) (auto simp: mp_unary_op_def small_int_unary_op_def mp_obj_int_unary_op_def new_small_int)

section \<open>Properties\<close>


definition two_to_70 :: mpz where
  "two_to_70 = \<lparr>mpz_neg = False, mpz_fixed = False, mpz_alloc = 3, mpz_len = 3, mpz_dig = [0, 0, 64]\<rparr>"

text \<open>An environment in which no object is a floating-point number and no other type has operators.\<close>

definition no_floats :: "(unit, unit) number_env" where
  "no_floats = \<lparr>is_float = (\<lambda>_. False), is_complex = (\<lambda>_. False), is_sequence = (\<lambda>_. False), mpz_as_float = (\<lambda>_. ()),
     int_as_float = (\<lambda>_. ()), float_div = (\<lambda>_ _. ()), new_float = (\<lambda>_. ()), float_binary_op = (\<lambda>_ _ _. OBJ_NULL),
     complex_binary_op = (\<lambda>_ _ _. OBJ_NULL), other_binary_op = (\<lambda>_ _ _. OBJ_NULL),
     other_equal = (\<lambda>_ _. RETURN (MP_BOOL False)), other_contains = (\<lambda>_ _. RAISE TypeError)\<rparr>"

lemma two_to_70 [simp]: "mpz_ok two_to_70" "mpz_val two_to_70 = 1180591620717411303424"
  by (simp_all add: two_to_70_def mpz_ok_def normal_def digits_def mpz_val_def mpz_mag_def tc_def DIG_BASE_def)

lemma two_to_70_len: "mpz_len two_to_70 = 3"
  by (simp add: two_to_70_def)


text \<open>
  C26.  Comparisons, truth values and hashes of integer objects depend on the value only: an order or
  equality operator compares the values, an object is true when its value is not zero, the hash is the
  value cut to a small integer.  Negation, complement and absolute value return the integer results.
\<close>

theorem integer_values_matter:
  fixes l r :: "'o mp_obj"
  assumes "int_ok l" and "int_ok r" and "op \<in> {OP_LESS, OP_MORE, OP_LESS_EQUAL, OP_MORE_EQUAL, OP_EQUAL, OP_NOT_EQUAL}"
    and "uop \<in> {OP_POSITIVE, OP_NEGATIVE, OP_INVERT, OP_ABS}"
  shows "mp_binary_op E op l r = RETURN (MP_BOOL (compare_spec op (int_val l) (int_val r))) \<and>
    mp_unary_op OP_NOT l = RETURN (MP_BOOL (int_val l = 0)) \<and>
    mp_unary_op OP_HASH l = RETURN (mp_obj_new_small_int (s64 (int_val l))) \<and>
    (\<exists>obj. mp_unary_op uop l = RETURN obj \<and> int_ok obj \<and> int_val obj = unary_spec uop (int_val l))"
proof -
  have "\<exists>obj. mp_unary_op uop l = RETURN obj \<and> int_ok obj \<and> int_val obj = unary_spec uop (int_val l)"
  proof (cases l)
    case (MP_INT z)
    then show ?thesis using big_unary [of z uop, where 'o = 'o] assms(1,4) by (auto simp: mp_unary_op_def)
  qed (use assms(1,4) small_unary [of _ uop, where 'o = 'o] in \<open>auto simp: mp_unary_op_def\<close>)
  then show ?thesis using mp_binary_op_compare [OF assms(1-3)] truth [OF assms(1)] hash [OF assms(1)] by (simp add: mp_unary_op_def)
qed

theorem integer_values_matter_witness:
  "mp_binary_op no_floats OP_LESS (MP_SMALL 5) (MP_INT two_to_70) = RETURN (MP_BOOL True) \<and>
   mp_binary_op no_floats OP_EQUAL (MP_BOOL True) (MP_SMALL 1) = RETURN (MP_BOOL True) \<and>
   (\<exists>obj. mp_unary_op OP_NEGATIVE (MP_SMALL (- (2 ^ 62)) :: unit mp_obj) = RETURN obj \<and> int_ok obj \<and> int_val obj = 2 ^ 62)"
  using integer_values_matter [of "MP_SMALL 5" "MP_INT two_to_70" OP_LESS OP_ABS no_floats]
    integer_values_matter [of "MP_BOOL True" "MP_SMALL 1" OP_EQUAL OP_ABS no_floats]
    integer_values_matter [of "MP_SMALL (- (2 ^ 62))" "MP_SMALL 1" OP_LESS OP_NEGATIVE no_floats]
  by (simp add: compare_spec_def unary_spec_def)

text \<open>
  C27.  Errors: a division by zero raises \<^verbatim>\<open>ZeroDivisionError\<close>, a shift by a negative number \<^verbatim>\<open>ValueError\<close>, and a
  shift by a number of magnitude \<open>2 ^ 63\<close> or more \<^verbatim>\<open>OverflowError\<close>, for small and big operands.
\<close>

theorem integer_errors:
  assumes "int_ok l" and "int_ok r" and "int_error op (int_val r) = Some e"
  shows "mp_binary_op E op l r = RAISE e"
  using mp_binary_op_error [OF assms] .

theorem integer_errors_witness:
  "mp_binary_op no_floats (BINARY OP_MODULO) (MP_INT two_to_70) (MP_BOOL False) = RAISE ZeroDivisionError \<and>
   mp_binary_op no_floats (INPLACE OP_LSHIFT) (MP_SMALL 1) (MP_SMALL (- 1)) = RAISE ValueError \<and>
   mp_binary_op no_floats (BINARY OP_RSHIFT) (MP_SMALL 1) (MP_INT two_to_70) = RAISE OverflowError"
  using integer_errors [of "MP_INT two_to_70" "MP_BOOL False" "BINARY OP_MODULO" ZeroDivisionError no_floats]
    integer_errors [of "MP_SMALL 1" "MP_SMALL (- 1)" "INPLACE OP_LSHIFT" ValueError no_floats]
    integer_errors [of "MP_SMALL 1" "MP_INT two_to_70" "BINARY OP_RSHIFT" OverflowError no_floats]
  by (simp add: int_error_def division_def shift_def)



text \<open>
  C29.  Text: a small and a big integer are written alike, sign, prefix and digits, in every base from 2 to
  16; and what is written for a big integer, separators included, fits with its terminating zero into the
  size that \<^verbatim>\<open>mp_int_format_size\<close> computes.
\<close>

theorem integer_text:
  assumes "int_ok obj" and "is_int obj" and "2 \<le> base" and "base \<le> 16" and "57 < base_char"
  shows "mp_obj_int_formatted obj base prefix base_char 0 =
      Some ((if int_val obj < 0 then [45] else []) @ prefix @ rev (map (digit_char base_char) (base_digits base (nat \<bar>int_val obj\<bar>)))) \<and>
    (is_big obj \<longrightarrow> (\<exists>t. mp_obj_int_formatted obj base prefix base_char comma = Some t \<and>
       length t + 1 \<le> mp_int_format_size (mpz_max_num_bits (int_mpz obj)) base prefix comma))"
proof (cases obj)
  case (MP_SMALL v)
  then show ?thesis using assms format_small [of base v base_char prefix] by (simp add: mp_obj_int_formatted_def)
next
  case (MP_INT z)
  have "(mpz_neg z \<and> mpz_len z \<noteq> 0) = (mpz_val z < 0)" "nat \<bar>mpz_val z\<bar> = mpz_mag z"
    using mpz_mag_zero [of z] assms(1) MP_INT by (auto simp: mpz_val_def tc_def)
  then show ?thesis using MP_INT assms mpz_as_str_val [of z base base_char prefix] mpz_as_str_fits [of z base base_char prefix comma]
    by (simp add: mp_obj_int_formatted_def)
qed (use assms in simp_all)

theorem integer_text_witness:
  "(\<exists>t. mp_obj_int_formatted (MP_INT two_to_70 :: 'o mp_obj) 10 [] 97 44 = Some t \<and> length t + 1 \<le> 46) \<and>
   mp_obj_int_formatted (MP_SMALL (- 31) :: 'o mp_obj) 16 [48, 120] 97 0 = Some [45, 48, 120, 49, 102]"
  using integer_text [of "MP_INT two_to_70 :: 'o mp_obj" 10 97 "[]" 44] integer_text [of "MP_SMALL (- 31) :: 'o mp_obj" 16 97 "[48, 120]" 0]
  by (simp add: mp_int_format_size_def mpz_max_num_bits_def two_to_70_len log_base2_floor_def
    base_digits.simps [of 16 31] base_digits.simps [of 16 "Suc 0"] digit_char_def)

end
