(* ===== verification/IntHeap.thy ===== *)
theory IntHeap
  imports IntProps HeapQ
begin

text \<open>
  Heaps of integers: the comparison of \<^verbatim>\<open>extmod/moduheapq.c\<close> is the interpreter's \<open><\<close>, which on small and
  multi-precision integers and booleans orders by value.
\<close>

text \<open>The comparison the module makes; on the operands considered here it always returns.\<close>

definition uheapq_less :: "('f, 'o) number_env \<Rightarrow> 'o mp_obj comparison" where
  "uheapq_less E a b =
     (case mp_binary_op E OP_LESS a b of
        RAISE e \<Rightarrow> Inl e
      | RETURN (MP_BOOL v) \<Rightarrow> Inr (Some v)
      | _ \<Rightarrow> Inr None)"

interpretation ih: keyed_comparison "uheapq_less E" int_ok int_val for E :: "('f, 'o) number_env"
  by unfold_locales (simp add: uheapq_less_def order_compare compare_spec_def)

lemma heapq_errors:
  "mod_uheapq_heappush lt None x = (Some TypeError, None)" "mod_uheapq_heappop lt None = (Inl TypeError, None)"
  "mod_uheapq_heapify lt None = (Some TypeError, None)" "mod_uheapq_heappop lt (Some []) = (Inl IndexError, Some [])"
  by (simp_all add: mod_uheapq_heappush_def mod_uheapq_heappop_def mod_uheapq_heapify_def uheapq_get_heap_def)

lemma int_heap_sort:
  assumes "list_all int_ok h"
  shows "\<exists>h' xs. mod_uheapq_heapify (uheapq_less E) (Some h) = (None, Some h') \<and> heap_from int_val 0 h' \<and> mset h' = mset h \<and>
    pops (uheapq_less E) (length h) (Some h') = Inr xs \<and> mset xs = mset h \<and> sorted (map int_val xs)"
proof -
  obtain h' where h': "mod_uheapq_heapify (uheapq_less E) (Some h) = (None, Some h')" "heap_from int_val 0 h'" "mset h' = mset h"
    using ih.heapify_correct [OF assms] by blast
  have "length h' = length h" "list_all int_ok h'" using h'(3) assms by (metis size_mset, metis list_all_iff set_mset_mset)
  then show ?thesis using ih.pops_sorted [OF h'(2), of E] h' by auto
qed

text \<open>
  C35 (invariant): on lists of integers, small, multi-precision or boolean, the heap queue keeps its promise.
  \<open>heappush\<close> turns a heap into a heap with the new element added and nothing else changed; \<open>heappop\<close> takes a least
  element out of a non-empty heap and leaves a heap of the others; \<open>heapify\<close> makes a heap of any list by reordering it.
  None of them raises, except that \<open>heappop\<close> raises IndexError on an empty heap and all raise TypeError on what is not
  a list.
\<close>

theorem heapq_on_integers:
  "(list_all int_ok h \<longrightarrow> heap_from int_val 0 h \<longrightarrow> int_ok x \<longrightarrow>
     (\<exists>h'. mod_uheapq_heappush (uheapq_less E) (Some h) x = (None, Some h') \<and> heap_from int_val 0 h' \<and> mset h' = add_mset x (mset h))) \<and>
   (list_all int_ok h \<longrightarrow> heap_from int_val 0 h \<longrightarrow> h \<noteq> [] \<longrightarrow>
     (\<exists>y h'. mod_uheapq_heappop (uheapq_less E) (Some h) = (Inr y, Some h') \<and> heap_from int_val 0 h' \<and>
       mset h = add_mset y (mset h') \<and> (\<forall>z \<in> set h. int_val y \<le> int_val z))) \<and>
   (list_all int_ok h \<longrightarrow>
     (\<exists>h'. mod_uheapq_heapify (uheapq_less E) (Some h) = (None, Some h') \<and> heap_from int_val 0 h' \<and> mset h' = mset h)) \<and>
   mod_uheapq_heappop (uheapq_less E) (Some []) = (Inl IndexError, Some []) \<and>
   mod_uheapq_heappush (uheapq_less E) None x = (Some TypeError, None) \<and>
   mod_uheapq_heappop (uheapq_less E) None = (Inl TypeError, None) \<and>
   mod_uheapq_heapify (uheapq_less E) None = (Some TypeError, None)"
  by (intro conjI impI ih.heappush_correct ih.heappop_correct ih.heapify_correct) (simp_all add: heapq_errors)

lemma sample_heap:
  "list_all int_ok [MP_SMALL 3, MP_INT two_to_70, MP_SMALL 8]" "heap_from int_val 0 [MP_SMALL 3, MP_INT two_to_70, MP_SMALL 8]"
  by (auto simp: heap_from_def up_def less_Suc_eq nth_Cons')

theorem heapq_on_integers_witness:
  "(\<exists>h'. mod_uheapq_heappush (uheapq_less no_floats) (Some [MP_SMALL 3, MP_INT two_to_70, MP_SMALL 8]) (MP_BOOL True) = (None, Some h') \<and>
     heap_from int_val 0 h' \<and> mset h' = {#MP_BOOL True, MP_SMALL 3, MP_INT two_to_70, MP_SMALL 8#}) \<and>
   (\<exists>y h'. mod_uheapq_heappop (uheapq_less no_floats) (Some [MP_SMALL 3, MP_INT two_to_70, MP_SMALL 8]) = (Inr y, Some h') \<and>
     heap_from int_val 0 h' \<and> {#MP_SMALL 3, MP_INT two_to_70, MP_SMALL 8#} = add_mset y (mset h') \<and> int_val y \<le> 3)"
  using heapq_on_integers [of "[MP_SMALL 3, MP_INT two_to_70, MP_SMALL 8]" "MP_BOOL True" no_floats] sample_heap by auto

text \<open>
  C36 (functional): \<open>heapify\<close> followed by as many calls of \<open>heappop\<close> as there are elements sorts a list of integers: no
  call raises, and the elements come out in ascending order of their values, each as often as it was in the list.
\<close>

theorem heapq_sorts_integers:
  assumes "list_all int_ok h"
  shows "\<exists>h' xs. mod_uheapq_heapify (uheapq_less E) (Some h) = (None, Some h') \<and>
    pops (uheapq_less E) (length h) (Some h') = Inr xs \<and> mset xs = mset h \<and> sorted (map int_val xs)"
  using int_heap_sort [OF assms, of E] by blast

theorem heapq_sorts_integers_witness:
  "\<exists>h' xs. mod_uheapq_heapify (uheapq_less no_floats) (Some [MP_INT two_to_70, MP_SMALL 8, MP_BOOL True]) = (None, Some h') \<and>
    pops (uheapq_less no_floats) 3 (Some h') = Inr xs \<and> map int_val xs = [1, 8, 1180591620717411303424]"
proof -
  let ?h = "[MP_INT two_to_70, MP_SMALL 8, MP_BOOL True] :: unit mp_obj list"
  have ok: "list_all int_ok ?h" "length ?h = 3" by simp_all
  obtain h' xs where xs: "mod_uheapq_heapify (uheapq_less no_floats) (Some ?h) = (None, Some h')"
      "pops (uheapq_less no_floats) 3 (Some h') = Inr xs" "mset xs = mset ?h" "sorted (map int_val xs)"
    using heapq_sorts_integers [OF ok(1), of no_floats] unfolding ok(2) by blast
  have "mset (map int_val xs) = mset (map int_val ?h)" unfolding mset_map xs(3) ..
  then have "map int_val xs = sort (map int_val ?h)" using properties_for_sort [OF _ xs(4)] by metis
  then show ?thesis using xs(1,2) by (intro exI [of _ h'] exI [of _ xs]) simp
qed

end
