(* ===== verification/Spec2Isabelle.thy ===== *)
theory Spec2Isabelle
  imports Ringbuf Deque Scheduler Utimeq GcExample MapProps MpzProps MpzExample IntHeap
begin

text \<open>
  A verification of the core of \<^bold>\<open>Pycopy\<close>, a small Python for microcontrollers: the memory manager, the hash
  tables, the integers from digit arrays to the operators of the language, the scheduler of callbacks and the queues
  of the runtime and of two extension modules.

  \<^bold>\<open>The program.\<close>  The interpreter (\<^verbatim>\<open>src/py\<close>) compiles a script to bytecode and runs it on a virtual machine.  All
  objects live in one heap that \<^verbatim>\<open>gc.c\<close> collects by marking from the roots and sweeping.  Dictionaries, sets,
  attributes and modules are the tables of \<^verbatim>\<open>map.c\<close>.  Integers are tagged machine words while they fit and objects
  of \<^verbatim>\<open>objint_mpz.c\<close>, on the arithmetic of \<^verbatim>\<open>mpz.c\<close>, when they do not; \<^verbatim>\<open>mp_binary_op\<close> in \<^verbatim>\<open>runtime.c\<close> chooses
  between them.  Between two instructions the machine looks for work that \<^verbatim>\<open>scheduler.c\<close> has queued from interrupt
  handlers.  Drivers pass bytes through \<^verbatim>\<open>ringbuf.c\<close>; programs use the deque type, the heap queue and the queue of
  timed events.  The modelled configuration is that of the 64-bit unix port: 32-bit digits with 64-bit intermediate
  results, both settings of \<^verbatim>\<open>MICROPY_OPT_MPZ_BITWISE\<close>, object representation A, fresh memory cleared, asserts
  compiled out, one thread, and the scheduler enabled, as in its dev variant.

  \<^bold>\<open>Conventions.\<close>  \<open>Prelude\<close> holds what the theories share.  Unsigned integers are natural numbers with the truncation
  written out (\<open>u8\<close>, \<open>u16\<close>, \<open>u32\<close>, \<open>u64\<close>), signed ones are integers (\<open>s64\<close>, \<open>to_u64\<close>), C's division is \<open>c_div\<close> and
  \<open>c_mod\<close>.  A struct is a record, an exception is a value (\<open>mp_exn\<close>) of the result, a function that changes its object
  returns the new one, also when it raises.  Definitions have the names of the C functions; a loop has its function's
  name and a suffix.  Code outside the modelled parts is a parameter: object equality and hashing (\<open>obj_ops\<close>), the scan
  of registers and stack and the finalisers (\<open>gc_env\<close>), floating point and other types (\<open>number_env\<close>), what a callback
  does to the scheduler (\<open>acts\<close>), the comparison of heap elements (\<open>lt\<close>).

  \<^bold>\<open>Queues.\<close>  The locale \<open>bounded_fifo\<close> of \<open>Prelude\<close> is the contract of a queue of bounded capacity.  \<open>Ringbuf\<close>
  (\<^verbatim>\<open>ringbuf.h\<close>, \<^verbatim>\<open>ringbuf.c\<close>), \<open>Deque\<close> (\<^verbatim>\<open>objdeque.c\<close>) and \<open>Scheduler\<close> (\<^verbatim>\<open>scheduler.c\<close>, the check in \<^verbatim>\<open>vm.c\<close>,
  \<^verbatim>\<open>mp_micropython_schedule\<close>, the set-up in \<^verbatim>\<open>mp_init\<close>) interpret it: all three read an array around its end, which
  \<open>ring\<close> turns into a list.  The byte and two-byte operations of the ring buffer append and remove exactly their bytes,
  but for a read at index 65534 of the largest buffer.  Each sequence of operations on a deque returns what it would on
  a list.  The scheduler's states are those \<open>sched_reachable\<close> allows; in all of them \<open>sched_state\<close> counts the locks or
  says whether there is work, and a queued callback is run after at most as many checks as the queue is deep, plus one
  for each keyboard interrupt.

  \<^bold>\<open>Heaps.\<close>  \<open>HeapQ\<close> (\<^verbatim>\<open>extmod/moduheapq.c\<close>) models sifting and the three functions; the locale \<open>keyed_comparison\<close> is
  what they need of the comparison: on the elements considered it answers and orders by a key.  In it the sift
  loops are proved by following the one element that may be out of place (\<open>rising\<close>, \<open>sinking\<close>).  \<open>IntHeap\<close> interprets it
  with the interpreter's own \<open><\<close> on integers, so that \<open>heapify\<close> and \<open>heappop\<close> sort them.  \<open>Utimeq\<close>
  (\<^verbatim>\<open>extmod/modutimeq.c\<close>) is a heap of pointers with a free list and positions in the entries: its loops refine those
  of \<open>HeapQ\<close>, and the locale is interpreted with the circular order of ticks, on times within half a period.  The queue is a
  map from handles to events and returns the earliest first, until \<^verbatim>\<open>remove\<close> is called, which can break the order.

  \<^bold>\<open>Memory manager.\<close>  \<open>GcTable\<close> has the state and the two bit tables, \<open>GcMark\<close> marking with its bounded stack, the rescans
  after an overflow and sweeping, \<open>GcCollect\<close> the heap invariant \<open>gc_ok\<close> and the proof that a collection keeps
  exactly what is reachable, \<open>GcAlloc\<close> and \<open>GcHeap\<close> initialisation, allocation, freeing and reallocation,
  \<open>GcProps\<close> and \<open>GcExample\<close> the properties and their instances (\<^verbatim>\<open>gc.c\<close>, \<^verbatim>\<open>ports/unix/gccollect.c\<close>).  Marking ends
  because each step marks a block or shortens the stack, and rescanning because each pass marks one more block.

  \<^bold>\<open>Maps and sets.\<close>  \<open>HashProbe\<close> has linear probing with the marker of removed slots, \<open>HashSet\<close> and \<open>HashMap\<close> the
  operations of \<^verbatim>\<open>map.c\<close>, \<open>MapProps\<close> the properties: a finite map, a finite set and an association list, and what a
  failed allocation leaves behind.  \<open>mp_map_lookup\<close> and \<open>mp_set_lookup\<close> call each other through the rehash; the calls
  are bounded by fuel 5, which is enough because the table a rehash makes has room for what is inserted into it, so that
  no second rehash follows: the properties state that a result is returned.

  \<^bold>\<open>Integers.\<close>  \<open>Mpn\<close>, \<open>MpnBits\<close>, \<open>MpnBitwise\<close>, \<open>MpnDiv\<close> treat the digit arrays, \<open>Mpz\<close> and \<open>MpzConv\<close> the numbers
  and their conversions, \<open>MpzArith\<close>, \<open>MpzMul\<close>, \<open>MpzProps\<close> what they compute (\<^verbatim>\<open>mpz.c\<close>).  Numbers are kept in a store,
  so that a destination may be one of the operands.  The add-back loop of the division and the loop that prints are
  partial functions: that they return is part of the properties.  \<open>MpnDivExample\<close> and \<open>MpzExample\<close> evaluate the inputs
  on which the code goes wrong.  \<open>SmallInt\<close> and \<open>ObjInt\<close> have the integer objects and the operators (\<^verbatim>\<open>smallint.c\<close>,
  \<^verbatim>\<open>objint.c\<close>, \<^verbatim>\<open>objint_mpz.c\<close>, parts of \<^verbatim>\<open>runtime.c\<close> and \<^verbatim>\<open>obj.c\<close>), \<open>IntArith\<close>, \<open>IntText\<close> and \<open>IntProps\<close> the
  proof that every operator on every mixture of small and big integers and booleans computes on the integers, raises
  the exceptions of the language and writes text that fits its buffer.  \<open>mp_binary_op\<close> calls itself with the operands
  swapped or made integers; depth 3 is enough because a call within a call has one boolean less or a sequence on the left.

  \<^bold>\<open>Not modelled.\<close>  The lexer, parser, compiler, emitters and virtual machine, but for its check for pending work: they are
  tied to the grammar tables and to every object type, and a part of them alone has no statement of its own.  The
  conversions of integers from and to floating point, and floating point itself: the arithmetic of the processor.  The
  object layers over the tables and arrays (strings, lists, dictionaries, types, iterators), which dispatch through the
  virtual machine.  Modules that wrap third-party libraries, files, sockets, hardware, ports, drivers and build tools:
  input and output.  Threads: atomic sections make the operations of the scheduler atomic and the collector runs
  under the lock of the interpreter.  Failure of an allocation is modelled in \<^verbatim>\<open>gc.c\<close> and \<^verbatim>\<open>map.c\<close> and assumed away in
  the numbers and queues.
\<close>

end
